(* ===== verification/Prelude.thy ===== *)
theory Prelude
  imports Complex_Main "HOL-Library.Word" "HOL-Library.Monad_Syntax" "HOL-Library.Multiset"
begin

text \<open>
  Vocabulary shared by the component theories.

  \<^item> A C assertion (\<open>assert\<close>, \<open>AN\<close>, \<open>AZ\<close>, \<open>CHECK_OBJ\<close>, \<open>XXXAN\<close>, \<open>WRONG\<close>,
    \<open>INCOMPL\<close> of \<open>include/libvarnish.h\<close> and \<open>include/miniobj.h\<close>) that fails stops the
    process.  An operation that contains one returns an \<open>option\<close>: \<open>None\<close> is the panic,
    \<open>Some\<close> the value and the new state.  \<open>chk b\<close> is the assertion itself, sequenced with the
    \<open>do\<close> notation of the option monad.
  \<^item> Machine integers of a fixed width are words; \<open>byte\<close> is \<open>unsigned char\<close> and \<open>u32\<close>
    is \<open>unsigned\<close>.
  \<^item> \<open>double\<close> values (time stamps in seconds) are real numbers: rounding is not modelled.  A
    \<open>double\<close> that may be \<open>NAN\<close> is a \<open>real option\<close> with \<open>None\<close> for \<open>NAN\<close>.
\<close>

type_synonym byte = "8 word"
type_synonym u32 = "32 word"

named_theorems panic_simps \<open>unfolding assertions and the option monad\<close>
named_theorems ws_inv_intros \<open>preservation of the workspace invariant\<close>
named_theorems ban_inv_intros \<open>preservation of the ban list invariant\<close>

subsection \<open>Assertions\<close>

definition chk :: "bool \<Rightarrow> unit option" where
  "chk b = (if b then Some () else None)"

lemma chk_bind [panic_simps, simp]: "Option.bind (chk b) f = (if b then f () else None)"
  by (simp add: chk_def)

lemma chk_True [simp]: "chk True = Some ()"
  and chk_False [simp]: "chk False = None"
  by (simp_all add: chk_def)

lemma if_None_eq_Some [panic_simps, simp]:
  "((if b then x else None) = Some y) \<longleftrightarrow> b \<and> x = Some y"
  by simp

lemma bind_Some_iff [panic_simps]:
  "Option.bind x f = Some y \<longleftrightarrow> (\<exists>a. x = Some a \<and> f a = Some y)"
  by (cases x) simp_all

subsection \<open>Words\<close>

lemma unat_u32_of_nat: "n < 2 ^ 32 \<Longrightarrow> unat (word_of_nat n :: u32) = n"
  by (simp add: unsigned_of_nat take_bit_nat_eq_self)

lemma unat_byte_of_nat: "n < 256 \<Longrightarrow> unat (word_of_nat n :: byte) = n"
  by (simp add: unsigned_of_nat take_bit_nat_eq_self)

subsection \<open>Lists\<close>

text \<open>\<open>VTAILQ_REMOVE\<close> on a list whose elements are distinct addresses.\<close>

lemma remove1_distinct_set [simp]: "distinct xs \<Longrightarrow> set (remove1 x xs) = set xs - {x}"
  by (rule set_remove1_eq)

lemma remove1_filter_distinct: "distinct xs \<Longrightarrow> remove1 x xs = filter (\<lambda>y. y \<noteq> x) xs"
  by (auto simp: distinct_remove1_removeAll removeAll_filter_not_eq intro: filter_cong)

end
