(* ===== verification/Workspace.thy ===== *)
theory Workspace
  imports Prelude
begin

text \<open>
  The workspace allocator of \<open>bin/varnishd/cache_ws.c\<close>.

  A workspace is a stretch of memory from \<open>ws_s\<close> to \<open>ws_e\<close> with a free pointer \<open>ws_f\<close>
  that only moves up; \<open>ws_r\<close> is the end of an outstanding reservation (\<open>None\<close> for the null
  pointer).  Pointers are natural numbers.  The \<open>DSL\<close> debug log lines have no effect on the state
  and are left out.  Each operation starts with the assertion block \<open>WS_Assert\<close>.
\<close>

section \<open>State and operations\<close>

record ws =
  ws_id :: string
  ws_s :: nat
  ws_f :: nat
  ws_r :: "nat option"
  ws_e :: nat
  ws_overflow :: int

definition WS_Assert :: "ws \<Rightarrow> bool" where
  "WS_Assert ws \<longleftrightarrow>
     ws_s ws \<noteq> 0 \<and> ws_e ws \<noteq> 0 \<and> ws_s ws < ws_e ws \<and>
     ws_f ws \<ge> ws_s ws \<and> ws_f ws \<le> ws_e ws \<and>
     (case ws_r ws of None \<Rightarrow> True | Some r \<Rightarrow> r > ws_s ws \<and> r \<le> ws_e ws)"

definition WS_Init :: "string \<Rightarrow> nat \<Rightarrow> u32 \<Rightarrow> ws option" where
  "WS_Init i space len = do {
     chk (space \<noteq> 0);
     let ws = \<lparr>ws_id = i, ws_s = space, ws_f = space, ws_r = None,
               ws_e = space + unat len, ws_overflow = 0\<rparr>;
     chk (WS_Assert ws);
     Some ws }"

definition WS_Reset :: "ws \<Rightarrow> nat option \<Rightarrow> ws option" where
  "WS_Reset ws p = do {
     chk (WS_Assert ws);
     chk (ws_r ws = None);
     (case p of
        None \<Rightarrow> Some (ws\<lparr>ws_f := ws_s ws\<rparr>)
      | Some q \<Rightarrow> do {
          chk (q \<ge> ws_s ws);
          chk (q < ws_e ws);
          Some (ws\<lparr>ws_f := q\<rparr>) }) }"

definition WS_Alloc :: "ws \<Rightarrow> nat \<Rightarrow> (nat option \<times> ws) option" where
  "WS_Alloc ws bytes = do {
     chk (WS_Assert ws);
     chk (ws_r ws = None);
     if ws_f ws + bytes > ws_e ws
     then Some (None, ws\<lparr>ws_overflow := ws_overflow ws + 1\<rparr>)
     else Some (Some (ws_f ws), ws\<lparr>ws_f := ws_f ws + bytes\<rparr>) }"

text \<open>
  \<open>memcpy\<close> of the first \<open>l\<close> bytes of a C string (terminating zero included) into a memory of
  characters.  The length in \<open>WS_Dup\<close> is an \<open>unsigned\<close>.
\<close>

definition memcpy_str :: "(nat \<Rightarrow> char) \<Rightarrow> nat \<Rightarrow> string \<Rightarrow> nat \<Rightarrow> nat \<Rightarrow> char" where
  "memcpy_str mem p s l =
     (\<lambda>a. if p \<le> a \<and> a < p + l then (s @ [CHR 0x00]) ! (a - p) else mem a)"

definition WS_Dup ::
  "ws \<Rightarrow> (nat \<Rightarrow> char) \<Rightarrow> string \<Rightarrow> (nat option \<times> ws \<times> (nat \<Rightarrow> char)) option" where
  "WS_Dup ws mem s = do {
     let l = (word_of_nat (length s + 1) :: u32);
     (p, ws') \<leftarrow> WS_Alloc ws (unat l);
     Some (p, ws', case p of None \<Rightarrow> mem | Some a \<Rightarrow> memcpy_str mem a s (unat l)) }"

definition WS_Free :: "ws \<Rightarrow> u32 option" where
  "WS_Free ws = do {
     chk (WS_Assert ws);
     Some (word_of_nat (ws_e ws - ws_f ws)) }"

definition WS_Snapshot :: "ws \<Rightarrow> nat option" where
  "WS_Snapshot ws = do {
     chk (WS_Assert ws);
     chk (ws_r ws = None);
     Some (ws_f ws) }"

text \<open>\<open>pdiff\<close> of \<open>cache.h\<close>: a pointer difference as \<open>unsigned\<close>.\<close>

definition pdiff :: "nat \<Rightarrow> nat \<Rightarrow> u32 option" where
  "pdiff b e = do { chk (b \<le> e); Some (word_of_nat (e - b)) }"

text \<open>
  \<open>bytes\<close> is an \<open>unsigned\<close>, and so is the local \<open>b2\<close>: the assignment
  \<open>b2 = ws->e - ws->f\<close> truncates to 32 bits.
\<close>

definition WS_Reserve :: "ws \<Rightarrow> u32 \<Rightarrow> (u32 \<times> ws) option" where
  "WS_Reserve ws bytes = do {
     chk (WS_Assert ws);
     chk (ws_r ws = None);
     let b2 = (if bytes = 0 then word_of_nat (ws_e ws - ws_f ws) else bytes);
     chk (ws_f ws + unat b2 \<le> ws_e ws);
     let ws' = ws\<lparr>ws_r := Some (ws_f ws + unat b2)\<rparr>;
     n \<leftarrow> pdiff (ws_f ws) (ws_f ws + unat b2);
     Some (n, ws') }"

definition WS_Release :: "ws \<Rightarrow> u32 \<Rightarrow> ws option" where
  "WS_Release ws bytes = do {
     chk (WS_Assert ws);
     chk (unat bytes \<le> ws_e ws - ws_f ws);
     (case ws_r ws of
        None \<Rightarrow> None
      | Some r \<Rightarrow> do {
          chk (ws_f ws + unat bytes \<le> r);
          Some (ws\<lparr>ws_f := ws_f ws + unat bytes, ws_r := None\<rparr>) }) }"

definition WS_ReleaseP :: "ws \<Rightarrow> nat \<Rightarrow> ws option" where
  "WS_ReleaseP ws p = do {
     chk (WS_Assert ws);
     (case ws_r ws of
        None \<Rightarrow> None
      | Some r \<Rightarrow> do {
          chk (p \<ge> ws_f ws);
          chk (p \<le> r);
          Some (ws\<lparr>ws_f := p, ws_r := None\<rparr>) }) }"

lemmas ws_defs = WS_Init_def WS_Reset_def WS_Alloc_def WS_Dup_def WS_Free_def
  WS_Snapshot_def WS_Reserve_def WS_Release_def WS_ReleaseP_def pdiff_def


section \<open>Every operation keeps the assertion block true\<close>

text \<open>
  \<open>ws_inv\<close> adds to \<open>WS_Assert\<close> that the size fits an \<open>unsigned\<close>, as \<open>WS_Init\<close>
  establishes: without it the truncation in \<open>WS_Reserve\<close> could lose the whole size.
\<close>

definition ws_inv :: "ws \<Rightarrow> bool" where
  "ws_inv ws \<longleftrightarrow> WS_Assert ws \<and> ws_e ws - ws_s ws < 2 ^ 32"

lemma ws_invD: "ws_inv ws \<Longrightarrow> WS_Assert ws"
  by (simp add: ws_inv_def)

lemma ws_inv_simps: "ws_inv ws \<longleftrightarrow>
  0 < ws_s ws \<and> ws_s ws < ws_e ws \<and> ws_s ws \<le> ws_f ws \<and> ws_f ws \<le> ws_e ws \<and>
  (\<forall>r. ws_r ws = Some r \<longrightarrow> ws_s ws < r \<and> r \<le> ws_e ws) \<and> ws_e ws - ws_s ws < 2 ^ 32"
  by (auto simp: ws_inv_def WS_Assert_def split: option.splits)

lemma WS_Init_inv [ws_inv_intros]: "WS_Init i p n = Some ws \<Longrightarrow> ws_inv ws"
  using unsigned_less [of n]
  by (auto simp: ws_defs Let_def ws_inv_def WS_Assert_def)

lemma WS_Init_Some: "p \<noteq> 0 \<Longrightarrow> 0 < n \<Longrightarrow>
  WS_Init i p n = Some \<lparr>ws_id = i, ws_s = p, ws_f = p, ws_r = None,
                         ws_e = p + unat n, ws_overflow = 0\<rparr>"
  by (simp add: WS_Init_def WS_Assert_def Let_def unat_gt_0)

lemma WS_Reset_inv [ws_inv_intros]: "WS_Reset ws q = Some ws' \<Longrightarrow> ws_inv ws \<Longrightarrow> ws_inv ws'"
  by (auto simp: WS_Reset_def ws_inv_simps split: option.splits)

lemma WS_Alloc_inv [ws_inv_intros]: "WS_Alloc ws n = Some (p, ws') \<Longrightarrow> ws_inv ws \<Longrightarrow> ws_inv ws'"
  by (auto simp: WS_Alloc_def ws_inv_simps split: if_splits)

lemma WS_Dup_inv [ws_inv_intros]:
  "WS_Dup ws mem s = Some (p, ws', mem') \<Longrightarrow> ws_inv ws \<Longrightarrow> ws_inv ws'"
  by (auto simp: WS_Dup_def bind_Some_iff Let_def dest: WS_Alloc_inv)

lemma WS_Reserve_amount:
  assumes "ws_inv ws"
  shows "unat (word_of_nat (ws_e ws - ws_f ws) :: u32) = ws_e ws - ws_f ws"
proof -
  have "ws_e ws - ws_f ws < 2 ^ 32"
    using assms by (auto simp: ws_inv_simps)
  then show ?thesis by (rule unat_u32_of_nat)
qed

lemma WS_Reserve_cases:
  assumes "WS_Reserve ws b = Some (n, ws')" "ws_inv ws"
  shows "ws_r ws = None" "ws' = ws\<lparr>ws_r := Some (ws_f ws + unat n)\<rparr>"
    "ws_f ws + unat n \<le> ws_e ws" "unat n = (if b = 0 then ws_e ws - ws_f ws else unat b)"
  using assms by (auto simp: ws_defs Let_def WS_Reserve_amount simp del: of_nat_diff split: if_splits)

lemma WS_Reserve_inv [ws_inv_intros]:
  assumes "WS_Reserve ws b = Some (n, ws')" "ws_inv ws"
  shows "ws_inv ws'"
proof -
  have "0 < unat n \<or> ws_f ws = ws_e ws"
    using WS_Reserve_cases [OF assms] assms(2)
    by (auto simp: ws_inv_simps unat_gt_0 split: if_splits)
  then show ?thesis
    using WS_Reserve_cases [OF assms] assms(2) by (auto simp: ws_inv_simps)
qed

lemma WS_Release_inv [ws_inv_intros]: "WS_Release ws b = Some ws' \<Longrightarrow> ws_inv ws \<Longrightarrow> ws_inv ws'"
  by (auto simp: WS_Release_def ws_inv_simps split: option.splits)

lemma WS_ReleaseP_inv [ws_inv_intros]: "WS_ReleaseP ws q = Some ws' \<Longrightarrow> ws_inv ws \<Longrightarrow> ws_inv ws'"
  by (auto simp: WS_ReleaseP_def ws_inv_simps split: option.splits)

section \<open>Allocation as an interface\<close>

text \<open>
  What a client of an allocator relies on: every block starts at the frontier, the frontier moves
  past it and never past the limit, and a refused request leaves the frontier alone.
\<close>

text \<open>The blocks (start and size) that a sequence of requests obtains.\<close>

fun alloc_list :: "('w \<Rightarrow> nat \<Rightarrow> (nat option \<times> 'w) option) \<Rightarrow> 'w \<Rightarrow> nat list \<Rightarrow> ((nat \<times> nat) list \<times> 'w) option" where
  "alloc_list alloc w [] = Some ([], w)"
| "alloc_list alloc w (n # ns) = do {
     (p, w1) \<leftarrow> alloc w n;
     (bs, w2) \<leftarrow> alloc_list alloc w1 ns;
     Some ((case p of None \<Rightarrow> bs | Some a \<Rightarrow> (a, n) # bs), w2) }"

locale bump_allocator =
  fixes alloc :: "'w \<Rightarrow> nat \<Rightarrow> (nat option \<times> 'w) option"
    and ok :: "'w \<Rightarrow> bool"
    and frontier :: "'w \<Rightarrow> nat"
    and limit :: "'w \<Rightarrow> nat"
  assumes alloc_ok: "ok w \<Longrightarrow> alloc w n = Some (p, w') \<Longrightarrow> ok w'"
    and alloc_limit: "ok w \<Longrightarrow> alloc w n = Some (p, w') \<Longrightarrow> limit w' = limit w"
    and alloc_block: "ok w \<Longrightarrow> alloc w n = Some (Some a, w') \<Longrightarrow>
      a = frontier w \<and> frontier w' = a + n \<and> a + n \<le> limit w"
    and alloc_refused: "ok w \<Longrightarrow> alloc w n = Some (None, w') \<Longrightarrow> frontier w' = frontier w"
begin

lemma alloc_list_Cons:
  assumes "alloc_list alloc w (n # ns) = Some (bs, w2)"
  obtains p w1 bs' where "alloc w n = Some (p, w1)" "alloc_list alloc w1 ns = Some (bs', w2)"
    "bs = (case p of None \<Rightarrow> bs' | Some a \<Rightarrow> (a, n) # bs')"
  using assms by (auto simp: bind_Some_iff)

lemma alloc_list_above:
  "ok w \<Longrightarrow> alloc_list alloc w ns = Some (bs, w') \<Longrightarrow>
   (\<forall>(a, n) \<in> set bs. frontier w \<le> a \<and> a + n \<le> limit w)"
proof (induction ns arbitrary: w bs)
  case Nil
  then show ?case by simp
next
  case (Cons n ns)
  from Cons.prems(2) obtain p w1 bs' where s: "alloc w n = Some (p, w1)"
    "alloc_list alloc w1 ns = Some (bs', w')" "bs = (case p of None \<Rightarrow> bs' | Some a \<Rightarrow> (a, n) # bs')"
    by (rule alloc_list_Cons)
  have ok1: "ok w1" and lim: "limit w1 = limit w"
    using Cons.prems(1) s(1) alloc_ok alloc_limit by blast+
  have IH: "\<forall>(a, n) \<in> set bs'. frontier w1 \<le> a \<and> a + n \<le> limit w"
    using Cons.IH [OF ok1 s(2)] lim by simp
  show ?case
  proof (cases p)
    case None
    then show ?thesis using IH s alloc_refused [OF Cons.prems(1)] by auto
  next
    case (Some a)
    then show ?thesis using IH s alloc_block [OF Cons.prems(1)] by fastforce
  qed
qed

lemma alloc_list_disjoint:
  "ok w \<Longrightarrow> alloc_list alloc w ns = Some (bs, w') \<Longrightarrow>
   sorted_wrt (\<lambda>(a, m) (b, n). a + m \<le> b) bs"
proof (induction ns arbitrary: w bs)
  case Nil
  then show ?case by simp
next
  case (Cons n ns)
  from Cons.prems(2) obtain p w1 bs' where s: "alloc w n = Some (p, w1)"
    "alloc_list alloc w1 ns = Some (bs', w')" "bs = (case p of None \<Rightarrow> bs' | Some a \<Rightarrow> (a, n) # bs')"
    by (rule alloc_list_Cons)
  have ok1: "ok w1"
    using Cons.prems(1) s(1) alloc_ok by blast
  show ?case
    using Cons.IH [OF ok1 s(2)] alloc_list_above [OF ok1 s(2)] s alloc_block [OF Cons.prems(1)]
    by (cases p) fastforce+
qed

end

interpretation wsa: bump_allocator WS_Alloc ws_inv ws_f ws_e
  by unfold_locales (auto simp: WS_Alloc_def ws_inv_simps split: if_splits)

text \<open>
  C34 (safety).  Blocks handed out by any sequence of \<open>WS_Alloc\<close> calls lie inside the workspace,
  above what was already in use, and no two of them overlap.
\<close>

theorem WS_Alloc_blocks_disjoint:
  assumes "ws_inv ws" and "alloc_list WS_Alloc ws ns = Some (bs, ws')"
  shows "(\<forall>(a, n) \<in> set bs. ws_f ws \<le> a \<and> a + n \<le> ws_e ws) \<and>
         sorted_wrt (\<lambda>(a, m) (b, n). a + m \<le> b) bs"
  using wsa.alloc_list_above [OF assms] wsa.alloc_list_disjoint [OF assms] by blast

theorem WS_Alloc_blocks_disjoint_witness:
  "\<exists>ws bs ws'. WS_Init ''obj'' 100 16 = Some ws \<and> alloc_list WS_Alloc ws [4, 20, 8] = Some (bs, ws') \<and>
     bs = [(100, 4), (104, 8)] \<and> sorted_wrt (\<lambda>(a, m) (b, n). a + m \<le> b) bs"
proof -
  define ws where "ws = \<lparr>ws_id = ''obj'', ws_s = 100, ws_f = 100, ws_r = None,
                         ws_e = 116, ws_overflow = 0\<rparr>"
  have i: "WS_Init ''obj'' 100 16 = Some ws"
    by (simp add: WS_Init_Some ws_def)
  have a: "\<exists>w'. alloc_list WS_Alloc ws [4, 20, 8] = Some ([(100, 4), (104, 8)], w')"
    by (simp add: ws_def WS_Alloc_def WS_Assert_def)
  then show ?thesis
    using i WS_Alloc_blocks_disjoint [OF WS_Init_inv [OF i]] by blast
qed

section \<open>Sequences of operations, snapshots\<close>

datatype ws_op = OpReset "nat option" | OpAlloc nat | OpReserve u32 | OpRelease u32 | OpReleaseP nat

fun ws_exec :: "ws \<Rightarrow> ws_op \<Rightarrow> ws option" where
  "ws_exec ws (OpReset p) = WS_Reset ws p"
| "ws_exec ws (OpAlloc n) = map_option snd (WS_Alloc ws n)"
| "ws_exec ws (OpReserve n) = map_option snd (WS_Reserve ws n)"
| "ws_exec ws (OpRelease n) = WS_Release ws n"
| "ws_exec ws (OpReleaseP p) = WS_ReleaseP ws p"

fun ws_run :: "ws \<Rightarrow> ws_op list \<Rightarrow> ws option" where
  "ws_run ws [] = Some ws"
| "ws_run ws (a # as) = do { ws1 \<leftarrow> ws_exec ws a; ws_run ws1 as }"

lemma ws_exec_inv: "ws_exec ws a = Some ws' \<Longrightarrow> ws_inv ws \<Longrightarrow> ws_inv ws'"
  by (cases a) (auto intro: ws_inv_intros)

lemma ws_exec_bounds: "ws_exec ws a = Some ws' \<Longrightarrow> ws_s ws' = ws_s ws \<and> ws_e ws' = ws_e ws"
  by (cases a) (auto simp: ws_defs Let_def split: option.splits if_splits)

lemma ws_run_frame:
  "ws_run w as = Some w' \<Longrightarrow> ws_inv w \<Longrightarrow> ws_inv w' \<and> ws_s w' = ws_s w \<and> ws_e w' = ws_e w"
proof (induction as arbitrary: w)
  case Nil
  then show ?case by simp
next
  case (Cons a as)
  then obtain w1 where s: "ws_exec w a = Some w1" "ws_run w1 as = Some w'"
    by (auto simp: bind_Some_iff)
  then show ?case
    using Cons.IH [OF s(2) ws_exec_inv [OF s(1) Cons.prems(2)]] ws_exec_bounds [OF s(1)] by simp
qed

lemma alloc_list_frame:
  "alloc_list WS_Alloc w ns = Some (bs, w') \<Longrightarrow> ws_inv w \<Longrightarrow>
   ws_inv w' \<and> ws_id w' = ws_id w \<and> ws_s w' = ws_s w \<and> ws_e w' = ws_e w \<and> ws_r w' = ws_r w"
proof (induction ns arbitrary: w bs)
  case Nil
  then show ?case by simp
next
  case (Cons n ns)
  from Cons.prems(1) obtain p w1 bs' where s: "WS_Alloc w n = Some (p, w1)"
    "alloc_list WS_Alloc w1 ns = Some (bs', w')"
    by (rule wsa.alloc_list_Cons)
  have "ws_id w1 = ws_id w \<and> ws_s w1 = ws_s w \<and> ws_e w1 = ws_e w \<and> ws_r w1 = ws_r w"
    using s(1) by (auto simp: WS_Alloc_def split: if_splits)
  then show ?case
    using Cons.IH [OF s(2) WS_Alloc_inv [OF s(1) Cons.prems(2)]] by simp
qed

text \<open>
  From a freshly initialised workspace, no sequence of operations that passes its
  assertions moves the bounds or leaves the free pointer or the reservation outside them.
\<close>

theorem ws_run_inv:
  assumes "WS_Init i p n = Some ws" and "ws_run ws as = Some ws'"
  shows "ws_inv ws' \<and> ws_s ws' = p \<and> ws_e ws' = p + unat n"
proof -
  have "ws_inv ws" "ws_s ws = p" "ws_e ws = p + unat n"
    using assms(1) WS_Init_inv [OF assms(1)] by (auto simp: WS_Init_def Let_def)
  then show ?thesis using ws_run_frame [OF assms(2)] by simp
qed

theorem ws_run_inv_witness:
  "\<exists>ws ws'. WS_Init ''req'' 8 32 = Some ws \<and>
     ws_run ws [OpAlloc 10, OpReserve 0, OpRelease 5, OpAlloc 99, OpReset None] = Some ws' \<and>
     ws_overflow ws' = 1 \<and> ws_inv ws' \<and> ws_s ws' = 8 \<and> ws_e ws' = 40"
proof -
  let ?w = "\<lparr>ws_id = ''req'', ws_s = 8, ws_f = 8, ws_r = None, ws_e = 40, ws_overflow = 0\<rparr>"
  let ?ops = "[OpAlloc 10, OpReserve 0, OpRelease 5, OpAlloc 99, OpReset None]"
  let ?w' = "\<lparr>ws_id = ''req'', ws_s = 8, ws_f = 8, ws_r = None, ws_e = 40, ws_overflow = 1\<rparr>"
  have i: "WS_Init ''req'' 8 32 = Some ?w" by (simp add: WS_Init_Some)
  have r: "ws_run ?w ?ops = Some ?w'" by (simp add: ws_defs WS_Assert_def Let_def)
  show ?thesis
    using i r ws_run_inv [OF i r] by (intro exI [of _ ?w] exI [of _ ?w']) simp
qed

text \<open>
  Resetting to a snapshot undoes every allocation made since, except when the
  workspace was exactly full at the snapshot: \<open>WS_Reset\<close> asserts \<open>p < ws->e\<close> while
  \<open>WS_Snapshot\<close> may return \<open>ws->e\<close>, and the reset then panics.
\<close>

theorem WS_Reset_Snapshot:
  assumes "ws_inv ws" and "WS_Snapshot ws = Some p" and "alloc_list WS_Alloc ws ns = Some (bs, ws')"
  shows "WS_Reset ws' (Some p) =
           (if ws_f ws < ws_e ws then Some (ws\<lparr>ws_overflow := ws_overflow ws'\<rparr>) else None)"
proof -
  have p: "p = ws_f ws" "ws_r ws = None"
    using assms(2) by (auto simp: WS_Snapshot_def)
  have f: "ws_inv ws'" "ws_id ws' = ws_id ws" "ws_s ws' = ws_s ws" "ws_e ws' = ws_e ws"
    "ws_r ws' = None"
    using alloc_list_frame [OF assms(3,1)] p by simp_all
  then have "ws'\<lparr>ws_f := p\<rparr> = ws\<lparr>ws_overflow := ws_overflow ws'\<rparr>"
    using p by (intro ws.equality) simp_all
  then show ?thesis
    using f p assms(1) by (auto simp: WS_Reset_def ws_invD ws_inv_simps)
qed

theorem WS_Reset_Snapshot_witness:
  "let ws = \<lparr>ws_id = ''o'', ws_s = 8, ws_f = 12, ws_r = None, ws_e = 40, ws_overflow = 0\<rparr>;
       ws' = ws\<lparr>ws_f := 19\<rparr>;
       full = ws\<lparr>ws_f := 40\<rparr>
   in WS_Reset ws' (Some 12) = Some ws \<and> WS_Snapshot full = Some 40 \<and> WS_Reset full (Some 40) = None"
proof -
  let ?w = "\<lparr>ws_id = ''o'', ws_s = 8, ws_f = 12, ws_r = None, ws_e = 40, ws_overflow = 0\<rparr>"
  let ?f = "?w\<lparr>ws_f := 40\<rparr>"
  have "WS_Reset (?w\<lparr>ws_f := 19\<rparr>) (Some 12) = Some ?w"
    using WS_Reset_Snapshot [of ?w 12 "[7]" "[(12, 7)]" "?w\<lparr>ws_f := 19\<rparr>"]
    by (simp add: ws_inv_simps WS_Snapshot_def WS_Alloc_def WS_Assert_def)
  moreover have s: "WS_Snapshot ?f = Some 40"
    by (simp add: WS_Snapshot_def WS_Assert_def)
  moreover have "WS_Reset ?f (Some 40) = None"
    using WS_Reset_Snapshot [OF _ s, of "[]" "[]" ?f] by (simp add: ws_inv_simps)
  ultimately show ?thesis by simp
qed

end
