(* ===== verification/Objhead.thy ===== *)
theory Objhead
  imports Prelude
begin

text \<open>
  The object head of \<open>bin/varnishd/hash_slinger.h\<close> and the contract of a hash implementation.

  An object head stands for one digest; the objects that share the digest hang from it.  A hash
  implementation (\<open>struct hash_slinger\<close>: \<open>hash_critbit.c\<close>, \<open>hash_classic.c\<close>,
  \<open>hash_simple_list.c\<close>) keeps the object heads and their reference counts.  Object heads, object
  cores and sessions are named by their addresses (natural numbers); the implementation's private
  union \<open>u\<close> is a record extension in each implementation's theory.
\<close>

type_synonym addr = nat
type_synonym digest = "byte list"

definition DIGEST_LEN :: nat where
  "DIGEST_LEN = 32"

record objhead =
  oh_refcnt :: int
  oh_digest :: digest
  oh_objcs :: "addr list"
  oh_waitinglist :: "addr list"

text \<open>The heap of object heads: \<open>None\<close> for memory that is not (or no longer) allocated.\<close>

type_synonym 'a oh_heap = "addr \<rightharpoonup> 'a objhead_scheme"

definition oh_ref :: "'a oh_heap \<Rightarrow> addr \<Rightarrow> int" where
  "oh_ref h a = (case h a of None \<Rightarrow> 0 | Some oh \<Rightarrow> oh_refcnt oh)"

definition oh_key :: "'a oh_heap \<Rightarrow> addr \<Rightarrow> digest" where
  "oh_key h a = (case h a of None \<Rightarrow> [] | Some oh \<Rightarrow> oh_digest oh)"

lemma oh_ref_upd [simp]: "oh_ref (h(a \<mapsto> oh)) b = (if b = a then oh_refcnt oh else oh_ref h b)"
  by (simp add: oh_ref_def)

lemma oh_key_upd [simp]: "oh_key (h(a \<mapsto> oh)) b = (if b = a then oh_digest oh else oh_key h b)"
  by (simp add: oh_key_def)

lemma oh_ref_Some [simp]: "h a = Some oh \<Longrightarrow> oh_ref h a = oh_refcnt oh"
  by (simp add: oh_ref_def)

lemma oh_key_Some [simp]: "h a = Some oh \<Longrightarrow> oh_key h a = oh_digest oh"
  by (simp add: oh_key_def)

section \<open>The contract of a hash implementation\<close>

text \<open>
  \<open>lookup\<close> returns the object head of the wanted digest with one more reference, or enters the
  caller's spare object head \<open>noh\<close> (which brings its own reference).  \<open>deref\<close> drops a
  reference and takes the object head out of the index with the last one.
\<close>

locale hash_slinger =
  fixes lookup :: "'s \<Rightarrow> addr \<Rightarrow> (addr \<times> 's) option"
    and deref :: "'s \<Rightarrow> addr \<Rightarrow> (bool \<times> 's) option"
    and inv :: "'s \<Rightarrow> bool"
    and spare :: "'s \<Rightarrow> addr \<Rightarrow> bool"
    and idle :: "'s \<Rightarrow> addr \<Rightarrow> bool"
    and index :: "'s \<Rightarrow> digest \<Rightarrow> addr option"
    and refcnt :: "'s \<Rightarrow> addr \<Rightarrow> int"
    and key :: "'s \<Rightarrow> addr \<Rightarrow> digest"
  assumes index_key: "inv s \<Longrightarrow> index s d = Some a \<Longrightarrow> key s a = d \<and> refcnt s a > 0"
    and spare_out: "inv s \<Longrightarrow> spare s noh \<Longrightarrow> index s d \<noteq> Some noh"
    and lookup_hit: "inv s \<Longrightarrow> spare s noh \<Longrightarrow> index s (key s noh) = Some a \<Longrightarrow>
      \<exists>s'. lookup s noh = Some (a, s') \<and> inv s' \<and> spare s' noh \<and> index s' = index s \<and>
           refcnt s' = (refcnt s)(a := refcnt s a + 1)"
    and lookup_miss: "inv s \<Longrightarrow> spare s noh \<Longrightarrow> index s (key s noh) = None \<Longrightarrow>
      \<exists>s'. lookup s noh = Some (noh, s') \<and> inv s' \<and>
           index s' = (index s)(key s noh \<mapsto> noh) \<and> refcnt s' = refcnt s"
    and deref_more: "inv s \<Longrightarrow> index s d = Some a \<Longrightarrow> refcnt s a > 1 \<Longrightarrow>
      \<exists>s'. deref s a = Some (True, s') \<and> inv s' \<and> index s' = index s \<and>
           refcnt s' = (refcnt s)(a := refcnt s a - 1)"
    and deref_last: "inv s \<Longrightarrow> index s d = Some a \<Longrightarrow> refcnt s a = 1 \<Longrightarrow> idle s a \<Longrightarrow>
      \<exists>r s'. deref s a = Some (r, s') \<and> inv s' \<and> index s' = (index s)(d := None) \<and>
             refcnt s' = (refcnt s)(a := 0)"
begin

text \<open>A lookup returns an indexed object head of the right digest, on which a reference is held.\<close>

lemma lookup_returns:
  assumes "inv s" "spare s noh"
  shows "\<exists>a s'. lookup s noh = Some (a, s') \<and> inv s' \<and> index s' (key s noh) = Some a \<and>
                refcnt s' a > 0 \<and> (\<forall>d. d \<noteq> key s noh \<longrightarrow> index s' d = index s d)"
proof (cases "index s (key s noh)")
  case None
  with lookup_miss [OF assms] obtain s' where s': "lookup s noh = Some (noh, s')" "inv s'"
    "index s' = (index s)(key s noh \<mapsto> noh)"
    by blast
  moreover from s' have "refcnt s' noh > 0"
    using index_key [OF s'(2), of "key s noh" noh] by simp
  ultimately show ?thesis by auto
next
  case (Some a)
  obtain s' where "lookup s noh = Some (a, s')" "inv s'" "index s' = index s"
    "refcnt s' = (refcnt s)(a := refcnt s a + 1)"
    using lookup_hit [OF assms Some] by blast
  then show ?thesis using Some index_key [OF assms(1) Some] by auto
qed

text \<open>Looking a digest up and dropping the reference again leaves index and counts as they were.\<close>

lemma lookup_deref:
  assumes "inv s" "spare s noh" "index s (key s noh) = Some a"
  shows "\<exists>s1 s2. lookup s noh = Some (a, s1) \<and> deref s1 a = Some (True, s2) \<and>
                 index s2 = index s \<and> refcnt s2 = refcnt s"
proof -
  obtain s1 where s1: "lookup s noh = Some (a, s1)" "inv s1" "index s1 = index s"
    "refcnt s1 = (refcnt s)(a := refcnt s a + 1)"
    using lookup_hit [OF assms] by blast
  have "index s1 (key s noh) = Some a" "refcnt s1 a > 1"
    using s1 assms(3) index_key [OF assms(1,3)] by simp_all
  then obtain s2 where "deref s1 a = Some (True, s2)" "index s2 = index s1"
    "refcnt s2 = (refcnt s1)(a := refcnt s1 a - 1)"
    using deref_more [OF s1(2)] by blast
  then show ?thesis using s1 by auto
qed

end

end
