(* ===== verification/Critbit_Tree.thy ===== *)
theory Critbit_Tree
  imports Objhead
begin

text \<open>
  The crit-bit tree hash of \<open>bin/varnishd/hash_critbit.c\<close>.

  An inner node (\<open>struct hcb_y\<close>) lives in the private space of some object head, not necessarily
  one that is still indexed, so the tree is modelled as it is in memory: a heap of object heads, each
  with its \<open>hcb_y\<close>, linked by tagged pointers.  \<open>HY a\<close> is a pointer to the \<open>hcb_y\<close> in the
  object head at \<open>a\<close> (tag \<open>HCB_BIT_Y\<close>), \<open>HNode a\<close> a pointer to the object head itself (tag
  \<open>HCB_BIT_NODE\<close>) and \<open>HNull\<close> the value 0.  The abstraction \<open>is_tree\<close> relates the memory to
  a tree; insertion and deletion are proved against operations on trees, and those against a map from
  digests to object heads.

  The model is sequential: each function runs without interference, as it does under \<open>hcb_mtx\<close>.
\<close>

unbundle bit_operations_syntax

section \<open>How many leading bits two bytes have in common\<close>

text \<open>
  \<open>hcb_build_bittbl\<close> fills a table of 256 entries that starts out zero: the outer loop runs
  \<open>x\<close> from 0 to 7, the inner one continues \<open>y\<close> up to \<open>1 << x\<close>.
\<close>

function hcb_fill :: "nat \<Rightarrow> nat \<Rightarrow> byte \<Rightarrow> byte list \<Rightarrow> nat \<times> byte list" where
  "hcb_fill y m v tbl = (if y < m then hcb_fill (Suc y) m v (tbl[y := v]) else (y, tbl))"
  by pat_completeness auto
termination
  by (relation "measure (\<lambda>(y, m, v, tbl). m - y)") auto

declare hcb_fill.simps [simp del]

fun hcb_build_rows :: "nat list \<Rightarrow> nat \<Rightarrow> byte list \<Rightarrow> byte list" where
  "hcb_build_rows [] y tbl = tbl"
| "hcb_build_rows (x # xs) y tbl =
     (let (y', tbl') = hcb_fill y (2 ^ x) (8 - word_of_nat x) tbl in hcb_build_rows xs y' tbl')"

definition hcb_build_bittbl :: "byte list" where
  "hcb_build_bittbl = hcb_build_rows [0..<8] 0 (replicate 256 0)"

definition hcb_bits :: "byte \<Rightarrow> byte \<Rightarrow> byte" where
  "hcb_bits x y = hcb_build_bittbl ! unat (x XOR y)"

section \<open>Tagged pointers\<close>

text \<open>The accessor functions on \<open>uintptr_t\<close> values, with their assertions.\<close>

type_synonym uintptr = "64 word"

definition HCB_BIT_NODE :: uintptr where "HCB_BIT_NODE = 1"
definition HCB_BIT_Y :: uintptr where "HCB_BIT_Y = 2"

definition hcb_is_node :: "uintptr \<Rightarrow> bool" where
  "hcb_is_node u \<longleftrightarrow> u AND HCB_BIT_NODE \<noteq> 0"

definition hcb_is_y :: "uintptr \<Rightarrow> bool" where
  "hcb_is_y u \<longleftrightarrow> u AND HCB_BIT_Y \<noteq> 0"

definition hcb_r_node :: "uintptr \<Rightarrow> uintptr option" where
  "hcb_r_node n = do {
     chk (n AND (HCB_BIT_NODE OR HCB_BIT_Y) = 0);
     Some (HCB_BIT_NODE OR n) }"

definition hcb_l_node :: "uintptr \<Rightarrow> uintptr option" where
  "hcb_l_node u = do {
     chk (u AND HCB_BIT_NODE \<noteq> 0);
     chk (u AND HCB_BIT_Y = 0);
     Some (u AND NOT HCB_BIT_NODE) }"

definition hcb_r_y :: "uintptr \<Rightarrow> uintptr option" where
  "hcb_r_y y = do {
     chk (y AND (HCB_BIT_NODE OR HCB_BIT_Y) = 0);
     Some (HCB_BIT_Y OR y) }"

definition hcb_l_y :: "uintptr \<Rightarrow> uintptr option" where
  "hcb_l_y u = do {
     chk (u AND HCB_BIT_NODE = 0);
     chk (u AND HCB_BIT_Y \<noteq> 0);
     Some (u AND NOT HCB_BIT_Y) }"

text \<open>What a tagged value stands for; \<open>hptr\<close> is the form the tree code below uses.\<close>

datatype hptr = HNull | HNode addr | HY addr

fun hptr_word :: "(addr \<Rightarrow> uintptr) \<Rightarrow> (addr \<Rightarrow> uintptr) \<Rightarrow> hptr \<Rightarrow> uintptr option" where
  "hptr_word oh_at y_at HNull = Some 0"
| "hptr_word oh_at y_at (HNode a) = hcb_r_node (oh_at a)"
| "hptr_word oh_at y_at (HY a) = hcb_r_y (y_at a)"

section \<open>State\<close>

record hcb_y =
  y_critbit :: "16 word"
  y_ptr :: byte
  y_bitmask :: byte
  y_leaf0 :: hptr
  y_leaf1 :: hptr

definition y_zero :: hcb_y where
  "y_zero = \<lparr>y_critbit = 0, y_ptr = 0, y_bitmask = 0, y_leaf0 = HNull, y_leaf1 = HNull\<rparr>"

definition y_leaf :: "hcb_y \<Rightarrow> bool \<Rightarrow> hptr" where
  "y_leaf y s = (if s then y_leaf1 y else y_leaf0 y)"

definition y_set_leaf :: "hcb_y \<Rightarrow> bool \<Rightarrow> hptr \<Rightarrow> hcb_y" where
  "y_set_leaf y s p = (if s then y\<lparr>y_leaf1 := p\<rparr> else y\<lparr>y_leaf0 := p\<rparr>)"

record hcb_objhead = objhead +
  oh_y :: hcb_y

record hcb_root =
  hcb_heap :: "addr \<rightharpoonup> hcb_objhead"
  origo :: hptr
  cmps :: u32

text \<open>The pointers to pointers of the C code: \<open>&root->origo\<close> and \<open>&y->leaf[s]\<close>.\<close>

datatype hloc = Origo | LeafOf addr bool

fun hread :: "hcb_root \<Rightarrow> hloc \<Rightarrow> hptr option" where
  "hread r Origo = Some (origo r)"
| "hread r (LeafOf a s) = map_option (\<lambda>oh. y_leaf (oh_y oh) s) (hcb_heap r a)"

definition oh_update :: "addr \<Rightarrow> (hcb_objhead \<Rightarrow> hcb_objhead) \<Rightarrow> hcb_root \<Rightarrow> hcb_root option" where
  "oh_update a f r =
     map_option (\<lambda>oh. r\<lparr>hcb_heap := (hcb_heap r)(a \<mapsto> f oh)\<rparr>) (hcb_heap r a)"

fun hwrite :: "hcb_root \<Rightarrow> hloc \<Rightarrow> hptr \<Rightarrow> hcb_root option" where
  "hwrite r Origo p = Some (r\<lparr>origo := p\<rparr>)"
| "hwrite r (LeafOf a s) p = oh_update a (\<lambda>oh. oh\<lparr>oh_y := y_set_leaf (oh_y oh) s p\<rparr>) r"

section \<open>Insertion, lookup and deletion\<close>

text \<open>The scan of \<open>hcb_crit_bit\<close>: the index of the first byte that differs.\<close>

fun first_diff :: "digest \<Rightarrow> digest \<Rightarrow> nat" where
  "first_diff (x # xs) (y # ys) = (if x = y then Suc (first_diff xs ys) else 0)"
| "first_diff _ _ = 0"

definition hcb_crit_bit :: "digest \<Rightarrow> digest \<Rightarrow> hcb_y \<Rightarrow> ((16 word) \<times> hcb_y) option" where
  "hcb_crit_bit d1 d2 y = do {
     let u = first_diff d1 d2;
     chk (u < DIGEST_LEN);
     let r = hcb_bits (d1 ! u) (d2 ! u);
     let c = word_of_nat (u * 8 + unat r);
     Some (c, y\<lparr>y_ptr := word_of_nat u, y_bitmask := drop_bit (unat r) 0x80, y_critbit := c\<rparr>) }"

text \<open>\<open>s = (oh->digest[y->ptr] & y->bitmask) != 0\<close>, with the assertion on \<open>y->ptr\<close>.\<close>

definition y_side :: "digest \<Rightarrow> hcb_y \<Rightarrow> bool option" where
  "y_side d y = do {
     chk (unat (y_ptr y) < DIGEST_LEN);
     Some ((d ! unat (y_ptr y)) AND y_bitmask y \<noteq> 0) }"

partial_function (option) hcb_walk ::
  "hcb_root \<Rightarrow> digest \<Rightarrow> hloc \<Rightarrow> u32 \<Rightarrow> (hloc \<times> hptr \<times> u32) option" where
  "hcb_walk r d p n = Option.bind (hread r p) (\<lambda>pp. case pp of
       HY a \<Rightarrow> Option.bind (hcb_heap r a) (\<lambda>oh.
         Option.bind (y_side d (oh_y oh)) (\<lambda>s. hcb_walk r d (LeafOf a s) (n + 1)))
     | _ \<Rightarrow> Some (p, pp, n))"

partial_function (option) hcb_walk2 ::
  "hcb_root \<Rightarrow> digest \<Rightarrow> 16 word \<Rightarrow> hloc \<Rightarrow> u32 \<Rightarrow> (hloc \<times> u32) option" where
  "hcb_walk2 r d c p n = Option.bind (hread r p) (\<lambda>pp. case pp of
       HY a \<Rightarrow> Option.bind (hcb_heap r a) (\<lambda>oh.
         if y_critbit (oh_y oh) > c then Some (p, n)
         else Option.bind (y_side d (oh_y oh)) (\<lambda>s. hcb_walk2 r d c (LeafOf a s) (n + 1)))
     | _ \<Rightarrow> Some (p, n))"

definition hcb_insert :: "hcb_root \<Rightarrow> addr \<Rightarrow> bool \<Rightarrow> (addr option \<times> hcb_root) option" where
  "hcb_insert r oh has_lock = do {
     o1 \<leftarrow> hcb_heap r oh;
     let d = oh_digest o1;
     if origo r = HNull then
       (if \<not> has_lock then Some (None, r)
        else Some (Some oh, r\<lparr>origo := HNode oh\<rparr>))
     else do {
       (p, pp, n) \<leftarrow> hcb_walk r d Origo (cmps r);
       let r = r\<lparr>cmps := n\<rparr>;
       (case pp of
          HNode oh2 \<Rightarrow> do {
            o2 \<leftarrow> hcb_heap r oh2;
            if oh_digest o2 = d then Some (Some oh2, r)
            else if \<not> has_lock then Some (None, r)
            else do {
              (_, y2) \<leftarrow> hcb_crit_bit d (oh_digest o2) y_zero;
              s2 \<leftarrow> y_side d y2;
              r \<leftarrow> oh_update oh (\<lambda>x. x\<lparr>oh_y := y_set_leaf y2 s2 (HNode oh)\<rparr>) r;
              chk (origo r \<noteq> HNull);
              (p, n) \<leftarrow> hcb_walk2 r d (y_critbit y2) Origo (cmps r);
              q \<leftarrow> hread r p;
              r \<leftarrow> hwrite r (LeafOf oh (\<not> s2)) q;
              r \<leftarrow> hwrite r p (HY oh);
              Some (Some oh, r\<lparr>cmps := n\<rparr>) } }
        | _ \<Rightarrow> None) } }"

partial_function (option) hcb_delete_loop ::
  "hcb_root \<Rightarrow> addr \<Rightarrow> digest \<Rightarrow> hloc \<Rightarrow> hcb_root option" where
  "hcb_delete_loop r oh d p = Option.bind (hread r p) (\<lambda>pp. case pp of
       HY a \<Rightarrow> Option.bind (hcb_heap r a) (\<lambda>oy.
         Option.bind (y_side d (oh_y oy)) (\<lambda>s.
           if y_leaf (oh_y oy) s = HNode oh
           then Option.bind (hwrite r p (y_leaf (oh_y oy) (\<not> s))) (\<lambda>r.
                  oh_update a (\<lambda>x. x\<lparr>oh_y := oh_y x\<lparr>y_leaf0 := HNull, y_leaf1 := HNull\<rparr>\<rparr>) r)
           else hcb_delete_loop (r\<lparr>cmps := cmps r + 1\<rparr>) oh d (LeafOf a s)))
     | _ \<Rightarrow> None)"

definition hcb_delete :: "hcb_root \<Rightarrow> addr \<Rightarrow> hcb_root option" where
  "hcb_delete r oh = do {
     o1 \<leftarrow> hcb_heap r oh;
     if origo r = HNode oh then Some (r\<lparr>origo := HNull\<rparr>)
     else hcb_delete_loop r oh (oh_digest o1) Origo }"


section \<open>Bits of a digest\<close>

text \<open>Bit \<open>n\<close> of a digest, counted from the most significant bit of its first byte.\<close>

definition dbit :: "digest \<Rightarrow> nat \<Rightarrow> bool" where
  "dbit d n = bit (d ! (n div 8)) (7 - n mod 8)"

definition y_wf :: "hcb_y \<Rightarrow> bool" where
  "y_wf y \<longleftrightarrow> unat (y_critbit y) < 256 \<and> unat (y_ptr y) = unat (y_critbit y) div 8 \<and>
             y_bitmask y = drop_bit (unat (y_critbit y) mod 8) 0x80"

lemma bittbl_check:
  "list_all (\<lambda>n. let r = unat (hcb_build_bittbl ! n) in
      if n = 0 then r = 8 else r < 8 \<and> 2 ^ (7 - r) \<le> n \<and> n < 2 ^ (8 - r)) [0..<256]"
  by code_simp

lemma hcb_bits_bounds:
  assumes "x \<noteq> y"
  shows "unat (hcb_bits x y) < 8 \<and> 2 ^ (7 - unat (hcb_bits x y)) \<le> unat (x XOR y) \<and>
         unat (x XOR y) < 2 ^ (8 - unat (hcb_bits x y))"
proof -
  have "unat (x XOR y) < 256" using unsigned_less [of "x XOR y"] by simp
  moreover have "x = y" if "x XOR y = 0"
    using that by (simp add: bit_eq_iff bit_xor_iff)
  then have "unat (x XOR y) \<noteq> 0" using assms by (auto simp: unat_eq_0)
  ultimately show ?thesis
    using bittbl_check by (auto simp: list_all_iff hcb_bits_def Let_def split: if_splits)
qed

lemma bit_unat_top:
  fixes n k m :: nat
  assumes "2 ^ k \<le> n" "n < 2 ^ Suc k"
  shows "bit n k" "k < m \<Longrightarrow> \<not> bit n m"
proof -
  have "n div 2 ^ k = 1"
    using assms by (simp add: div_nat_eqI)
  then show "bit n k" by (simp add: bit_iff_odd)
  assume "k < m"
  then have "n < 2 ^ m"
    using assms(2) by (meson Suc_leI less_le_trans one_le_numeral power_increasing)
  then show "\<not> bit n m" by (simp add: bit_iff_odd)
qed

lemma hcb_bits_correct:
  assumes "x \<noteq> y"
  defines "r \<equiv> unat (hcb_bits x y)"
  shows "r < 8" "bit x (7 - r) \<noteq> bit y (7 - r)" "\<And>m. 7 - r < m \<Longrightarrow> bit x m = bit y m"
proof -
  note b = hcb_bits_bounds [OF assms(1), folded r_def]
  show "r < 8" using b by simp
  then have e: "8 - r = Suc (7 - r)" by simp
  have b1: "2 ^ (7 - r) \<le> unat (x XOR y)" and b2: "unat (x XOR y) < 2 ^ Suc (7 - r)"
    using b unfolding e by auto
  have bx: "bit (x XOR y) m = bit (unat (x XOR y)) m" for m
    by (simp add: bit_unsigned_iff)
  show "bit x (7 - r) \<noteq> bit y (7 - r)"
    using bit_unat_top(1) [OF b1 b2] bx [of "7 - r"] by (simp add: bit_xor_iff)
  show "bit x m = bit y m" if "7 - r < m" for m
    using bit_unat_top(2) [OF b1 b2 that] bx [of m] by (simp add: bit_xor_iff)
qed

lemma drop_bit_0x80: "k < 8 \<Longrightarrow> drop_bit k (0x80 :: byte) = 2 ^ (7 - k)"
proof -
  assume "k < 8"
  then have "k = 0 \<or> k = 1 \<or> k = 2 \<or> k = 3 \<or> k = 4 \<or> k = 5 \<or> k = 6 \<or> k = 7"
    by arith
  then show ?thesis by (elim disjE) simp_all
qed

lemma y_side_wf:
  assumes "y_wf y"
  shows "y_side d y = Some (dbit d (unat (y_critbit y)))"
proof -
  let ?c = "unat (y_critbit y)"
  have p: "unat (y_ptr y) = ?c div 8" "?c div 8 < DIGEST_LEN"
    using assms by (auto simp: y_wf_def DIGEST_LEN_def)
  have "y_bitmask y = 2 ^ (7 - ?c mod 8)"
    using assms by (simp add: y_wf_def drop_bit_0x80)
  then show ?thesis
    using p by (simp add: y_side_def dbit_def and_exp_eq_0_iff_not_bit)
qed

lemma first_diff_correct:
  assumes "length d1 = length d2" "d1 \<noteq> d2"
  shows "first_diff d1 d2 < length d1" "d1 ! first_diff d1 d2 \<noteq> d2 ! first_diff d1 d2"
    "\<And>i. i < first_diff d1 d2 \<Longrightarrow> d1 ! i = d2 ! i"
  using assms
proof (induction d1 d2 rule: first_diff.induct)
  case (1 x xs y ys)
  {
    case 1
    then show ?case using "1.IH"(1) by auto
  next
    case 2
    then show ?case using "1.IH"(2) by auto
  next
    case 3
    then show ?case using "1.IH"(3) by (auto simp: nth_Cons' split: if_splits)
  }
qed auto

lemma crit_bit_first:
  assumes "length d1 = DIGEST_LEN" "length d2 = DIGEST_LEN" "d1 \<noteq> d2"
  shows "\<exists>y'. hcb_crit_bit d1 d2 y = Some (y_critbit y', y') \<and> y_wf y' \<and>
          y_leaf0 y' = y_leaf0 y \<and> y_leaf1 y' = y_leaf1 y \<and>
          dbit d1 (unat (y_critbit y')) \<noteq> dbit d2 (unat (y_critbit y')) \<and>
          (\<forall>n < unat (y_critbit y'). dbit d1 n = dbit d2 n)"
proof -
  define u where "u = first_diff d1 d2"
  define r where "r = unat (hcb_bits (d1 ! u) (d2 ! u))"
  have len: "length d1 = length d2" using assms by simp
  note fd = first_diff_correct [OF len assms(3), folded u_def]
  have u: "u < 32" using fd(1) assms(1) by (simp add: DIGEST_LEN_def)
  note hb = hcb_bits_correct [OF fd(2), folded r_def]
  have c: "unat (word_of_nat (u * 8 + r) :: 16 word) = u * 8 + r"
    using u hb(1) by (subst unsigned_of_nat) (simp add: take_bit_nat_eq_self)
  let ?y = "y\<lparr>y_ptr := word_of_nat u, y_bitmask := drop_bit r 0x80,
              y_critbit := word_of_nat (u * 8 + r)\<rparr>"
  have "hcb_crit_bit d1 d2 y = Some (y_critbit ?y, ?y)"
    using u by (simp add: hcb_crit_bit_def Let_def u_def [symmetric] r_def [symmetric] DIGEST_LEN_def
        del: of_nat_add of_nat_mult)
  moreover have "y_wf ?y"
    using u hb(1) by (simp add: y_wf_def c unat_byte_of_nat del: of_nat_add of_nat_mult)
  moreover have "dbit d1 (u * 8 + r) \<noteq> dbit d2 (u * 8 + r)"
    using hb by (simp add: dbit_def)
  moreover have "dbit d1 n = dbit d2 n" if "n < u * 8 + r" for n
  proof (cases "n div 8 < u")
    case True
    then show ?thesis using fd(3) by (simp add: dbit_def)
  next
    case False
    then have "n div 8 = u \<and> n mod 8 < r"
      using that hb(1) by presburger
    then show ?thesis
      using hb(3) [of "7 - n mod 8"] hb(1) by (auto simp: dbit_def)
  qed
  ultimately show ?thesis
    using c by (intro exI [of _ ?y]) simp
qed

section \<open>Trees, and the memory that represents them\<close>

text \<open>
  \<open>CNode a l r\<close> is an inner node whose \<open>hcb_y\<close> lives in the object head \<open>a\<close>.  A tree is
  represented at a location (the pointer to it) rather than at a pointer value, so that insertion,
  which moves a subtree to another location, needs no more than the frame lemma.
\<close>

datatype ctree = CLeaf addr | CNode addr ctree ctree

fun leaves :: "ctree \<Rightarrow> addr list" where
  "leaves (CLeaf a) = [a]"
| "leaves (CNode a l r) = leaves l @ leaves r"

fun owners :: "ctree \<Rightarrow> addr list" where
  "owners (CLeaf a) = []"
| "owners (CNode a l r) = a # owners l @ owners r"

fun is_tree :: "hcb_root \<Rightarrow> hloc \<Rightarrow> ctree \<Rightarrow> bool" where
  "is_tree m p (CLeaf a) \<longleftrightarrow> hread m p = Some (HNode a)"
| "is_tree m p (CNode a l r) \<longleftrightarrow> hread m p = Some (HY a) \<and>
     is_tree m (LeafOf a False) l \<and> is_tree m (LeafOf a True) r"

declare hread.simps(2) [simp del]

lemma is_tree_frame:
  assumes "is_tree m p t" "hread m' p' = hread m p"
    and "\<And>a s. a \<in> set (owners t) \<Longrightarrow> hread m' (LeafOf a s) = hread m (LeafOf a s)"
  shows "is_tree m' p' t"
  using assms
proof (induction t arbitrary: p p')
  case (CNode a l r)
  have "is_tree m' (LeafOf a False) l"
    by (rule CNode.IH(1) [of "LeafOf a False"]) (use CNode.prems in auto)
  moreover have "is_tree m' (LeafOf a True) r"
    by (rule CNode.IH(2) [of "LeafOf a True"]) (use CNode.prems in auto)
  ultimately show ?case using CNode.prems by simp
qed simp

lemma leaves_ne [simp]: "leaves t \<noteq> []"
  by (induction t) simp_all

lemma y_leaf_set [simp]:
  "y_leaf (y_set_leaf y s v) s' = (if s' = s then v else y_leaf y s')"
  "y_critbit (y_set_leaf y s v) = y_critbit y" "y_wf (y_set_leaf y s v) = y_wf y"
  by (simp_all add: y_leaf_def y_set_leaf_def y_wf_def)

lemma hread_write:
  assumes "hwrite m p v = Some m'"
  shows "hread m' q = (if q = p then Some v else hread m q)"
  using assms
  by (cases p; cases q) (auto simp: oh_update_def hread.simps)

lemma hread_cmps [simp]: "hread (m\<lparr>cmps := n\<rparr>) q = hread m q"
  by (cases q) (simp_all add: hread.simps)

lemma is_tree_cmps [simp]: "is_tree (m\<lparr>cmps := n\<rparr>) p t = is_tree m p t"
  by (induction t arbitrary: p) simp_all

subsection \<open>The crit-bit property\<close>

text \<open>
  \<open>K\<close> gives the digest of an object head and \<open>C\<close> the critical bit of the node an object head
  hosts: below a node all digests agree before its critical bit, which is clear on the left and set
  on the right.
\<close>

definition agree :: "(addr \<Rightarrow> digest) \<Rightarrow> nat \<Rightarrow> addr set \<Rightarrow> bool" where
  "agree K c A \<longleftrightarrow> (\<forall>x \<in> A. \<forall>z \<in> A. \<forall>n < c. dbit (K x) n = dbit (K z) n)"

lemma agreeD: "agree K c A \<Longrightarrow> x \<in> A \<Longrightarrow> z \<in> A \<Longrightarrow> n < c \<Longrightarrow> dbit (K x) n = dbit (K z) n"
  unfolding agree_def by blast

lemma agree_mono: "agree K c A \<Longrightarrow> B \<subseteq> A \<Longrightarrow> agree K c B"
  unfolding agree_def by blast

lemma agree_cong: "agree K c A \<Longrightarrow> (\<And>x. x \<in> A \<Longrightarrow> K' x = K x) \<Longrightarrow> agree K' c A"
  unfolding agree_def by metis

lemma agree_insert:
  "agree K c A \<Longrightarrow> (\<And>z n. z \<in> A \<Longrightarrow> n < c \<Longrightarrow> dbit (K z) n = dbit (K x) n) \<Longrightarrow> agree K c (insert x A)"
  unfolding agree_def by (metis insert_iff)

fun cb_ok :: "(addr \<Rightarrow> digest) \<Rightarrow> (addr \<Rightarrow> nat) \<Rightarrow> ctree \<Rightarrow> bool" where
  "cb_ok K C (CLeaf a) \<longleftrightarrow> length (K a) = DIGEST_LEN"
| "cb_ok K C (CNode a l r) \<longleftrightarrow> cb_ok K C l \<and> cb_ok K C r \<and>
     (\<forall>x \<in> set (leaves l). \<not> dbit (K x) (C a)) \<and> (\<forall>x \<in> set (leaves r). dbit (K x) (C a)) \<and>
     agree K (C a) (set (leaves l) \<union> set (leaves r))"

fun tfind :: "(addr \<Rightarrow> nat) \<Rightarrow> digest \<Rightarrow> ctree \<Rightarrow> addr" where
  "tfind C d (CLeaf a) = a"
| "tfind C d (CNode a l r) = tfind C d (if dbit d (C a) then r else l)"

definition mk_node :: "addr \<Rightarrow> bool \<Rightarrow> ctree \<Rightarrow> ctree" where
  "mk_node x s t = (if s then CNode x t (CLeaf x) else CNode x (CLeaf x) t)"

fun tins :: "(addr \<Rightarrow> nat) \<Rightarrow> digest \<Rightarrow> nat \<Rightarrow> addr \<Rightarrow> bool \<Rightarrow> ctree \<Rightarrow> ctree" where
  "tins C d c x s (CLeaf a) = mk_node x s (CLeaf a)"
| "tins C d c x s (CNode a l r) =
     (if C a > c then mk_node x s (CNode a l r)
      else if dbit d (C a) then CNode a l (tins C d c x s r)
      else CNode a (tins C d c x s l) r)"

fun tdel :: "(addr \<Rightarrow> nat) \<Rightarrow> digest \<Rightarrow> addr \<Rightarrow> ctree \<Rightarrow> ctree" where
  "tdel C d x (CLeaf a) = CLeaf a"
| "tdel C d x (CNode a l r) =
     (if dbit d (C a) then (if r = CLeaf x then l else CNode a l (tdel C d x r))
      else (if l = CLeaf x then r else CNode a (tdel C d x l) r))"

text \<open>The node that \<open>tdel\<close> takes out.\<close>

fun tgone :: "(addr \<Rightarrow> nat) \<Rightarrow> digest \<Rightarrow> addr \<Rightarrow> ctree \<Rightarrow> addr" where
  "tgone C d x (CLeaf a) = a"
| "tgone C d x (CNode a l r) =
     (if dbit d (C a) then (if r = CLeaf x then a else tgone C d x r)
      else (if l = CLeaf x then a else tgone C d x l))"

lemma tfind_leaves: "tfind C d t \<in> set (leaves t)"
  by (induction t) auto

lemma tfind_member: "cb_ok K C t \<Longrightarrow> x \<in> set (leaves t) \<Longrightarrow> K x = d \<Longrightarrow> tfind C d t = x"
  by (induction t) auto

lemma cb_ok_length: "cb_ok K C t \<Longrightarrow> x \<in> set (leaves t) \<Longrightarrow> length (K x) = DIGEST_LEN"
  by (induction t) auto

lemma cb_ok_cong:
  assumes "cb_ok K C t" "\<And>x. x \<in> set (leaves t) \<Longrightarrow> K' x = K x"
    and "\<And>a. a \<in> set (owners t) \<Longrightarrow> C' a = C a"
  shows "cb_ok K' C' t"
  using assms by (induction t) (auto intro: agree_cong)

lemma tins_leaves [simp]: "set (leaves (tins C d c x s t)) = insert x (set (leaves t))"
  by (induction t) (auto simp: mk_node_def)

lemma tins_owners [simp]: "set (owners (tins C d c x s t)) = insert x (set (owners t))"
  by (induction t) (auto simp: mk_node_def)

lemma tins_distinct:
  "distinct (leaves t) \<Longrightarrow> x \<notin> set (leaves t) \<Longrightarrow> distinct (leaves (tins C d c x s t))"
  "distinct (owners t) \<Longrightarrow> x \<notin> set (owners t) \<Longrightarrow> distinct (owners (tins C d c x s t))"
  by (induction t) (auto simp: mk_node_def)

lemma cb_ok_mk_node:
  assumes "cb_ok K C t" "length (K x) = DIGEST_LEN" "s = dbit (K x) (C x)"
    and "\<And>z. z \<in> set (leaves t) \<Longrightarrow> dbit (K z) (C x) = (\<not> s)"
    and "\<And>z n. z \<in> set (leaves t) \<Longrightarrow> n < C x \<Longrightarrow> dbit (K z) n = dbit (K x) n"
  shows "cb_ok K C (mk_node x s t)"
proof -
  have "agree K (C x) (insert x (set (leaves t)))"
    using assms(5) unfolding agree_def by (metis insert_iff)
  then show ?thesis using assms by (auto simp: mk_node_def)
qed

lemma cb_ok_tins:
  assumes "cb_ok K C t" "length (K x) = DIGEST_LEN"
    and "dbit (K x) (C x) \<noteq> dbit (K (tfind C (K x) t)) (C x)"
    and "\<And>n. n < C x \<Longrightarrow> dbit (K x) n = dbit (K (tfind C (K x) t)) n"
  shows "cb_ok K C (tins C (K x) (C x) x (dbit (K x) (C x)) t)"
  using assms
proof (induction t)
  case (CLeaf a)
  then show ?case by (auto intro!: cb_ok_mk_node)
next
  case (CNode a l r)
  let ?b = "tfind C (K x) (CNode a l r)"
  have b: "?b \<in> set (leaves (CNode a l r))" by (rule tfind_leaves)
  have ba: "dbit (K ?b) (C a) = dbit (K x) (C a)"
    using CNode.prems(1) tfind_leaves [of C "K x" l] tfind_leaves [of C "K x" r] by auto
  then have ne: "C a \<noteq> C x" using CNode.prems(3) by metis
  show ?case
  proof (cases "C a > C x")
    case True
    then have agree: "dbit (K z) n = dbit (K ?b) n" if "z \<in> set (leaves (CNode a l r))" "n \<le> C x" for z n
      using CNode.prems(1) b that True agreeD [of K "C a" "set (leaves (CNode a l r))" z ?b n] by simp
    have "cb_ok K C (mk_node x (dbit (K x) (C x)) (CNode a l r))"
      using CNode.prems agree by (intro cb_ok_mk_node) (auto simp del: tfind.simps)
    then show ?thesis using True by simp
  next
    case False
    then have lt: "C a < C x" using ne by simp
    have "dbit (K z) n = dbit (K x) n" if "z \<in> set (leaves l) \<union> set (leaves r)" "n < C a" for z n
      using CNode.prems(1) CNode.prems(4) [of n] b that lt
        agreeD [of K "C a" "set (leaves l) \<union> set (leaves r)" z ?b n] by simp
    then have newl: "agree K (C a) (insert x (set (leaves l) \<union> set (leaves r)))"
      using CNode.prems(1) by (intro agree_insert) auto
    show ?thesis
    proof (cases "dbit (K x) (C a)")
      case True
      have "cb_ok K C (tins C (K x) (C x) x (dbit (K x) (C x)) r)"
        using CNode.prems True by (intro CNode.IH(2)) auto
      then show ?thesis using CNode.prems(1) True False newl by auto
    next
      case False
      have "cb_ok K C (tins C (K x) (C x) x (dbit (K x) (C x)) l)"
        using CNode.prems False by (intro CNode.IH(1)) auto
      then show ?thesis using CNode.prems(1) False \<open>\<not> C a > C x\<close> newl by auto
    qed
  qed
qed

lemma tdel_step:
  assumes "cb_ok K C (CNode a l r)" "x \<in> set (leaves (CNode a l r))"
  shows "x \<in> set (leaves (if dbit (K x) (C a) then r else l))"
  using assms by auto

lemma tdel_leaves:
  assumes "cb_ok K C t" "distinct (leaves t)" "x \<in> set (leaves t)" "t \<noteq> CLeaf x"
  shows "set (leaves (tdel C (K x) x t)) = set (leaves t) - {x} \<and> distinct (leaves (tdel C (K x) x t))"
  using assms
proof (induction t)
  case (CNode a l r)
  then show ?case
    using tdel_step [OF CNode.prems(1,3)] by (cases "dbit (K x) (C a)") auto
qed auto

lemma tdel_owners:
  assumes "cb_ok K C t" "distinct (owners t)" "x \<in> set (leaves t)" "t \<noteq> CLeaf x"
  shows "set (owners (tdel C (K x) x t)) = set (owners t) - {tgone C (K x) x t} \<and>
    distinct (owners (tdel C (K x) x t)) \<and> tgone C (K x) x t \<in> set (owners t)"
  using assms
proof (induction t)
  case (CNode a l r)
  then show ?case
    using tdel_step [OF CNode.prems(1,3)] by (cases "dbit (K x) (C a)") auto
qed auto

lemma tdel_leaves_subset: "set (leaves (tdel C d x t)) \<subseteq> set (leaves t)"
  by (induction t) auto

lemma cb_ok_tdel: "cb_ok K C t \<Longrightarrow> cb_ok K C (tdel C d x t)"
proof (induction t)
  case (CNode a l r)
  then show ?case
    using tdel_leaves_subset [of C d x l] tdel_leaves_subset [of C d x r]
    by (auto elim!: agree_mono)
qed auto

section \<open>The memory operations implement the tree operations\<close>

definition Kh :: "hcb_root \<Rightarrow> addr \<Rightarrow> digest" where
  "Kh m = oh_key (hcb_heap m)"

definition Yh :: "hcb_root \<Rightarrow> addr \<Rightarrow> hcb_y" where
  "Yh m a = (case hcb_heap m a of None \<Rightarrow> y_zero | Some oh \<Rightarrow> oh_y oh)"

definition Ch :: "hcb_root \<Rightarrow> addr \<Rightarrow> nat" where
  "Ch m a = unat (y_critbit (Yh m a))"

lemma hread_LeafOf: "hread m (LeafOf a s) = Some v \<longleftrightarrow>
  hcb_heap m a \<noteq> None \<and> y_leaf (Yh m a) s = v"
  by (auto simp: hread.simps Yh_def)

lemma is_tree_root: "is_tree m p t \<Longrightarrow> \<exists>v. hread m p = Some v \<and> v \<noteq> HNull"
  by (cases t) auto

lemma is_tree_leaf_heap: "is_tree m (LeafOf a s) t \<Longrightarrow> hcb_heap m a \<noteq> None"
  using is_tree_root by (fastforce simp: hread_LeafOf)

lemma is_tree_owner:
  "is_tree m p t \<Longrightarrow> a \<in> set (owners t) \<Longrightarrow> hcb_heap m a \<noteq> None"
proof (induction t arbitrary: p)
  case (CNode b l r)
  then show ?case
    using is_tree_leaf_heap [of m b False l] by auto
qed simp

definition wf_owners :: "hcb_root \<Rightarrow> ctree \<Rightarrow> bool" where
  "wf_owners m t \<longleftrightarrow> (\<forall>a \<in> set (owners t). y_wf (Yh m a))"

lemma wf_owners_simps [simp]:
  "wf_owners m (CLeaf a)" "wf_owners m (CNode a l r) \<longleftrightarrow> y_wf (Yh m a) \<and> wf_owners m l \<and> wf_owners m r"
  by (auto simp: wf_owners_def)

lemma y_side_Ch: "y_wf (Yh m a) \<Longrightarrow> y_side d (Yh m a) = Some (dbit d (Ch m a))"
  by (simp add: y_side_wf Ch_def)

lemma is_tree_CNode_heap:
  assumes "is_tree m p (CNode a l r)"
  obtains oh where "hcb_heap m a = Some oh" "oh_y oh = Yh m a"
  using is_tree_owner [OF assms, of a] by (auto simp: Yh_def)

lemma hcb_walk_tree:
  assumes "is_tree m p t" "wf_owners m t"
  shows "\<exists>p' n'. hcb_walk m d p n = Some (p', HNode (tfind (Ch m) d t), n')"
  using assms
proof (induction t arbitrary: p n)
  case (CLeaf a)
  then show ?case by (subst hcb_walk.simps) simp
next
  case (CNode a l r)
  obtain oh where oh: "hcb_heap m a = Some oh" "oh_y oh = Yh m a"
    using CNode.prems(1) by (rule is_tree_CNode_heap)
  have "hcb_walk m d p n = hcb_walk m d (LeafOf a (dbit d (Ch m a))) (n + 1)"
    using CNode.prems oh by (subst hcb_walk.simps) (simp add: y_side_Ch)
  then show ?case
    using CNode by (cases "dbit d (Ch m a)") simp_all
qed

text \<open>
  The state after the two writes that finish an insertion at location \<open>p'\<close>, seen through
  \<open>hread\<close>.
\<close>

definition inserted_at :: "hcb_root \<Rightarrow> hcb_root \<Rightarrow> addr \<Rightarrow> bool \<Rightarrow> hloc \<Rightarrow> bool" where
  "inserted_at m m' x s p' \<longleftrightarrow> (\<forall>q. hread m' q =
     (if q = p' then Some (HY x) else if q = LeafOf x (\<not> s) then hread m p'
      else if q = LeafOf x s then Some (HNode x) else hread m q))"

lemma inserted_at_here:
  assumes ins: "inserted_at m m' x s p" and t: "is_tree m p t"
    and x: "x \<notin> set (owners t)" "\<And>b. p \<noteq> LeafOf x b"
    and p: "\<And>a b. a \<in> set (owners t) \<Longrightarrow> p \<noteq> LeafOf a b"
  shows "is_tree m' p (mk_node x s t)"
proof -
  have "is_tree m' (LeafOf x (\<not> s)) t"
  proof (rule is_tree_frame [OF t])
    show "hread m' (LeafOf x (\<not> s)) = hread m p"
      using ins x(2) [of "\<not> s"] by (auto simp: inserted_at_def)
    show "hread m' (LeafOf a b) = hread m (LeafOf a b)" if "a \<in> set (owners t)" for a b
      using ins x(1) p [OF that] that by (auto simp: inserted_at_def)
  qed
  moreover have "hread m' p = Some (HY x)" "hread m' (LeafOf x s) = Some (HNode x)"
    using ins x(2) [of s] by (auto simp: inserted_at_def)
  ultimately show ?thesis by (cases s) (auto simp: mk_node_def)
qed

lemma hcb_walk2_tree:
  assumes "is_tree m p t" "wf_owners m t" "distinct (owners t)" "x \<notin> set (owners t)"
    and "\<And>b. p \<noteq> LeafOf x b" "\<And>a b. a \<in> set (owners t) \<Longrightarrow> p \<noteq> LeafOf a b"
  shows "\<exists>p' n'. hcb_walk2 m d c p n = Some (p', n') \<and>
     (p' = p \<or> (\<exists>a \<in> set (owners t). \<exists>b. p' = LeafOf a b)) \<and> hread m p' \<noteq> None \<and>
     (\<forall>m' s. inserted_at m m' x s p' \<longrightarrow> is_tree m' p (tins (Ch m) d (unat c) x s t))"
  using assms
proof (induction t arbitrary: p n)
  case (CLeaf a)
  have "hcb_walk2 m d c p n = Some (p, n)"
    using CLeaf.prems(1) by (subst hcb_walk2.simps) simp
  then show ?case
    using CLeaf.prems inserted_at_here [OF _ CLeaf.prems(1)] by auto
next
  case (CNode a l r)
  obtain oh where oh: "hcb_heap m a = Some oh" "oh_y oh = Yh m a"
    using CNode.prems(1) by (rule is_tree_CNode_heap)
  show ?case
  proof (cases "Ch m a > unat c")
    case True
    then have gt: "y_critbit (Yh m a) > c"
      by (simp add: Ch_def word_less_nat_alt)
    have "hcb_walk2 m d c p n = Some (p, n)"
      using CNode.prems(1) oh gt by (subst hcb_walk2.simps) simp
    moreover have "is_tree m' p (mk_node x s (CNode a l r))" if "inserted_at m m' x s p" for m' s
      using inserted_at_here [OF that CNode.prems(1,4)] CNode.prems(5,6) by blast
    ultimately show ?thesis using CNode.prems(1) True by simp
  next
    case False
    then have ngt: "\<not> y_critbit (Yh m a) > c"
      by (simp add: Ch_def word_less_nat_alt)
    define sd where "sd = dbit d (Ch m a)"
    define sub where "sub = (if sd then r else l)"
    define sib where "sib = (if sd then l else r)"
    have step: "hcb_walk2 m d c p n = hcb_walk2 m d c (LeafOf a sd) (n + 1)"
      using CNode.prems(1,2) oh ngt by (subst hcb_walk2.simps) (simp add: y_side_Ch sd_def)
    have subt: "is_tree m (LeafOf a sd) sub" "is_tree m (LeafOf a (\<not> sd)) sib"
      using CNode.prems(1) by (cases sd; simp add: sub_def sib_def)+
    have d: "distinct (owners sub)" "wf_owners m sub" "x \<notin> set (owners sub)" "a \<notin> set (owners sub)"
      "a \<notin> set (owners sib)" "set (owners sub) \<inter> set (owners sib) = {}" "x \<noteq> a" "x \<notin> set (owners sib)"
      "set (owners sub) \<subseteq> set (owners (CNode a l r))"
      using CNode.prems(2-4) by (auto simp: sub_def sib_def)
    have sl: "\<And>b. LeafOf a sd \<noteq> LeafOf x b" "\<And>z b. z \<in> set (owners sub) \<Longrightarrow> LeafOf a sd \<noteq> LeafOf z b"
      using d(4,7) by auto
    have "\<exists>p' n'. hcb_walk2 m d c (LeafOf a sd) (n + 1) = Some (p', n') \<and>
      (p' = LeafOf a sd \<or> (\<exists>a \<in> set (owners sub). \<exists>b. p' = LeafOf a b)) \<and> hread m p' \<noteq> None \<and>
      (\<forall>m' s. inserted_at m m' x s p' \<longrightarrow> is_tree m' (LeafOf a sd) (tins (Ch m) d (unat c) x s sub))"
    proof (cases sd)
      case True
      then have e: "sub = r" by (simp add: sub_def)
      show ?thesis unfolding e
        by (rule CNode.IH(2)) (use subt(1) d(1-3) sl in \<open>simp_all add: e\<close>)
    next
      case False
      then have e: "sub = l" by (simp add: sub_def)
      show ?thesis unfolding e
        by (rule CNode.IH(1)) (use subt(1) d(1-3) sl in \<open>simp_all add: e\<close>)
    qed
    then obtain p' n' where IH: "hcb_walk2 m d c (LeafOf a sd) (n + 1) = Some (p', n')"
      "p' = LeafOf a sd \<or> (\<exists>a \<in> set (owners sub). \<exists>b. p' = LeafOf a b)" "hread m p' \<noteq> None"
      "\<And>m' s. inserted_at m m' x s p' \<Longrightarrow> is_tree m' (LeafOf a sd) (tins (Ch m) d (unat c) x s sub)"
      by blast
    have out: "p' \<noteq> p" "p' \<noteq> LeafOf a (\<not> sd)" "\<And>b e. b \<in> set (owners sib) \<Longrightarrow> p' \<noteq> LeafOf b e"
      using IH(2) CNode.prems(6) d by auto
    have "is_tree m' p (tins (Ch m) d (unat c) x s (CNode a l r))" if ins: "inserted_at m m' x s p'" for m' s
    proof -
      have "hread m' p = hread m p"
        using ins out(1) CNode.prems(5) by (auto simp: inserted_at_def)
      moreover have "is_tree m' (LeafOf a (\<not> sd)) sib"
        by (rule is_tree_frame [OF subt(2)])
          (use ins out d in \<open>auto simp: inserted_at_def\<close>)
      ultimately show ?thesis
        using CNode.prems(1) IH(4) [OF ins] False
        by (cases sd) (auto simp: sub_def sib_def sd_def [symmetric])
    qed
    moreover have "p' = p \<or> (\<exists>a \<in> set (owners (CNode a l r)). \<exists>b. p' = LeafOf a b)"
      using IH(2) d(9) by auto
    ultimately show ?thesis
      using step IH(1,3)
      by (intro exI [of _ p'] exI [of _ n']) (simp del: tins.simps owners.simps)
  qed
qed

lemma Yh_upd: "hcb_heap m' = (hcb_heap m)(a \<mapsto> oh) \<Longrightarrow> Yh m' b = (if b = a then oh_y oh else Yh m b)"
  by (simp add: Yh_def)

lemma oh_update_Some:
  "hcb_heap m a = Some oh \<Longrightarrow> oh_update a f m = Some (m\<lparr>hcb_heap := (hcb_heap m)(a \<mapsto> f oh)\<rparr>)"
  by (simp add: oh_update_def)

text \<open>What writing a leaf pointer leaves alone: everything but the leaf pointers themselves.\<close>

definition same_but_leaves :: "hcb_root \<Rightarrow> hcb_root \<Rightarrow> bool" where
  "same_but_leaves m m' \<longleftrightarrow> dom (hcb_heap m') = dom (hcb_heap m) \<and> Kh m' = Kh m \<and>
     oh_ref (hcb_heap m') = oh_ref (hcb_heap m) \<and>
     (\<forall>a. map_option oh_objcs (hcb_heap m' a) = map_option oh_objcs (hcb_heap m a) \<and>
          map_option oh_waitinglist (hcb_heap m' a) = map_option oh_waitinglist (hcb_heap m a)) \<and>
     (\<forall>a. y_critbit (Yh m' a) = y_critbit (Yh m a) \<and> (y_wf (Yh m' a) = y_wf (Yh m a)))"

lemma same_but_leaves_trans:
  "same_but_leaves m1 m2 \<Longrightarrow> same_but_leaves m2 m3 \<Longrightarrow> same_but_leaves m1 m3"
  by (simp add: same_but_leaves_def)

lemma same_but_leaves_refl [simp]:
  "same_but_leaves m m" "same_but_leaves m (m\<lparr>cmps := n\<rparr>)" "same_but_leaves m (m\<lparr>origo := p\<rparr>)"
  by (simp_all add: same_but_leaves_def Kh_def Yh_def)

lemma Yh_cmps [simp]: "Yh (m\<lparr>cmps := n\<rparr>) = Yh m" "Yh (m\<lparr>origo := p\<rparr>) = Yh m"
  and Kh_cmps [simp]: "Kh (m\<lparr>cmps := n\<rparr>) = Kh m" "Kh (m\<lparr>origo := p\<rparr>) = Kh m"
  and Ch_cmps [simp]: "Ch (m\<lparr>cmps := n\<rparr>) = Ch m" "Ch (m\<lparr>origo := p\<rparr>) = Ch m"
  by (simp_all add: Yh_def Kh_def Ch_def fun_eq_iff)

lemma same_but_leaves_Ch: "same_but_leaves m m' \<Longrightarrow> Ch m' = Ch m"
  by (simp add: same_but_leaves_def Ch_def fun_eq_iff)

lemma y_wf_leaves [simp]:
  "y_wf (y\<lparr>y_leaf0 := p\<rparr>) = y_wf y" "y_wf (y\<lparr>y_leaf1 := p\<rparr>) = y_wf y"
  by (simp_all add: y_wf_def)

lemma hwrite_Some:
  assumes "hread m p \<noteq> None"
  shows "\<exists>m'. hwrite m p v = Some m' \<and> same_but_leaves m m'"
proof (cases p)
  case Origo
  then show ?thesis by simp
next
  case (LeafOf a s)
  then obtain oh where oh: "hcb_heap m a = Some oh"
    using assms by (auto simp: hread.simps)
  have "same_but_leaves m (m\<lparr>hcb_heap := (hcb_heap m)(a \<mapsto> oh\<lparr>oh_y := y_set_leaf (oh_y oh) s v\<rparr>)\<rparr>)"
    using oh by (auto simp: same_but_leaves_def Kh_def Yh_def oh_key_def oh_ref_def fun_eq_iff)
  then show ?thesis using LeafOf oh by (simp add: oh_update_Some)
qed

subsection \<open>Insertion\<close>

lemma hcb_insert_found:
  assumes "hcb_heap m oh = Some o1" "is_tree m Origo t" "wf_owners m t" "cb_ok (Kh m) (Ch m) t"
    and "x \<in> set (leaves t)" "Kh m x = oh_digest o1" "hcb_heap m x \<noteq> None"
  shows "\<exists>n. hcb_insert m oh lk = Some (Some x, m\<lparr>cmps := n\<rparr>)"
proof -
  obtain p' n' where w: "hcb_walk m (oh_digest o1) Origo (cmps m) =
      Some (p', HNode (tfind (Ch m) (oh_digest o1) t), n')"
    using hcb_walk_tree [OF assms(2,3)] by blast
  have f: "tfind (Ch m) (oh_digest o1) t = x"
    using tfind_member [OF assms(4,5)] assms(6) by simp
  obtain ox where ox: "hcb_heap m x = Some ox" "oh_digest ox = oh_digest o1"
    using assms(6,7) by (auto simp: Kh_def oh_key_def)
  have "origo m \<noteq> HNull"
    using is_tree_root [OF assms(2)] by simp
  then show ?thesis
    using assms(1) w f ox by (auto simp: hcb_insert_def Let_def)
qed

lemma hcb_insert_absent_nolock:
  assumes "hcb_heap m oh = Some o1" "is_tree m Origo t" "wf_owners m t"
    and "\<And>x. x \<in> set (leaves t) \<Longrightarrow> Kh m x \<noteq> oh_digest o1 \<and> hcb_heap m x \<noteq> None"
  shows "\<exists>n. hcb_insert m oh False = Some (None, m\<lparr>cmps := n\<rparr>)"
proof -
  obtain p' n' where w: "hcb_walk m (oh_digest o1) Origo (cmps m) =
      Some (p', HNode (tfind (Ch m) (oh_digest o1) t), n')"
    using hcb_walk_tree [OF assms(2,3)] by blast
  let ?b = "tfind (Ch m) (oh_digest o1) t"
  obtain ob where ob: "hcb_heap m ?b = Some ob" "oh_digest ob \<noteq> oh_digest o1"
    using assms(4) [OF tfind_leaves, of "Ch m" "oh_digest o1"] by (auto simp: Kh_def oh_key_def)
  have "origo m \<noteq> HNull"
    using is_tree_root [OF assms(2)] by simp
  then show ?thesis
    using assms(1) w ob by (auto simp: hcb_insert_def Let_def)
qed

text \<open>The state an insertion reaches.\<close>

definition insert_result :: "hcb_root \<Rightarrow> hcb_root \<Rightarrow> addr \<Rightarrow> ctree \<Rightarrow> bool" where
  "insert_result m m' oh t' \<longleftrightarrow> is_tree m' Origo t' \<and> wf_owners m' t' \<and> cb_ok (Kh m') (Ch m') t' \<and>
     dom (hcb_heap m') = dom (hcb_heap m) \<and> Kh m' = Kh m \<and>
     oh_ref (hcb_heap m') = oh_ref (hcb_heap m) \<and>
     (\<forall>a. map_option oh_objcs (hcb_heap m' a) = map_option oh_objcs (hcb_heap m a) \<and>
          map_option oh_waitinglist (hcb_heap m' a) = map_option oh_waitinglist (hcb_heap m a)) \<and>
     (\<forall>a s. a \<notin> set (owners t') \<longrightarrow> hread m' (LeafOf a s) = hread m (LeafOf a s))"

text \<open>The memory before the second walk: the new inner node is written into \<open>oh\<close>.\<close>

definition with_y2 :: "hcb_root \<Rightarrow> u32 \<Rightarrow> addr \<Rightarrow> hcb_objhead \<Rightarrow> hcb_y \<Rightarrow> bool \<Rightarrow> hcb_root" where
  "with_y2 m n oh o1 y2 s = m\<lparr>cmps := n, hcb_heap := (hcb_heap m)
      (oh \<mapsto> o1\<lparr>oh_y := y_set_leaf y2 s (HNode oh)\<rparr>)\<rparr>"

lemma with_y2_read:
  assumes "y_leaf0 y2 = HNull" "y_leaf1 y2 = HNull"
  shows "hread (with_y2 m n oh o1 y2 s) q = (if q = LeafOf oh s then Some (HNode oh)
      else if q = LeafOf oh (\<not> s) then Some HNull else hread m q)"
  by (cases q) (auto simp: with_y2_def hread.simps, simp add: y_leaf_def assms)

lemma with_y2_Yh: "Yh (with_y2 m n oh o1 y2 s) a = (if a = oh then y_set_leaf y2 s (HNode oh) else Yh m a)"
  by (simp add: with_y2_def Yh_def)

lemma with_y2_same:
  assumes "hcb_heap m oh = Some o1"
  shows "Kh (with_y2 m n oh o1 y2 s) = Kh m"
    "dom (hcb_heap (with_y2 m n oh o1 y2 s)) = dom (hcb_heap m)"
    "oh_ref (hcb_heap (with_y2 m n oh o1 y2 s)) = oh_ref (hcb_heap m)"
    "map_option oh_objcs (hcb_heap (with_y2 m n oh o1 y2 s) a) = map_option oh_objcs (hcb_heap m a)"
    "map_option oh_waitinglist (hcb_heap (with_y2 m n oh o1 y2 s) a) =
       map_option oh_waitinglist (hcb_heap m a)"
  using assms by (auto simp: with_y2_def Kh_def oh_key_def oh_ref_def fun_eq_iff)

text \<open>The second walk and the two writes.\<close>

lemma hcb_insert_writes:
  fixes n :: u32 and s :: bool and o1 :: hcb_objhead
  assumes t: "is_tree m Origo t" "wf_owners m t" "distinct (owners t)" "oh \<notin> set (owners t)"
    and y2: "y_leaf0 y2 = HNull" "y_leaf1 y2 = HNull"
  defines "m1 \<equiv> with_y2 m n oh o1 y2 s"
  shows "\<exists>p n2 q m2 m3. hcb_walk2 m1 d c Origo n = Some (p, n2) \<and> hread m1 p = Some q \<and>
     hwrite m1 (LeafOf oh (\<not> s)) q = Some m2 \<and> hwrite m2 p (HY oh) = Some m3 \<and>
     same_but_leaves m1 m3 \<and> is_tree m3 Origo (tins (Ch m1) d (unat c) oh s t) \<and>
     (\<forall>a e. a \<notin> insert oh (set (owners t)) \<longrightarrow> hread m3 (LeafOf a e) = hread m (LeafOf a e))"
proof -
  note h1 = with_y2_read [OF y2, of m n oh o1 s, folded m1_def]
  have t1: "is_tree m1 Origo t"
    by (rule is_tree_frame [OF t(1)]) (use t(4) h1 [of Origo] h1 in \<open>auto simp: h1 simp del: hread.simps\<close>)
  have wf1: "wf_owners m1 t"
    using t(2,4) by (auto simp: wf_owners_def m1_def with_y2_Yh)
  obtain p n2 where w2: "hcb_walk2 m1 d c Origo n = Some (p, n2)"
      "p = Origo \<or> (\<exists>a \<in> set (owners t). \<exists>b. p = LeafOf a b)" "hread m1 p \<noteq> None"
      "\<And>m' s. inserted_at m1 m' oh s p \<Longrightarrow> is_tree m' Origo (tins (Ch m1) d (unat c) oh s t)"
    using hcb_walk2_tree [OF t1 wf1 t(3,4), of d c n] by auto
  obtain q where q: "hread m1 p = Some q" using w2(3) by blast
  obtain m2 where m2: "hwrite m1 (LeafOf oh (\<not> s)) q = Some m2" "same_but_leaves m1 m2"
    using hwrite_Some [of m1 "LeafOf oh (\<not> s)"] h1 by fastforce
  have pn: "p \<noteq> LeafOf oh e" for e using w2(2) t(4) by auto
  have "hread m2 p \<noteq> None"
    using hread_write [OF m2(1)] q pn by simp
  then obtain m3 where m3: "hwrite m2 p (HY oh) = Some m3" "same_but_leaves m2 m3"
    using hwrite_Some by blast
  note hw = hread_write [OF m2(1)] hread_write [OF m3(1)]
  have ins: "inserted_at m1 m3 oh s p"
    using hw q by (auto simp: inserted_at_def h1)
  have "hread m3 (LeafOf a e) = hread m (LeafOf a e)" if "a \<notin> insert oh (set (owners t))" for a e
    using that w2(2) hw by (auto simp: h1)
  then show ?thesis
    using w2(1) q m2 m3 w2(4) [OF ins] same_but_leaves_trans [OF m2(2) m3(2)] by blast
qed

lemma tins_cong:
  "(\<And>a. a \<in> set (owners t) \<Longrightarrow> C' a = C a) \<Longrightarrow> tins C' d c x s t = tins C d c x s t"
  by (induction t) auto

lemma tfind_cong:
  "(\<And>a. a \<in> set (owners t) \<Longrightarrow> C' a = C a) \<Longrightarrow> tfind C' d t = tfind C d t"
  by (induction t) auto

lemma hcb_insert_new:
  assumes o1: "hcb_heap m oh = Some o1" and len: "length (oh_digest o1) = DIGEST_LEN"
    and t: "is_tree m Origo t" "wf_owners m t" "distinct (owners t)" "cb_ok (Kh m) (Ch m) t"
    and out: "oh \<notin> set (owners t)"
    and new: "\<And>x. x \<in> set (leaves t) \<Longrightarrow> Kh m x \<noteq> oh_digest o1 \<and> hcb_heap m x \<noteq> None"
  shows "\<exists>m' c s. hcb_insert m oh True = Some (Some oh, m') \<and>
           insert_result m m' oh (tins (Ch m) (oh_digest o1) c oh s t)"
proof -
  let ?d = "oh_digest o1"
  define b where "b = tfind (Ch m) ?d t"
  obtain p' n' where w: "hcb_walk m ?d Origo (cmps m) = Some (p', HNode b, n')"
    unfolding b_def using hcb_walk_tree [OF t(1,2)] by blast
  have bl: "b \<in> set (leaves t)" unfolding b_def by (rule tfind_leaves)
  obtain ob where ob: "hcb_heap m b = Some ob" "oh_digest ob \<noteq> ?d" "Kh m b = oh_digest ob"
    using new [OF bl] by (auto simp: Kh_def oh_key_def)
  have lb: "length (oh_digest ob) = DIGEST_LEN"
    using cb_ok_length [OF t(4) bl] ob(3) by simp
  obtain y2 where y2: "hcb_crit_bit ?d (oh_digest ob) y_zero = Some (y_critbit y2, y2)" "y_wf y2"
    "y_leaf0 y2 = HNull" "y_leaf1 y2 = HNull"
    "dbit ?d (unat (y_critbit y2)) \<noteq> dbit (oh_digest ob) (unat (y_critbit y2))"
    "\<And>n. n < unat (y_critbit y2) \<Longrightarrow> dbit ?d n = dbit (oh_digest ob) n"
    using crit_bit_first [OF len lb ob(2) [symmetric], of y_zero] by (auto simp: y_zero_def)
  define c where "c = y_critbit y2"
  define s where "s = dbit ?d (unat c)"
  define m1 where "m1 = with_y2 m n' oh o1 y2 s"
  obtain p n2 q m2 m3 where m: "hcb_walk2 m1 ?d c Origo n' = Some (p, n2)" "hread m1 p = Some q"
     "hwrite m1 (LeafOf oh (\<not> s)) q = Some m2" "hwrite m2 p (HY oh) = Some m3"
     "same_but_leaves m1 m3" "is_tree m3 Origo (tins (Ch m1) ?d (unat c) oh s t)"
     "\<And>a e. a \<notin> insert oh (set (owners t)) \<Longrightarrow> hread m3 (LeafOf a e) = hread m (LeafOf a e)"
    using hcb_insert_writes [OF t(1-3) out y2(3,4), of n' o1 s ?d c] unfolding m1_def by blast
  have run: "hcb_insert m oh True = Some (Some oh, m3\<lparr>cmps := n2\<rparr>)"
    using o1 w ob y2(1,2) is_tree_root [OF t(1)] m(1-4)
    by (auto simp: hcb_insert_def Let_def oh_update_Some m1_def with_y2_def c_def s_def y_side_wf)
  define t' where "t' = tins (Ch m) ?d (unat c) oh s t"
  have C1: "Ch m1 a = (if a = oh then unat c else Ch m a)" for a
    by (simp add: Ch_def m1_def with_y2_Yh c_def)
  then have C1o: "a \<in> set (owners t) \<Longrightarrow> Ch m1 a = Ch m a" for a using out by auto
  have tt: "tins (Ch m1) ?d (unat c) oh s t = t'"
    unfolding t'_def by (rule tins_cong) (rule C1o)
  have Kd: "Kh m oh = ?d" using o1 by (simp add: Kh_def)
  have fb: "tfind (Ch m1) ?d t = b"
    unfolding b_def by (rule tfind_cong) (rule C1o)
  have "cb_ok (Kh m) (Ch m1) (tins (Ch m1) (Kh m oh) (Ch m1 oh) oh (dbit (Kh m oh) (Ch m1 oh)) t)"
    by (rule cb_ok_tins [OF cb_ok_cong [OF t(4)]])
      (use C1o C1 [of oh] Kd fb ob(3) y2(5,6) len in \<open>auto simp: c_def\<close>)
  then have cb: "cb_ok (Kh m) (Ch m1) t'"
    using tt by (simp add: Kd C1 s_def)
  have wf: "y_wf (Yh m1 a)" if "a \<in> set (owners t')" for a
    using that t(2) y2(2) by (auto simp: t'_def m1_def with_y2_Yh wf_owners_def)
  have "insert_result m (m3\<lparr>cmps := n2\<rparr>) oh t'"
    using m(5-7) tt cb wf with_y2_same [OF o1, of n' y2 s, folded m1_def] same_but_leaves_Ch [OF m(5)]
    by (auto simp: insert_result_def same_but_leaves_def wf_owners_def t'_def)
  then show ?thesis using run unfolding t'_def by blast
qed

subsection \<open>Deletion\<close>

text \<open>The state after taking the inner node of \<open>g\<close> out, seen from location \<open>p\<close>.\<close>

definition delete_result :: "hcb_root \<Rightarrow> hcb_root \<Rightarrow> hloc \<Rightarrow> ctree \<Rightarrow> addr \<Rightarrow> ctree \<Rightarrow> bool" where
  "delete_result m m' p t g t' \<longleftrightarrow> same_but_leaves m m' \<and> is_tree m' p t' \<and>
     (\<forall>s. hread m' (LeafOf g s) = Some HNull) \<and>
     (\<forall>q. q \<noteq> p \<longrightarrow> (\<forall>a \<in> set (owners t). \<forall>s. q \<noteq> LeafOf a s) \<longrightarrow> hread m' q = hread m q)"

lemma hcb_delete_here:
  assumes t: "is_tree m p sib" "hcb_heap m a = Some oy" "a \<notin> set (owners sib)"
  defines "m' \<equiv> m\<lparr>hcb_heap := (hcb_heap m)(a \<mapsto>
                  oy\<lparr>oh_y := oh_y oy\<lparr>y_leaf0 := HNull, y_leaf1 := HNull\<rparr>\<rparr>)\<rparr>"
  assumes p: "\<And>s. p \<noteq> LeafOf a s"
  shows "is_tree m' p sib" "same_but_leaves m m'"
    "hread m' q = (if q = LeafOf a False \<or> q = LeafOf a True then Some HNull else hread m q)"
proof -
  show h: "hread m' q = (if q = LeafOf a False \<or> q = LeafOf a True then Some HNull else hread m q)" for q
    using t(2) by (cases q) (auto simp: m'_def hread.simps y_leaf_def)
  show "is_tree m' p sib"
    by (rule is_tree_frame [OF t(1)]) (use h p t(3) in auto)
  show "same_but_leaves m m'"
    using t(2) by (auto simp: m'_def same_but_leaves_def Kh_def Yh_def oh_key_def oh_ref_def fun_eq_iff)
qed

lemma hcb_delete_loop_tree:
  assumes "is_tree m p t" "wf_owners m t" "cb_ok (Kh m) (Ch m) t" "distinct (owners t)"
    and "x \<in> set (leaves t)" "t \<noteq> CLeaf x" "Kh m x = d"
    and "\<And>a b. a \<in> set (owners t) \<Longrightarrow> p \<noteq> LeafOf a b"
  shows "\<exists>m'. hcb_delete_loop m x d p = Some m' \<and>
     delete_result m m' p t (tgone (Ch m) d x t) (tdel (Ch m) d x t)"
  using assms
proof (induction t arbitrary: m p)
  case (CLeaf a)
  then show ?case by simp
next
  case (CNode a l r)
  obtain oy where oy: "hcb_heap m a = Some oy" "oh_y oy = Yh m a"
    using CNode.prems(1) by (rule is_tree_CNode_heap)
  define sd where "sd = dbit d (Ch m a)"
  define sub where "sub = (if sd then r else l)"
  define sib where "sib = (if sd then l else r)"
  have subt: "is_tree m (LeafOf a sd) sub" "is_tree m (LeafOf a (\<not> sd)) sib"
    using CNode.prems(1) by (cases sd; simp add: sub_def sib_def)+
  have d: "distinct (owners sub)" "wf_owners m sub" "cb_ok (Kh m) (Ch m) sub" "a \<notin> set (owners sub)"
    "a \<notin> set (owners sib)" "set (owners sub) \<inter> set (owners sib) = {}"
    "set (owners (CNode a l r)) = insert a (set (owners sub) \<union> set (owners sib))"
    using CNode.prems(2-4) by (auto simp: sub_def sib_def)
  have xs: "x \<in> set (leaves sub)"
    using CNode.prems(3,5,7) by (auto simp: sub_def sd_def)
  have ptr: "hread m (LeafOf a s) = Some (y_leaf (Yh m a) s)" for s
    using oy by (simp add: hread_LeafOf)
  have unf: "hcb_delete_loop m x d p = (if y_leaf (Yh m a) sd = HNode x
      then Option.bind (hwrite m p (y_leaf (Yh m a) (\<not> sd))) (\<lambda>m.
             oh_update a (\<lambda>x. x\<lparr>oh_y := oh_y x\<lparr>y_leaf0 := HNull, y_leaf1 := HNull\<rparr>\<rparr>) m)
      else hcb_delete_loop (m\<lparr>cmps := cmps m + 1\<rparr>) x d (LeafOf a sd))"
    using CNode.prems(1,2) oy by (subst hcb_delete_loop.simps) (simp add: y_side_Ch sd_def)
  have tree: "tdel (Ch m) d x (CNode a l r) = (if sub = CLeaf x then sib
      else if sd then CNode a l (tdel (Ch m) d x r) else CNode a (tdel (Ch m) d x l) r)"
    "tgone (Ch m) d x (CNode a l r) = (if sub = CLeaf x then a else tgone (Ch m) d x sub)"
    by (auto simp: sub_def sib_def sd_def)
  show ?case
  proof (cases "sub = CLeaf x")
    case True
    then have lf: "y_leaf (Yh m a) sd = HNode x" using subt(1) ptr by simp
    obtain m1 where m1: "hwrite m p (y_leaf (Yh m a) (\<not> sd)) = Some m1" "same_but_leaves m m1"
      using hwrite_Some [of m p] CNode.prems(1) by auto
    note h1 = hread_write [OF m1(1)]
    have "hcb_heap m1 a \<noteq> None"
      using m1(2) oy(1) by (auto simp: same_but_leaves_def)
    then obtain oy1 where oy1: "hcb_heap m1 a = Some oy1" by blast
    have pa: "p \<noteq> LeafOf a s" for s using CNode.prems(8) by simp
    have po: "p \<noteq> LeafOf b s" if "b \<in> set (owners sib)" for b s
      using CNode.prems(8) [of b] d(7) that by blast
    have "is_tree m1 p sib"
      by (rule is_tree_frame [OF subt(2)]) (use h1 ptr po in auto)
    note here = hcb_delete_here [OF this oy1 d(5) pa]
    define m' where "m' = m1\<lparr>hcb_heap := (hcb_heap m1)(a \<mapsto>
        oy1\<lparr>oh_y := oh_y oy1\<lparr>y_leaf0 := HNull, y_leaf1 := HNull\<rparr>\<rparr>)\<rparr>"
    note here = here [folded m'_def]
    have "hread m' (LeafOf a s) = Some HNull" for s
      using here(3) [of "LeafOf a s"] by (cases s) simp_all
    moreover have "hread m' q = hread m q" if "q \<noteq> p" "\<forall>b \<in> set (owners (CNode a l r)). \<forall>s. q \<noteq> LeafOf b s" for q
      using here(3) [of q] h1 [of q] that by (auto split: if_splits)
    ultimately have "delete_result m m' p (CNode a l r) a sib"
      using here(1) same_but_leaves_trans [OF m1(2) here(2)] unfolding delete_result_def by blast
    moreover have "hcb_delete_loop m x d p = Some m'"
      using lf unf m1(1) oy1 by (simp add: oh_update_Some m'_def)
    ultimately show ?thesis using True tree by auto
  next
    case False
    then have lf: "y_leaf (Yh m a) sd \<noteq> HNode x"
      using subt(1) ptr xs by (cases sub) auto
    let ?m = "m\<lparr>cmps := cmps m + 1\<rparr>"
    have pre: "is_tree ?m (LeafOf a sd) sub" "wf_owners ?m sub" "cb_ok (Kh ?m) (Ch ?m) sub"
      "Kh ?m x = d" "\<And>z b. z \<in> set (owners sub) \<Longrightarrow> LeafOf a sd \<noteq> LeafOf z b"
      using subt(1) d(2-4) CNode.prems(7) by (auto simp: wf_owners_def)
    have "\<exists>m'. hcb_delete_loop ?m x d (LeafOf a sd) = Some m' \<and>
       delete_result ?m m' (LeafOf a sd) sub (tgone (Ch ?m) d x sub) (tdel (Ch ?m) d x sub)"
    proof (cases sd)
      case True
      then have e: "sub = r" by (simp add: sub_def)
      show ?thesis unfolding e
        by (rule CNode.IH(2)) (use pre d(1) xs False in \<open>simp_all add: e\<close>)
    next
      case False
      then have e: "sub = l" by (simp add: sub_def)
      show ?thesis unfolding e
        by (rule CNode.IH(1)) (use pre d(1) xs \<open>sub \<noteq> CLeaf x\<close> in \<open>simp_all add: e\<close>)
    qed
    then obtain m' where m': "hcb_delete_loop ?m x d (LeafOf a sd) = Some m'"
       "same_but_leaves ?m m'" "is_tree m' (LeafOf a sd) (tdel (Ch m) d x sub)"
       "\<And>s. hread m' (LeafOf (tgone (Ch m) d x sub) s) = Some HNull"
       "\<And>q. q \<noteq> LeafOf a sd \<Longrightarrow> (\<And>b s. b \<in> set (owners sub) \<Longrightarrow> q \<noteq> LeafOf b s) \<Longrightarrow> hread m' q = hread m q"
      by (auto simp: delete_result_def)
    have "is_tree m' (LeafOf a (\<not> sd)) sib"
      by (rule is_tree_frame [OF subt(2)]) (rule m'(5), use d in auto)+
    moreover have "hread m' p = hread m p"
      using CNode.prems(8) d(7) by (intro m'(5)) auto
    moreover have "same_but_leaves m m'"
      using same_but_leaves_trans [OF _ m'(2), of m] by simp
    ultimately have "delete_result m m' p (CNode a l r) (tgone (Ch m) d x sub)
        (if sd then CNode a l (tdel (Ch m) d x r) else CNode a (tdel (Ch m) d x l) r)"
      using CNode.prems(1) m'(3-5) d(7) by (auto simp: delete_result_def sub_def sib_def)
    then show ?thesis
      unfolding tree using unf lf m'(1) False by auto
  qed
qed

end
