(* ===== verification/Critbit.thy ===== *)
theory Critbit
  imports Critbit_Tree
begin

text \<open>
  The hash implementation of \<open>bin/varnishd/hash_critbit.c\<close> on top of the tree: reference counts,
  lookup without and with the lock, the list of cooling object heads and the cleaner that frees them.
  The invariant \<open>hcb_inv\<close> ties the memory to a tree and the counts to the tree's leaves; with it the
  implementation meets the contract \<open>hash_slinger\<close>.
\<close>

unbundle bit_operations_syntax


section \<open>Reference counts, the cool list and the cleaner\<close>

text \<open>
  \<open>laylow\<close> holds the object heads that are out of the tree and wait for lock-free readers to go
  away.  The counters are the \<open>VSL_stats\<close> fields of the same names and the worker's
  \<open>n_objecthead\<close>.
\<close>

record hcb =
  hcb_tree :: hcb_root
  laylow :: "addr list"
  n_hcb_nolock :: nat
  n_hcb_insert :: nat
  n_hcb_lock :: nat
  n_objecthead :: int

definition COOL_DURATION :: nat where
  "COOL_DURATION = 60"

definition set_oh :: "hcb \<Rightarrow> addr \<Rightarrow> hcb_objhead \<Rightarrow> hcb" where
  "set_oh st a oh =
     st\<lparr>hcb_tree := (hcb_tree st)\<lparr>hcb_heap := (hcb_heap (hcb_tree st))(a \<mapsto> oh)\<rparr>\<rparr>"

definition hcb_deref :: "hcb \<Rightarrow> addr \<Rightarrow> (bool \<times> hcb) option" where
  "hcb_deref st oh = do {
     o1 \<leftarrow> hcb_heap (hcb_tree st) oh;
     chk (oh_refcnt o1 > 0);
     st \<leftarrow> (if oh_refcnt o1 = 1 then do {
              m \<leftarrow> hcb_delete (hcb_tree st) oh;
              o2 \<leftarrow> hcb_heap m oh;
              chk (oh_objcs o2 = []);
              chk (oh_waitinglist o2 = []);
              let st = st\<lparr>hcb_tree := m\<rparr>;
              let st = set_oh st oh (o2\<lparr>oh_digest := (oh_digest o2)[0 := 0]\<rparr>);
              Some (st\<lparr>laylow := laylow st @ [oh]\<rparr>) }
            else Some st);
     o3 \<leftarrow> hcb_heap (hcb_tree st) oh;
     Some (True, set_oh st oh (o3\<lparr>oh_refcnt := oh_refcnt o3 - 1\<rparr>)) }"

text \<open>The second attempt of \<open>hcb_lookup\<close>, with \<open>hcb_mtx\<close> held.\<close>

definition hcb_lookup_locked :: "hcb \<Rightarrow> addr \<Rightarrow> (addr \<times> hcb) option" where
  "hcb_lookup_locked st noh = do {
     on \<leftarrow> hcb_heap (hcb_tree st) noh;
     chk (oh_refcnt on = 1);
     (r, m) \<leftarrow> hcb_insert (hcb_tree st) noh True;
     oh \<leftarrow> r;
     let st = st\<lparr>hcb_tree := m\<rparr>;
     o1 \<leftarrow> hcb_heap m oh;
     if oh = noh then do {
       chk (oh_refcnt o1 > 0);
       Some (oh, st\<lparr>n_hcb_insert := n_hcb_insert st + 1\<rparr>) }
     else do {
       chk (oh_refcnt o1 > 0);
       Some (oh, set_oh (st\<lparr>n_hcb_lock := n_hcb_lock st + 1\<rparr>) oh
                   (o1\<lparr>oh_refcnt := oh_refcnt o1 + 1\<rparr>)) } }"

definition hcb_lookup :: "hcb \<Rightarrow> addr \<Rightarrow> (addr \<times> hcb) option" where
  "hcb_lookup st noh = do {
     (r, m) \<leftarrow> hcb_insert (hcb_tree st) noh False;
     let st = st\<lparr>hcb_tree := m\<rparr>;
     (case r of
        None \<Rightarrow> hcb_lookup_locked st noh
      | Some oh \<Rightarrow> do {
          chk (oh \<noteq> noh);
          o1 \<leftarrow> hcb_heap m oh;
          if oh_refcnt o1 \<noteq> 0
          then Some (oh, set_oh (st\<lparr>n_hcb_nolock := n_hcb_nolock st + 1\<rparr>) oh
                           (o1\<lparr>oh_refcnt := oh_refcnt o1 + 1\<rparr>))
          else hcb_lookup_locked st noh }) }"

text \<open>\<open>HSH_DeleteObjHead\<close> of \<open>cache_hash.c\<close> on this heap: the object head is freed.\<close>

definition hcb_DeleteObjHead :: "hcb \<Rightarrow> addr \<Rightarrow> hcb option" where
  "hcb_DeleteObjHead st oh = do {
     o1 \<leftarrow> hcb_heap (hcb_tree st) oh;
     chk (oh_refcnt o1 = 0);
     chk (oh_objcs o1 = []);
     Some (st\<lparr>n_objecthead := n_objecthead st - 1,
              hcb_tree := (hcb_tree st)\<lparr>hcb_heap := (hcb_heap (hcb_tree st))(oh := None)\<rparr>\<rparr>) }"

text \<open>One round of the cleaner thread over the cool list (the body of its endless loop).\<close>

fun hcb_clean :: "hcb \<Rightarrow> addr list \<Rightarrow> hcb option" where
  "hcb_clean st [] = Some st"
| "hcb_clean st (oh # ohs) = do {
     o1 \<leftarrow> hcb_heap (hcb_tree st) oh;
     chk (oh_refcnt o1 = 0);
     if y_leaf0 (oh_y o1) \<noteq> HNull \<or> y_leaf1 (oh_y o1) \<noteq> HNull then hcb_clean st ohs
     else do {
       let c = oh_digest o1 ! 0 + 1;
       let st = set_oh st oh (o1\<lparr>oh_digest := (oh_digest o1)[0 := c]\<rparr>);
       if unat c > COOL_DURATION
       then do {
         st \<leftarrow> hcb_DeleteObjHead (st\<lparr>laylow := remove1 oh (laylow st)\<rparr>) oh;
         hcb_clean st ohs }
       else hcb_clean st ohs } }"

definition hcb_cleaner :: "hcb \<Rightarrow> hcb option" where
  "hcb_cleaner st = hcb_clean st (laylow st)"

definition hcb_start :: "(addr \<rightharpoonup> hcb_objhead) \<Rightarrow> int \<Rightarrow> hcb" where
  "hcb_start h n = \<lparr>hcb_tree = \<lparr>hcb_heap = h, origo = HNull, cmps = 0\<rparr>, laylow = [],
     n_hcb_nolock = 0, n_hcb_insert = 0, n_hcb_lock = 0, n_objecthead = n\<rparr>"

subsection \<open>The invariant\<close>

definition tleaves :: "ctree option \<Rightarrow> addr list" where
  "tleaves t = (case t of None \<Rightarrow> [] | Some t \<Rightarrow> leaves t)"

definition towners :: "ctree option \<Rightarrow> addr list" where
  "towners t = (case t of None \<Rightarrow> [] | Some t \<Rightarrow> owners t)"

lemma tleaves_simps [simp]: "tleaves None = []" "tleaves (Some t) = leaves t"
  "towners None = []" "towners (Some t) = owners t"
  by (simp_all add: tleaves_def towners_def)

text \<open>The memory part: the tree, and no leaf pointers outside it.\<close>

definition rep_tree :: "hcb_root \<Rightarrow> ctree option \<Rightarrow> bool" where
  "rep_tree m to \<longleftrightarrow>
     (case to of None \<Rightarrow> origo m = HNull
      | Some t \<Rightarrow> is_tree m Origo t \<and> wf_owners m t \<and> cb_ok (Kh m) (Ch m) t) \<and>
     distinct (towners to) \<and> distinct (tleaves to) \<and>
     (\<forall>a \<in> set (tleaves to). hcb_heap m a \<noteq> None) \<and>
     (\<forall>a s v. hread m (LeafOf a s) = Some v \<longrightarrow> v \<noteq> HNull \<longrightarrow> a \<in> set (towners to))"

text \<open>The counting part: who is live, who is cooling, and that every node in use is hosted by one.\<close>

definition rep_cool :: "hcb \<Rightarrow> ctree option \<Rightarrow> bool" where
  "rep_cool st to \<longleftrightarrow>
     (\<forall>a \<in> set (tleaves to). oh_ref (hcb_heap (hcb_tree st)) a > 0) \<and>
     distinct (laylow st) \<and>
     (\<forall>a \<in> set (laylow st). \<exists>oh. hcb_heap (hcb_tree st) a = Some oh \<and> oh_refcnt oh = 0 \<and> oh_objcs oh = []) \<and>
     set (towners to) \<subseteq> set (tleaves to) \<union> set (laylow st)"

definition hcb_rep :: "hcb \<Rightarrow> ctree option \<Rightarrow> bool" where
  "hcb_rep st to \<longleftrightarrow> rep_tree (hcb_tree st) to \<and> rep_cool st to"

definition hcb_inv :: "hcb \<Rightarrow> bool" where
  "hcb_inv st \<longleftrightarrow> (\<exists>to. hcb_rep st to)"

text \<open>The map from digests to object heads that the tree stands for.\<close>

definition hcb_index :: "hcb \<Rightarrow> digest \<Rightarrow> addr option" where
  "hcb_index st d =
     (if origo (hcb_tree st) = HNull then None
      else case hcb_walk (hcb_tree st) d Origo 0 of
             Some (_, HNode a, _) \<Rightarrow> if Kh (hcb_tree st) a = d then Some a else None
           | _ \<Rightarrow> None)"

definition hcb_spare :: "hcb \<Rightarrow> addr \<Rightarrow> bool" where
  "hcb_spare st noh \<longleftrightarrow>
     (case hcb_heap (hcb_tree st) noh of None \<Rightarrow> False
      | Some oh \<Rightarrow> oh_refcnt oh = 1 \<and> length (oh_digest oh) = DIGEST_LEN \<and>
                  hcb_index st (oh_digest oh) \<noteq> Some noh)"

definition hcb_idle :: "hcb \<Rightarrow> addr \<Rightarrow> bool" where
  "hcb_idle st a \<longleftrightarrow>
     (case hcb_heap (hcb_tree st) a of None \<Rightarrow> False
      | Some oh \<Rightarrow> oh_objcs oh = [] \<and> oh_waitinglist oh = [])"

lemma hcb_index_rep:
  assumes "rep_tree (hcb_tree st) to"
  shows "hcb_index st d = Some a \<longleftrightarrow> a \<in> set (tleaves to) \<and> Kh (hcb_tree st) a = d"
proof (cases to)
  case None
  then show ?thesis using assms by (simp add: rep_tree_def hcb_index_def)
next
  case (Some t)
  let ?m = "hcb_tree st"
  have t: "is_tree ?m Origo t" "wf_owners ?m t" "cb_ok (Kh ?m) (Ch ?m) t"
    using assms Some by (auto simp: rep_tree_def)
  have "origo ?m \<noteq> HNull" using is_tree_root [OF t(1)] by simp
  then have "hcb_index st d = (let b = tfind (Ch ?m) d t in if Kh ?m b = d then Some b else None)"
    using hcb_walk_tree [OF t(1,2), of d 0] by (auto simp: hcb_index_def Let_def)
  then show ?thesis
    using tfind_member [OF t(3)] tfind_leaves [of "Ch ?m" d t] Some by (auto simp: Let_def)
qed

lemma hcb_index_eqI:
  assumes "rep_tree (hcb_tree st) to" "rep_tree (hcb_tree st') to'"
    and "\<And>a. (a \<in> set (tleaves to') \<and> Kh (hcb_tree st') a = d) \<longleftrightarrow>
             (a \<in> set (tleaves to) \<and> Kh (hcb_tree st) a = d)"
  shows "hcb_index st' d = hcb_index st d"
  using hcb_index_rep [OF assms(1)] hcb_index_rep [OF assms(2)] assms(3)
  by (metis option.exhaust)

subsection \<open>Lookup and dereference keep the invariant and implement the map\<close>

lemma rep_tree_eqI:
  assumes "rep_tree m to" "\<And>q. hread m' q = hread m q" "Yh m' = Yh m"
    and "\<And>a. a \<in> set (tleaves to) \<Longrightarrow> Kh m' a = Kh m a \<and> hcb_heap m' a \<noteq> None"
  shows "rep_tree m' to"
proof -
  have o: "origo m' = origo m" using assms(2) [of Origo] by simp
  have C: "Ch m' = Ch m" using assms(3) by (simp add: Ch_def fun_eq_iff)
  show ?thesis
  proof (cases to)
    case None
    then show ?thesis using assms o by (simp add: rep_tree_def)
  next
    case (Some t)
    have "is_tree m' Origo t"
      by (rule is_tree_frame [of m Origo]) (use assms(1,2) o Some in \<open>auto simp: rep_tree_def\<close>)
    moreover have "cb_ok (Kh m') (Ch m') t"
      using assms(1,4) Some cb_ok_cong [of "Kh m" "Ch m" t "Kh m'" "Ch m'"] C by (auto simp: rep_tree_def)
    ultimately show ?thesis
      using assms Some by (auto simp: rep_tree_def wf_owners_def)
  qed
qed

lemma rep_tree_upd:
  assumes "rep_tree m to" "hcb_heap m a = Some o1" "oh_y o2 = oh_y o1"
    and "a \<in> set (tleaves to) \<Longrightarrow> oh_digest o2 = oh_digest o1"
  shows "rep_tree (m\<lparr>hcb_heap := (hcb_heap m)(a \<mapsto> o2)\<rparr>) to"
proof (rule rep_tree_eqI [OF assms(1)])
  show "hread (m\<lparr>hcb_heap := (hcb_heap m)(a \<mapsto> o2)\<rparr>) q = hread m q" for q
    using assms(2,3) by (cases q) (auto simp: hread.simps)
  show "Yh (m\<lparr>hcb_heap := (hcb_heap m)(a \<mapsto> o2)\<rparr>) = Yh m"
    using assms(2,3) by (auto simp: Yh_def fun_eq_iff)
  show "Kh (m\<lparr>hcb_heap := (hcb_heap m)(a \<mapsto> o2)\<rparr>) z = Kh m z \<and>
        hcb_heap (m\<lparr>hcb_heap := (hcb_heap m)(a \<mapsto> o2)\<rparr>) z \<noteq> None" if "z \<in> set (tleaves to)" for z
    using assms that by (auto simp: Kh_def oh_key_def rep_tree_def)
qed

lemma rep_tree_cmps [simp]: "rep_tree (m\<lparr>cmps := n\<rparr>) to = rep_tree m to"
  by (cases to) (simp_all add: rep_tree_def wf_owners_def)

lemma set_oh_simps [simp]:
  "laylow (set_oh st a oh) = laylow st"
  "hcb_heap (hcb_tree (set_oh st a oh)) = (hcb_heap (hcb_tree st))(a \<mapsto> oh)"
  "hcb_tree (set_oh st a oh) = (hcb_tree st)\<lparr>hcb_heap := (hcb_heap (hcb_tree st))(a \<mapsto> oh)\<rparr>"
  by (simp_all add: set_oh_def)

text \<open>Changing the count of an object head that is not cooling, and stays live if it is indexed.\<close>

lemma hcb_rep_refcnt:
  assumes "hcb_rep st to" "hcb_heap (hcb_tree st) a = Some o1" "a \<notin> set (laylow st)"
    and "a \<in> set (tleaves to) \<Longrightarrow> n > 0"
  shows "hcb_rep (set_oh st a (o1\<lparr>oh_refcnt := n\<rparr>)) to"
proof -
  have "rep_tree (hcb_tree (set_oh st a (o1\<lparr>oh_refcnt := n\<rparr>))) to"
    using assms(1,2) by (simp add: hcb_rep_def rep_tree_upd)
  then show ?thesis
    using assms by (auto simp: hcb_rep_def rep_cool_def)
qed

definition hcb_ref :: "hcb \<Rightarrow> addr \<Rightarrow> int" where
  "hcb_ref st = oh_ref (hcb_heap (hcb_tree st))"

definition hcb_key :: "hcb \<Rightarrow> addr \<Rightarrow> digest" where
  "hcb_key st = Kh (hcb_tree st)"

lemma hcb_spare_rep:
  assumes "hcb_rep st to" "hcb_spare st noh"
  obtains o1 where "hcb_heap (hcb_tree st) noh = Some o1" "oh_refcnt o1 = 1"
    "length (oh_digest o1) = DIGEST_LEN" "noh \<notin> set (tleaves to)" "noh \<notin> set (laylow st)"
    "noh \<notin> set (towners to)" "hcb_key st noh = oh_digest o1"
proof -
  obtain o1 where o1: "hcb_heap (hcb_tree st) noh = Some o1" "oh_refcnt o1 = 1"
    "length (oh_digest o1) = DIGEST_LEN" "hcb_index st (oh_digest o1) \<noteq> Some noh"
    using assms(2) by (auto simp: hcb_spare_def split: option.splits)
  have k: "hcb_key st noh = oh_digest o1" using o1(1) by (simp add: hcb_key_def Kh_def)
  have l: "noh \<notin> set (tleaves to)"
    using hcb_index_rep [of st to "oh_digest o1" noh] assms(1) o1(4) k
    by (auto simp: hcb_rep_def hcb_key_def)
  moreover have "noh \<notin> set (laylow st)"
    using assms(1) o1(1,2) by (auto simp: hcb_rep_def rep_cool_def)
  ultimately show ?thesis
    using that o1 k assms(1) by (auto simp: hcb_rep_def rep_cool_def)
qed

lemma hcb_lookup_hit:
  assumes rep: "hcb_rep st to" and sp: "hcb_spare st noh"
    and ix: "hcb_index st (hcb_key st noh) = Some a"
  shows "\<exists>st'. hcb_lookup st noh = Some (a, st') \<and> hcb_rep st' to \<and> hcb_spare st' noh \<and>
           hcb_index st' = hcb_index st \<and> hcb_ref st' = (hcb_ref st)(a := hcb_ref st a + 1)"
proof -
  let ?m = "hcb_tree st"
  obtain o1 where o1: "hcb_heap ?m noh = Some o1" "oh_refcnt o1 = 1"
    "length (oh_digest o1) = DIGEST_LEN" "noh \<notin> set (tleaves to)" "noh \<notin> set (laylow st)"
    "hcb_key st noh = oh_digest o1"
    using hcb_spare_rep [OF rep sp] by metis
  have rt: "rep_tree ?m to" using rep by (simp add: hcb_rep_def)
  have a: "a \<in> set (tleaves to)" "Kh ?m a = oh_digest o1"
    using ix o1(6) hcb_index_rep [OF rt] by auto
  then obtain t where t: "to = Some t" by (cases to) auto
  obtain oa where oa: "hcb_heap ?m a = Some oa" "oh_refcnt oa > 0" "a \<notin> set (laylow st)"
    using a(1) rep by (fastforce simp: hcb_rep_def rep_cool_def rep_tree_def)
  obtain n where n: "hcb_insert ?m noh False = Some (Some a, ?m\<lparr>cmps := n\<rparr>)"
    using hcb_insert_found [OF o1(1), of t a False] rt a oa(1) t by (auto simp: rep_tree_def)
  let ?s = "st\<lparr>hcb_tree := ?m\<lparr>cmps := n\<rparr>, n_hcb_nolock := n_hcb_nolock st + 1\<rparr>"
  define st' where "st' = set_oh ?s a (oa\<lparr>oh_refcnt := oh_refcnt oa + 1\<rparr>)"
  have run: "hcb_lookup st noh = Some (a, st')"
    using n oa a(1) o1(4) by (auto simp: hcb_lookup_def st'_def Let_def)
  have "hcb_rep ?s to" using rep by (simp add: hcb_rep_def rep_cool_def)
  then have rep': "hcb_rep st' to"
    unfolding st'_def using oa by (intro hcb_rep_refcnt) simp_all
  have "hcb_index st' d = hcb_index st d" for d
    by (rule hcb_index_eqI [OF rt, of _ to])
      (use rep' oa(1) in \<open>auto simp: hcb_rep_def st'_def Kh_def oh_key_def\<close>)
  then have ix': "hcb_index st' = hcb_index st" by blast
  then have "hcb_spare st' noh"
    using sp a(1) o1(4) by (auto simp: hcb_spare_def st'_def split: option.splits)
  moreover have "hcb_ref st' = (hcb_ref st)(a := hcb_ref st a + 1)"
    using oa(1) by (auto simp: hcb_ref_def st'_def fun_eq_iff)
  ultimately show ?thesis using run rep' ix' by blast
qed

lemma hcb_insert_lock:
  assumes rt: "rep_tree m to" and o1: "hcb_heap m noh = Some o1" "length (oh_digest o1) = DIGEST_LEN"
    and out: "noh \<notin> set (tleaves to)" "noh \<notin> set (towners to)"
    and new: "\<And>x. x \<in> set (tleaves to) \<Longrightarrow> Kh m x \<noteq> oh_digest o1"
  shows "\<exists>m' t'. hcb_insert m noh True = Some (Some noh, m') \<and> rep_tree m' (Some t') \<and>
     set (leaves t') = insert noh (set (tleaves to)) \<and> set (owners t') \<subseteq> insert noh (set (towners to)) \<and>
     dom (hcb_heap m') = dom (hcb_heap m) \<and> Kh m' = Kh m \<and>
     oh_ref (hcb_heap m') = oh_ref (hcb_heap m) \<and>
     (\<forall>a. map_option oh_objcs (hcb_heap m' a) = map_option oh_objcs (hcb_heap m a))"
proof (cases to)
  case None
  have "rep_tree (m\<lparr>origo := HNode noh\<rparr>) (Some (CLeaf noh))"
    using rt o1 None by (auto simp: rep_tree_def Kh_def hread_LeafOf)
  then show ?thesis
    using o1 None rt by (intro exI [of _ "m\<lparr>origo := HNode noh\<rparr>"] exI [of _ "CLeaf noh"])
      (auto simp: hcb_insert_def rep_tree_def)
next
  case (Some t)
  have t: "is_tree m Origo t" "wf_owners m t" "distinct (owners t)" "cb_ok (Kh m) (Ch m) t"
    "distinct (leaves t)" "\<And>a. a \<in> set (leaves t) \<Longrightarrow> hcb_heap m a \<noteq> None"
    "\<And>a s v. hread m (LeafOf a s) = Some v \<Longrightarrow> v \<noteq> HNull \<Longrightarrow> a \<in> set (owners t)"
    using rt Some by (auto simp: rep_tree_def)
  obtain m' c s where m': "hcb_insert m noh True = Some (Some noh, m')"
    "insert_result m m' noh (tins (Ch m) (oh_digest o1) c noh s t)"
    using hcb_insert_new [OF o1 t(1-4)] out new t(6) Some by auto
  define t' where "t' = tins (Ch m) (oh_digest o1) c noh s t"
  have d: "distinct (leaves t')" "distinct (owners t')"
    unfolding t'_def using t(3,5) out Some by (auto intro: tins_distinct)
  have "hcb_heap m' a \<noteq> None" if "a \<in> set (leaves t')" for a
    using that m'(2) t(6) o1(1) unfolding insert_result_def t'_def by (auto simp: dom_def set_eq_iff)
  moreover have "a \<in> set (owners t')" if "hread m' (LeafOf a s') = Some v" "v \<noteq> HNull" for a s' v
    using that m'(2) t(7) [of a s' v] unfolding insert_result_def t'_def by (cases "a \<in> set (owners t')") (auto simp: t'_def)
  ultimately have "rep_tree m' (Some t')"
    using m'(2) d by (auto simp: rep_tree_def insert_result_def t'_def)
  then show ?thesis
    using m' Some by (intro exI [of _ m'] exI [of _ t']) (auto simp: insert_result_def t'_def)
qed


lemma hcb_lookup_miss:
  assumes rep: "hcb_rep st to" and sp: "hcb_spare st noh"
    and ix: "hcb_index st (hcb_key st noh) = None"
  shows "\<exists>st'. hcb_lookup st noh = Some (noh, st') \<and> hcb_inv st' \<and>
           hcb_index st' = (hcb_index st)(hcb_key st noh \<mapsto> noh) \<and> hcb_ref st' = hcb_ref st"
proof -
  let ?m = "hcb_tree st"
  obtain o1 where o1: "hcb_heap ?m noh = Some o1" "oh_refcnt o1 = 1"
    "length (oh_digest o1) = DIGEST_LEN" "noh \<notin> set (tleaves to)" "noh \<notin> set (laylow st)"
    "noh \<notin> set (towners to)" "hcb_key st noh = oh_digest o1"
    using hcb_spare_rep [OF rep sp] by metis
  have rt: "rep_tree ?m to" using rep by (simp add: hcb_rep_def)
  have new: "Kh ?m x \<noteq> oh_digest o1" if "x \<in> set (tleaves to)" for x
    using that ix o1(7) hcb_index_rep [OF rt, of "oh_digest o1" x] by auto
  obtain n where n: "hcb_insert ?m noh False = Some (None, ?m\<lparr>cmps := n\<rparr>)"
  proof (cases to)
    case None
    then have "hcb_insert ?m noh False = Some (None, ?m\<lparr>cmps := cmps ?m\<rparr>)"
      using rt o1(1) by (simp add: rep_tree_def hcb_insert_def)
    then show ?thesis by (rule that)
  next
    case (Some t)
    then show ?thesis
      using that hcb_insert_absent_nolock [OF o1(1), of t] rt new by (auto simp: rep_tree_def)
  qed
  let ?n = "?m\<lparr>cmps := n\<rparr>"
  obtain m' t' where m': "hcb_insert ?n noh True = Some (Some noh, m')" "rep_tree m' (Some t')"
     "set (leaves t') = insert noh (set (tleaves to))" "set (owners t') \<subseteq> insert noh (set (towners to))"
     "dom (hcb_heap m') = dom (hcb_heap ?m)" "Kh m' = Kh ?m" "oh_ref (hcb_heap m') = oh_ref (hcb_heap ?m)"
     "\<And>a. map_option oh_objcs (hcb_heap m' a) = map_option oh_objcs (hcb_heap ?m a)"
    using hcb_insert_lock [of ?n to noh o1] rt o1(1,3,4,6) new by auto
  obtain o2 where o2: "hcb_heap m' noh = Some o2"
    using m'(5) o1(1) by (auto simp: dom_def set_eq_iff)
  then have r2: "oh_refcnt o2 = 1"
    using fun_cong [OF m'(7), of noh] o1(1,2) by (simp add: oh_ref_def)
  define st' where "st' = st\<lparr>hcb_tree := m', n_hcb_insert := n_hcb_insert st + 1\<rparr>"
  have run: "hcb_lookup st noh = Some (noh, st')"
    using n m'(1) o1(1,2) o2 r2 by (simp add: hcb_lookup_def hcb_lookup_locked_def st'_def Let_def)
  have cool: "\<exists>oh. hcb_heap m' a = Some oh \<and> oh_refcnt oh = 0 \<and> oh_objcs oh = []" if "a \<in> set (laylow st)" for a
  proof -
    obtain oh where oh: "hcb_heap ?m a = Some oh" "oh_refcnt oh = 0" "oh_objcs oh = []"
      using rep \<open>a \<in> set (laylow st)\<close> by (auto simp: hcb_rep_def rep_cool_def)
    then obtain oh' where "hcb_heap m' a = Some oh'"
      using m'(5) by (auto simp: dom_def set_eq_iff)
    then show ?thesis
      using oh fun_cong [OF m'(7), of a] m'(8) [of a] by (simp add: oh_ref_def)
  qed
  have rep': "hcb_rep st' (Some t')"
    using rep m'(2-4,7) o1(1,2) cool by (auto simp: hcb_rep_def rep_cool_def st'_def)
  have "hcb_index st' d = ((hcb_index st)(hcb_key st noh \<mapsto> noh)) d" for d
    using hcb_index_rep [of st' "Some t'" d] hcb_index_rep [OF rt, of d] rep' new m'(3,6) o1(7)
    by (cases "hcb_index st' d"; cases "hcb_index st d")
       (auto simp: hcb_rep_def st'_def hcb_key_def)
  moreover have "hcb_ref st' = hcb_ref st"
    using m'(7) by (simp add: hcb_ref_def st'_def)
  ultimately show ?thesis using run rep' by (auto simp: hcb_inv_def)
qed

lemma same_but_leaves_heap:
  assumes "same_but_leaves m m'" "hcb_heap m b = Some ob"
  shows "\<exists>o'. hcb_heap m' b = Some o' \<and> oh_refcnt o' = oh_refcnt ob \<and> oh_objcs o' = oh_objcs ob \<and>
     oh_waitinglist o' = oh_waitinglist ob"
proof -
  have "b \<in> dom (hcb_heap m')" using assms by (auto simp: same_but_leaves_def)
  then obtain o' where o': "hcb_heap m' b = Some o'" by auto
  have "oh_ref (hcb_heap m') b = oh_ref (hcb_heap m) b"
    "map_option oh_objcs (hcb_heap m' b) = map_option oh_objcs (hcb_heap m b)"
    "map_option oh_waitinglist (hcb_heap m' b) = map_option oh_waitinglist (hcb_heap m b)"
    using assms(1) by (simp_all add: same_but_leaves_def)
  then show ?thesis using o' assms(2) by simp
qed

lemma hcb_delete_rep:
  assumes rt: "rep_tree m to" and a: "a \<in> set (tleaves to)"
  shows "\<exists>m' to'. hcb_delete m a = Some m' \<and> rep_tree m' to' \<and> same_but_leaves m m' \<and>
     set (tleaves to') = set (tleaves to) - {a} \<and> set (towners to') \<subseteq> set (towners to)"
proof -
  obtain t where t: "to = Some t" using a by (cases to) auto
  have p: "is_tree m Origo t" "wf_owners m t" "cb_ok (Kh m) (Ch m) t" "distinct (owners t)"
    "distinct (leaves t)" "\<And>a. a \<in> set (leaves t) \<Longrightarrow> hcb_heap m a \<noteq> None"
    "\<And>a s v. hread m (LeafOf a s) = Some v \<Longrightarrow> v \<noteq> HNull \<Longrightarrow> a \<in> set (owners t)"
    using rt t by (auto simp: rep_tree_def)
  obtain oa where oa: "hcb_heap m a = Some oa" "Kh m a = oh_digest oa"
    using p(6) [of a] a t by (auto simp: Kh_def)
  show ?thesis
  proof (cases "t = CLeaf a")
    case True
    then have "rep_tree (m\<lparr>origo := HNull\<rparr>) None"
      using p by (auto simp: rep_tree_def hread_LeafOf)
    then show ?thesis
      using True p(1) oa t
      by (intro exI [of _ "m\<lparr>origo := HNull\<rparr>"] exI [of _ None]) (auto simp: hcb_delete_def)
  next
    case False
    then have "origo m \<noteq> HNode a" using p(1) a t by (cases t) auto
    then obtain m' where m': "hcb_delete m a = Some m'"
      "delete_result m m' Origo t (tgone (Ch m) (Kh m a) a t) (tdel (Ch m) (Kh m a) a t)"
      using hcb_delete_loop_tree [OF p(1-4), of a "Kh m a"] a t False oa by (auto simp: hcb_delete_def)
    define g t' where "g = tgone (Ch m) (Kh m a) a t" and "t' = tdel (Ch m) (Kh m a) a t"
    note dr = m'(2) [folded g_def t'_def, unfolded delete_result_def]
    have sb: "same_but_leaves m m'" using dr by blast
    have lv: "set (leaves t') = set (leaves t) - {a}" "distinct (leaves t')"
      using tdel_leaves [OF p(3,5), of a] a t False by (simp_all add: t'_def)
    have ow: "set (owners t') = set (owners t) - {g}" "distinct (owners t')"
      using tdel_owners [OF p(3,4), of a] a t False by (simp_all add: t'_def g_def)
    have "cb_ok (Kh m') (Ch m') t'"
      using cb_ok_tdel [OF p(3)] sb same_but_leaves_Ch [OF sb] by (simp add: t'_def same_but_leaves_def)
    moreover have "wf_owners m' t'"
      using p(2) sb ow by (auto simp: wf_owners_def same_but_leaves_def)
    moreover have "hcb_heap m' b \<noteq> None" if "b \<in> set (leaves t')" for b
    proof -
      have "b \<in> dom (hcb_heap m)" using that lv(1) p(6) by blast
      then show ?thesis using sb by (simp add: same_but_leaves_def dom_def set_eq_iff)
    qed
    moreover have "b \<in> set (owners t')" if h: "hread m' (LeafOf b s) = Some v" "v \<noteq> HNull" for b s v
    proof (rule ccontr)
      assume n: "b \<notin> set (owners t')"
      then have "b \<notin> set (owners t)"
        using h dr ow(1) by (cases "b = g") auto
      then have "hread m' (LeafOf b s) = hread m (LeafOf b s)"
        using dr by auto
      then show False using p(7) [of b s v] h \<open>b \<notin> set (owners t)\<close> by simp
    qed
    ultimately have "rep_tree m' (Some t')"
      using dr lv(2) ow(2) by (auto simp: rep_tree_def)
    then show ?thesis
      using m'(1) sb lv ow t by (intro exI [of _ m'] exI [of _ "Some t'"]) auto
  qed
qed

lemma hcb_deref_more:
  assumes rep: "hcb_rep st to" and ix: "hcb_index st d = Some a" and r: "hcb_ref st a > 1"
  shows "\<exists>st'. hcb_deref st a = Some (True, st') \<and> hcb_rep st' to \<and> hcb_index st' = hcb_index st \<and>
           hcb_ref st' = (hcb_ref st)(a := hcb_ref st a - 1)"
proof -
  have rt: "rep_tree (hcb_tree st) to" using rep by (simp add: hcb_rep_def)
  obtain oa where oa: "hcb_heap (hcb_tree st) a = Some oa" "oh_refcnt oa > 1"
    using r by (auto simp: hcb_ref_def oh_ref_def split: option.splits)
  then have nl: "a \<notin> set (laylow st)" using rep by (auto simp: hcb_rep_def rep_cool_def)
  define st' where "st' = set_oh st a (oa\<lparr>oh_refcnt := oh_refcnt oa - 1\<rparr>)"
  have "hcb_deref st a = Some (True, st')"
    using oa by (simp add: hcb_deref_def st'_def)
  moreover have rep': "hcb_rep st' to"
    unfolding st'_def using rep oa nl by (intro hcb_rep_refcnt) simp_all
  moreover have "hcb_index st' e = hcb_index st e" for e
    by (rule hcb_index_eqI [OF rt, of _ to])
      (use rep' oa(1) in \<open>auto simp: hcb_rep_def st'_def Kh_def oh_key_def\<close>)
  moreover have "hcb_ref st' = (hcb_ref st)(a := hcb_ref st a - 1)"
    using oa(1) by (auto simp: hcb_ref_def st'_def fun_eq_iff)
  ultimately show ?thesis by blast
qed

lemma hcb_deref_last:
  assumes rep: "hcb_rep st to" and ix: "hcb_index st d = Some a" and r: "hcb_ref st a = 1"
    and idle: "hcb_idle st a"
  shows "\<exists>st'. hcb_deref st a = Some (True, st') \<and> hcb_inv st' \<and> laylow st' = laylow st @ [a] \<and>
           hcb_index st' = (hcb_index st)(d := None) \<and> hcb_ref st' = (hcb_ref st)(a := 0)"
proof -
  let ?m = "hcb_tree st"
  have rt: "rep_tree ?m to" using rep by (simp add: hcb_rep_def)
  have a: "a \<in> set (tleaves to)" "Kh ?m a = d" using ix hcb_index_rep [OF rt] by auto
  obtain oa where oa: "hcb_heap ?m a = Some oa" "oh_refcnt oa = 1" "oh_objcs oa = []" "oh_waitinglist oa = []"
    using r idle by (auto simp: hcb_ref_def oh_ref_def hcb_idle_def split: option.splits)
  have nl: "a \<notin> set (laylow st)" using rep oa by (auto simp: hcb_rep_def rep_cool_def)
  obtain m' to' where m': "hcb_delete ?m a = Some m'" "rep_tree m' to'" "same_but_leaves ?m m'"
     "set (tleaves to') = set (tleaves to) - {a}" "set (towners to') \<subseteq> set (towners to)"
    using hcb_delete_rep [OF rt a(1)] by blast
  note heq = same_but_leaves_heap [OF m'(3)]
  obtain o2 where o2: "hcb_heap m' a = Some o2" "oh_refcnt o2 = 1" "oh_objcs o2 = []" "oh_waitinglist o2 = []"
    using heq [OF oa(1)] oa by auto
  define o3 where "o3 = o2\<lparr>oh_digest := (oh_digest o2)[0 := 0], oh_refcnt := 0\<rparr>"
  define st' where "st' = st\<lparr>hcb_tree := m'\<lparr>hcb_heap := (hcb_heap m')(a \<mapsto> o3)\<rparr>, laylow := laylow st @ [a]\<rparr>"
  have run: "hcb_deref st a = Some (True, st')"
    using oa o2 m'(1) by (simp add: hcb_deref_def set_oh_def st'_def o3_def Let_def)
  have rt': "rep_tree (hcb_tree st') to'"
    using rep_tree_upd [OF m'(2) o2(1), of o3] m'(4) by (simp add: st'_def o3_def)
  have "rep_cool st' to'"
    using rep m'(3-5) nl heq o3_def o2 by (fastforce simp: hcb_rep_def rep_cool_def st'_def same_but_leaves_def)
  then have inv: "hcb_inv st'" using rt' by (auto simp: hcb_inv_def hcb_rep_def)
  have K': "Kh (hcb_tree st') b = Kh ?m b" if "b \<noteq> a" for b
    using m'(3) that by (simp add: same_but_leaves_def st'_def Kh_def)
  have "hcb_index st' e = ((hcb_index st)(d := None)) e" for e
  proof (cases "e = d")
    case True
    have "False" if "hcb_index st' d = Some b" for b
    proof -
      have "b \<noteq> a" "b \<in> set (tleaves to)" "Kh (hcb_tree st') b = d"
        using that hcb_index_rep [OF rt'] m'(4) by simp_all
      then have "hcb_index st d = Some b"
        using K' hcb_index_rep [OF rt] by simp
      then show False using ix \<open>b \<noteq> a\<close> by simp
    qed
    then show ?thesis using True by (cases "hcb_index st' d") auto
  next
    case False
    have "hcb_index st' e = hcb_index st e"
      by (rule hcb_index_eqI [OF rt rt']) (use m'(4) a False K' in auto)
    then show ?thesis using False by simp
  qed
  moreover have "hcb_ref st' = (hcb_ref st)(a := 0)"
    using m'(3) by (auto simp: hcb_ref_def st'_def o3_def same_but_leaves_def fun_eq_iff)
  ultimately show ?thesis using run inv by (auto simp: st'_def)
qed


subsection \<open>The cleaner\<close>

text \<open>
  An object head leaves the cool list, and its memory, only when its own inner node is not part of the
  tree any more: freeing it cannot pull a node out from under the tree.
\<close>

lemma rep_tree_free:
  assumes rt: "rep_tree m to" and a: "a \<notin> set (tleaves to)" "a \<notin> set (towners to)"
  shows "rep_tree (m\<lparr>hcb_heap := (hcb_heap m)(a := None)\<rparr>) to"
proof -
  let ?m = "m\<lparr>hcb_heap := (hcb_heap m)(a := None)\<rparr>"
  have h: "hread ?m q = hread m q" if "\<And>s. q \<noteq> LeafOf a s" for q
    using that by (cases q) (auto simp: hread.simps)
  have e: "Kh ?m b = Kh m b" "Yh ?m b = Yh m b" "Ch ?m b = Ch m b" if "b \<noteq> a" for b
    using that by (simp_all add: Kh_def Yh_def Ch_def oh_key_def)
  have hn: "hread ?m (LeafOf a s) = None" for s by (simp add: hread.simps)
  show ?thesis
  proof (cases to)
    case None
    then show ?thesis using rt h hn a by (auto simp: rep_tree_def) (metis h hn option.distinct(1))
  next
    case (Some t)
    have ne: "b \<noteq> a" if "b \<in> set (leaves t) \<union> set (owners t)" for b
      using that a Some by auto
    have "is_tree ?m Origo t"
      by (rule is_tree_frame [of m Origo]) (use rt Some h ne in \<open>auto simp: rep_tree_def\<close>)
    moreover have "cb_ok (Kh ?m) (Ch ?m) t"
      by (rule cb_ok_cong [of "Kh m" "Ch m"]) (use rt Some e ne in \<open>auto simp: rep_tree_def\<close>)
    moreover have "wf_owners ?m t"
      using rt Some e(2) ne by (auto simp: rep_tree_def wf_owners_def)
    moreover have "b \<in> set (owners t)" if "hread ?m (LeafOf b s) = Some v" "v \<noteq> HNull" for b s v
    proof -
      have "b \<noteq> a" using that(1) hn by auto
      then show ?thesis using that rt Some h [of "LeafOf b s"] by (auto simp: rep_tree_def)
    qed
    ultimately show ?thesis
      using rt Some ne by (auto simp: rep_tree_def)
  qed
qed

lemma is_tree_owner_leaf:
  "is_tree m p t \<Longrightarrow> a \<in> set (owners t) \<Longrightarrow> \<exists>v. hread m (LeafOf a False) = Some v \<and> v \<noteq> HNull"
proof (induction t arbitrary: p)
  case (CNode b l r)
  then show ?case using is_tree_root [of m "LeafOf b False" l] by auto
qed simp

lemma rep_tree_owner_leaf:
  assumes "rep_tree m to" "a \<in> set (towners to)" "hcb_heap m a = Some o1"
  shows "y_leaf0 (oh_y o1) \<noteq> HNull"
proof -
  obtain t where t: "to = Some t" using assms(2) by (cases to) auto
  then show ?thesis
    using is_tree_owner_leaf [of m Origo t a] assms by (auto simp: rep_tree_def hread.simps y_leaf_def)
qed

lemma hcb_clean_step:
  assumes rep: "hcb_rep st to" and a: "a \<in> set (laylow st)"
  obtains (keep) o1 where "hcb_heap (hcb_tree st) a = Some o1" "hcb_clean st (a # as) = hcb_clean st as"
  | (count) st' where "hcb_clean st (a # as) = hcb_clean st' as" "hcb_rep st' to"
      "laylow st' = laylow st" "hcb_index st' = hcb_index st" "hcb_ref st' = hcb_ref st"
  | (free) st' where "hcb_clean st (a # as) = hcb_clean st' as" "hcb_rep st' to"
      "laylow st' = remove1 a (laylow st)" "hcb_index st' = hcb_index st" "hcb_ref st' = hcb_ref st"
proof -
  let ?m = "hcb_tree st"
  have rt: "rep_tree ?m to" using rep by (simp add: hcb_rep_def)
  obtain o1 where o1: "hcb_heap ?m a = Some o1" "oh_refcnt o1 = 0" "oh_objcs o1 = []"
    using rep a by (auto simp: hcb_rep_def rep_cool_def)
  have nl: "a \<notin> set (tleaves to)"
    using rep o1 by (auto simp: hcb_rep_def rep_cool_def)
  show ?thesis
  proof (cases "y_leaf0 (oh_y o1) \<noteq> HNull \<or> y_leaf1 (oh_y o1) \<noteq> HNull")
    case True
    then show ?thesis using keep o1 by simp
  next
    case False
    then have lf: "y_leaf0 (oh_y o1) = HNull" "y_leaf1 (oh_y o1) = HNull" by auto
    define c where "c = oh_digest o1 ! 0 + 1"
    define s1 where "s1 = set_oh st a (o1\<lparr>oh_digest := (oh_digest o1)[0 := c]\<rparr>)"
    have rt1: "rep_tree (hcb_tree s1) to"
      unfolding s1_def set_oh_simps by (rule rep_tree_upd [OF rt o1(1)]) (use nl in auto)
    have rep1: "hcb_rep s1 to"
      using rep rt1 o1 by (auto simp: hcb_rep_def rep_cool_def s1_def)
    have K1: "Kh (hcb_tree s1) b = Kh ?m b" if "b \<noteq> a" for b
      using that by (simp add: s1_def Kh_def)
    have ix1: "hcb_index s1 = hcb_index st"
      by (rule ext, rule hcb_index_eqI [OF rt rt1]) (use K1 nl in metis)
    have rf1: "hcb_ref s1 = hcb_ref st"
      using o1 by (auto simp: hcb_ref_def s1_def fun_eq_iff)
    show ?thesis
    proof (cases "unat c > COOL_DURATION")
      case False
      then show ?thesis
        using count [of s1] o1 lf rep1 ix1 rf1
        by (simp add: c_def s1_def Let_def)
    next
      case True
      define s2 where "s2 = s1\<lparr>laylow := remove1 a (laylow st), n_objecthead := n_objecthead st - 1,
        hcb_tree := (hcb_tree s1)\<lparr>hcb_heap := (hcb_heap (hcb_tree s1))(a := None)\<rparr>\<rparr>"
      have now: "a \<notin> set (towners to)"
        using rep_tree_owner_leaf [OF rt _ o1(1)] lf by blast
      have run: "hcb_clean st (a # as) = hcb_clean s2 as"
        using o1 lf True by (simp add: c_def s1_def s2_def Let_def hcb_DeleteObjHead_def set_oh_def)
      have rt2: "rep_tree (hcb_tree s2) to"
        using rep_tree_free [OF rt1 nl now] by (simp add: s2_def)
      have dl: "distinct (laylow st)" using rep by (simp add: hcb_rep_def rep_cool_def)
      have h2: "hcb_heap (hcb_tree s2) = (hcb_heap ?m)(a := None)"
        by (simp add: s2_def s1_def)
      have "rep_cool s2 to"
        using rep nl now dl unfolding rep_cool_def hcb_rep_def h2
        by (auto simp: oh_ref_def s2_def)
      then have rep2: "hcb_rep s2 to" using rt2 by (simp add: hcb_rep_def)
      have "hcb_index s2 = hcb_index s1"
        by (rule ext, rule hcb_index_eqI [OF rt1 rt2])
          (use nl in \<open>auto simp: s2_def Kh_def oh_key_def\<close>)
      moreover have "hcb_ref s2 = hcb_ref s1"
        using o1 by (auto simp: hcb_ref_def s2_def s1_def fun_eq_iff oh_ref_def)
      ultimately show ?thesis
        using free [OF run rep2] ix1 rf1 by (simp add: s2_def)
    qed
  qed
qed


lemma hcb_clean_inv:
  assumes "hcb_rep st to" "distinct as" "set as \<subseteq> set (laylow st)"
  shows "\<exists>st'. hcb_clean st as = Some st' \<and> hcb_rep st' to \<and> hcb_index st' = hcb_index st \<and>
           hcb_ref st' = hcb_ref st \<and> set (laylow st') \<subseteq> set (laylow st)"
  using assms
proof (induction as arbitrary: st)
  case Nil
  then show ?case by simp
next
  case (Cons a as)
  have a: "a \<in> set (laylow st)" "distinct as" "set as \<subseteq> set (laylow st)" "a \<notin> set as"
    using Cons.prems by auto
  have dl: "distinct (laylow st)" using Cons.prems(1) by (simp add: hcb_rep_def rep_cool_def)
  from Cons.prems(1) a(1) show ?case
  proof (cases rule: hcb_clean_step [where as = as])
    case (keep o1)
    then show ?thesis using Cons.IH [OF Cons.prems(1) a(2,3)] by simp
  next
    case (count st1)
    then have "set as \<subseteq> set (laylow st1)" using a(3) by simp
    then show ?thesis using Cons.IH [OF count(2) a(2)] count by simp
  next
    case (free st1)
    then have "set as \<subseteq> set (laylow st1)" using a dl by auto
    then show ?thesis using Cons.IH [OF free(2) a(2)] free dl by auto
  qed
qed

section \<open>The crit-bit tree is a hash implementation\<close>

interpretation hcb: hash_slinger hcb_lookup hcb_deref hcb_inv hcb_spare hcb_idle hcb_index hcb_ref hcb_key
proof unfold_locales
  show "hcb_key s a = d \<and> 0 < hcb_ref s a" if "hcb_inv s" "hcb_index s d = Some a" for s d a
  proof -
    obtain to where to: "hcb_rep s to" using \<open>hcb_inv s\<close> by (auto simp: hcb_inv_def)
    then show ?thesis
      using hcb_index_rep [of s to d a] that(2)
      by (auto simp: hcb_rep_def rep_cool_def hcb_key_def hcb_ref_def)
  qed
  show "hcb_index s d \<noteq> Some noh" if "hcb_inv s" "hcb_spare s noh" for s noh d
  proof -
    obtain to where to: "hcb_rep s to" using \<open>hcb_inv s\<close> by (auto simp: hcb_inv_def)
    then show ?thesis
      using hcb_spare_rep [OF to that(2)] hcb_index_rep [of s to d noh] by (auto simp: hcb_rep_def)
  qed
  show "\<exists>s'. hcb_lookup s noh = Some (a, s') \<and> hcb_inv s' \<and> hcb_spare s' noh \<and>
      hcb_index s' = hcb_index s \<and> hcb_ref s' = (hcb_ref s)(a := hcb_ref s a + 1)"
    if "hcb_inv s" "hcb_spare s noh" "hcb_index s (hcb_key s noh) = Some a" for s noh a
    using that hcb_lookup_hit unfolding hcb_inv_def by blast
  show "\<exists>s'. hcb_lookup s noh = Some (noh, s') \<and> hcb_inv s' \<and>
      hcb_index s' = (hcb_index s)(hcb_key s noh \<mapsto> noh) \<and> hcb_ref s' = hcb_ref s"
    if "hcb_inv s" "hcb_spare s noh" "hcb_index s (hcb_key s noh) = None" for s noh
    using that hcb_lookup_miss unfolding hcb_inv_def by blast
  show "\<exists>s'. hcb_deref s a = Some (True, s') \<and> hcb_inv s' \<and> hcb_index s' = hcb_index s \<and>
      hcb_ref s' = (hcb_ref s)(a := hcb_ref s a - 1)"
    if "hcb_inv s" "hcb_index s d = Some a" "1 < hcb_ref s a" for s d a
    using that hcb_deref_more unfolding hcb_inv_def by blast
  show "\<exists>r s'. hcb_deref s a = Some (r, s') \<and> hcb_inv s' \<and> hcb_index s' = (hcb_index s)(d := None) \<and>
      hcb_ref s' = (hcb_ref s)(a := 0)"
    if "hcb_inv s" "hcb_index s d = Some a" "hcb_ref s a = 1" "hcb_idle s a" for s d a
    using that hcb_deref_last unfolding hcb_inv_def by blast
qed

section \<open>Runs\<close>

text \<open>
  What the rest of the program does with the hash: it allocates spare object heads and sets their
  digest (\<open>HSH_Prealloc\<close>, \<open>HSH_Lookup\<close>), looks up, hangs objects and waiting sessions on
  indexed object heads, drops references, and the cleaner runs.
\<close>

definition fresh_oh :: "digest \<Rightarrow> hcb_objhead" where
  "fresh_oh d = \<lparr>oh_refcnt = 1, oh_digest = d, oh_objcs = [], oh_waitinglist = [], oh_y = y_zero\<rparr>"

inductive hcb_step :: "hcb \<Rightarrow> hcb \<Rightarrow> bool" where
  alloc: "hcb_heap (hcb_tree st) a = None \<Longrightarrow> length d = DIGEST_LEN \<Longrightarrow>
    hcb_step st (set_oh st a (fresh_oh d))"
| rekey: "hcb_spare st a \<Longrightarrow> hcb_heap (hcb_tree st) a = Some oh \<Longrightarrow> length d = DIGEST_LEN \<Longrightarrow>
    hcb_step st (set_oh st a (oh\<lparr>oh_digest := d\<rparr>))"
| lookup: "hcb_spare st a \<Longrightarrow> hcb_lookup st a = Some (b, st') \<Longrightarrow> hcb_step st st'"
| hang: "hcb_index st d = Some a \<Longrightarrow> hcb_heap (hcb_tree st) a = Some oh \<Longrightarrow>
    hcb_step st (set_oh st a (oh\<lparr>oh_objcs := ocs, oh_waitinglist := ws\<rparr>))"
| deref: "hcb_index st d = Some a \<Longrightarrow> hcb_ref st a = 1 \<longrightarrow> hcb_idle st a \<Longrightarrow>
    hcb_deref st a = Some (r, st') \<Longrightarrow> hcb_step st st'"
| clean: "hcb_cleaner st = Some st' \<Longrightarrow> hcb_step st st'"

inductive hcb_reach :: "hcb \<Rightarrow> bool" where
  start: "hcb_reach (hcb_start Map.empty 0)"
| step: "hcb_reach st \<Longrightarrow> hcb_step st st' \<Longrightarrow> hcb_reach st'"

lemma rep_tree_alloc:
  assumes rt: "rep_tree m to" and a: "hcb_heap m a = None"
  shows "rep_tree (m\<lparr>hcb_heap := (hcb_heap m)(a \<mapsto> fresh_oh d)\<rparr>) to"
proof -
  let ?m = "m\<lparr>hcb_heap := (hcb_heap m)(a \<mapsto> fresh_oh d)\<rparr>"
  have h: "hread ?m q = (if \<exists>s. q = LeafOf a s then Some HNull else hread m q)" for q
    by (cases q) (auto simp: hread.simps fresh_oh_def y_zero_def y_leaf_def)
  have Y: "Yh ?m = Yh m" using a by (auto simp: Yh_def fun_eq_iff fresh_oh_def)
  have K: "Kh ?m b = Kh m b" if "b \<noteq> a" for b using that by (simp add: Kh_def)
  show ?thesis
  proof (cases to)
    case None
    then show ?thesis
      using rt h [of "LeafOf _ _"] by (auto simp: rep_tree_def split: if_splits)
  next
    case (Some t)
    have t: "is_tree m Origo t" "cb_ok (Kh m) (Ch m) t" "wf_owners m t"
      using rt Some by (auto simp: rep_tree_def)
    have ne: "b \<noteq> a" if "b \<in> set (leaves t) \<union> set (owners t)" for b
      using that rt Some a is_tree_owner [OF t(1), of b] by (auto simp: rep_tree_def)
    have "is_tree ?m Origo t"
      by (rule is_tree_frame [OF t(1)]) (use h ne in auto)
    moreover have "cb_ok (Kh ?m) (Ch ?m) t"
      by (rule cb_ok_cong [OF t(2)]) (use K ne Y in \<open>auto simp: Ch_def\<close>)
    moreover have "wf_owners ?m t"
      using t(3) Y by (simp add: wf_owners_def)
    ultimately show ?thesis
      using rt Some h [of "LeafOf _ _"] by (auto simp: rep_tree_def split: if_splits)
  qed
qed

lemma hcb_step_inv:
  assumes "hcb_step st st'" "hcb_inv st"
  shows "hcb_inv st'"
proof -
  obtain to where rep: "hcb_rep st to" using assms(2) by (auto simp: hcb_inv_def)
  then have rt: "rep_tree (hcb_tree st) to" by (simp add: hcb_rep_def)
  from assms(1) show ?thesis
  proof cases
    case (alloc a d)
    have "rep_tree (hcb_tree st') to"
      using rep_tree_alloc [OF rt alloc(2)] alloc(1) by simp
    moreover have "rep_cool st' to"
      using rep alloc by (auto simp: hcb_rep_def rep_cool_def rep_tree_def fresh_oh_def)
    ultimately show ?thesis by (auto simp: hcb_inv_def hcb_rep_def)
  next
    case (rekey a oh d)
    obtain o1 where "hcb_heap (hcb_tree st) a = Some o1" "oh_refcnt o1 = 1" "a \<notin> set (tleaves to)"
      "a \<notin> set (laylow st)"
      using hcb_spare_rep [OF rep rekey(2)] by metis
    then have "hcb_rep st' to"
      using rep rep_tree_upd [OF rt rekey(3), of "oh\<lparr>oh_digest := d\<rparr>"] rekey(1)
      by (auto simp: hcb_rep_def rep_cool_def)
    then show ?thesis by (auto simp: hcb_inv_def)
  next
    case (lookup a b)
    then show ?thesis using hcb.lookup_returns [OF assms(2) lookup(1)] by auto
  next
    case (hang d a oh ws ocs)
    have "a \<in> set (tleaves to)" using hang(2) hcb_index_rep [OF rt] by simp
    then have "a \<notin> set (laylow st)"
      using rep by (force simp: hcb_rep_def rep_cool_def)
    then have "hcb_rep st' to"
      using rep rep_tree_upd [OF rt hang(3), of "oh\<lparr>oh_objcs := ocs, oh_waitinglist := ws\<rparr>"] hang(1,3)
      by (auto simp: hcb_rep_def rep_cool_def)
    then show ?thesis by (auto simp: hcb_inv_def)
  next
    case (deref d a r)
    have pos: "hcb_ref st a > 0" using hcb.index_key [OF assms(2) deref(1)] by simp
    show ?thesis
    proof (cases "hcb_ref st a = 1")
      case True
      then show ?thesis using hcb.deref_last [OF assms(2) deref(1)] deref by auto
    next
      case False
      then show ?thesis using hcb.deref_more [OF assms(2) deref(1)] deref pos by auto
    qed
  next
    case clean
    have "distinct (laylow st)" using rep by (simp add: hcb_rep_def rep_cool_def)
    then show ?thesis
      using hcb_clean_inv [OF rep, of "laylow st"] clean by (auto simp: hcb_cleaner_def hcb_inv_def)
  qed
qed

lemma hcb_start_inv: "hcb_inv (hcb_start Map.empty n)"
  unfolding hcb_inv_def
  by (rule exI [of _ None]) (simp add: hcb_rep_def rep_tree_def rep_cool_def hcb_start_def hread.simps)

section \<open>Properties\<close>


text \<open>
  C9 (functional).  A lookup always returns.  It gives the object head the digest is indexed under,
  with one more reference, or, when the digest is not indexed, indexes the caller's spare object head
  and gives that one; no other digest and no other reference count changes.
\<close>

theorem hcb_lookup_correct:
  assumes "hcb_inv st" "hcb_spare st noh"
  shows "\<exists>a st'. hcb_lookup st noh = Some (a, st') \<and> hcb_inv st' \<and>
           (case hcb_index st (hcb_key st noh) of
              Some b \<Rightarrow> a = b \<and> hcb_index st' = hcb_index st \<and>
                        hcb_ref st' = (hcb_ref st)(b := hcb_ref st b + 1)
            | None \<Rightarrow> a = noh \<and> hcb_index st' = (hcb_index st)(hcb_key st noh \<mapsto> noh) \<and>
                      hcb_ref st' = hcb_ref st)"
proof (cases "hcb_index st (hcb_key st noh)")
  case None
  then show ?thesis using hcb.lookup_miss [OF assms None] by auto
next
  case (Some b)
  then show ?thesis using hcb.lookup_hit [OF assms Some] by auto
qed

definition ex_st0 :: hcb where
  "ex_st0 = set_oh (hcb_start Map.empty 0) 1 (fresh_oh (replicate 32 7))"

definition ex_st1 :: hcb where
  "ex_st1 = ex_st0\<lparr>hcb_tree := (hcb_tree ex_st0)\<lparr>origo := HNode 1\<rparr>, n_hcb_insert := 1\<rparr>"

lemmas ex_st_defs = ex_st0_def ex_st1_def hcb_start_def set_oh_def fresh_oh_def DIGEST_LEN_def

lemma ex_st0_facts: "hcb_inv ex_st0" "hcb_spare ex_st0 1"
proof -
  have "hcb_step (hcb_start Map.empty 0) ex_st0"
    unfolding ex_st0_def by (rule hcb_step.alloc) (simp_all add: ex_st_defs)
  then show "hcb_inv ex_st0" by (rule hcb_step_inv) (rule hcb_start_inv)
  show "hcb_spare ex_st0 1" by (simp add: hcb_spare_def hcb_index_def ex_st_defs)
qed

lemma ex_st0_lookup: "hcb_lookup ex_st0 1 = Some (1, ex_st1)"
  by (simp add: hcb_lookup_def hcb_lookup_locked_def hcb_insert_def ex_st_defs)

lemma ex_st1_facts:
  "hcb_inv ex_st1" "hcb_index ex_st1 (replicate 32 7) = Some 1" "hcb_ref ex_st1 1 = 1" "hcb_idle ex_st1 1"
proof -
  show "hcb_inv ex_st1"
    using hcb.lookup_returns [OF ex_st0_facts] ex_st0_lookup by auto
  show "hcb_index ex_st1 (replicate 32 7) = Some 1"
    by (simp add: hcb_index_def ex_st_defs hcb_walk.simps) (simp add: Kh_def)
  show "hcb_ref ex_st1 1 = 1" "hcb_idle ex_st1 1"
    by (simp_all add: hcb_ref_def hcb_idle_def ex_st_defs)
qed

theorem hcb_lookup_correct_witness:
  "hcb_inv ex_st0 \<and> hcb_spare ex_st0 1 \<and>
   (\<exists>st'. hcb_lookup ex_st0 1 = Some (1, st') \<and> hcb_inv st' \<and>
      hcb_index st' = (hcb_index ex_st0)(replicate 32 7 \<mapsto> 1))"
proof -
  have "hcb_key ex_st0 1 = replicate 32 7" "hcb_index ex_st0 (replicate 32 7) = None"
    by (simp_all add: hcb_key_def Kh_def hcb_index_def ex_st_defs)
  then show ?thesis
    using hcb_lookup_correct [OF ex_st0_facts] ex_st0_facts by auto
qed

text \<open>
  C10 (functional).  Dropping a reference always succeeds: with references left only that count changes;
  the last reference takes exactly that digest out of the index.  The last reference may be dropped
  only when no object and no waiting session hangs from the object head.
\<close>

theorem hcb_deref_correct:
  assumes "hcb_inv st" "hcb_index st d = Some a" "hcb_ref st a = 1 \<longrightarrow> hcb_idle st a"
  shows "\<exists>r st'. hcb_deref st a = Some (r, st') \<and> hcb_inv st' \<and>
           hcb_ref st' = (hcb_ref st)(a := hcb_ref st a - 1) \<and>
           hcb_index st' = (if hcb_ref st a = 1 then (hcb_index st)(d := None) else hcb_index st)"
proof (cases "hcb_ref st a = 1")
  case True
  then show ?thesis using hcb.deref_last [OF assms(1,2) True] assms(3) by auto
next
  case False
  then have "hcb_ref st a > 1" using hcb.index_key [OF assms(1,2)] by simp
  then show ?thesis using hcb.deref_more [OF assms(1,2)] False by auto
qed

theorem hcb_deref_correct_witness:
  "hcb_inv ex_st1 \<and> hcb_index ex_st1 (replicate 32 7) = Some 1 \<and>
   (\<exists>r st'. hcb_deref ex_st1 1 = Some (r, st') \<and> hcb_inv st' \<and> hcb_ref st' 1 = 0 \<and>
      hcb_index st' (replicate 32 7) = None)"
  using hcb_deref_correct [OF ex_st1_facts(1,2)] ex_st1_facts by fastforce

text \<open>
  C11 (safety).  A round of the cleaner always completes, keeps the invariant (so no inner node of
  the tree loses the object head it lives in), changes neither the index nor a reference count, and
  frees only object heads of the cool list.
\<close>

theorem hcb_cleaner_safe:
  assumes "hcb_inv st"
  shows "\<exists>st'. hcb_cleaner st = Some st' \<and> hcb_inv st' \<and> hcb_index st' = hcb_index st \<and>
           hcb_ref st' = hcb_ref st \<and> set (laylow st') \<subseteq> set (laylow st)"
proof -
  obtain to where "hcb_rep st to" using assms by (auto simp: hcb_inv_def)
  moreover from this have "distinct (laylow st)" by (simp add: hcb_rep_def rep_cool_def)
  ultimately show ?thesis
    using hcb_clean_inv [of st to "laylow st"] by (auto simp: hcb_cleaner_def hcb_inv_def)
qed

theorem hcb_cleaner_safe_witness:
  "hcb_inv ex_st1 \<and> (\<exists>st'. hcb_cleaner ex_st1 = Some st' \<and> hcb_index st' (replicate 32 7) = Some 1)"
  using hcb_cleaner_safe [OF ex_st1_facts(1)] ex_st1_facts by fastforce

text \<open>
  C8 (invariant).  From an empty tree, through any interleaving of allocations, lookups, object
  changes, dereferences and cleaner rounds, the invariant holds, so in every reachable state no lookup,
  no dereference of an indexed object head and no cleaner round fails an assertion or runs forever.
\<close>

theorem hcb_reachable_safe:
  assumes "hcb_reach st"
  shows "hcb_inv st \<and> hcb_cleaner st \<noteq> None \<and>
         (\<forall>noh. hcb_spare st noh \<longrightarrow> hcb_lookup st noh \<noteq> None) \<and>
         (\<forall>d a. hcb_index st d = Some a \<longrightarrow> (hcb_ref st a = 1 \<longrightarrow> hcb_idle st a) \<longrightarrow> hcb_deref st a \<noteq> None)"
proof -
  have i: "hcb_inv st"
    using assms by induction (auto intro: hcb_start_inv hcb_step_inv)
  obtain to where rep: "hcb_rep st to" using i by (auto simp: hcb_inv_def)
  then have "distinct (laylow st)" by (simp add: hcb_rep_def rep_cool_def)
  then have "hcb_cleaner st \<noteq> None"
    using hcb_clean_inv [OF rep, of "laylow st"] by (auto simp: hcb_cleaner_def)
  moreover have "hcb_lookup st noh \<noteq> None" if "hcb_spare st noh" for noh
    using hcb.lookup_returns [OF i that] by auto
  moreover have "hcb_deref st a \<noteq> None" if "hcb_index st d = Some a" "hcb_ref st a = 1 \<longrightarrow> hcb_idle st a" for d a
    using hcb.deref_more [OF i that(1)] hcb.deref_last [OF i that(1)] hcb.index_key [OF i that(1)] that(2)
    by (cases "hcb_ref st a = 1") auto
  ultimately show ?thesis using i by blast
qed

theorem hcb_reachable_safe_witness:
  "hcb_reach ex_st1 \<and> hcb_inv ex_st1 \<and> hcb_cleaner ex_st1 \<noteq> None \<and> hcb_deref ex_st1 1 \<noteq> None"
proof -
  have "hcb_step (hcb_start Map.empty 0) ex_st0"
    unfolding ex_st0_def by (rule hcb_step.alloc) (simp_all add: ex_st_defs)
  moreover have "hcb_step ex_st0 ex_st1"
    by (rule hcb_step.lookup [OF ex_st0_facts(2) ex_st0_lookup])
  ultimately have r: "hcb_reach ex_st1" using hcb_reach.intros by blast
  show ?thesis
    using hcb_reachable_safe [OF r] r ex_st1_facts by blast
qed

text \<open>
  \<open>hcb_crit_bit\<close> finds the first bit, from the most significant end, in which
  two different digests differ, and describes it consistently (byte index, mask, bit number).
\<close>

theorem hcb_crit_bit_first_difference:
  assumes "length d1 = DIGEST_LEN" "length d2 = DIGEST_LEN" "d1 \<noteq> d2"
  shows "\<exists>y'. hcb_crit_bit d1 d2 y = Some (y_critbit y', y') \<and> y_wf y' \<and>
          y_leaf0 y' = y_leaf0 y \<and> y_leaf1 y' = y_leaf1 y \<and>
          dbit d1 (unat (y_critbit y')) \<noteq> dbit d2 (unat (y_critbit y')) \<and>
          (\<forall>n < unat (y_critbit y'). dbit d1 n = dbit d2 n)"
  by (rule crit_bit_first [OF assms])

theorem hcb_crit_bit_first_difference_witness:
  "\<exists>y'. hcb_crit_bit (0x01 # replicate 31 0) (0x22 # replicate 31 0) y_zero = Some (y_critbit y', y') \<and>
     y_wf y' \<and> dbit (0x01 # replicate 31 0) (unat (y_critbit y')) \<noteq> dbit (0x22 # replicate 31 0) (unat (y_critbit y'))"
  using hcb_crit_bit_first_difference [of "0x01 # replicate 31 0" "0x22 # replicate 31 0" y_zero]
  by (auto simp: DIGEST_LEN_def)

lemma bit1_iff: "bit (1 :: uintptr) n \<longleftrightarrow> n = 0"
  by (simp add: bit_1_iff)

lemma bit2_iff: "bit (2 :: uintptr) n \<longleftrightarrow> n = 1"
  using bit_2_iff [of n, where ?'a = "64 word"] by auto

lemma and_one: "u AND 1 = 0 \<longleftrightarrow> \<not> bit (u :: uintptr) 0"
proof
  assume "u AND 1 = 0"
  then have "\<not> bit (u AND 1) 0" by (metis bit_0_eq bot_apply bot_bool_def)
  then show "\<not> bit u 0" by (simp only: bit_and_iff bit1_iff simp_thms)
next
  assume "\<not> bit u 0"
  then show "u AND 1 = 0" by (intro bit_word_eqI) (metis bit_and_iff bit1_iff bit_0_eq bot_apply bot_bool_def)
qed

lemma and_two: "u AND 2 = 0 \<longleftrightarrow> \<not> bit (u :: uintptr) 1"
proof
  assume "u AND 2 = 0"
  then have "\<not> bit (u AND 2) 1" by (metis bit_0_eq bot_apply bot_bool_def)
  then show "\<not> bit u 1" by (simp only: bit_and_iff bit2_iff simp_thms)
next
  assume "\<not> bit u 1"
  then show "u AND 2 = 0" by (intro bit_word_eqI) (metis bit_and_iff bit2_iff bit_0_eq bot_apply bot_bool_def)
qed

lemma and_three: "u AND 3 = 0 \<Longrightarrow> \<not> bit (u :: uintptr) 0 \<and> \<not> bit u 1"
proof -
  assume u: "u AND 3 = 0"
  have "u AND 1 = (u AND 3) AND 1" "u AND 2 = (u AND 3) AND 2" by (simp_all add: and.assoc)
  then show ?thesis using u by (simp only: and_one [symmetric] and_two [symmetric] bit.conj_zero_left)
qed

lemma tag_clear:
  "\<not> bit (n :: uintptr) 0 \<Longrightarrow> (1 OR n) AND NOT 1 = n"
  "\<not> bit (n :: uintptr) 1 \<Longrightarrow> (2 OR n) AND NOT 2 = n"
  by (rule bit_word_eqI; metis bit_and_iff bit_or_iff bit_not_iff bit1_iff bit2_iff possible_bit_word)+

text \<open>
  The pointer tags: an aligned address, tagged as a node or as an inner node, is
  recognised as exactly that, untags to itself, and the two kinds and the null pointer never coincide.
\<close>

theorem hcb_pointer_tags:
  assumes "n AND 3 = 0" "y AND 3 = 0"
  shows "\<exists>u v. hcb_r_node n = Some u \<and> hcb_r_y y = Some v \<and> hcb_l_node u = Some n \<and> hcb_l_y v = Some y \<and>
           hcb_is_node u \<and> \<not> hcb_is_y u \<and> hcb_is_y v \<and> \<not> hcb_is_node v \<and> u \<noteq> v \<and> u \<noteq> 0 \<and> v \<noteq> 0"
proof -
  have b: "\<not> bit n 0" "\<not> bit n 1" "\<not> bit y 0" "\<not> bit y 1"
    using and_three assms by blast+
  have c: "bit (1 OR n) 0" "\<not> bit (1 OR n) 1" "bit (2 OR y) 1" "\<not> bit (2 OR y) 0"
    using b by (simp_all add: bit_or_iff bit1_iff bit2_iff del: bit_0)
  have ne: "1 OR n \<noteq> 2 OR y" "1 OR n \<noteq> 0" "2 OR y \<noteq> 0"
    using c by (metis, (metis bit_0_eq bot_apply bot_bool_def)+)
  have ok: "n AND (1 OR 2) = 0" "y AND (1 OR 2) = 0" using assms by simp_all
  show ?thesis
    unfolding hcb_r_node_def hcb_r_y_def hcb_l_node_def hcb_l_y_def hcb_is_node_def hcb_is_y_def
        HCB_BIT_NODE_def HCB_BIT_Y_def
    using tag_clear(1) [OF b(1)] tag_clear(2) [OF b(4)] ok ne c
    by (intro exI [of _ "1 OR n"] exI [of _ "2 OR y"]) (simp only: and_one and_two ok chk_def, simp)
qed

theorem hcb_pointer_tags_witness:
  "\<exists>u v. hcb_r_node 0x1000 = Some u \<and> hcb_r_y 0x1040 = Some v \<and> hcb_l_node u = Some 0x1000 \<and>
         hcb_l_y v = Some 0x1040 \<and> u \<noteq> v"
  using hcb_pointer_tags [of "0x1000" "0x1040"] by auto

end
