(* ===== verification/CLib.thy ===== *)
theory CLib
  imports Prelude
begin

text \<open>
  What the sources use of the C library, in the C locale: character classes, \<open>memcmp\<close>,
  \<open>sscanf\<close> of an unsigned number.
\<close>

section \<open>memcmp\<close>

fun memcmp :: "byte list \<Rightarrow> byte list \<Rightarrow> int" where
  "memcmp (x # xs) (y # ys) = (if x = y then memcmp xs ys else if x < y then - 1 else 1)"
| "memcmp _ _ = 0"

lemma memcmp_refl [simp]: "memcmp d d = 0"
  by (induction d) auto

lemma memcmp_zero: "length c = length d \<Longrightarrow> memcmp c d = 0 \<longleftrightarrow> c = d"
  by (induction c d rule: memcmp.induct) auto

lemma memcmp_swap: "length c = length d \<Longrightarrow> memcmp d c = - memcmp c d"
  by (induction c d rule: memcmp.induct) auto

lemma memcmp_trans:
  "memcmp c d < 0 \<Longrightarrow> memcmp d e < 0 \<Longrightarrow> length c = length d \<Longrightarrow> length d = length e \<Longrightarrow> memcmp c e < 0"
proof (induction c d arbitrary: e rule: memcmp.induct)
  case (1 x xs y ys)
  then show ?case by (cases e) (auto split: if_splits)
qed auto

section \<open>C strings\<close>

text \<open>A string in memory is a list of characters with a NUL after it; \<open>cstr\<close> is what C sees of it.\<close>

definition NUL :: char where
  "NUL = CHR 0x00"

definition cstr :: "string \<Rightarrow> string" where
  "cstr s = takeWhile (\<lambda>c. c \<noteq> NUL) s"

lemma cstr_id [simp]: "NUL \<notin> set s \<Longrightarrow> cstr s = s"
  unfolding cstr_def by (rule takeWhile_eq_all_conv [THEN iffD2]) auto

lemma cstr_idem [simp]: "cstr (cstr s) = cstr s"
  unfolding cstr_def by (simp add: takeWhile_idem)

lemma cstr_NUL [simp]: "NUL \<notin> set (cstr s)"
  unfolding cstr_def by (auto dest: set_takeWhileD)

definition tolower :: "char \<Rightarrow> char" where
  "tolower c = (let n = (of_char c :: nat) in if 65 \<le> n \<and> n \<le> 90 then char_of (n + 32) else c)"

text \<open>\<open>strcasecmp(a, b) == 0\<close> and \<open>strncasecmp(a, b, n) == 0\<close>.\<close>

definition strcaseeq :: "string \<Rightarrow> string \<Rightarrow> bool" where
  "strcaseeq a b \<longleftrightarrow> map tolower (cstr a) = map tolower (cstr b)"

definition strncaseeq :: "nat \<Rightarrow> string \<Rightarrow> string \<Rightarrow> bool" where
  "strncaseeq n a b \<longleftrightarrow> take n (map tolower (cstr a)) = take n (map tolower (cstr b))"

definition is_alpha :: "char \<Rightarrow> bool" where
  "is_alpha c \<longleftrightarrow> (let n = (of_char c :: nat) in 65 \<le> n \<and> n \<le> 90 \<or> 97 \<le> n \<and> n \<le> 122)"

definition is_graph :: "char \<Rightarrow> bool" where
  "is_graph c \<longleftrightarrow> (let n = (of_char c :: nat) in 33 \<le> n \<and> n \<le> 126)"

section \<open>Characters and numbers\<close>

text \<open>
  \<open>sscanf(s, "%u", &u)\<close>: leading white space, an optional sign and decimal digits, read as
  \<open>strtoul\<close> does (saturating at 64 bits) and then stored in 32 bits; None when nothing was converted.
\<close>

definition is_digit :: "char \<Rightarrow> bool" where
  "is_digit c \<longleftrightarrow> c \<in> set ''0123456789''"

definition is_space :: "char \<Rightarrow> bool" where
  "is_space c \<longleftrightarrow> c = CHR '' '' \<or> (of_char c :: nat) \<in> {9..13}"

definition digits_value :: "string \<Rightarrow> nat" where
  "digits_value s = foldl (\<lambda>n c. 10 * n + (of_char c - 48)) 0 s"

definition sscanf_u :: "string \<Rightarrow> u32 option" where
  "sscanf_u s = (
     let s1 = dropWhile is_space s;
         neg = (s1 \<noteq> [] \<and> hd s1 = CHR ''-'');
         s2 = (if s1 \<noteq> [] \<and> hd s1 \<in> {CHR ''-'', CHR ''+''} then tl s1 else s1);
         ds = takeWhile is_digit s2;
         n = digits_value ds;
         v = (if n \<ge> 2 ^ 64 then 2 ^ 64 - 1 else if neg then (2 ^ 64 - n) mod 2 ^ 64 else n)
     in if ds = [] then None else Some (word_of_nat v))"

text \<open>
  \<open>strtoul(s, NULL, base)\<close> for base 10 and base 0 (where \<open>0x\<close> means 16 and a leading \<open>0\<close>
  means 8): white space, sign, digits; saturating at 64 bits; a minus sign negates modulo \<open>2 ^ 64\<close>.
\<close>

definition digit_val :: "char \<Rightarrow> nat" where
  "digit_val c = (let n = (of_char c :: nat) in
     if 48 \<le> n \<and> n \<le> 57 then n - 48
     else if 65 \<le> n \<and> n \<le> 90 then n - 55
     else if 97 \<le> n \<and> n \<le> 122 then n - 87 else 99)"

definition strtoul :: "nat \<Rightarrow> string \<Rightarrow> nat" where
  "strtoul base s = (
     let s1 = dropWhile is_space (cstr s);
         neg = (s1 \<noteq> [] \<and> hd s1 = CHR ''-'');
         s2 = (if s1 \<noteq> [] \<and> hd s1 \<in> {CHR ''-'', CHR ''+''} then tl s1 else s1);
         hex = (length s2 > 2 \<and> s2 ! 0 = CHR ''0'' \<and> s2 ! 1 \<in> {CHR ''x'', CHR ''X''} \<and> digit_val (s2 ! 2) < 16);
         b = (if base = 0 then if hex then 16 else if s2 \<noteq> [] \<and> hd s2 = CHR ''0'' then 8 else 10 else base);
         s3 = (if base = 0 \<and> hex then drop 2 s2 else s2);
         n = foldl (\<lambda>n c. b * n + digit_val c) 0 (takeWhile (\<lambda>c. digit_val c < b) s3)
     in if n \<ge> 2 ^ 64 then 2 ^ 64 - 1 else if neg then (2 ^ 64 - n) mod 2 ^ 64 else n)"

end
