(* ===== verification/Hash_Lists.thy ===== *)
theory Hash_Lists
  imports Objhead CLib
begin

text \<open>
  The two list-based hash implementations: \<open>bin/varnishd/hash_simple_list.c\<close> (one sorted list of
  object heads) and \<open>bin/varnishd/hash_classic.c\<close> (buckets of sorted lists, chosen by the first four
  digest bytes).  Both are shown to meet the contract \<open>hash_slinger\<close>.
\<close>

section \<open>Shared code: the list scan\<close>

text \<open>Where the \<open>VTAILQ_FOREACH\<close> of the lookups stops.\<close>

datatype scan = Found addr | Before addr | AtTail

fun hoh_scan :: "'a oh_heap \<Rightarrow> digest \<Rightarrow> addr list \<Rightarrow> scan option" where
  "hoh_scan h d [] = Some AtTail"
| "hoh_scan h d (a # as) = do {
     oh \<leftarrow> h a;
     let i = memcmp (oh_digest oh) d;
     if i < 0 then hoh_scan h d as else if i > 0 then Some (Before a) else Some (Found a) }"

fun insert_before :: "addr \<Rightarrow> addr \<Rightarrow> addr list \<Rightarrow> addr list" where
  "insert_before b x [] = []"
| "insert_before b x (a # as) = (if a = b then x # a # as else a # insert_before b x as)"

definition less_key :: "(addr \<Rightarrow> digest) \<Rightarrow> addr \<Rightarrow> addr \<Rightarrow> bool" where
  "less_key K a b \<longleftrightarrow> memcmp (K a) (K b) < 0"

text \<open>A well-formed list: allocated, referenced, whole digests, in strictly increasing order.\<close>

definition hoh_ok :: "'a oh_heap \<Rightarrow> addr list \<Rightarrow> bool" where
  "hoh_ok h as \<longleftrightarrow> sorted_wrt (less_key (oh_key h)) as \<and>
     (\<forall>a \<in> set as. h a \<noteq> None \<and> oh_ref h a > 0 \<and> length (oh_key h a) = DIGEST_LEN)"

definition hoh_at :: "'a oh_heap \<Rightarrow> addr list \<Rightarrow> digest \<Rightarrow> addr option" where
  "hoh_at h as d = List.find (\<lambda>a. oh_key h a = d) as"

lemma insert_before_notin [simp]: "b \<notin> set as \<Longrightarrow> insert_before b x as = as"
  by (induction as) auto

lemma hoh_ok_Nil [simp]: "hoh_ok h []"
  by (simp add: hoh_ok_def)

lemma hoh_ok_Cons:
  "hoh_ok h (a # as) \<longleftrightarrow> (\<forall>b \<in> set as. less_key (oh_key h) a b) \<and> h a \<noteq> None \<and> oh_ref h a > 0 \<and>
     length (oh_key h a) = DIGEST_LEN \<and> hoh_ok h as"
  by (auto simp: hoh_ok_def)

lemma hoh_ok_distinct: "hoh_ok h as \<Longrightarrow> distinct as"
  by (induction as) (auto simp: hoh_ok_Cons less_key_def)

lemma hoh_at_Some: "hoh_ok h as \<Longrightarrow> hoh_at h as d = Some a \<longleftrightarrow> a \<in> set as \<and> oh_key h a = d"
  by (induction as) (auto simp: hoh_ok_Cons hoh_at_def less_key_def)

lemma hoh_at_None: "hoh_at h as d = None \<longleftrightarrow> (\<forall>a \<in> set as. oh_key h a \<noteq> d)"
  by (auto simp: hoh_at_def find_None_iff)

lemma hoh_scan_hit:
  "hoh_ok h as \<Longrightarrow> hoh_at h as d = Some a \<Longrightarrow> hoh_scan h d as = Some (Found a)"
proof (induction as)
  case (Cons b as)
  obtain oh where oh: "h b = Some oh" "hoh_ok h as" "\<forall>c \<in> set as. less_key (oh_key h) b c"
    using Cons.prems(1) by (auto simp: hoh_ok_Cons)
  show ?case
  proof (cases "oh_key h b = d")
    case True
    then show ?thesis using oh Cons.prems(2) by (simp add: hoh_at_def)
  next
    case False
    then have a: "hoh_at h as d = Some a" using Cons.prems(2) by (simp add: hoh_at_def)
    then have "less_key (oh_key h) b a" "oh_key h a = d" using oh hoh_at_Some by blast+
    then show ?thesis using Cons.IH [OF oh(2) a] oh by (simp add: less_key_def)
  qed
qed (simp add: hoh_at_def)

text \<open>On a miss the new object head goes where it keeps the order.\<close>

definition hoh_enter :: "scan \<Rightarrow> addr \<Rightarrow> addr list \<Rightarrow> addr list" where
  "hoh_enter r noh as = (case r of Before b \<Rightarrow> insert_before b noh as | _ \<Rightarrow> as @ [noh])"

lemma hoh_scan_miss:
  assumes "hoh_ok h as" "hoh_at h as d = None" "length d = DIGEST_LEN"
    and "h noh \<noteq> None" "oh_ref h noh > 0" "oh_key h noh = d"
  shows "\<exists>r. hoh_scan h d as = Some r \<and> (\<forall>a. r \<noteq> Found a) \<and> hoh_ok h (hoh_enter r noh as) \<and>
             set (hoh_enter r noh as) = insert noh (set as)"
  using assms(1,2)
proof (induction as)
  case Nil
  then show ?case using assms(3-) by (simp add: hoh_enter_def hoh_ok_def)
next
  case (Cons a as)
  have ha: "h a \<noteq> None" "length (oh_key h a) = DIGEST_LEN" "oh_key h a \<noteq> d" "hoh_ok h as" "oh_ref h a > 0"
    "\<And>b. b \<in> set as \<Longrightarrow> less_key (oh_key h) a b \<and> length (oh_key h b) = DIGEST_LEN"
    using Cons.prems by (auto simp: hoh_ok_Cons hoh_at_None) (auto simp: hoh_ok_def)
  then have nz: "memcmp (oh_key h a) d \<noteq> 0" using memcmp_zero assms(3) by simp
  have anoh: "a \<noteq> noh" using assms(6) ha by blast
  show ?case
  proof (cases "memcmp (oh_key h a) d < 0")
    case True
    then obtain r where r: "hoh_scan h d as = Some r" "\<forall>a. r \<noteq> Found a" "hoh_ok h (hoh_enter r noh as)"
      "set (hoh_enter r noh as) = insert noh (set as)"
      using Cons.IH [OF ha(4)] Cons.prems(2) by (auto simp: hoh_at_None)
    have ne: "r = Before b \<Longrightarrow> b \<noteq> a" for b
    proof
      assume b: "r = Before b" "b = a"
      have "noh \<in> set (hoh_enter r noh as)" using r(4) by simp
      moreover have "a \<notin> set as" using ha(6) [of a] by (auto simp: less_key_def)
      ultimately show False
        using r(4) b Cons.prems(2) assms(6) by (auto simp: hoh_enter_def hoh_at_None)
    qed
    then have e: "hoh_enter r noh (a # as) = a # hoh_enter r noh as"
      by (cases r) (auto simp: hoh_enter_def)
    have "less_key (oh_key h) a b" if "b \<in> set (hoh_enter r noh as)" for b
      using that r(4) ha(6) True assms(6) by (auto simp: less_key_def)
    then show ?thesis
      using r e True ha by (auto simp: hoh_ok_Cons)
  next
    case False
    have "less_key (oh_key h) noh b" if "b \<in> set (a # as)" for b
      using that ha False nz assms(3,6) memcmp_swap [of "oh_key h a" d] memcmp_trans [of d "oh_key h a" "oh_key h b"]
      by (auto simp: less_key_def)
    then show ?thesis
      using False nz ha assms(3-) Cons.prems(1)
      by (auto simp: hoh_enter_def hoh_ok_Cons)
  qed
qed

lemma hoh_ok_remove: "hoh_ok h as \<Longrightarrow> hoh_ok h (remove1 a as)"
  by (induction as) (auto simp: hoh_ok_Cons dest: notin_set_remove1)

lemma hoh_ok_cong:
  "hoh_ok h as \<Longrightarrow> (\<And>a. a \<in> set as \<Longrightarrow> h' a \<noteq> None \<and> oh_ref h' a > 0 \<and> oh_key h' a = oh_key h a) \<Longrightarrow>
   hoh_ok h' as"
  by (induction as) (auto simp: hoh_ok_Cons less_key_def)

lemma hoh_at_eqI:
  assumes "hoh_ok h as" "hoh_ok h' as'"
    and "\<And>a. a \<in> set as' \<and> oh_key h' a = d \<longleftrightarrow> a \<in> set as \<and> oh_key h a = d"
  shows "hoh_at h' as' d = hoh_at h as d"
  using hoh_at_Some [OF assms(1), of d] hoh_at_Some [OF assms(2), of d] assms(3)
  by (metis option.exhaust)


section \<open>The simple list\<close>

record hsl =
  hsl_heap :: "addr \<rightharpoonup> objhead"
  hsl_head :: "addr list"

definition hsl_start :: "(addr \<rightharpoonup> objhead) \<Rightarrow> hsl" where
  "hsl_start h = \<lparr>hsl_heap = h, hsl_head = []\<rparr>"

definition hsl_lookup :: "hsl \<Rightarrow> addr \<Rightarrow> (addr \<times> hsl) option" where
  "hsl_lookup st noh = do {
     on \<leftarrow> hsl_heap st noh;
     r \<leftarrow> hoh_scan (hsl_heap st) (oh_digest on) (hsl_head st);
     (case r of
        Found a \<Rightarrow> do {
          oh \<leftarrow> hsl_heap st a;
          Some (a, st\<lparr>hsl_heap := (hsl_heap st)(a \<mapsto> oh\<lparr>oh_refcnt := oh_refcnt oh + 1\<rparr>)\<rparr>) }
      | Before b \<Rightarrow> Some (noh, st\<lparr>hsl_head := insert_before b noh (hsl_head st)\<rparr>)
      | AtTail \<Rightarrow> Some (noh, st\<lparr>hsl_head := hsl_head st @ [noh]\<rparr>)) }"

definition hsl_deref :: "hsl \<Rightarrow> addr \<Rightarrow> (bool \<times> hsl) option" where
  "hsl_deref st a = do {
     oh \<leftarrow> hsl_heap st a;
     let st = st\<lparr>hsl_heap := (hsl_heap st)(a \<mapsto> oh\<lparr>oh_refcnt := oh_refcnt oh - 1\<rparr>)\<rparr>;
     if oh_refcnt oh - 1 = 0 then Some (False, st\<lparr>hsl_head := remove1 a (hsl_head st)\<rparr>)
     else Some (True, st) }"

definition hsl_inv :: "hsl \<Rightarrow> bool" where
  "hsl_inv st \<longleftrightarrow> hoh_ok (hsl_heap st) (hsl_head st)"

definition hsl_spare :: "hsl \<Rightarrow> addr \<Rightarrow> bool" where
  "hsl_spare st noh \<longleftrightarrow> hsl_heap st noh \<noteq> None \<and> oh_ref (hsl_heap st) noh = 1 \<and>
     length (oh_key (hsl_heap st) noh) = DIGEST_LEN \<and> noh \<notin> set (hsl_head st)"

definition hsl_index :: "hsl \<Rightarrow> digest \<Rightarrow> addr option" where
  "hsl_index st = hoh_at (hsl_heap st) (hsl_head st)"

definition hsl_ref :: "hsl \<Rightarrow> addr \<Rightarrow> int" where
  "hsl_ref st = oh_ref (hsl_heap st)"

definition hsl_key :: "hsl \<Rightarrow> addr \<Rightarrow> digest" where
  "hsl_key st = oh_key (hsl_heap st)"

lemmas hsl_views = hsl_inv_def hsl_spare_def hsl_index_def hsl_ref_def hsl_key_def

text \<open>Changing only reference counts of a well-formed list.\<close>

lemma hoh_ok_refcnt:
  "hoh_ok h as \<Longrightarrow> h a = Some oh \<Longrightarrow> n > 0 \<or> a \<notin> set as \<Longrightarrow> hoh_ok (h(a \<mapsto> oh\<lparr>oh_refcnt := n\<rparr>)) as"
  by (rule hoh_ok_cong) (auto simp: hoh_ok_def)

lemma hoh_key_refcnt [simp]:
  "h a = Some oh \<Longrightarrow> oh_key (h(a \<mapsto> oh\<lparr>oh_refcnt := n\<rparr>)) = oh_key h"
  by (auto simp: fun_eq_iff)

lemma hoh_at_refcnt [simp]:
  "h a = Some oh \<Longrightarrow> hoh_at (h(a \<mapsto> oh\<lparr>oh_refcnt := n\<rparr>)) as = hoh_at h as"
  by (simp add: hoh_at_def fun_eq_iff)

lemma oh_ref_fun: "oh_ref (h(a \<mapsto> oh)) = (oh_ref h)(a := oh_refcnt oh)"
  by (auto simp: fun_eq_iff)

text \<open>How entering and removing an object head changes what the list stands for.\<close>

lemma hoh_at_enter:
  assumes "hoh_ok h as" "hoh_ok h as'" "set as' = insert a (set as)" "hoh_at h as (oh_key h a) = None"
  shows "hoh_at h as' = (hoh_at h as)(oh_key h a \<mapsto> a)"
proof
  fix d
  show "hoh_at h as' d = ((hoh_at h as)(oh_key h a \<mapsto> a)) d"
  proof (cases "d = oh_key h a")
    case True
    then show ?thesis using hoh_at_Some [OF assms(2), of d a] assms(3) by simp
  next
    case False
    then show ?thesis using hoh_at_eqI [OF assms(1,2), of d] assms(3) by auto
  qed
qed

lemma hoh_at_remove:
  assumes "hoh_ok h as" "a \<in> set as"
  shows "hoh_at h (remove1 a as) = (hoh_at h as)(oh_key h a := None)"
proof
  fix d
  have s: "set (remove1 a as) = set as - {a}" using hoh_ok_distinct [OF assms(1)] by simp
  have u: "b = a" if "b \<in> set as" "oh_key h b = oh_key h a" for b
    using that assms hoh_at_Some [OF assms(1), of "oh_key h a"] by (metis option.inject)
  show "hoh_at h (remove1 a as) d = ((hoh_at h as)(oh_key h a := None)) d"
  proof (cases "d = oh_key h a")
    case True
    then show ?thesis using s u by (auto simp: hoh_at_None)
  next
    case False
    then show ?thesis using hoh_at_eqI [OF assms(1) hoh_ok_remove [OF assms(1)], of a d] s by auto
  qed
qed

interpretation hsl: hash_slinger hsl_lookup hsl_deref hsl_inv hsl_spare "\<lambda>_ _. True" hsl_index hsl_ref hsl_key
proof unfold_locales
  show "hsl_key s a = d \<and> 0 < hsl_ref s a" if "hsl_inv s" "hsl_index s d = Some a" for s d a
    using that by (simp add: hsl_views hoh_at_Some) (simp add: hoh_ok_def)
  show "hsl_index s d \<noteq> Some noh" if "hsl_inv s" "hsl_spare s noh" for s noh d
    using that by (simp add: hsl_views hoh_at_Some)
  show "\<exists>s'. hsl_lookup s noh = Some (a, s') \<and> hsl_inv s' \<and> hsl_spare s' noh \<and>
      hsl_index s' = hsl_index s \<and> hsl_ref s' = (hsl_ref s)(a := hsl_ref s a + 1)"
    if "hsl_inv s" "hsl_spare s noh" "hsl_index s (hsl_key s noh) = Some a" for s noh a
  proof -
    have ok: "hoh_ok (hsl_heap s) (hsl_head s)" using that by (simp add: hsl_views)
    have at: "hoh_at (hsl_heap s) (hsl_head s) (hsl_key s noh) = Some a" using that by (simp add: hsl_views)
    have a: "a \<in> set (hsl_head s)" using at hoh_at_Some [OF ok] by simp
    then obtain oh where oh: "hsl_heap s a = Some oh" "oh_refcnt oh > 0"
      using ok by (auto simp: hoh_ok_def)
    show ?thesis
      using that hoh_scan_hit [OF ok at] oh a hoh_ok_refcnt [OF ok oh(1), of "oh_refcnt oh + 1"]
      by (auto simp: hsl_lookup_def hsl_views oh_ref_fun)
  qed
  show "\<exists>s'. hsl_lookup s noh = Some (noh, s') \<and> hsl_inv s' \<and>
      hsl_index s' = (hsl_index s)(hsl_key s noh \<mapsto> noh) \<and> hsl_ref s' = hsl_ref s"
    if h: "hsl_inv s" "hsl_spare s noh" "hsl_index s (hsl_key s noh) = None" for s noh
  proof -
    have ok: "hoh_ok (hsl_heap s) (hsl_head s)" using h by (simp add: hsl_views)
    have at: "hoh_at (hsl_heap s) (hsl_head s) (hsl_key s noh) = None" using h by (simp add: hsl_views)
    have pre: "length (hsl_key s noh) = DIGEST_LEN" "hsl_heap s noh \<noteq> None" "oh_ref (hsl_heap s) noh > 0"
      "oh_key (hsl_heap s) noh = hsl_key s noh"
      using h(2) by (simp_all add: hsl_views)
    obtain r where r: "hoh_scan (hsl_heap s) (hsl_key s noh) (hsl_head s) = Some r" "\<forall>a. r \<noteq> Found a"
      "hoh_ok (hsl_heap s) (hoh_enter r noh (hsl_head s))"
      "set (hoh_enter r noh (hsl_head s)) = insert noh (set (hsl_head s))"
      using hoh_scan_miss [OF ok at pre] by blast
    have "hsl_lookup s noh = Some (noh, s\<lparr>hsl_head := hoh_enter r noh (hsl_head s)\<rparr>)"
      using r(1,2) h(2) by (auto simp: hsl_lookup_def hoh_enter_def hsl_views split: scan.splits)
    then show ?thesis
      using r hoh_at_enter [OF ok r(3,4)] at by (simp add: hsl_views)
  qed
  show "\<exists>s'. hsl_deref s a = Some (True, s') \<and> hsl_inv s' \<and> hsl_index s' = hsl_index s \<and>
      hsl_ref s' = (hsl_ref s)(a := hsl_ref s a - 1)"
    if h: "hsl_inv s" "hsl_index s d = Some a" "1 < hsl_ref s a" for s d a
  proof -
    obtain oh where oh: "hsl_heap s a = Some oh" "oh_refcnt oh > 1"
      using h by (auto simp: hsl_views oh_ref_def split: option.splits)
    have ok: "hoh_ok (hsl_heap s) (hsl_head s)" using h by (simp add: hsl_views)
    show ?thesis
      using hoh_ok_refcnt [OF ok oh(1), of "oh_refcnt oh - 1"] h oh
      by (auto simp: hsl_deref_def hsl_views oh_ref_fun)
  qed
  show "\<exists>r s'. hsl_deref s a = Some (r, s') \<and> hsl_inv s' \<and> hsl_index s' = (hsl_index s)(d := None) \<and>
      hsl_ref s' = (hsl_ref s)(a := 0)"
    if h: "hsl_inv s" "hsl_index s d = Some a" "hsl_ref s a = 1" for s d a
  proof -
    have ok: "hoh_ok (hsl_heap s) (hsl_head s)" using h by (simp add: hsl_views)
    have a: "a \<in> set (hsl_head s)" "oh_key (hsl_heap s) a = d"
      using h hoh_at_Some [OF ok] by (simp_all add: hsl_views)
    obtain oh where oh: "hsl_heap s a = Some oh" "oh_refcnt oh = 1"
      using h by (auto simp: hsl_views oh_ref_def split: option.splits)
    have "a \<notin> set (remove1 a (hsl_head s))" using hoh_ok_distinct [OF ok] by simp
    then show ?thesis
      using oh hoh_ok_refcnt [OF hoh_ok_remove [OF ok] oh(1), of 0 a] hoh_at_remove [OF ok a(1)] a(2)
      by (auto simp: hsl_deref_def hsl_views oh_ref_fun)
  qed
qed

section \<open>The classic hash\<close>

text \<open>\<open>ARGV_ERR\<close> ends the program: None.\<close>

definition hcl_init :: "u32 \<Rightarrow> string list \<Rightarrow> u32 option" where
  "hcl_init nhash av =
     (if av = [] then Some nhash
      else if length av > 1 then None
      else case sscanf_u (hd av) of
             None \<Rightarrow> Some nhash
           | Some u \<Rightarrow>
               if u = 0 then Some nhash
               else if u > 2 \<and> and u (u - 1) = 0 then Some (u - 1)
               else Some u)"

record hcl_objhead = objhead +
  oh_hoh_head :: "nat option"

record hcl =
  hcl_heap :: "addr \<rightharpoonup> hcl_objhead"
  hcl_nhash :: u32
  hcl_head :: "addr list list"

definition hcl_start :: "(addr \<rightharpoonup> hcl_objhead) \<Rightarrow> u32 \<Rightarrow> hcl" where
  "hcl_start h nhash = \<lparr>hcl_heap = h, hcl_nhash = nhash, hcl_head = replicate (unat nhash) []\<rparr>"

text \<open>
  The first four digest bytes as an \<open>unsigned\<close>, on a little-endian machine, and the bucket.  The
  remainder by zero buckets is a division error.
\<close>

definition memcpy_u32 :: "byte list \<Rightarrow> u32" where
  "memcpy_u32 d = ucast (d ! 0) + 0x100 * ucast (d ! 1) + 0x10000 * ucast (d ! 2) + 0x1000000 * ucast (d ! 3)"

definition hcl_bucket :: "u32 \<Rightarrow> digest \<Rightarrow> nat" where
  "hcl_bucket nhash d = unat (memcpy_u32 d mod nhash)"

definition hcl_lookup :: "hcl \<Rightarrow> addr \<Rightarrow> (addr \<times> hcl) option" where
  "hcl_lookup st noh = do {
     on \<leftarrow> hcl_heap st noh;
     chk (hcl_nhash st \<noteq> 0);
     let u1 = hcl_bucket (hcl_nhash st) (oh_digest on);
     chk (u1 < length (hcl_head st));
     let hp = hcl_head st ! u1;
     r \<leftarrow> hoh_scan (hcl_heap st) (oh_digest on) hp;
     (case r of
        Found a \<Rightarrow> do {
          oh \<leftarrow> hcl_heap st a;
          Some (a, st\<lparr>hcl_heap := (hcl_heap st)(a \<mapsto> oh\<lparr>oh_refcnt := oh_refcnt oh + 1\<rparr>)\<rparr>) }
      | Before b \<Rightarrow> Some (noh, st\<lparr>hcl_head := (hcl_head st)[u1 := insert_before b noh hp],
                      hcl_heap := (hcl_heap st)(noh \<mapsto> on\<lparr>oh_hoh_head := Some u1\<rparr>)\<rparr>)
      | AtTail \<Rightarrow> Some (noh, st\<lparr>hcl_head := (hcl_head st)[u1 := hp @ [noh]],
                      hcl_heap := (hcl_heap st)(noh \<mapsto> on\<lparr>oh_hoh_head := Some u1\<rparr>)\<rparr>)) }"

definition hcl_deref :: "hcl \<Rightarrow> addr \<Rightarrow> (bool \<times> hcl) option" where
  "hcl_deref st a = do {
     oh \<leftarrow> hcl_heap st a;
     u1 \<leftarrow> oh_hoh_head oh;
     chk (u1 < length (hcl_head st));
     chk (oh_refcnt oh > 0);
     let st = st\<lparr>hcl_heap := (hcl_heap st)(a \<mapsto> oh\<lparr>oh_refcnt := oh_refcnt oh - 1\<rparr>)\<rparr>;
     if oh_refcnt oh - 1 = 0
     then Some (False, st\<lparr>hcl_head := (hcl_head st)[u1 := remove1 a (hcl_head st ! u1)]\<rparr>)
     else Some (True, st) }"

definition hcl_inv :: "hcl \<Rightarrow> bool" where
  "hcl_inv st \<longleftrightarrow> hcl_nhash st \<noteq> 0 \<and> length (hcl_head st) = unat (hcl_nhash st) \<and>
     (\<forall>u < length (hcl_head st). hoh_ok (hcl_heap st) (hcl_head st ! u) \<and>
        (\<forall>a \<in> set (hcl_head st ! u). hcl_bucket (hcl_nhash st) (oh_key (hcl_heap st) a) = u \<and>
           map_option oh_hoh_head (hcl_heap st a) = Some (Some u)))"

definition hcl_index :: "hcl \<Rightarrow> digest \<Rightarrow> addr option" where
  "hcl_index st d = hoh_at (hcl_heap st) (hcl_head st ! hcl_bucket (hcl_nhash st) d) d"

definition hcl_spare :: "hcl \<Rightarrow> addr \<Rightarrow> bool" where
  "hcl_spare st noh \<longleftrightarrow> hcl_heap st noh \<noteq> None \<and> oh_ref (hcl_heap st) noh = 1 \<and>
     length (oh_key (hcl_heap st) noh) = DIGEST_LEN \<and> (\<forall>hp \<in> set (hcl_head st). noh \<notin> set hp)"

definition hcl_ref :: "hcl \<Rightarrow> addr \<Rightarrow> int" where
  "hcl_ref st = oh_ref (hcl_heap st)"

definition hcl_key :: "hcl \<Rightarrow> addr \<Rightarrow> digest" where
  "hcl_key st = oh_key (hcl_heap st)"

lemma hcl_bucket_less: "n \<noteq> 0 \<Longrightarrow> hcl_bucket n d < unat n"
  by (simp add: hcl_bucket_def unat_mod_distrib word_neq_0_conv unat_gt_0)

lemma hcl_invD:
  assumes "hcl_inv st"
  shows "hcl_nhash st \<noteq> 0" "hcl_bucket (hcl_nhash st) d < length (hcl_head st)"
    "v < length (hcl_head st) \<Longrightarrow> hoh_ok (hcl_heap st) (hcl_head st ! v)"
    "v < length (hcl_head st) \<Longrightarrow> a \<in> set (hcl_head st ! v) \<Longrightarrow>
       hcl_bucket (hcl_nhash st) (oh_key (hcl_heap st) a) = v \<and>
       map_option oh_hoh_head (hcl_heap st a) = Some (Some v)"
  using assms hcl_bucket_less [of "hcl_nhash st" d] by (auto simp: hcl_inv_def)

lemma hcl_index_Some:
  "hcl_inv st \<Longrightarrow> hcl_index st d = Some a \<longleftrightarrow>
     a \<in> set (hcl_head st ! hcl_bucket (hcl_nhash st) d) \<and> oh_key (hcl_heap st) a = d"
  using hoh_at_Some [OF hcl_invD(3) [OF _ hcl_invD(2)], of st] by (simp add: hcl_index_def)

text \<open>Replacing one bucket, with a heap that differs only at one object head outside the others.\<close>

lemma hcl_inv_update:
  assumes "hcl_inv st" "u < length (hcl_head st)" "hoh_ok h' as"
    and "\<And>a. a \<in> set as \<Longrightarrow> hcl_bucket (hcl_nhash st) (oh_key h' a) = u \<and>
           map_option oh_hoh_head (h' a) = Some (Some u)"
    and "\<And>v a. v < length (hcl_head st) \<Longrightarrow> v \<noteq> u \<Longrightarrow> a \<in> set (hcl_head st ! v) \<Longrightarrow> h' a = hcl_heap st a"
  shows "hcl_inv (st\<lparr>hcl_head := (hcl_head st)[u := as], hcl_heap := h'\<rparr>)"
proof -
  have k: "oh_key h' a = oh_key (hcl_heap st) a \<and> oh_ref h' a = oh_ref (hcl_heap st) a"
    if "v < length (hcl_head st)" "v \<noteq> u" "a \<in> set (hcl_head st ! v)" for v a
    using assms(5) [OF that] by (simp add: oh_key_def oh_ref_def)
  have "hoh_ok h' (hcl_head st ! v)" if "v < length (hcl_head st)" "v \<noteq> u" for v
    by (rule hoh_ok_cong [OF hcl_invD(3) [OF assms(1) that(1)]])
      (use that k assms(1,5) in \<open>auto simp: hcl_inv_def hoh_ok_def\<close>)
  then show ?thesis
    using assms k by (auto simp: hcl_inv_def nth_list_update)
qed

text \<open>An object head lies in one bucket only.\<close>

lemma hcl_one_bucket:
  "hcl_inv st \<Longrightarrow> u < length (hcl_head st) \<Longrightarrow> v < length (hcl_head st) \<Longrightarrow>
   a \<in> set (hcl_head st ! u) \<Longrightarrow> a \<in> set (hcl_head st ! v) \<Longrightarrow> u = v"
  using hcl_invD(4) by metis

lemma hcl_inv_refcnt:
  assumes inv: "hcl_inv st" and a: "u < length (hcl_head st)" "a \<in> set (hcl_head st ! u)"
    and oh: "hcl_heap st a = Some oh" "n > 0"
  shows "hcl_inv (st\<lparr>hcl_heap := (hcl_heap st)(a \<mapsto> oh\<lparr>oh_refcnt := n\<rparr>)\<rparr>)"
proof -
  let ?h = "(hcl_heap st)(a \<mapsto> oh\<lparr>oh_refcnt := n\<rparr>)"
  have "hcl_inv (st\<lparr>hcl_head := (hcl_head st)[u := hcl_head st ! u], hcl_heap := ?h\<rparr>)"
  proof (rule hcl_inv_update [OF inv a(1)])
    show "hoh_ok ?h (hcl_head st ! u)"
      using hoh_ok_refcnt [OF hcl_invD(3) [OF inv a(1)] oh(1)] oh(2) by simp
    show "hcl_bucket (hcl_nhash st) (oh_key ?h b) = u \<and> map_option oh_hoh_head (?h b) = Some (Some u)"
      if "b \<in> set (hcl_head st ! u)" for b
      using hcl_invD(4) [OF inv a(1) that] hcl_invD(4) [OF inv a] oh(1) by auto
    show "?h b = hcl_heap st b" if "v < length (hcl_head st)" "v \<noteq> u" "b \<in> set (hcl_head st ! v)" for v b
      using hcl_one_bucket [OF inv that(1) a(1) that(3)] a(2) that(2) by auto
  qed
  then show ?thesis by simp
qed

lemma hcl_index_refcnt:
  "hcl_heap st a = Some oh \<Longrightarrow>
   hcl_index (st\<lparr>hcl_heap := (hcl_heap st)(a \<mapsto> oh\<lparr>oh_refcnt := n\<rparr>)\<rparr>) = hcl_index st"
  by (simp add: hcl_index_def fun_eq_iff)

lemma hcl_lookup_hit:
  assumes inv: "hcl_inv s" and sp: "hcl_spare s noh" and ix: "hcl_index s (hcl_key s noh) = Some a"
  shows "\<exists>s'. hcl_lookup s noh = Some (a, s') \<and> hcl_inv s' \<and> hcl_spare s' noh \<and>
      hcl_index s' = hcl_index s \<and> hcl_ref s' = (hcl_ref s)(a := hcl_ref s a + 1)"
proof -
  let ?u = "hcl_bucket (hcl_nhash s) (hcl_key s noh)"
  have u: "?u < length (hcl_head s)" using hcl_invD(2) [OF inv] by simp
  have a: "a \<in> set (hcl_head s ! ?u)" using ix hcl_index_Some [OF inv] by simp
  then obtain oh where oh: "hcl_heap s a = Some oh" "oh_refcnt oh > 0"
    using hcl_invD(3) [OF inv u] by (auto simp: hoh_ok_def)
  have sc: "hoh_scan (hcl_heap s) (hcl_key s noh) (hcl_head s ! ?u) = Some (Found a)"
    using hoh_scan_hit [OF hcl_invD(3) [OF inv u]] ix by (simp add: hcl_index_def)
  let ?s = "s\<lparr>hcl_heap := (hcl_heap s)(a \<mapsto> oh\<lparr>oh_refcnt := oh_refcnt oh + 1\<rparr>)\<rparr>"
  obtain on where on: "hcl_heap s noh = Some on" "oh_digest on = hcl_key s noh"
    using sp by (auto simp: hcl_spare_def hcl_key_def)
  have "hcl_lookup s noh = Some (a, ?s)"
    using on sc oh u hcl_invD(1) [OF inv] by (simp add: hcl_lookup_def)
  moreover have "hcl_inv ?s" by (rule hcl_inv_refcnt [OF inv u a oh(1)]) (use oh in simp)
  moreover have "noh \<noteq> a" using sp a u by (auto simp: hcl_spare_def)
  then have "hcl_spare ?s noh" using sp oh(1) by (simp add: hcl_spare_def)
  ultimately show ?thesis
    using oh hcl_index_refcnt [OF oh(1)] by (simp add: hcl_ref_def oh_ref_fun)
qed

lemma hcl_lookup_miss:
  assumes inv: "hcl_inv s" and sp: "hcl_spare s noh" and ix: "hcl_index s (hcl_key s noh) = None"
  shows "\<exists>s'. hcl_lookup s noh = Some (noh, s') \<and> hcl_inv s' \<and>
      hcl_index s' = (hcl_index s)(hcl_key s noh \<mapsto> noh) \<and> hcl_ref s' = hcl_ref s"
proof -
  let ?d = "hcl_key s noh"
  let ?u = "hcl_bucket (hcl_nhash s) ?d"
  let ?as = "hcl_head s ! ?u"
  have u: "?u < length (hcl_head s)" using hcl_invD(2) [OF inv] by simp
  obtain on where on: "hcl_heap s noh = Some on" "oh_digest on = ?d" "oh_refcnt on = 1"
    "length ?d = DIGEST_LEN" "\<forall>as \<in> set (hcl_head s). noh \<notin> set as"
    using sp by (auto simp: hcl_spare_def hcl_key_def)
  define h' where "h' = (hcl_heap s)(noh \<mapsto> on\<lparr>oh_hoh_head := Some ?u\<rparr>)"
  have kr: "oh_key h' = oh_key (hcl_heap s)" "oh_ref h' = oh_ref (hcl_heap s)"
    using on by (auto simp: h'_def fun_eq_iff)
  have ok: "hoh_ok (hcl_heap s) ?as" by (rule hcl_invD(3) [OF inv u])
  have at: "hoh_at (hcl_heap s) ?as ?d = None" using ix by (simp add: hcl_index_def)
  have pre: "length ?d = DIGEST_LEN" "hcl_heap s noh \<noteq> None" "oh_ref (hcl_heap s) noh > 0" "oh_key (hcl_heap s) noh = ?d"
    using on by (simp_all add: hcl_key_def)
  obtain r where r: "hoh_scan (hcl_heap s) ?d ?as = Some r" "\<forall>a. r \<noteq> Found a"
    "hoh_ok (hcl_heap s) (hoh_enter r noh ?as)" "set (hoh_enter r noh ?as) = insert noh (set ?as)"
    using hoh_scan_miss [OF ok at pre] by blast
  let ?s = "s\<lparr>hcl_head := (hcl_head s)[?u := hoh_enter r noh ?as], hcl_heap := h'\<rparr>"
  have run: "hcl_lookup s noh = Some (noh, ?s)"
    using r(1,2) on u hcl_invD(1) [OF inv]
    by (auto simp: hcl_lookup_def hoh_enter_def h'_def Let_def split: scan.splits)
  have ok': "hoh_ok h' (hoh_enter r noh ?as)"
    by (rule hoh_ok_cong [OF r(3)]) (use r(3) kr in \<open>auto simp: hoh_ok_def h'_def\<close>)
  have inv': "hcl_inv ?s"
  proof (rule hcl_inv_update [OF inv u ok'])
    show "hcl_bucket (hcl_nhash s) (oh_key h' a) = ?u \<and> map_option oh_hoh_head (h' a) = Some (Some ?u)"
      if "a \<in> set (hoh_enter r noh ?as)" for a
      using that r(4) hcl_invD(4) [OF inv u, of a] pre(4) kr(1) by (auto simp: h'_def)
    show "h' a = hcl_heap s a" if "v < length (hcl_head s)" "v \<noteq> ?u" "a \<in> set (hcl_head s ! v)" for v a
      using that on(5) by (auto simp: h'_def dest: nth_mem)
  qed
  have "hcl_index ?s d = ((hcl_index s)(?d \<mapsto> noh)) d" for d
  proof (cases "hcl_bucket (hcl_nhash s) d = ?u")
    case True
    have "hoh_at h' = hoh_at (hcl_heap s)" using kr(1) by (simp add: hoh_at_def fun_eq_iff)
    then have "hoh_at h' (hoh_enter r noh ?as) = (hoh_at (hcl_heap s) ?as)(?d \<mapsto> noh)"
      using hoh_at_enter [OF ok r(3,4)] at pre(4) by simp
    then show ?thesis using True u by (simp add: hcl_index_def)
  next
    case False
    then have "d \<noteq> ?d" by auto
    then show ?thesis using False kr(1) by (simp add: hcl_index_def hoh_at_def)
  qed
  then show ?thesis using run inv' kr(2) by (auto simp: hcl_ref_def fun_eq_iff)
qed

lemma hcl_indexed:
  assumes "hcl_inv s" "hcl_index s d = Some a"
  obtains oh where "hcl_heap s a = Some oh" "oh_hoh_head oh = Some (hcl_bucket (hcl_nhash s) d)"
    "oh_refcnt oh > 0" "oh_key (hcl_heap s) a = d" "a \<in> set (hcl_head s ! hcl_bucket (hcl_nhash s) d)"
    "hcl_bucket (hcl_nhash s) d < length (hcl_head s)"
proof -
  let ?u = "hcl_bucket (hcl_nhash s) d"
  have u: "?u < length (hcl_head s)" using hcl_invD(2) [OF assms(1)] by simp
  have a: "a \<in> set (hcl_head s ! ?u)" "oh_key (hcl_heap s) a = d"
    using assms hcl_index_Some by auto
  then obtain oh where "hcl_heap s a = Some oh" "oh_refcnt oh > 0"
    using hcl_invD(3) [OF assms(1) u] by (auto simp: hoh_ok_def)
  moreover from this have "oh_hoh_head oh = Some ?u"
    using hcl_invD(4) [OF assms(1) u a(1)] by simp
  ultimately show ?thesis using that a u by blast
qed

lemma hcl_deref_more:
  assumes inv: "hcl_inv s" and ix: "hcl_index s d = Some a" and r: "1 < hcl_ref s a"
  shows "\<exists>s'. hcl_deref s a = Some (True, s') \<and> hcl_inv s' \<and> hcl_index s' = hcl_index s \<and>
      hcl_ref s' = (hcl_ref s)(a := hcl_ref s a - 1)"
proof -
  obtain oh where oh: "hcl_heap s a = Some oh" "oh_hoh_head oh = Some (hcl_bucket (hcl_nhash s) d)"
    "a \<in> set (hcl_head s ! hcl_bucket (hcl_nhash s) d)" "hcl_bucket (hcl_nhash s) d < length (hcl_head s)"
    using hcl_indexed [OF inv ix] by metis
  have "oh_refcnt oh > 1" using r oh(1) by (simp add: hcl_ref_def)
  then show ?thesis
    using oh hcl_inv_refcnt [OF inv oh(4,3,1), of "oh_refcnt oh - 1"] hcl_index_refcnt [OF oh(1)]
    by (auto simp: hcl_deref_def hcl_ref_def oh_ref_fun)
qed

lemma hcl_deref_last:
  assumes inv: "hcl_inv s" and ix: "hcl_index s d = Some a" and r: "hcl_ref s a = 1"
  shows "\<exists>r s'. hcl_deref s a = Some (r, s') \<and> hcl_inv s' \<and> hcl_index s' = (hcl_index s)(d := None) \<and>
      hcl_ref s' = (hcl_ref s)(a := 0)"
proof -
  let ?u = "hcl_bucket (hcl_nhash s) d"
  let ?as = "remove1 a (hcl_head s ! ?u)"
  obtain oh where oh: "hcl_heap s a = Some oh" "oh_hoh_head oh = Some ?u"
    "a \<in> set (hcl_head s ! ?u)" "?u < length (hcl_head s)" "oh_key (hcl_heap s) a = d"
    using hcl_indexed [OF inv ix] by metis
  have one: "oh_refcnt oh = 1" using r oh(1) by (simp add: hcl_ref_def)
  let ?h = "(hcl_heap s)(a \<mapsto> oh\<lparr>oh_refcnt := 0\<rparr>)"
  let ?s = "s\<lparr>hcl_head := (hcl_head s)[?u := ?as], hcl_heap := ?h\<rparr>"
  have ok: "hoh_ok (hcl_heap s) (hcl_head s ! ?u)" by (rule hcl_invD(3) [OF inv oh(4)])
  have na: "a \<notin> set ?as" "set ?as \<subseteq> set (hcl_head s ! ?u)" using hoh_ok_distinct [OF ok] by auto
  have run: "hcl_deref s a = Some (False, ?s)"
    using oh one by (simp add: hcl_deref_def)
  have inv': "hcl_inv ?s"
  proof (rule hcl_inv_update [OF inv oh(4)])
    show "hoh_ok ?h ?as" by (rule hoh_ok_refcnt [OF hoh_ok_remove [OF ok] oh(1)]) (use na in simp)
    show "hcl_bucket (hcl_nhash s) (oh_key ?h b) = ?u \<and> map_option oh_hoh_head (?h b) = Some (Some ?u)"
      if "b \<in> set ?as" for b
      using that na hcl_invD(4) [OF inv oh(4), of b] by auto
    show "?h b = hcl_heap s b" if "v < length (hcl_head s)" "v \<noteq> ?u" "b \<in> set (hcl_head s ! v)" for v b
      using hcl_one_bucket [OF inv that(1) oh(4) that(3)] oh(3) that(2) by auto
  qed
  have "hcl_index ?s e = ((hcl_index s)(d := None)) e" for e
  proof (cases "hcl_bucket (hcl_nhash s) e = ?u")
    case True
    then show ?thesis
      using hoh_at_remove [OF ok oh(3)] oh by (simp add: hcl_index_def)
  next
    case False
    then have "e \<noteq> d" by auto
    then show ?thesis using False oh(1) by (simp add: hcl_index_def)
  qed
  then show ?thesis using run inv' by (auto simp: hcl_ref_def oh_ref_fun fun_eq_iff)
qed

interpretation hcl: hash_slinger hcl_lookup hcl_deref hcl_inv hcl_spare "\<lambda>_ _. True" hcl_index hcl_ref hcl_key
proof unfold_locales
  show "hcl_key s a = d \<and> 0 < hcl_ref s a" if h: "hcl_inv s" "hcl_index s d = Some a" for s d a
    using hcl_indexed [OF h] by (metis hcl_key_def hcl_ref_def oh_ref_Some)
  show "hcl_index s d \<noteq> Some noh" if h: "hcl_inv s" "hcl_spare s noh" for s noh d
    using hcl_indexed [OF h(1)] h(2) by (metis hcl_spare_def nth_mem)
qed (use hcl_lookup_hit hcl_lookup_miss hcl_deref_more hcl_deref_last in blast)+

section \<open>Properties\<close>

lemma and_pred_exp: "and (2 ^ k) (2 ^ k - 1) = (0 :: u32)"
  by (rule bit_word_eqI) (auto simp: bit_and_iff bit_exp_iff bit_mask_iff simp flip: mask_eq_exp_minus_1)

lemma exp_gt_2: "2 \<le> k \<Longrightarrow> k < 32 \<Longrightarrow> (2 :: u32) ^ k > 2"
proof -
  assume k: "2 \<le> k" "k < 32"
  then have "(2 :: nat) ^ 2 \<le> 2 ^ k" by (intro power_increasing) auto
  moreover have "unat ((2 :: u32) ^ k) = 2 ^ k"
    using k power_strict_increasing [of k 32 "2 :: nat"] unat_u32_of_nat [of "2 ^ k"] by simp
  ultimately show ?thesis by (simp add: word_less_nat_alt)
qed

lemma succ_exp_and: "1 \<le> k \<Longrightarrow> k < 32 \<Longrightarrow> and (2 ^ k + 1) (2 ^ k) \<noteq> (0 :: u32)"
proof -
  assume k: "1 \<le> k" "k < 32"
  have "(2 ^ k + 1 :: u32) = or (2 ^ k) 1"
    using k by (intro disjunctive_add) (auto simp: bit_exp_iff bit_1_iff)
  then have "bit (and (2 ^ k + 1) (2 ^ k) :: u32) k"
    using k by (simp add: bit_and_iff bit_or_iff bit_exp_iff)
  then show ?thesis by (metis bit_0_eq bot_apply bot_bool_def)
qed

text \<open>
  \<open>hcl_init\<close> never leaves zero buckets, which \<open>hcl_lookup\<close> would divide by, and when it
  takes the number from the argument, the number is not a power of two above 2, as the note it prints
  says.
\<close>

theorem hcl_init_buckets:
  assumes "hcl_init n av = Some n'" "n \<noteq> 0"
  shows "n' \<noteq> 0 \<and> (n' = n \<or> (\<forall>k. 2 \<le> k \<longrightarrow> k < 32 \<longrightarrow> n' \<noteq> 2 ^ k))"
proof (cases "n' = n")
  case False
  then obtain u where u: "u \<noteq> 0" "n' = (if u > 2 \<and> and u (u - 1) = 0 then u - 1 else u)"
    using assms(1) by (auto simp: hcl_init_def split: if_splits option.splits)
  have "n' \<noteq> 2 ^ k" if "2 \<le> k" "k < 32" for k
  proof
    assume eq: "n' = 2 ^ k"
    show False
    proof (cases "u > 2 \<and> and u (u - 1) = 0")
      case True
      then have "u = 2 ^ k + 1" using u(2) eq by (simp add: algebra_simps)
      then show False using True succ_exp_and [of k] that by simp
    next
      case False
      then have "u = 2 ^ k" using u(2) eq by (simp only: if_False)
      then show False using False and_pred_exp [of k] exp_gt_2 [OF that] by simp
    qed
  qed
  moreover have "n' \<noteq> 0" using u by (auto split: if_splits)
  ultimately show ?thesis by blast
qed (use assms in simp)

theorem hcl_init_buckets_witness:
  "hcl_init 16383 [''1024''] = Some 1023 \<and> (1023 :: u32) \<noteq> 0 \<and> 1023 \<noteq> (2 :: u32) ^ 10"
proof -
  have i: "hcl_init 16383 [''1024''] = Some 1023"
    by (simp add: hcl_init_def sscanf_u_def is_space_def is_digit_def digits_value_def)
  show ?thesis using hcl_init_buckets [OF i] i by simp
qed

section \<open>Two hash implementations answer alike\<close>

locale two_slingers =
  a: hash_slinger lookup1 deref1 inv1 spare1 idle1 index1 refcnt1 key1 +
  b: hash_slinger lookup2 deref2 inv2 spare2 idle2 index2 refcnt2 key2
  for lookup1 deref1 inv1 spare1 idle1 index1 refcnt1 key1
    and lookup2 deref2 inv2 spare2 idle2 index2 refcnt2 key2
begin

lemma lookup_alike:
  assumes "inv1 s" "inv2 t" "index1 s = index2 t" "refcnt1 s = refcnt2 t" "spare1 s noh" "spare2 t noh"
    and "key1 s noh = key2 t noh"
  shows "\<exists>x s' t'. lookup1 s noh = Some (x, s') \<and> lookup2 t noh = Some (x, t') \<and> inv1 s' \<and> inv2 t' \<and>
           index1 s' = index2 t' \<and> refcnt1 s' = refcnt2 t'"
proof (cases "index1 s (key1 s noh)")
  case None
  then have "index2 t (key2 t noh) = None" using assms(3,7) by simp
  then show ?thesis
    using a.lookup_miss [OF assms(1,5) None] b.lookup_miss [OF assms(2,6)] assms(3,4,7) by auto
next
  case (Some x)
  then have "index2 t (key2 t noh) = Some x" using assms(3,7) by simp
  then show ?thesis
    using a.lookup_hit [OF assms(1,5) Some] b.lookup_hit [OF assms(2,6)] assms(3,4) by fastforce
qed

lemma deref_alike:
  assumes "inv1 s" "inv2 t" "index1 s = index2 t" "refcnt1 s = refcnt2 t" "index1 s d = Some x"
    and "refcnt1 s x = 1 \<Longrightarrow> idle1 s x \<and> idle2 t x"
  shows "\<exists>q r s' t'. deref1 s x = Some (q, s') \<and> deref2 t x = Some (r, t') \<and> inv1 s' \<and> inv2 t' \<and>
           index1 s' = index2 t' \<and> refcnt1 s' = refcnt2 t'"
proof (cases "refcnt1 s x = 1")
  case True
  have i2: "index2 t d = Some x" "refcnt2 t x = 1" using assms(3-5) True by simp_all
  obtain q s' where "deref1 s x = Some (q, s')" "inv1 s'" "index1 s' = (index1 s)(d := None)"
    "refcnt1 s' = (refcnt1 s)(x := 0)"
    using a.deref_last [OF assms(1,5) True] assms(6) [OF True] by blast
  moreover obtain r t' where "deref2 t x = Some (r, t')" "inv2 t'" "index2 t' = (index2 t)(d := None)"
    "refcnt2 t' = (refcnt2 t)(x := 0)"
    using b.deref_last [OF assms(2) i2] assms(6) [OF True] by blast
  ultimately show ?thesis using assms(3,4) by auto
next
  case False
  then have m: "refcnt1 s x > 1" using a.index_key [OF assms(1,5)] by simp
  have i2: "index2 t d = Some x" "refcnt2 t x > 1" using assms(3-5) m by simp_all
  obtain s' where "deref1 s x = Some (True, s')" "inv1 s'" "index1 s' = index1 s"
    "refcnt1 s' = (refcnt1 s)(x := refcnt1 s x - 1)"
    using a.deref_more [OF assms(1,5) m] by blast
  moreover obtain t' where "deref2 t x = Some (True, t')" "inv2 t'" "index2 t' = index2 t"
    "refcnt2 t' = (refcnt2 t)(x := refcnt2 t x - 1)"
    using b.deref_more [OF assms(2) i2] by blast
  ultimately show ?thesis using assms(3,4) by auto
qed

end

interpretation hcl_hsl: two_slingers
  hcl_lookup hcl_deref hcl_inv hcl_spare "\<lambda>_ _. True" hcl_index hcl_ref hcl_key
  hsl_lookup hsl_deref hsl_inv hsl_spare "\<lambda>_ _. True" hsl_index hsl_ref hsl_key
  by unfold_locales

lemma hcl_start_inv: "n \<noteq> 0 \<Longrightarrow> hcl_inv (hcl_start h n)"
  by (simp add: hcl_inv_def hcl_start_def)

lemma hsl_start_inv: "hsl_inv (hsl_start h)"
  by (simp add: hsl_inv_def hsl_start_def)

lemma start_index:
  "n \<noteq> 0 \<Longrightarrow> hcl_index (hcl_start h n) = Map.empty" "hsl_index (hsl_start h') = Map.empty"
  using hcl_bucket_less by (auto simp: fun_eq_iff hcl_index_def hcl_start_def hsl_index_def hsl_start_def hoh_at_def)

text \<open>
  C22 (refinement).  The bucket hash implements a map from digests to object heads: a lookup always
  returns, gives the indexed object head with one more reference or enters the spare one, and changes
  no other digest and no other count.
\<close>

theorem hcl_lookup_correct:
  assumes "hcl_inv st" "hcl_spare st noh"
  shows "\<exists>a st'. hcl_lookup st noh = Some (a, st') \<and> hcl_inv st' \<and>
           (case hcl_index st (hcl_key st noh) of
              Some b \<Rightarrow> a = b \<and> hcl_index st' = hcl_index st \<and>
                        hcl_ref st' = (hcl_ref st)(b := hcl_ref st b + 1)
            | None \<Rightarrow> a = noh \<and> hcl_index st' = (hcl_index st)(hcl_key st noh \<mapsto> noh) \<and>
                      hcl_ref st' = hcl_ref st)"
  using hcl.lookup_miss [OF assms] hcl.lookup_hit [OF assms]
  by (cases "hcl_index st (hcl_key st noh)") auto

definition ex_oh :: objhead where
  "ex_oh = \<lparr>oh_refcnt = 1, oh_digest = replicate 32 7, oh_objcs = [], oh_waitinglist = []\<rparr>"

definition ex_hcl :: hcl where
  "ex_hcl = hcl_start [1 \<mapsto> objhead.extend ex_oh (hcl_objhead.fields None)] 3"

definition ex_hsl :: hsl where
  "ex_hsl = hsl_start [1 \<mapsto> ex_oh]"

lemmas ex_hash_defs = ex_oh_def ex_hcl_def ex_hsl_def hcl_start_def hsl_start_def DIGEST_LEN_def
  objhead.defs hcl_objhead.defs

lemma ex_hash_facts:
  "hcl_inv ex_hcl" "hcl_spare ex_hcl 1" "hsl_inv ex_hsl" "hsl_spare ex_hsl 1"
  "hcl_index ex_hcl = Map.empty" "hsl_index ex_hsl = Map.empty" "hcl_key ex_hcl 1 = replicate 32 7"
  "hsl_key ex_hsl 1 = replicate 32 7" "hcl_ref ex_hcl = hsl_ref ex_hsl"
proof -
  show "hcl_inv ex_hcl" "hsl_inv ex_hsl" "hcl_index ex_hcl = Map.empty" "hsl_index ex_hsl = Map.empty"
    by (simp_all add: ex_hcl_def ex_hsl_def hcl_start_inv hsl_start_inv start_index)
  show "hcl_spare ex_hcl 1" "hsl_spare ex_hsl 1" "hcl_key ex_hcl 1 = replicate 32 7"
    "hsl_key ex_hsl 1 = replicate 32 7"
    by (simp_all add: hcl_spare_def hsl_spare_def hcl_key_def hsl_key_def ex_hash_defs)
  show "hcl_ref ex_hcl = hsl_ref ex_hsl"
    by (simp add: hcl_ref_def hsl_ref_def fun_eq_iff oh_ref_def ex_hash_defs)
qed

theorem hcl_lookup_correct_witness:
  "hcl_inv ex_hcl \<and> hcl_spare ex_hcl 1 \<and>
   (\<exists>st'. hcl_lookup ex_hcl 1 = Some (1, st') \<and> hcl_inv st' \<and> hcl_index st' = [replicate 32 7 \<mapsto> 1])"
  using hcl_lookup_correct [OF ex_hash_facts(1,2)] ex_hash_facts by auto


end
