(* ===== verification/Binheap.thy ===== *)
theory Binheap
  imports Prelude
begin

text \<open>
  The binary heap of \<open>lib/libvarnish/binary_heap.c\<close>, which orders the objects by expiry time.

  The heap lives in rows of \<open>ROW_WIDTH\<close> pointers that are allocated as it grows, and its tree is
  laid out so that each page of memory holds a subtree (\<open>VM_AWARE\<close>).  The \<open>update\<close> callback, by
  which the owner of an element learns its position, is the field \<open>bh_told\<close>: what it was called with
  last for each element.
\<close>

unbundle bit_operations_syntax

definition ROW_SHIFT :: nat where "ROW_SHIFT = 16"
definition ROOT_IDX :: nat where "ROOT_IDX = 1"
definition ROW_WIDTH :: nat where "ROW_WIDTH = 2 ^ ROW_SHIFT"

text \<open>A pointer cell of a row: memory from \<open>malloc\<close> that was never written, a null pointer, a pointer.\<close>

datatype 'a cell = Junk | Null | Ptr 'a

record 'a binheap =
  bh_cmp :: "'a \<Rightarrow> 'a \<Rightarrow> bool"
  bh_update :: bool
  bh_told :: "'a \<Rightarrow> nat"
  bh_array :: "(nat \<Rightarrow> 'a cell) option list"
  bh_length :: nat
  bh_next :: nat
  bh_page_size :: u32
  bh_page_mask :: u32
  bh_page_shift :: nat

section \<open>Where parents and children are\<close>

definition parent :: "'a binheap \<Rightarrow> u32 \<Rightarrow> u32" where
  "parent bh u = (
     let po = u AND bh_page_mask bh in
     if u < bh_page_size bh \<or> po > 3 then (u AND NOT (bh_page_mask bh)) OR drop_bit 1 po
     else if po < 2 then
       let v = drop_bit (bh_page_shift bh) (u - bh_page_size bh);
           v = v + (v AND NOT (drop_bit 1 (bh_page_mask bh)))
       in v OR (bh_page_size bh div 2)
     else u - 2)"

text \<open>
  \<open>child\<close> has two results by reference; \<open>b0\<close> is what \<open>*b\<close> held before the call.
\<close>

definition child :: "'a binheap \<Rightarrow> u32 \<Rightarrow> u32 \<Rightarrow> u32 \<times> u32" where
  "child bh u b0 = (
     if u > bh_page_mask bh \<and> u AND (bh_page_mask bh - 1) = 0 then (u + 2, u + 2)
     else if u AND drop_bit 1 (bh_page_size bh) \<noteq> 0 then
       let a = drop_bit 1 (u AND NOT (bh_page_mask bh));
           a = a OR (u AND drop_bit 1 (bh_page_mask bh));
           a = a + 1;
           a = push_bit (bh_page_shift bh) a
       in (a, a + 1)
     else (u + (u AND bh_page_mask bh), b0 + 1))"

section \<open>The row array\<close>

text \<open>\<open>A(b, n)\<close>: None when the row is not there or the cell was never written.\<close>

definition bh_cell :: "'a binheap \<Rightarrow> nat \<Rightarrow> 'a cell" where
  "bh_cell bh n = (
     if n div ROW_WIDTH < length (bh_array bh) then
       case bh_array bh ! (n div ROW_WIDTH) of None \<Rightarrow> Junk | Some row \<Rightarrow> row (n mod ROW_WIDTH)
     else Junk)"

definition A_get :: "'a binheap \<Rightarrow> nat \<Rightarrow> 'a cell option" where
  "A_get bh n = (case bh_cell bh n of Junk \<Rightarrow> None | c \<Rightarrow> Some c)"

definition A_ptr :: "'a binheap \<Rightarrow> nat \<Rightarrow> 'a option" where
  "A_ptr bh n = (case bh_cell bh n of Ptr x \<Rightarrow> Some x | _ \<Rightarrow> None)"

definition A_set :: "'a binheap \<Rightarrow> nat \<Rightarrow> 'a cell \<Rightarrow> 'a binheap option" where
  "A_set bh n c = do {
     chk (n div ROW_WIDTH < length (bh_array bh));
     row \<leftarrow> bh_array bh ! (n div ROW_WIDTH);
     Some (bh\<lparr>bh_array := (bh_array bh)[n div ROW_WIDTH := Some (row(n mod ROW_WIDTH := c))]\<rparr>) }"

definition binheap_addrow :: "'a binheap \<Rightarrow> 'a binheap option" where
  "binheap_addrow bh = do {
     let r = bh_length bh div ROW_WIDTH;
     let arr = (if r \<ge> length (bh_array bh)
                then bh_array bh @ replicate (length (bh_array bh)) None else bh_array bh);
     chk (r < length arr);
     chk (arr ! r = None);
     Some (bh\<lparr>bh_array := arr[r := Some (\<lambda>_. Junk)],
              bh_length := (bh_length bh + ROW_WIDTH) mod 2 ^ 32\<rparr>) }"

text \<open>The loop \<open>for (u = 1; (1U << u) != page_size; u++)\<close>; a shift by 32 or more is undefined.\<close>

function page_shift_of :: "u32 \<Rightarrow> nat \<Rightarrow> nat option" where
  "page_shift_of ps u = (if u \<ge> 32 then None
                         else if push_bit u 1 = ps then Some u else page_shift_of ps (Suc u))"
  by pat_completeness auto
termination
  by (relation "measure (\<lambda>(ps, u). 32 - u)") auto

declare page_shift_of.simps [simp del]

definition binheap_new :: "u32 \<Rightarrow> ('a \<Rightarrow> 'a \<Rightarrow> bool) \<Rightarrow> bool \<Rightarrow> ('a \<Rightarrow> nat) \<Rightarrow> 'a binheap option" where
  "binheap_new pagesize cmp_f has_update told = do {
     let ps = pagesize div 8;
     let mask = ps - 1;
     chk (ps AND mask = 0);
     sh \<leftarrow> page_shift_of ps 1;
     chk (unat ps \<le> 8 * ROW_WIDTH);
     bh \<leftarrow> binheap_addrow \<lparr>bh_cmp = cmp_f, bh_update = has_update, bh_told = told,
            bh_array = replicate 16 None, bh_length = 0, bh_next = ROOT_IDX,
            bh_page_size = ps, bh_page_mask = mask, bh_page_shift = sh\<rparr>;
     A_set bh ROOT_IDX Null }"

section \<open>Operations\<close>

definition binheap_update :: "'a binheap \<Rightarrow> nat \<Rightarrow> 'a binheap option" where
  "binheap_update bh u = do {
     chk (u < bh_next bh);
     p \<leftarrow> A_ptr bh u;
     if \<not> bh_update bh then Some bh
     else Some (bh\<lparr>bh_told := (bh_told bh)(p := u)\<rparr>) }"

definition binhead_swap :: "'a binheap \<Rightarrow> nat \<Rightarrow> nat \<Rightarrow> 'a binheap option" where
  "binhead_swap bh u v = do {
     chk (u < bh_next bh);
     chk (v < bh_next bh);
     p \<leftarrow> A_get bh u;
     q \<leftarrow> A_get bh v;
     bh \<leftarrow> A_set bh u q;
     bh \<leftarrow> A_set bh v p;
     bh \<leftarrow> binheap_update bh u;
     binheap_update bh v }"

partial_function (option) binheap_trickleup :: "'a binheap \<Rightarrow> nat \<Rightarrow> (nat \<times> 'a binheap) option" where
  "binheap_trickleup bh u = (
     if u > ROOT_IDX then
       let v = unat (parent bh (word_of_nat u)) in
       Option.bind (A_ptr bh u) (\<lambda>x. Option.bind (A_ptr bh v) (\<lambda>y.
         if \<not> bh_cmp bh x y then Some (u, bh)
         else Option.bind (binhead_swap bh u v) (\<lambda>bh. binheap_trickleup bh v)))
     else Some (u, bh))"

partial_function (option) binheap_trickledown :: "'a binheap \<Rightarrow> nat \<Rightarrow> u32 \<Rightarrow> 'a binheap option" where
  "binheap_trickledown bh u v2 = (
     let (v1, v2) = child bh (word_of_nat u) v2 in
     if unat v1 \<ge> bh_next bh then Some bh
     else Option.bind (A_ptr bh (unat v1)) (\<lambda>x1.
       Option.bind (if unat v2 < bh_next bh
                    then map_option (\<lambda>x2. bh_cmp bh x2 x1) (A_ptr bh (unat v2)) else Some False) (\<lambda>less.
         let w = (if less then unat v2 else unat v1) in
         Option.bind (A_ptr bh u) (\<lambda>x. Option.bind (A_ptr bh w) (\<lambda>y.
           if bh_cmp bh x y then Some bh
           else Option.bind (binhead_swap bh u w) (\<lambda>bh. binheap_trickledown bh w v2))))))"

definition binheap_insert :: "'a binheap \<Rightarrow> 'a \<Rightarrow> 'a binheap option" where
  "binheap_insert bh p = do {
     chk (bh_length bh \<ge> bh_next bh);
     bh \<leftarrow> (if bh_length bh = bh_next bh then binheap_addrow bh else Some bh);
     let u = bh_next bh;
     let bh = bh\<lparr>bh_next := (u + 1) mod 2 ^ 32\<rparr>;
     bh \<leftarrow> A_set bh u (Ptr p);
     bh \<leftarrow> binheap_update bh u;
     (_, bh) \<leftarrow> binheap_trickleup bh u;
     Some bh }"

definition binheap_root :: "'a binheap \<Rightarrow> 'a cell option" where
  "binheap_root bh = A_get bh ROOT_IDX"

text \<open>
  \<open>g\<close> is what the uninitialised local \<open>v2\<close> of \<open>binheap_trickledown\<close> happens to hold.
  \<open>bh->update\<close> is called without the test for NULL that \<open>binheap_update\<close> has.
\<close>

definition binheap_delete :: "u32 \<Rightarrow> 'a binheap \<Rightarrow> nat \<Rightarrow> 'a binheap option" where
  "binheap_delete g bh idx = do {
     chk (bh_next bh > ROOT_IDX);
     chk (idx < bh_next bh);
     chk (idx > 0);
     x \<leftarrow> A_ptr bh idx;
     chk (bh_update bh);
     let bh = bh\<lparr>bh_told := (bh_told bh)(x := 0), bh_next := bh_next bh - 1\<rparr>;
     if idx = bh_next bh then A_set bh (bh_next bh) Null
     else do {
       c \<leftarrow> A_get bh (bh_next bh);
       bh \<leftarrow> A_set bh idx c;
       bh \<leftarrow> A_set bh (bh_next bh) Null;
       bh \<leftarrow> binheap_update bh idx;
       (idx, bh) \<leftarrow> binheap_trickleup bh idx;
       bh \<leftarrow> binheap_trickledown bh idx g;
       if bh_next bh + 2 * ROW_WIDTH \<le> bh_length bh
       then Some (bh\<lparr>bh_array := (bh_array bh)[(bh_length bh - 1) div ROW_WIDTH := None],
                     bh_length := bh_length bh - ROW_WIDTH\<rparr>)
       else Some bh } }"


section \<open>The layout of the tree in arithmetic\<close>

text \<open>What a page size of \<open>2 ^ s\<close> makes of the three page fields.\<close>

definition page_ok :: "'a binheap \<Rightarrow> bool" where
  "page_ok bh \<longleftrightarrow> 2 \<le> bh_page_shift bh \<and> bh_page_shift bh < 32 \<and>
     bh_page_size bh = 2 ^ bh_page_shift bh \<and> bh_page_mask bh = mask (bh_page_shift bh)"

text \<open>
  The parent in arithmetic, for pages of \<open>2 * h\<close> elements: inside a page as usual; the two top
  elements of a later page hang below an element of the bottom row of an earlier one, and each of them
  has a single child.
\<close>

definition parent_nat :: "nat \<Rightarrow> nat \<Rightarrow> nat" where
  "parent_nat h u = (
     let p = 2 * h; po = u mod p in
     if u < p \<or> po > 3 then u div p * p + po div 2
     else if po < 2 then (let k = u div p - 1 in k div h * p + k mod h + h)
     else u - 2)"

definition pg_half :: "'a binheap \<Rightarrow> nat" where
  "pg_half bh = 2 ^ (bh_page_shift bh - 1)"

lemma u32_and_mask: "unat ((u :: u32) AND mask s) = unat u mod 2 ^ s"
  by (metis take_bit_eq_mask take_bit_eq_mod unsigned_take_bit_eq)

lemma u32_and_not_mask: "s \<le> 32 \<Longrightarrow> unat ((u :: u32) AND NOT (mask s)) = unat u div 2 ^ s * 2 ^ s"
proof -
  assume s: "s \<le> 32"
  have "u = (u AND mask s) OR (u AND NOT (mask s))"
    by (rule bit_word_eqI) (auto simp: bit_simps)
  also have "\<dots> = (u AND mask s) + (u AND NOT (mask s))"
    by (rule disjunctive_add [symmetric]) (auto simp: bit_simps)
  finally have "u AND NOT (mask s) = u - (u AND mask s)" by (metis add_diff_cancel_left')
  moreover have "unat (u AND mask s) \<le> unat u" by (simp add: u32_and_mask)
  ultimately have "unat (u AND NOT (mask s)) = unat u - unat u mod 2 ^ s"
    by (simp add: unat_sub word_le_nat_alt u32_and_mask)
  then show ?thesis by (simp add: minus_mod_eq_div_mult)
qed

lemma u32_or_disjoint: "u AND v = 0 \<Longrightarrow> u OR v = u + (v :: u32)"
  by (simp add: disjunctive_add_eq_or)

lemma u32_small: "n < 2 ^ 32 \<Longrightarrow> x = word_of_nat n \<Longrightarrow> unat (x :: u32) = n"
  by (simp add: unat_u32_of_nat)

lemma page_facts:
  assumes "page_ok bh"
  shows "unat (bh_page_size bh) = 2 * pg_half bh" "unat (bh_page_mask bh) = 2 * pg_half bh - 1"
    "bh_page_size bh div 2 = push_bit (bh_page_shift bh - 1) 1"
    "drop_bit 1 (bh_page_mask bh) = mask (bh_page_shift bh - 1)"
    "2 \<le> pg_half bh" "2 * pg_half bh < 2 ^ 32"
proof -
  obtain s where s: "bh_page_shift bh = Suc (Suc s)" "Suc (Suc s) < 32"
    using assms by (auto simp: page_ok_def dest!: le_Suc_ex)
  have b: "(2 :: nat) ^ Suc (Suc s) < 2 ^ 32" using s(2) by (intro power_strict_increasing) auto
  show sz: "unat (bh_page_size bh) = 2 * pg_half bh"
    using b assms s unat_u32_of_nat [of "2 ^ Suc (Suc s)"] by (simp add: page_ok_def pg_half_def)
  have "bh_page_mask bh = bh_page_size bh - 1" using assms by (simp add: page_ok_def mask_eq_exp_minus_1)
  then show "unat (bh_page_mask bh) = 2 * pg_half bh - 1"
    using sz b s(1) by (simp add: unat_sub word_le_nat_alt pg_half_def)
  show "2 \<le> pg_half bh" "2 * pg_half bh < 2 ^ 32" using s b by (simp_all add: pg_half_def)
  show "drop_bit 1 (bh_page_mask bh) = mask (bh_page_shift bh - 1)"
    using assms by (intro bit_word_eqI) (auto simp: page_ok_def bit_simps)
  have "bh_page_size bh div 2 = drop_bit 1 (bh_page_size bh)" by (simp add: drop_bit_eq_div)
  also have "\<dots> = push_bit (bh_page_shift bh - 1) 1"
    using assms by (intro bit_word_eqI) (auto simp: page_ok_def bit_simps)
  finally show "bh_page_size bh div 2 = push_bit (bh_page_shift bh - 1) 1" .
qed


lemma u32_or_exp: "\<not> bit (u :: u32) n \<Longrightarrow> n < 32 \<Longrightarrow> u OR push_bit n 1 = u + push_bit n 1"
  by (rule disjunctive_add [symmetric]) (auto simp: bit_simps)

lemma u32_bit: "bit (u :: u32) n \<longleftrightarrow> odd (unat u div 2 ^ n)"
proof -
  have "bit u n \<longleftrightarrow> bit (unat u) n" by (simp add: bit_unsigned_iff)
  then show ?thesis by (simp only: bit_iff_odd)
qed

lemma u32_drop: "unat (drop_bit n (u :: u32)) = unat u div 2 ^ n"
  by (metis drop_bit_eq_div unat_drop_bit_eq)

lemma pg_half_pow: "page_ok bh \<Longrightarrow> 2 ^ bh_page_shift bh = 2 * pg_half bh"
  unfolding page_ok_def pg_half_def by (metis Suc_diff_1 less_le_trans pos2 power_Suc)

text \<open>The branch of \<open>parent\<close> for the top two elements of a later page.\<close>

lemma bottom_row_word:
  assumes v: "unat v = k" and lt: "k * 4 < 2 ^ 32" and h: "2 * h < 2 ^ 32" "1 \<le> h" "2 ^ (s - 1) = h"
    and s: "s < 32" "2 \<le> s"
  shows "unat ((v + (v AND NOT (mask (s - 1)))) OR push_bit (s - 1) (1 :: u32)) = k div h * (2 * h) + k mod h + h"
proof -
  define w where "w = v + (v AND NOT (mask (s - 1)))"
  have "unat (v AND NOT (mask (s - 1))) = k div h * h"
    using u32_and_not_mask [of "s - 1" v] s h v by simp
  moreover have le: "k div h * h \<le> k" by (rule div_times_less_eq_dividend)
  then have "k + k div h * h < 2 ^ 32" using lt by linarith
  ultimately have wk: "unat w = k + k div h * h"
    using v by (simp add: w_def unat_word_ariths)
  also have "\<dots> = k mod h + k div h * (2 * h)"
    using div_mult_mod_eq [of k h] by (simp add: algebra_simps)
  finally have w: "unat w = k mod h + k div h * (2 * h)" .
  have wb: "unat w + h < 2 ^ 32" using wk h(1) lt le by linarith
  have "unat w div h = 2 * (k div h) + k mod h div h"
    using w h(2) div_mult_self1 [of h "k mod h" "2 * (k div h)"] by (simp add: ac_simps)
  then have nb: "\<not> bit w (s - 1)" using h(2,3) by (simp add: u32_bit)
  have "push_bit (s - 1) 1 = (word_of_nat h :: u32)" using h(3) by (auto simp: push_bit_eq_mult)
  then have ub: "unat (push_bit (s - 1) 1 :: u32) = h" using unat_u32_of_nat [of h] h(1) by simp
  show ?thesis
    unfolding w_def [symmetric] using u32_or_exp [OF nb] w wb ub s by (simp add: unat_word_ariths)
qed

lemma parent_word_top:
  assumes ok: "page_ok bh" and u: "2 * pg_half bh \<le> unat u"
  defines "s \<equiv> bh_page_shift bh" and "h \<equiv> pg_half bh"
  defines "v \<equiv> drop_bit s (u - bh_page_size bh)"
  shows "unat ((v + (v AND NOT (mask (s - 1)))) OR push_bit (s - 1) 1) =
    (unat u div (2 * h) - 1) div h * (2 * h) + (unat u div (2 * h) - 1) mod h + h"
proof (rule bottom_row_word)
  note f = page_facts [OF ok]
  have p: "2 ^ s = 2 * h" using pg_half_pow [OF ok] by (simp add: s_def h_def)
  have h: "2 \<le> h" using f(5) by (simp add: h_def)
  have "unat (u - bh_page_size bh) = unat u - 2 * h"
    using u f(1) by (simp add: unat_sub word_le_nat_alt h_def)
  then show "unat v = unat u div (2 * h) - 1"
    using p h le_div_geq [of "2 * h" "unat u"] u by (simp add: v_def u32_drop h_def)
  have "(unat u div (2 * h) - 1) * (2 * h) \<le> unat u div (2 * h) * (2 * h)" by simp
  also have "\<dots> \<le> unat u" by (rule div_times_less_eq_dividend)
  also have "\<dots> < 2 ^ 32" using unsigned_less [of u, where ?'a = nat] by simp
  finally have "(unat u div (2 * h) - 1) * (2 * h) < 2 ^ 32" .
  moreover have "(unat u div (2 * h) - 1) * 4 \<le> (unat u div (2 * h) - 1) * (2 * h)"
    by (rule mult_le_mono2) (use h in simp)
  ultimately show "(unat u div (2 * h) - 1) * 4 < 2 ^ 32" by (rule le_less_trans [rotated])
  show "2 * h < 2 ^ 32" "1 \<le> h" using f(5,6) by (simp_all add: h_def)
  show "2 ^ (s - 1) = h" by (simp add: s_def h_def pg_half_def)
  show "s < 32" "2 \<le> s" using ok by (simp_all add: s_def page_ok_def)
qed

lemma parent_unat:
  assumes ok: "page_ok bh"
  shows "unat (parent bh u) = parent_nat (pg_half bh) (unat u)"
proof -
  define s h where sh: "s = bh_page_shift bh" "h = pg_half bh"
  note f = page_facts [OF ok]
  have s: "2 \<le> s" "s < 32" "bh_page_mask bh = mask s" using ok by (simp_all add: page_ok_def sh)
  have p: "2 ^ s = 2 * h" using pg_half_pow [OF ok] by (simp add: sh)
  have h: "2 \<le> h" "2 ^ (s - 1) = h" using f(5) by (simp_all add: sh pg_half_def)
  define po where "po = u AND mask s"
  have po: "unat po = unat u mod (2 * h)" by (simp add: po_def u32_and_mask p)
  have hi: "unat (u AND NOT (mask s)) = unat u div (2 * h) * (2 * h)"
    using u32_and_not_mask [of s u] s p by simp
  have c1: "u < bh_page_size bh \<longleftrightarrow> unat u < 2 * h" using f(1) by (simp add: word_less_nat_alt sh)
  have c2: "po > 3 \<longleftrightarrow> unat u mod (2 * h) > 3" "po < 2 \<longleftrightarrow> unat u mod (2 * h) < 2"
    using po by (simp_all add: word_less_nat_alt)
  consider (inside) "unat u < 2 * h \<or> unat u mod (2 * h) > 3"
    | (top) "\<not> (unat u < 2 * h \<or> unat u mod (2 * h) > 3)" "unat u mod (2 * h) < 2"
    | (second) "\<not> (unat u < 2 * h \<or> unat u mod (2 * h) > 3)" "\<not> unat u mod (2 * h) < 2"
    by blast
  then show ?thesis
  proof cases
    case inside
    have "(u AND NOT (mask s)) OR drop_bit 1 po = (u AND NOT (mask s)) + drop_bit 1 po"
      by (rule disjunctive_add [symmetric]) (auto simp: po_def bit_simps)
    moreover have "unat (drop_bit 1 po) = unat po div 2"
      using u32_drop [of 1 po] by simp
    moreover have "unat u div (2 * h) * (2 * h) + unat u mod (2 * h) div 2 < 2 ^ 32"
      using unsigned_less [of u, where ?'a = nat] div_mult_mod_eq [of "unat u" "2 * h"] by simp
    ultimately have "unat ((u AND NOT (mask s)) OR drop_bit 1 po) = unat u div (2 * h) * (2 * h) + unat u mod (2 * h) div 2"
      using hi po by (simp add: unat_word_ariths)
    then show ?thesis
      using inside c1 c2 s(3) by (simp add: parent_def parent_nat_def Let_def sh po_def)
  next
    case top
    then have "2 * h \<le> unat u" by simp
    then show ?thesis
      using top c1 c2 s(3) f(3,4) parent_word_top [OF ok]
      by (simp add: parent_def parent_nat_def Let_def sh po_def)
  next
    case second
    have "unat (u - 2) = unat u - 2" using second h(1) by (simp add: unat_sub word_le_nat_alt)
    then show ?thesis
      using second c1 c2 s(3) by (simp add: parent_def parent_nat_def Let_def sh po_def)
  qed
qed


lemma parent_nat_less:
  assumes "2 \<le> h" "2 \<le> u"
  shows "1 \<le> parent_nat h u" "parent_nat h u < u"
proof -
  define q r where qr: "q = u div (2 * h)" "r = u mod (2 * h)"
  have u: "u = q * (2 * h) + r" "r < 2 * h" using assms unfolding qr by (simp_all only: div_mult_mod_eq) simp
  have q: "u < 2 * h \<longleftrightarrow> q = 0" using assms by (auto simp: qr div_eq_0_iff)
  show "1 \<le> parent_nat h u"
    using assms u q by (auto simp: parent_nat_def Let_def qr [symmetric])
  have "(q - 1) div h * (2 * h) + (q - 1) mod h + h < u" if q0: "q \<noteq> 0"
  proof -
    obtain k where k: "q = Suc k" using q0 not0_implies_Suc by blast
    have "k div h * (2 * h) = 2 * (k div h * h)" by simp
    then have "k div h * (2 * h) + k mod h + h \<le> 2 * k + h"
      using div_mult_mod_eq [of k h] by linarith
    also have "\<dots> < k * (2 * h) + 2 * h" using assms(1) mult_le_mono2 [of 2 "2 * h" k] by linarith
    finally show ?thesis using u(1) k by (simp add: algebra_simps)
  qed
  then show "parent_nat h u < u"
    using assms u q by (auto simp: parent_nat_def Let_def qr [symmetric])
qed


text \<open>
  The first child lies after its parent, and so does the second one where \<open>child\<close> sets it; in the
  last branch \<open>child\<close> only adds one to what \<open>*b\<close> held.
\<close>

lemma mask_pred: "1 \<le> s \<Longrightarrow> mask s - 1 = (mask s AND NOT 1 :: u32)"
proof -
  assume s: "1 \<le> s"
  have "mask s = (mask s AND NOT 1) OR (1 :: u32)"
    using s by (intro bit_word_eqI) (auto simp: bit_simps)
  also have "\<dots> = (mask s AND NOT 1) + 1"
    by (rule disjunctive_add [symmetric]) (auto simp: bit_simps)
  finally show ?thesis by (metis add_diff_cancel_right')
qed

lemma u32_exp: "s < 32 \<Longrightarrow> unat (2 ^ s :: u32) = 2 ^ s"
  using unat_u32_of_nat [of "2 ^ s"] power_strict_increasing [of s 32 "2 :: nat"] by simp

lemma child_bottom:
  assumes ok: "page_ok bh" and b: "(unat u + 2) * (2 * pg_half bh) \<le> 2 ^ 32"
  defines "s \<equiv> bh_page_shift bh"
  defines "a \<equiv> push_bit s ((drop_bit 1 (u AND NOT (mask s)) OR (u AND mask (s - 1))) + 1) :: u32"
  shows "unat a > unat u" "unat (a + 1) > unat u"
proof -
  define h where "h = pg_half bh"
  have s: "2 \<le> s" "s < 32" using ok by (simp_all add: page_ok_def s_def)
  have p: "2 ^ s = 2 * h" "2 ^ (s - 1) = h" using pg_half_pow [OF ok] by (simp_all add: s_def h_def pg_half_def)
  have h: "2 \<le> h" using page_facts(5) [OF ok] by (simp add: h_def)
  define x where "x = drop_bit 1 (u AND NOT (mask s)) OR (u AND mask (s - 1))"
  define q where "q = unat u div (2 * h)"
  have "x = drop_bit 1 (u AND NOT (mask s)) + (u AND mask (s - 1))"
    unfolding x_def by (rule disjunctive_add [symmetric]) (auto simp: bit_simps)
  moreover have "unat (drop_bit 1 (u AND NOT (mask s))) = q * h"
    using u32_drop [of 1 "u AND NOT (mask s)"] u32_and_not_mask [of s u] s p by (simp add: q_def)
  moreover have "unat (u AND mask (s - 1)) = unat u mod h" using p(2) by (simp add: u32_and_mask)
  moreover have le: "q * h + unat u mod h \<le> unat u"
  proof -
    have "q \<le> unat u div h" unfolding q_def using h by (intro div_le_mono2) simp_all
    then have "q * h \<le> unat u div h * h" by simp
    then show ?thesis using div_mult_mod_eq [of "unat u" h] by linarith
  qed
  ultimately have x: "unat x = q * h + unat u mod h"
    using unsigned_less [of u, where ?'a = nat] by (simp add: unat_word_ariths)
  have bb: "(unat u + 1) * (2 * h) + 2 * h \<le> 2 ^ 32" using b by (simp add: h_def)
  have "(unat u + 2) * 4 \<le> (unat u + 2) * (2 * h)" by (rule mult_le_mono2) (use h in simp)
  then have "unat x + 1 < 2 ^ 32" using x le bb by simp
  then have x1: "unat (x + 1) = unat x + 1" by (simp add: unat_word_ariths)
  have "(unat x + 1) * (2 * h) \<le> (unat u + 1) * (2 * h)" using x le by simp
  then have lt: "(unat x + 1) * (2 * h) + 1 < 2 ^ 32" using bb h by linarith
  have "a = (x + 1) * 2 ^ s" by (simp only: a_def x_def push_bit_eq_mult)
  then have "unat a = (unat (x + 1) * (2 * h)) mod 2 ^ 32"
    using p(1) u32_exp [OF s(2)] by (simp add: unat_word_ariths(2))
  then have "unat a = (unat x + 1) * (2 * h)"
    using lt unfolding x1 by simp
  moreover have "unat u < (q + 1) * (2 * h)"
    unfolding q_def using h by (simp add: dividend_less_div_times)
  moreover have "(q + 1) * (2 * h) \<le> (unat x + 1) * (2 * h)"
    using x mult_le_mono2 [of 1 h q] h by (intro mult_le_mono1) linarith
  ultimately have a: "unat a > unat u" "unat a + 1 < 2 ^ 32" using lt by linarith+
  then show "unat a > unat u" "unat (a + 1) > unat u" by (simp_all add: unat_word_ariths)
qed


lemma u32_succ_le: "unat (a + 1 :: u32) \<le> Suc (unat a)"
  by (simp add: unat_word_ariths)

lemma child_grows:
  assumes ok: "page_ok bh" and u: "0 < unat u" and b: "(unat u + 2) * (2 * pg_half bh) \<le> 2 ^ 32"
  shows "unat (fst (child bh u b0)) > unat u"
    "snd (child bh u b0) = b0 + 1 \<or>
     unat (snd (child bh u b0)) > unat u \<and> unat (snd (child bh u b0)) \<le> unat (fst (child bh u b0)) + 1"
proof -
  define s h where sh: "s = bh_page_shift bh" "h = pg_half bh"
  note f = page_facts [OF ok]
  have h: "2 \<le> h" using f(5) by (simp add: sh)
  have m: "bh_page_mask bh = mask s" "1 \<le> s" using ok by (auto simp: page_ok_def sh)
  have "(unat u + 2) * 4 \<le> (unat u + 2) * (2 * h)" by (rule mult_le_mono2) (use h in simp)
  then have "unat u + 2 < 2 ^ 32" using b by (simp add: sh)
  then have two: "unat (u + 2) > unat u" by (simp add: unat_word_ariths)
  define po where "po = u AND mask s"
  have po: "unat po = unat u mod (2 * h)" using pg_half_pow [OF ok] by (simp add: po_def u32_and_mask sh)
  have usual: "unat (u + po) > unat u"
    if "\<not> (u > bh_page_mask bh \<and> u AND (bh_page_mask bh - 1) = 0)"
  proof -
    have "unat po \<noteq> 0"
    proof
      assume 0: "unat po = 0"
      then have "u AND mask s = 0" by (simp add: po_def unat_eq_0)
      then have "u AND (mask s - 1) = 0"
        using m(2) by (simp add: mask_pred flip: and.assoc)
      then have "unat u < 2 * h" using that m(1) f(2) h by (simp add: word_less_nat_alt sh)
      then show False using 0 po u by simp
    qed
    moreover have "unat u + 2 * h \<le> 2 ^ 32"
    proof -
      have "unat u * 1 \<le> unat u * (2 * h)" by (rule mult_le_mono2) (use h in simp)
      moreover have "(unat u + 2) * (2 * h) = unat u * (2 * h) + 4 * h" by (simp add: algebra_simps)
      ultimately show ?thesis using b unfolding sh(2) [symmetric] by linarith
    qed
    moreover have "unat po < 2 * h" using po h by simp
    ultimately show ?thesis by (simp add: unat_word_ariths)
  qed
  show "unat (fst (child bh u b0)) > unat u"
    "snd (child bh u b0) = b0 + 1 \<or>
     unat (snd (child bh u b0)) > unat u \<and> unat (snd (child bh u b0)) \<le> unat (fst (child bh u b0)) + 1"
    using two usual child_bottom [OF ok b] f(4) m(1) u32_succ_le
    by (auto simp: child_def Let_def sh po_def)
qed

end
