(* ===== verification/Binheap_Order.thy ===== *)
theory Binheap_Order
  imports Binheap
begin

text \<open>
  The operations of \<open>lib/libvarnish/binary_heap.c\<close>: an invariant of rows, positions and told
  positions; swapping, trickling up and down permute the elements; insertion keeps the heap order;
  deletion removes exactly one element but, because \<open>child\<close> leaves its second result uninitialised,
  can lose the order.
\<close>

unbundle bit_operations_syntax

section \<open>The invariant and the swap\<close>

definition rows_ok :: "'a binheap \<Rightarrow> bool" where
  "rows_ok bh \<longleftrightarrow> bh_length bh mod ROW_WIDTH = 0 \<and> bh_length bh < 2 ^ 32 \<and> bh_array bh \<noteq> [] \<and>
     bh_length bh div ROW_WIDTH \<le> length (bh_array bh) \<and>
     (\<forall>i < length (bh_array bh). bh_array bh ! i \<noteq> None \<longleftrightarrow> i < bh_length bh div ROW_WIDTH)"

text \<open>Positions in use, and the element at one.\<close>

abbreviation used :: "'a binheap \<Rightarrow> nat \<Rightarrow> bool" where
  "used bh i \<equiv> 1 \<le> i \<and> i < bh_next bh"

definition elem_at :: "'a binheap \<Rightarrow> nat \<Rightarrow> 'a" where
  "elem_at bh i = the (A_ptr bh i)"

definition elems :: "'a binheap \<Rightarrow> 'a set" where
  "elems bh = elem_at bh ` {1..<bh_next bh}"

definition binheap_inv :: "'a binheap \<Rightarrow> bool" where
  "binheap_inv bh \<longleftrightarrow> rows_ok bh \<and> page_ok bh \<and> bh_update bh \<and> 1 \<le> bh_next bh \<and> bh_next bh \<le> bh_length bh \<and>
     (\<forall>i. used bh i \<longrightarrow> bh_cell bh i = Ptr (elem_at bh i) \<and> bh_told bh (elem_at bh i) = i) \<and>
     (bh_next bh = 1 \<longrightarrow> bh_cell bh 1 = Null)"

definition par :: "'a binheap \<Rightarrow> nat \<Rightarrow> nat" where
  "par bh i = parent_nat (pg_half bh) i"

text \<open>What no operation on the cells changes.\<close>

definition same_frame :: "'a binheap \<Rightarrow> 'a binheap \<Rightarrow> bool" where
  "same_frame bh bh' \<longleftrightarrow> bh_cmp bh' = bh_cmp bh \<and> bh_update bh' = bh_update bh \<and>
     map (\<lambda>r. r = None) (bh_array bh') = map (\<lambda>r. r = None) (bh_array bh) \<and>
     bh_length bh' = bh_length bh \<and> bh_next bh' = bh_next bh \<and> bh_page_size bh' = bh_page_size bh \<and>
     bh_page_mask bh' = bh_page_mask bh \<and> bh_page_shift bh' = bh_page_shift bh"

lemma same_frame_trans: "same_frame a b \<Longrightarrow> same_frame b c \<Longrightarrow> same_frame a c"
  by (simp add: same_frame_def)

lemma same_frame_refl [simp]: "same_frame a a"
  by (simp add: same_frame_def)

lemma map_None_nth: "map (\<lambda>r. r = None) xs = map (\<lambda>r. r = None) ys \<Longrightarrow>
  length xs = length ys \<and> (\<forall>i < length ys. (xs ! i = None) = (ys ! i = None))"
  by (metis (mono_tags, lifting) length_map nth_map)

lemma same_frameD:
  assumes "same_frame bh bh'"
  shows "bh_cmp bh' = bh_cmp bh" "bh_update bh' = bh_update bh" "bh_length bh' = bh_length bh"
    "bh_next bh' = bh_next bh" "rows_ok bh' = rows_ok bh" "page_ok bh' = page_ok bh" "par bh' = par bh"
    "pg_half bh' = pg_half bh" "parent bh' = parent bh" "child bh' = child bh"
  using assms map_None_nth [of "bh_array bh'" "bh_array bh"]
  by (auto simp: same_frame_def rows_ok_def page_ok_def par_def pg_half_def parent_def child_def Let_def fun_eq_iff)

lemma ROW_WIDTH_pos [simp]: "0 < ROW_WIDTH"
  by (simp add: ROW_WIDTH_def)

lemma A_set_Some:
  assumes "rows_ok bh" "n < bh_length bh"
  shows "\<exists>bh'. A_set bh n c = Some bh' \<and> same_frame bh bh' \<and> bh_told bh' = bh_told bh \<and>
           bh_cell bh' = (bh_cell bh)(n := c)"
proof -
  let ?r = "n div ROW_WIDTH"
  have "?r < bh_length bh div ROW_WIDTH"
    using assms by (metis ROW_WIDTH_pos div_less_iff_less_mult dvd_div_mult_self dvd_eq_mod_eq_0 rows_ok_def)
  then have "?r < length (bh_array bh)" "bh_array bh ! ?r \<noteq> None"
    using assms(1) unfolding rows_ok_def by (meson less_le_trans)+
  then obtain row where r: "?r < length (bh_array bh)" "bh_array bh ! ?r = Some row" by blast
  let ?bh = "bh\<lparr>bh_array := (bh_array bh)[?r := Some (row(n mod ROW_WIDTH := c))]\<rparr>"
  have dm: "m = n \<longleftrightarrow> m div ROW_WIDTH = ?r \<and> m mod ROW_WIDTH = n mod ROW_WIDTH" for m
    by (metis div_mult_mod_eq)
  have "bh_cell ?bh m = ((bh_cell bh)(n := c)) m" for m
    unfolding fun_upd_apply dm using r by (auto simp: bh_cell_def nth_list_update)
  then have "bh_cell ?bh = (bh_cell bh)(n := c)" by (rule ext)
  moreover have "same_frame bh ?bh"
    using r by (simp add: same_frame_def map_update list_update_same_conv)
  ultimately show ?thesis using r by (simp add: A_set_def)
qed

lemma A_ptr_used: "binheap_inv bh \<Longrightarrow> used bh i \<Longrightarrow> A_ptr bh i = Some (elem_at bh i)"
  by (simp add: binheap_inv_def A_ptr_def)

lemma A_get_used: "binheap_inv bh \<Longrightarrow> used bh i \<Longrightarrow> A_get bh i = Some (Ptr (elem_at bh i))"
  by (simp add: binheap_inv_def A_get_def)

lemma elem_at_inj: "binheap_inv bh \<Longrightarrow> used bh i \<Longrightarrow> used bh j \<Longrightarrow> elem_at bh i = elem_at bh j \<Longrightarrow> i = j"
  unfolding binheap_inv_def by metis

lemma elem_at_cell: "bh_cell bh i = Ptr x \<Longrightarrow> elem_at bh i = x"
  by (simp add: elem_at_def A_ptr_def)

lemma A_ptr_cell: "bh_cell bh i = Ptr x \<Longrightarrow> A_ptr bh i = Some x"
  by (simp add: A_ptr_def)

lemma binheap_update_Some:
  "u < bh_next bh \<Longrightarrow> bh_cell bh u = Ptr x \<Longrightarrow> bh_update bh \<Longrightarrow>
   binheap_update bh u = Some (bh\<lparr>bh_told := (bh_told bh)(x := u)\<rparr>)"
  by (simp add: binheap_update_def A_ptr_def)

lemma told_update [simp]:
  "bh_cell (bh\<lparr>bh_told := t\<rparr>) = bh_cell bh" "same_frame bh (bh\<lparr>bh_told := t\<rparr>)"
  "elem_at (bh\<lparr>bh_told := t\<rparr>) = elem_at bh" "rows_ok (bh\<lparr>bh_told := t\<rparr>) = rows_ok bh"
  "page_ok (bh\<lparr>bh_told := t\<rparr>) = page_ok bh"
  by (auto simp: bh_cell_def same_frame_def elem_at_def A_ptr_def fun_eq_iff rows_ok_def page_ok_def)

lemma next_update [simp]:
  "bh_cell (bh\<lparr>bh_next := n\<rparr>) = bh_cell bh" "rows_ok (bh\<lparr>bh_next := n\<rparr>) = rows_ok bh"
  "page_ok (bh\<lparr>bh_next := n\<rparr>) = page_ok bh" "elem_at (bh\<lparr>bh_next := n\<rparr>) = elem_at bh"
  by (auto simp: bh_cell_def fun_eq_iff rows_ok_def page_ok_def elem_at_def A_ptr_def)

text \<open>A permutation of the elements with the positions told.\<close>

definition moved :: "'a binheap \<Rightarrow> 'a binheap \<Rightarrow> bool" where
  "moved bh bh' \<longleftrightarrow> same_frame bh bh' \<and> binheap_inv bh' \<and> elems bh' = elems bh \<and>
     (\<forall>i. \<not> used bh i \<longrightarrow> bh_cell bh' i = bh_cell bh i) \<and>
     (\<forall>x. x \<notin> elems bh \<longrightarrow> bh_told bh' x = bh_told bh x)"

lemma moved_refl: "binheap_inv bh \<Longrightarrow> moved bh bh"
  by (simp add: moved_def)

lemma moved_trans: "moved a b \<Longrightarrow> moved b c \<Longrightarrow> moved a c"
  by (auto simp: moved_def same_frameD intro: same_frame_trans)

lemma binhead_swap_moves:
  assumes inv: "binheap_inv bh" and u: "used bh u" and v: "used bh v"
  shows "\<exists>bh'. binhead_swap bh u v = Some bh' \<and> moved bh bh' \<and>
           elem_at bh' = (elem_at bh)(u := elem_at bh v, v := elem_at bh u)"
proof -
  let ?x = "elem_at bh u" and ?y = "elem_at bh v"
  have len: "u < bh_length bh" "v < bh_length bh" "rows_ok bh" using inv u v by (auto simp: binheap_inv_def)
  obtain b1 where b1: "A_set bh u (Ptr ?y) = Some b1" "same_frame bh b1" "bh_told b1 = bh_told bh"
    "bh_cell b1 = (bh_cell bh)(u := Ptr ?y)"
    using A_set_Some [OF len(3,1)] by blast
  obtain b2 where b2: "A_set b1 v (Ptr ?x) = Some b2" "same_frame b1 b2" "bh_told b2 = bh_told b1"
    "bh_cell b2 = (bh_cell b1)(v := Ptr ?x)"
    using A_set_Some [of b1 v] len same_frameD [OF b1(2)] by auto
  have fr: "same_frame bh b2" using b1(2) b2(2) by (rule same_frame_trans)
  note d = same_frameD [OF fr]
  have cell: "bh_cell b2 = (bh_cell bh)(u := Ptr ?y, v := Ptr ?x)" using b1 b2 by simp
  define b4 where "b4 = b2\<lparr>bh_told := (bh_told bh)(?y := u, ?x := v)\<rparr>"
  have upd: "bh_update b2" using inv d by (simp add: binheap_inv_def)
  have "bh_cell b2 u = Ptr ?y" using cell by simp
  then have run: "binhead_swap bh u v = Some b4"
    using u v A_get_used [OF inv u] A_get_used [OF inv v] b1(1) b2(1,3) b1(3) d(4) cell upd
    by (simp add: binhead_swap_def binheap_update_Some b4_def)
  have fr4: "same_frame bh b4" using fr by (auto simp: b4_def intro: same_frame_trans)
  have e4: "elem_at b4 = (elem_at bh)(u := ?y, v := ?x)"
    using cell by (auto simp: b4_def elem_at_def A_ptr_def fun_eq_iff)
  have inv4: "binheap_inv b4"
    using inv u v d upd cell e4 elem_at_inj [OF inv]
    by (auto simp: binheap_inv_def b4_def)
  have "elems b4 = elems bh"
    using u v d(4) e4 by (force simp: elems_def b4_def image_iff)
  then have "moved bh b4"
    using fr4 inv4 cell u v by (auto simp: moved_def b4_def elems_def)
  then show ?thesis using run e4 by blast
qed

section \<open>Trickling up restores the order\<close>

text \<open>
  The contract of the comparison: a strict weak order.  The order of the heap on a whole is that no
  element is smaller than its parent; while an element trickles up, the order may fail only between it
  and its parent.
\<close>

definition heap_ordered :: "('a \<Rightarrow> 'a \<Rightarrow> bool) \<Rightarrow> (nat \<Rightarrow> nat) \<Rightarrow> nat \<Rightarrow> (nat \<Rightarrow> 'a) \<Rightarrow> bool" where
  "heap_ordered cmp up n e \<longleftrightarrow> (\<forall>i. 2 \<le> i \<longrightarrow> i < n \<longrightarrow> \<not> cmp (e i) (e (up i)))"

definition ordered_but :: "('a \<Rightarrow> 'a \<Rightarrow> bool) \<Rightarrow> (nat \<Rightarrow> nat) \<Rightarrow> nat \<Rightarrow> (nat \<Rightarrow> 'a) \<Rightarrow> nat \<Rightarrow> bool" where
  "ordered_but cmp up n e u \<longleftrightarrow>
     (\<forall>i. 2 \<le> i \<longrightarrow> i < n \<longrightarrow> i \<noteq> u \<longrightarrow> \<not> cmp (e i) (e (up i))) \<and>
     (\<forall>i. 2 \<le> i \<longrightarrow> i < n \<longrightarrow> up i = u \<longrightarrow> 2 \<le> u \<longrightarrow> \<not> cmp (e i) (e (up u)))"

locale weak_order =
  fixes cmp :: "'a \<Rightarrow> 'a \<Rightarrow> bool"
  assumes asym: "cmp x y \<Longrightarrow> \<not> cmp y x"
    and negtrans: "\<not> cmp x y \<Longrightarrow> \<not> cmp y z \<Longrightarrow> \<not> cmp x z"
begin

lemma ordered_but_step:
  assumes "ordered_but cmp up n e u" "2 \<le> u" "u < n" "cmp (e u) (e (up u))"
    and up: "\<And>i. 2 \<le> i \<Longrightarrow> up i < i"
  shows "ordered_but cmp up n (e(u := e (up u), up u := e u)) (up u)"
proof -
  let ?v = "up u" and ?e = "e(u := e (up u), up u := e u)"
  have uv: "?v < u" using up assms(2) by simp
  have o1: "\<not> cmp (e i) (e (up i))" if "2 \<le> i" "i < n" "i \<noteq> u" for i
    using assms(1) that by (simp add: ordered_but_def)
  have o2: "\<not> cmp (e i) (e ?v)" if "2 \<le> i" "i < n" "up i = u" for i
    using assms(1,2) that by (auto simp: ordered_but_def)
  have vu: "\<not> cmp (e ?v) (e u)" using assms(4) by (rule asym)
  have "\<not> cmp (?e i) (?e (up i))" if i: "2 \<le> i" "i < n" "i \<noteq> ?v" for i
  proof -
    consider "i = u" | "i \<noteq> u" "up i = u" | "i \<noteq> u" "up i = ?v" | "i \<noteq> u" "up i \<noteq> u" "up i \<noteq> ?v" by blast
    then show ?thesis
    proof cases
      case 1
      then show ?thesis using uv vu by simp
    next
      case 2
      then show ?thesis using o2 i uv by simp
    next
      case 3
      then have "\<not> cmp (e i) (e ?v)" using o1 [OF i(1,2)] by simp
      then show ?thesis using negtrans [OF _ vu] 3 i uv by simp
    next
      case 4
      then show ?thesis using o1 i by simp
    qed
  qed
  moreover have "\<not> cmp (?e i) (?e (up ?v))" if i: "2 \<le> i" "i < n" "up i = ?v" "2 \<le> ?v" for i
  proof -
    have v: "\<not> cmp (e ?v) (e (up ?v))" using o1 i uv assms(3) by simp
    have w: "?e (up ?v) = e (up ?v)" using up [OF i(4)] uv by simp
    show ?thesis
    proof (cases "i = u")
      case True
      then show ?thesis using v w uv by simp
    next
      case False
      then have "i \<noteq> ?v" using up [OF i(1)] i(3) by auto
      have "\<not> cmp (e i) (e ?v)" using o1 [OF i(1,2) False] i(3) by simp
      then show ?thesis using negtrans [OF _ v] w False \<open>i \<noteq> ?v\<close> by simp
    qed
  qed
  ultimately show ?thesis unfolding ordered_but_def by blast
qed

lemma ordered_but_done:
  "ordered_but cmp up n e u \<Longrightarrow> u < 2 \<or> \<not> cmp (e u) (e (up u)) \<Longrightarrow> heap_ordered cmp up n e"
  unfolding ordered_but_def heap_ordered_def by (metis linorder_not_less)

end

interpretation key_order: weak_order "\<lambda>x y. key x < key y" for key :: "'a \<Rightarrow> 'k :: linorder"
  by unfold_locales auto

lemma par_less: "page_ok bh \<Longrightarrow> 2 \<le> i \<Longrightarrow> 1 \<le> par bh i \<and> par bh i < i"
  using parent_nat_less [OF page_facts(5)] by (auto simp: par_def)

lemma par_parent: "page_ok bh \<Longrightarrow> i < 2 ^ 32 \<Longrightarrow> unat (parent bh (word_of_nat i)) = par bh i"
  by (simp add: parent_unat par_def unat_u32_of_nat)

lemma binheap_next_less: "binheap_inv bh \<Longrightarrow> used bh i \<Longrightarrow> i < 2 ^ 32"
  by (simp add: binheap_inv_def rows_ok_def)

text \<open>Trickling up returns, permutes the elements, and removes the one disorder there is.\<close>

lemma trickleup_moves:
  assumes "binheap_inv bh" "used bh u"
  shows "\<exists>w bh'. binheap_trickleup bh u = Some (w, bh') \<and> moved bh bh' \<and> used bh w \<and>
           (\<forall>key. bh_cmp bh = (\<lambda>x y. key x < (key y :: 'k :: linorder)) \<longrightarrow>
              ordered_but (bh_cmp bh) (par bh) (bh_next bh) (elem_at bh) u \<longrightarrow>
              heap_ordered (bh_cmp bh) (par bh) (bh_next bh) (elem_at bh'))"
  using assms
proof (induction u arbitrary: bh rule: less_induct)
  case (less u)
  note inv = less.prems(1) and u = less.prems(2)
  have pg: "page_ok bh" using inv by (simp add: binheap_inv_def)
  show ?case
  proof (cases "2 \<le> u \<and> bh_cmp bh (elem_at bh u) (elem_at bh (par bh u))")
    case False
    have "binheap_trickleup bh u = Some (u, bh)"
    proof (cases "2 \<le> u")
      case True
      then have "used bh (par bh u)" using par_less [OF pg True] u by simp
      then show ?thesis
        using False True A_ptr_used [OF inv u] A_ptr_used [OF inv] par_parent [OF pg binheap_next_less [OF inv u]]
        by (simp add: binheap_trickleup.simps ROOT_IDX_def Let_def)
    next
      case False
      then show ?thesis by (simp add: binheap_trickleup.simps ROOT_IDX_def)
    qed
    moreover have "heap_ordered (bh_cmp bh) (par bh) (bh_next bh) (elem_at bh)"
      if k: "bh_cmp bh = (\<lambda>x y. key x < (key y :: 'k))"
        "ordered_but (bh_cmp bh) (par bh) (bh_next bh) (elem_at bh) u" for key
      using key_order.ordered_but_done [of key "par bh" "bh_next bh" "elem_at bh" u] False k
      by (metis linorder_not_less)
    ultimately show ?thesis using moved_refl [OF inv] u by blast
  next
    case True
    let ?v = "par bh u"
    have v: "?v < u" "used bh ?v" using par_less [OF pg, of u] True u by simp_all
    obtain b1 where b1: "binhead_swap bh u ?v = Some b1" "moved bh b1"
      "elem_at b1 = (elem_at bh)(u := elem_at bh ?v, ?v := elem_at bh u)"
      using binhead_swap_moves [OF inv u v(2)] by blast
    have f: "same_frame bh b1" "binheap_inv b1" using b1(2) by (auto simp: moved_def)
    note d = same_frameD [OF f(1)]
    obtain w bh' where ih: "binheap_trickleup b1 ?v = Some (w, bh')" "moved b1 bh'" "used b1 w"
      "\<forall>key. bh_cmp b1 = (\<lambda>x y. key x < (key y :: 'k :: linorder)) \<longrightarrow>
         ordered_but (bh_cmp b1) (par b1) (bh_next b1) (elem_at b1) ?v \<longrightarrow>
         heap_ordered (bh_cmp b1) (par b1) (bh_next b1) (elem_at bh')"
      using less.IH [OF v(1) f(2)] v(2) d(4) by auto
    have run: "binheap_trickleup bh u = Some (w, bh')"
      using True A_ptr_used [OF inv u] A_ptr_used [OF inv v(2)] b1(1) ih(1)
        par_parent [OF pg binheap_next_less [OF inv u]]
      by (subst binheap_trickleup.simps) (simp add: ROOT_IDX_def Let_def)
    have "heap_ordered (bh_cmp bh) (par bh) (bh_next bh) (elem_at bh')"
      if k: "bh_cmp bh = (\<lambda>x y. key x < (key y :: 'k))"
        "ordered_but (bh_cmp bh) (par bh) (bh_next bh) (elem_at bh) u" for key
      using ih(4) [rule_format, of key] key_order.ordered_but_step [of key "par bh" "bh_next bh" "elem_at bh" u]
        k True u par_less [OF pg] d b1(3) by simp
    then show ?thesis
      using run moved_trans [OF b1(2) ih(2)] ih(3) d(4) by auto
  qed
qed

section \<open>Trickling down, insertion and deletion\<close>

text \<open>
  \<open>trickledown\<close> with any value in the uninitialised \<open>v2\<close>: as long as the heap is small enough for
  \<open>child\<close> not to overflow and \<open>v2\<close> does not wrap, it ends and permutes the elements.  The smaller of
  the current position and \<open>v2\<close> grows in every round.
\<close>

definition bh_small :: "'a binheap \<Rightarrow> bool" where
  "bh_small bh \<longleftrightarrow> (bh_next bh + 1) * (2 * pg_half bh) \<le> 2 ^ 32"

lemma child_step:
  assumes inv: "binheap_inv bh" and sm: "bh_small bh" and u: "used bh u"
    and v2: "unat v2 + (bh_next bh - min u (unat v2)) < 2 ^ 32"
    and c: "child bh (word_of_nat u) v2 = (a, b)" and a: "unat a < bh_next bh"
    and w: "w = unat a \<or> w = unat b \<and> unat b < bh_next bh"
  shows "unat b \<ge> 1" "used bh w" "min u (unat v2) < min w (unat b)"
    "unat b + (bh_next bh - min w (unat b)) < 2 ^ 32"
proof -
  have pg: "page_ok bh" using inv by (simp add: binheap_inv_def)
  have h: "2 \<le> pg_half bh" by (rule page_facts(5) [OF pg])
  have nx: "(bh_next bh + 1) * 4 \<le> 2 ^ 32"
    using sm mult_le_mono2 [of 4 "2 * pg_half bh" "bh_next bh + 1"] h unfolding bh_small_def by linarith
  have uu: "unat (word_of_nat u :: u32) = u" using u nx by (intro unat_u32_of_nat) simp
  have "(u + 2) * (2 * pg_half bh) \<le> (bh_next bh + 1) * (2 * pg_half bh)"
    using u by (intro mult_le_mono1) simp
  then have "(u + 2) * (2 * pg_half bh) \<le> 2 ^ 32" using sm unfolding bh_small_def by simp
  then have g: "unat a > u" "b = v2 + 1 \<or> unat b > u \<and> unat b \<le> unat a + 1"
    using child_grows [OF pg, of "word_of_nat u" v2] uu u c by auto
  have b: "b = v2 + 1 \<Longrightarrow> unat b = unat v2 + 1"
    using v2 u by (auto simp: unat_word_ariths)
  show b1: "unat b \<ge> 1" using g(2) b by auto
  show "used bh w" using w g(1) u a b1 by auto
  show lt: "min u (unat v2) < min w (unat b)" using g b w by auto
  show "unat b + (bh_next bh - min w (unat b)) < 2 ^ 32"
    using g(2)
  proof
    assume "b = v2 + 1"
    then show ?thesis using lt v2 b u by (auto simp: min_def split: if_splits)
  next
    assume "unat b > u \<and> unat b \<le> unat a + 1"
    then have "unat b + bh_next bh < 2 ^ 32" using a nx by simp
    then show ?thesis by (rule le_less_trans [rotated]) simp
  qed
qed

lemma trickledown_moves:
  assumes "binheap_inv bh" "bh_small bh" "used bh u" "unat v2 + (bh_next bh - min u (unat v2)) < 2 ^ 32"
  shows "\<exists>bh'. binheap_trickledown bh u v2 = Some bh' \<and> moved bh bh'"
  using assms
proof (induction "bh_next bh - min u (unat v2)" arbitrary: bh u v2 rule: less_induct)
  case less
  note inv = less.prems(1) and u = less.prems(3)
  obtain a b where c: "child bh (word_of_nat u) v2 = (a, b)" by fastforce
  show ?case
  proof (cases "unat a < bh_next bh")
    case False
    then show ?thesis
      using c moved_refl [OF inv] by (subst binheap_trickledown.simps) simp
  next
    case True
    note cs = child_step [OF less.prems c True]
    have ua: "used bh (unat a)" using cs(2) by simp
    have ub: "used bh (unat b)" if "unat b < bh_next bh" using cs(1) [of "unat a"] that by simp
    define less where "less \<longleftrightarrow> unat b < bh_next bh \<and> bh_cmp bh (elem_at bh (unat b)) (elem_at bh (unat a))"
    have l: "(if unat b < bh_next bh then map_option (\<lambda>x2. bh_cmp bh x2 (elem_at bh (unat a))) (A_ptr bh (unat b))
              else Some False) = Some less"
      using A_ptr_used [OF inv ub] by (simp add: less_def)
    define w where "w = (if less then unat b else unat a)"
    have w: "w = unat a \<or> w = unat b \<and> unat b < bh_next bh" by (auto simp: w_def less_def)
    have uw: "used bh w" using cs(2) [OF w] .
    obtain b1 where b1: "binhead_swap bh u w = Some b1" "moved bh b1"
      using binhead_swap_moves [OF inv u uw] by blast
    have f: "same_frame bh b1" "binheap_inv b1" using b1(2) by (auto simp: moved_def)
    note d = same_frameD [OF f(1)]
    have "\<exists>bh'. binheap_trickledown b1 w b = Some bh' \<and> moved b1 bh'"
      by (rule less.hyps) (use cs(3,4) [OF w] d uw f(2) less.prems(2) u in \<open>auto simp: bh_small_def\<close>)
    then obtain b2 where b2: "binheap_trickledown b1 w b = Some b2" "moved b1 b2" by blast
    show ?thesis
    proof (cases "bh_cmp bh (elem_at bh u) (elem_at bh w)")
      case T: True
      then have "binheap_trickledown bh u v2 = Some bh"
        using c True l A_ptr_used [OF inv ua] A_ptr_used [OF inv u] A_ptr_used [OF inv uw]
        by (subst binheap_trickledown.simps) (simp add: w_def [symmetric] Let_def)
      then show ?thesis using moved_refl [OF inv] by blast
    next
      case F: False
      then have "binheap_trickledown bh u v2 = Some b2"
        using c True l A_ptr_used [OF inv ua] A_ptr_used [OF inv u] A_ptr_used [OF inv uw] b1(1) b2(1)
        by (subst binheap_trickledown.simps) (simp add: w_def [symmetric] Let_def)
      then show ?thesis using moved_trans [OF b1(2) b2(2)] by blast
    qed
  qed
qed

lemma binheap_addrow_Some:
  assumes "rows_ok bh" "bh_length bh + ROW_WIDTH < 2 ^ 32"
  shows "\<exists>arr. let bh' = bh\<lparr>bh_array := arr, bh_length := bh_length bh + ROW_WIDTH\<rparr> in
           binheap_addrow bh = Some bh' \<and> rows_ok bh' \<and> bh_cell bh' = bh_cell bh"
proof -
  define r where "r = bh_length bh div ROW_WIDTH"
  define arr where "arr = (if r \<ge> length (bh_array bh)
    then bh_array bh @ replicate (length (bh_array bh)) None else bh_array bh)"
  have ok: "ROW_WIDTH dvd bh_length bh" "bh_array bh \<noteq> []" "r \<le> length (bh_array bh)"
    "\<forall>i < length (bh_array bh). bh_array bh ! i \<noteq> None \<longleftrightarrow> i < r"
    using assms(1) by (auto simp: rows_ok_def r_def)
  have arr: "r < length arr" "\<And>i. i < length arr \<Longrightarrow> arr ! i \<noteq> None \<longleftrightarrow> i < r"
    "\<And>i. i < r \<Longrightarrow> arr ! i = bh_array bh ! i"
    using ok(2-4) by (auto simp: arr_def nth_append)
  let ?bh = "bh\<lparr>bh_array := arr[r := Some (\<lambda>_. Junk)], bh_length := bh_length bh + ROW_WIDTH\<rparr>"
  have run: "binheap_addrow bh = Some ?bh"
    using arr(1) arr(2) [of r] assms(2) by (simp add: binheap_addrow_def Let_def r_def [symmetric] arr_def [symmetric])
  have l: "(bh_length bh + ROW_WIDTH) div ROW_WIDTH = r + 1" by (simp add: r_def)
  have "rows_ok ?bh"
    using arr(1,2) ok(1) assms(2) unfolding rows_ok_def by (auto simp: l nth_list_update)
  moreover have "bh_cell ?bh i = bh_cell bh i" for i
  proof (cases "i div ROW_WIDTH < r")
    case True
    then show ?thesis using arr(1,3) ok(3) by (simp add: bh_cell_def)
  next
    case False
    moreover have "bh_cell bh i = Junk" using False ok(4) by (auto simp: bh_cell_def split: option.splits)
    moreover have "bh_cell ?bh i = Junk"
      using False arr(1,2) by (auto simp: bh_cell_def nth_list_update split: option.splits)
    ultimately show ?thesis by simp
  qed
  ultimately show ?thesis using run by (auto simp: fun_eq_iff Let_def)
qed

text \<open>The state of an insertion just before the new element trickles up.\<close>

lemma binheap_insert_place:
  assumes inv: "binheap_inv bh" and p: "p \<notin> elems bh" and room: "bh_length bh + ROW_WIDTH < 2 ^ 32"
  shows "\<exists>b. binheap_insert bh p = map_option snd (binheap_trickleup b (bh_next bh)) \<and> binheap_inv b \<and>
     bh_cmp b = bh_cmp bh \<and> par b = par bh \<and> bh_next b = bh_next bh + 1 \<and> bh_length b \<le> bh_length bh + ROW_WIDTH \<and>
     elem_at b = (elem_at bh)(bh_next bh := p) \<and> bh_told b = (bh_told bh)(p := bh_next bh) \<and>
     elems b = insert p (elems bh) \<and> pg_half b = pg_half bh"
proof -
  let ?n = "bh_next bh"
  have i: "rows_ok bh" "page_ok bh" "?n \<le> bh_length bh" "bh_update bh" "1 \<le> ?n"
    "\<forall>i. used bh i \<longrightarrow> bh_cell bh i = Ptr (elem_at bh i) \<and> bh_told bh (elem_at bh i) = i"
    using inv by (auto simp: binheap_inv_def)
  obtain arr len where b0: "(if bh_length bh = ?n then binheap_addrow bh else Some bh)
      = Some (bh\<lparr>bh_array := arr, bh_length := len\<rparr>)" "rows_ok (bh\<lparr>bh_array := arr, bh_length := len\<rparr>)"
    "bh_cell (bh\<lparr>bh_array := arr, bh_length := len\<rparr>) = bh_cell bh" "?n < len" "len \<le> bh_length bh + ROW_WIDTH"
  proof (cases "bh_length bh = ?n")
    case True
    then show ?thesis
      using that [of "bh_length bh + ROW_WIDTH"] binheap_addrow_Some [OF i(1) room]
      by (auto simp: Let_def)
  next
    case False
    then show ?thesis using that [of "bh_length bh" "bh_array bh"] i by simp
  qed
  define b1 where "b1 = bh\<lparr>bh_array := arr, bh_length := len, bh_next := ?n + 1\<rparr>"
  have r1: "rows_ok b1" "?n < bh_length b1" "bh_cell b1 = bh_cell bh"
    using b0 by (auto simp: b1_def)
  obtain b2 where b2: "A_set b1 ?n (Ptr p) = Some b2" "same_frame b1 b2" "bh_told b2 = bh_told b1"
    "bh_cell b2 = (bh_cell b1)(?n := Ptr p)"
    using A_set_Some [OF r1(1,2)] by blast
  note d = same_frameD [OF b2(2)]
  define b3 where "b3 = b2\<lparr>bh_told := (bh_told bh)(p := ?n)\<rparr>"
  have n32: "(?n + 1) mod 2 ^ 32 = ?n + 1" using i(3) room by (simp add: ROW_WIDTH_def ROW_SHIFT_def)
  have up: "binheap_update b2 ?n = Some b3"
    using d b2 r1 i(4) by (subst binheap_update_Some [where x = p]) (auto simp: b1_def b3_def)
  have run: "binheap_insert bh p = map_option snd (binheap_trickleup b3 ?n)"
    using i(3) b0(1) n32 b2(1) up
    by (cases "binheap_trickleup b3 ?n") (simp_all add: binheap_insert_def b1_def split_beta)
  have e3: "elem_at b3 = (elem_at bh)(?n := p)"
    using b2(4) r1(3) by (auto simp: b3_def elem_at_def A_ptr_def fun_eq_iff)
  have el: "elems b3 = insert p (elems bh)"
    using e3 d(4) i(5) by (auto simp: elems_def b3_def b1_def image_iff less_Suc_eq)
  have "p \<noteq> elem_at bh i" if "used bh i" for i using p that by (auto simp: elems_def)
  then have "binheap_inv b3"
    using i d r1 b2(4) b0(4) e3
    by (auto simp: binheap_inv_def b3_def b1_def page_ok_def less_Suc_eq)
  then show ?thesis
    using run e3 el d b0(5)
    by (intro exI [of _ b3]) (auto simp: b3_def b1_def par_def pg_half_def)
qed

text \<open>The state of a deletion just before the tail element, put in the hole, trickles.\<close>

lemma binheap_delete_place:
  assumes inv: "binheap_inv bh" and u: "used bh idx" "idx \<noteq> bh_next bh - 1"
  shows "\<exists>b. binheap_delete g bh idx =
       Option.bind (binheap_trickleup b idx) (\<lambda>(i, b). Option.bind (binheap_trickledown b i g) (\<lambda>b.
         if bh_next b + 2 * ROW_WIDTH \<le> bh_length b
         then Some (b\<lparr>bh_array := (bh_array b)[(bh_length b - 1) div ROW_WIDTH := None],
                      bh_length := bh_length b - ROW_WIDTH\<rparr>)
         else Some b)) \<and>
     binheap_inv b \<and> bh_next b = bh_next bh - 1 \<and> elems b = elems bh - {elem_at bh idx} \<and>
     pg_half b = pg_half bh \<and> bh_told b (elem_at bh idx) = 0 \<and> bh_length b = bh_length bh \<and> bh_cmp b = bh_cmp bh \<and>
     (\<forall>x. x \<notin> elems bh \<longrightarrow> bh_told b x = bh_told bh x) \<and>
     (\<forall>i. i \<noteq> bh_next bh - 1 \<longrightarrow> elem_at b i = (if i = idx then elem_at bh (bh_next bh - 1) else elem_at bh i))"
proof -
  let ?m = "bh_next bh - 1" and ?x = "elem_at bh idx"
  let ?y = "elem_at bh ?m"
  have um: "used bh ?m" "?m < bh_next bh" "idx < ?m" using u by auto
  have i: "rows_ok bh" "?m < bh_length bh" "idx < bh_length bh" "bh_update bh" "page_ok bh"
    "\<forall>i. used bh i \<longrightarrow> bh_cell bh i = Ptr (elem_at bh i) \<and> bh_told bh (elem_at bh i) = i"
    using inv u um by (auto simp: binheap_inv_def)
  define b0 where "b0 = bh\<lparr>bh_told := (bh_told bh)(?x := 0), bh_next := ?m\<rparr>"
  have c0: "bh_cell b0 = bh_cell bh" "rows_ok b0" "idx < bh_length b0" "?m < bh_length b0"
    using i by (simp_all add: b0_def)
  obtain b1 where b1: "A_set b0 idx (Ptr ?y) = Some b1" "same_frame b0 b1" "bh_told b1 = bh_told b0"
    "bh_cell b1 = (bh_cell b0)(idx := Ptr ?y)"
    using A_set_Some [OF c0(2,3)] by blast
  obtain b2 where b2: "A_set b1 ?m Null = Some b2" "same_frame b1 b2" "bh_told b2 = bh_told b1"
    "bh_cell b2 = (bh_cell b1)(?m := Null)"
    using A_set_Some [of b1 ?m] same_frameD [OF b1(2)] c0 by auto
  have fr: "same_frame b0 b2" using b1(2) b2(2) by (rule same_frame_trans)
  note d = same_frameD [OF fr]
  have cell: "bh_cell b2 = (bh_cell bh)(idx := Ptr ?y, ?m := Null)" using b1 b2 c0 by simp
  define b3 where "b3 = b2\<lparr>bh_told := (bh_told b0)(?y := idx)\<rparr>"
  have ne: "bh_next b1 = ?m" "bh_next b2 = ?m" using same_frameD(4) [OF b1(2)] d(4) by (simp_all add: b0_def)
  have up: "binheap_update b2 idx = Some b3"
    using ne cell um d(2) i(4) b1(3) b2(3) by (subst binheap_update_Some [where x = ?y]) (auto simp: b3_def b0_def)
  have get: "A_get b0 ?m = Some (Ptr ?y)" using c0(1) i(6) um(1) by (simp add: A_get_def)
  have run: "binheap_delete g bh idx =
       Option.bind (binheap_trickleup b3 idx) (\<lambda>(i, b). Option.bind (binheap_trickledown b i g) (\<lambda>b.
         if bh_next b + 2 * ROW_WIDTH \<le> bh_length b
         then Some (b\<lparr>bh_array := (bh_array b)[(bh_length b - 1) div ROW_WIDTH := None],
                      bh_length := bh_length b - ROW_WIDTH\<rparr>)
         else Some b))"
    using u um i(4) A_ptr_used [OF inv u(1)] get b1(1) b2(1) up ne
    by (simp add: binheap_delete_def ROOT_IDX_def b0_def [symmetric]) (use u in \<open>auto simp: b0_def\<close>)
  have e3: "\<And>i. i \<noteq> ?m \<Longrightarrow> elem_at b3 i = ((elem_at bh)(idx := ?y)) i"
    using cell by (auto simp: b3_def elem_at_def A_ptr_def)
  have inj: "elem_at bh i = elem_at bh j \<longleftrightarrow> i = j" if "used bh i" "used bh j" for i j
    using elem_at_inj [OF inv that] by blast
  have n3: "bh_next b3 = ?m" using ne by (simp add: b3_def)
  have "elems b3 = (\<lambda>i. ((elem_at bh)(idx := ?y)) i) ` {1..<?m}"
    unfolding elems_def n3 by (rule image_cong) (use e3 in auto)
  also have "\<dots> = elems bh - {?x}"
  proof -
    have "{1..<bh_next bh} = insert ?m {1..<?m}" using um u by auto
    then show ?thesis
      using u um inj by (auto simp: elems_def image_iff split: if_splits)
  qed
  finally have el: "elems b3 = elems bh - {?x}" .
  have "binheap_inv b3"
    using i um u d cell e3 inj n3
    by (auto simp: binheap_inv_def b3_def b0_def)
  moreover have "?x \<in> elems bh" "?y \<in> elems bh" using u(1) um(1) unfolding elems_def by (auto intro!: imageI)
  then have "\<forall>x. x \<notin> elems bh \<longrightarrow> bh_told b3 x = bh_told bh x" by (auto simp: b3_def b0_def)
  ultimately show ?thesis
    using run el n3 d inj [of idx ?m] u um e3
    by (intro exI [of _ b3]) (auto simp: b3_def b0_def pg_half_def)
qed

lemma binheap_delete_tail:
  assumes inv: "binheap_inv bh" and n: "1 < bh_next bh"
  defines "m \<equiv> bh_next bh - 1"
  shows "\<exists>bh'. binheap_delete g bh m = Some bh' \<and> binheap_inv bh' \<and> bh_next bh' = bh_next bh - 1 \<and>
           elems bh' = elems bh - {elem_at bh m} \<and> bh_told bh' (elem_at bh m) = 0 \<and>
           (\<forall>x. x \<notin> elems bh \<longrightarrow> bh_told bh' x = bh_told bh x) \<and> pg_half bh' = pg_half bh \<and> bh_length bh' = bh_length bh"
proof -
  let ?x = "elem_at bh m"
  have u: "used bh m" "bh_next bh = Suc m" using n by (auto simp: m_def)
  have i: "rows_ok bh" "m < bh_length bh" "bh_update bh" "page_ok bh"
    "\<forall>i. used bh i \<longrightarrow> bh_cell bh i = Ptr (elem_at bh i) \<and> bh_told bh (elem_at bh i) = i"
    using inv u by (auto simp: binheap_inv_def)
  define b0 where "b0 = bh\<lparr>bh_told := (bh_told bh)(?x := 0), bh_next := m\<rparr>"
  have c0: "bh_cell b0 = bh_cell bh" "rows_ok b0" "m < bh_length b0" using i by (simp_all add: b0_def)
  obtain b1 where b1: "A_set b0 m Null = Some b1" "same_frame b0 b1" "bh_told b1 = bh_told b0"
    "bh_cell b1 = (bh_cell b0)(m := Null)"
    using A_set_Some [OF c0(2,3)] by blast
  note d = same_frameD [OF b1(2)]
  have n1: "bh_next b1 = m" using d(4) by (simp add: b0_def)
  have run: "binheap_delete g bh m = Some b1"
    using u n i(3) A_ptr_used [OF inv u(1)] b1(1)
    by (simp add: binheap_delete_def ROOT_IDX_def b0_def)
  have e: "elem_at b1 j = elem_at bh j" if "j \<noteq> m" for j
    using b1(4) c0(1) that by (simp add: elem_at_def A_ptr_def)
  have inj: "elem_at bh j \<noteq> ?x" if "used bh j" "j \<noteq> m" for j
    using elem_at_inj [OF inv that(1) u(1)] that(2) by blast
  have "elems b1 = elem_at bh ` {1..<m}"
    unfolding elems_def n1 by (rule image_cong) (use e in auto)
  moreover have "{1..<bh_next bh} = insert m {1..<m}" using u by auto
  ultimately have el: "elems b1 = elems bh - {?x}"
    using inj u by (auto simp: elems_def)
  have told: "bh_told b1 = (bh_told bh)(?x := 0)" "bh_cell b1 = (bh_cell bh)(m := Null)"
    using b1(3,4) c0(1) by (simp_all add: b0_def)
  have "bh_cell b1 j = Ptr (elem_at b1 j) \<and> bh_told b1 (elem_at b1 j) = j" if "used b1 j" for j
    using that i(5) inj [of j] e [of j] u n1 told by simp
  moreover have "rows_ok b1" "page_ok b1" "bh_update b1" "bh_length b1 = bh_length bh"
    using d i by (simp_all add: b0_def)
  ultimately have "binheap_inv b1"
    using n1 u i(2) told unfolding binheap_inv_def by simp
  moreover have "bh_next b1 = bh_next bh - 1" "bh_told b1 ?x = 0" using n1 u(2) told(1) by simp_all
  moreover have "?x \<in> elems bh" using u(1) unfolding elems_def by (auto intro!: imageI)
  then have "\<forall>x. x \<notin> elems bh \<longrightarrow> bh_told b1 x = bh_told bh x" using told(1) by auto
  moreover have "pg_half b1 = pg_half bh" "bh_length b1 = bh_length bh" using d by (simp_all add: pg_half_def b0_def)
  ultimately show ?thesis using run el by simp
qed

text \<open>Giving the last row back.\<close>

lemma binheap_free_row:
  assumes inv: "binheap_inv b" and "bh_next b + 2 * ROW_WIDTH \<le> bh_length b"
  shows "let b' = b\<lparr>bh_array := (bh_array b)[(bh_length b - 1) div ROW_WIDTH := None],
                     bh_length := bh_length b - ROW_WIDTH\<rparr>
         in binheap_inv b' \<and> elems b' = elems b"
proof -
  obtain k where k: "bh_length b = k * ROW_WIDTH"
    using inv unfolding binheap_inv_def rows_ok_def by (metis dvd_div_mult_self dvd_eq_mod_eq_0)
  then have "2 * ROW_WIDTH \<le> k * ROW_WIDTH" using assms(2) by linarith
  then obtain r where r: "bh_length b = (r + 2) * ROW_WIDTH"
    using k by (metis ROW_WIDTH_pos add.commute le_Suc_ex mult_le_cancel2)
  have q: "(bh_length b - 1) div ROW_WIDTH = r + 1" "bh_length b div ROW_WIDTH = r + 2"
    "bh_length b - ROW_WIDTH = (r + 1) * ROW_WIDTH"
    using r unfolding ROW_WIDTH_def ROW_SHIFT_def by simp_all
  let ?b = "b\<lparr>bh_array := (bh_array b)[r + 1 := None], bh_length := (r + 1) * ROW_WIDTH\<rparr>"
  have c: "bh_cell ?b i = bh_cell b i" if "i < (r + 1) * ROW_WIDTH" for i
  proof -
    have "i div ROW_WIDTH < r + 1" using that by (simp add: div_less_iff_less_mult)
    then show ?thesis by (simp add: bh_cell_def)
  qed
  have nx: "bh_next b \<le> r * ROW_WIDTH" using assms(2) r by (simp add: algebra_simps)
  have e: "elem_at ?b i = elem_at b i" if "i < bh_next b" for i
    using c [of i] that nx by (simp add: elem_at_def A_ptr_def)
  have rows: "rows_ok ?b"
    using inv q r unfolding binheap_inv_def rows_ok_def by (auto simp: nth_list_update)
  have "bh_cell ?b 1 = bh_cell b 1" by (rule c) (simp add: ROW_WIDTH_def ROW_SHIFT_def)
  then have "binheap_inv ?b"
    using inv rows c e nx unfolding binheap_inv_def by (auto simp: page_ok_def)
  moreover have "elems ?b = elems b"
    unfolding elems_def by (rule image_cong) (use e in auto)
  ultimately show ?thesis unfolding Let_def q by (rule conjI)
qed

lemma binheap_insert_ok:
  assumes inv: "binheap_inv bh" and new: "p \<notin> elems bh" and room: "bh_length bh + ROW_WIDTH < 2 ^ 32"
  shows "\<exists>bh'. binheap_insert bh p = Some bh' \<and> binheap_inv bh' \<and> elems bh' = insert p (elems bh) \<and> bh_next bh' = bh_next bh + 1 \<and>
           (\<forall>x. x \<notin> insert p (elems bh) \<longrightarrow> bh_told bh' x = bh_told bh x) \<and> pg_half bh' = pg_half bh \<and> bh_length bh' \<le> bh_length bh + ROW_WIDTH"
proof -
  obtain b where b: "binheap_insert bh p = map_option snd (binheap_trickleup b (bh_next bh))" "binheap_inv b" "bh_next b = bh_next bh + 1"
    "bh_length b \<le> bh_length bh + ROW_WIDTH" "bh_told b = (bh_told bh)(p := bh_next bh)" "elems b = insert p (elems bh)" "pg_half b = pg_half bh"
    using binheap_insert_place [OF inv new room] by blast
  have "used b (bh_next bh)" using inv b(3) by (simp add: binheap_inv_def)
  then obtain w bh' where r: "binheap_trickleup b (bh_next bh) = Some (w, bh')" "moved b bh'"
    using trickleup_moves [OF b(2), of "bh_next bh", where ?'k = real] by blast
  then have "same_frame b bh'" "binheap_inv bh'" "elems bh' = elems b" "\<forall>x. x \<notin> elems b \<longrightarrow> bh_told bh' x = bh_told b x" by (auto simp: moved_def)
  then show ?thesis using b r(1) by (auto simp: same_frameD)
qed

lemma root_min:
  assumes ord: "heap_ordered (\<lambda>x y. key x < (key y :: 'k :: linorder)) (par bh) (bh_next bh) (elem_at bh)"
    and pg: "page_ok bh" and "used bh i"
  shows "key (elem_at bh 1) \<le> key (elem_at bh i)"
  using assms(3)
proof (induction i rule: less_induct)
  case (less i)
  show ?case
  proof (cases "i = 1")
    case False
    then have i: "2 \<le> i" "i < bh_next bh" using less.prems by auto
    have "key (elem_at bh 1) \<le> key (elem_at bh (par bh i))"
      using less.IH [of "par bh i"] par_less [OF pg i(1)] i by auto
    also have "\<dots> \<le> key (elem_at bh i)" using ord i by (auto simp: heap_ordered_def not_less)
    finally show ?thesis .
  qed simp
qed

lemma page_shift_of_exp: "u \<le> s \<Longrightarrow> s < 32 \<Longrightarrow> page_shift_of (2 ^ s) u = Some s"
proof (induction "s - u" arbitrary: u)
  case 0
  then show ?case by (simp add: page_shift_of.simps push_bit_eq_mult)
next
  case (Suc d)
  have "(2 :: nat) ^ u < 2 ^ s" using Suc.hyps(2) by (intro power_strict_increasing) auto
  then have "unat (2 ^ u :: u32) \<noteq> unat (2 ^ s :: u32)"
    using Suc.prems by (simp add: u32_exp)
  then have "push_bit u 1 \<noteq> (2 ^ s :: u32)" by (auto simp: push_bit_eq_mult)
  then show ?case
    using Suc.hyps(1) [of "Suc u"] Suc.hyps(2) Suc.prems by (subst page_shift_of.simps) simp
qed

lemma binheap_new_inv:
  assumes "2 \<le> s" "s \<le> 19"
  shows "\<exists>bh. binheap_new (2 ^ (s + 3)) cmp_f True told = Some bh \<and> binheap_inv bh \<and> bh_next bh = 1 \<and>
           bh_cmp bh = cmp_f \<and> bh_length bh = ROW_WIDTH \<and> pg_half bh = 2 ^ (s - 1)"
proof -
  have e: "unat (2 ^ (s + 3) :: u32) = 2 ^ (s + 3)" "unat (2 ^ s :: u32) = 2 ^ s"
    using assms u32_exp [of "s + 3"] u32_exp [of s] by simp_all
  have "unat (2 ^ (s + 3) div 8 :: u32) = unat (2 ^ s :: u32)"
    using e by (simp add: unat_div_distrib power_add)
  then have ps: "2 ^ (s + 3) div 8 = (2 ^ s :: u32)" by (simp only: word_unat_eq_iff)
  have land: "(2 ^ s :: u32) AND (2 ^ s - 1) = 0"
    by (rule bit_word_eqI) (auto simp: bit_simps simp flip: mask_eq_exp_minus_1)
  let ?b0 = "\<lparr>bh_cmp = cmp_f, bh_update = True, bh_told = told, bh_array = replicate 16 None,
    bh_length = 0, bh_next = ROOT_IDX, bh_page_size = 2 ^ s, bh_page_mask = 2 ^ s - 1, bh_page_shift = s\<rparr>"
  have "rows_ok ?b0" by (simp add: rows_ok_def)
  then obtain arr where r: "binheap_addrow ?b0 = Some (?b0\<lparr>bh_array := arr, bh_length := ROW_WIDTH\<rparr>)"
    "rows_ok (?b0\<lparr>bh_array := arr, bh_length := ROW_WIDTH\<rparr>)"
    using binheap_addrow_Some [of ?b0] by (auto simp: Let_def ROW_WIDTH_def ROW_SHIFT_def)
  have rw: "1 < ROW_WIDTH" by (simp add: ROW_WIDTH_def ROW_SHIFT_def)
  let ?b1 = "?b0\<lparr>bh_array := arr, bh_length := ROW_WIDTH\<rparr>"
  obtain b where b: "A_set ?b1 1 Null = Some b" "same_frame ?b1 b" "bh_cell b = (bh_cell ?b1)(1 := Null)"
    using A_set_Some [OF r(2), of 1] rw by auto
  note d = same_frameD [OF b(2)]
  have sz: "(2 :: nat) ^ s \<le> 8 * ROW_WIDTH"
    using assms(2) power_increasing [of s 19 "2 :: nat"] by (simp add: ROW_WIDTH_def ROW_SHIFT_def)
  have "binheap_new (2 ^ (s + 3)) cmp_f True told = Some b"
    using ps land page_shift_of_exp [of 1 s] assms r(1) b(1) e(2) sz
    by (simp add: binheap_new_def ROOT_IDX_def)
  moreover have "binheap_inv b"
    using d b(3) r(2) rw assms by (auto simp: binheap_inv_def page_ok_def ROOT_IDX_def mask_eq_exp_minus_1)
  ultimately show ?thesis using d by (auto simp: pg_half_def ROOT_IDX_def)
qed

text \<open>Four elements by hand: positions 1 to 4 hold 1, 10, 5 and 20.\<close>

definition ex_row :: "nat \<Rightarrow> nat cell" where
  "ex_row = (\<lambda>_. Junk)(1 := Ptr 1, 2 := Ptr 10, 3 := Ptr 5, 4 := Ptr 20)"

definition ex_heap :: "nat binheap" where
  "ex_heap = \<lparr>bh_cmp = (\<lambda>x y. real x < real y), bh_update = True,
     bh_told = (\<lambda>_. 0)(1 := 1, 10 := 2, 5 := 3, 20 := 4), bh_array = Some ex_row # replicate 15 None,
     bh_length = 65536, bh_next = 5, bh_page_size = 512, bh_page_mask = 511, bh_page_shift = 9\<rparr>"

lemma less5: "(1 \<le> i \<and> i < (5 :: nat)) \<longleftrightarrow> i = 1 \<or> i = 2 \<or> i = 3 \<or> i = 4"
  by auto

lemma ex_heap_cells: "bh_cell ex_heap 1 = Ptr 1" "bh_cell ex_heap 2 = Ptr 10" "bh_cell ex_heap 3 = Ptr 5"
  "bh_cell ex_heap 4 = Ptr 20"
  by (simp_all add: bh_cell_def ex_heap_def ex_row_def ROW_WIDTH_def ROW_SHIFT_def)

lemmas ex_heap_elems = ex_heap_cells [THEN elem_at_cell]

lemma ex_heap_facts:
  "binheap_inv ex_heap" "bh_small ex_heap" "pg_half ex_heap = 256" "bh_next ex_heap = 5"
  "bh_length ex_heap = 65536" "bh_cmp ex_heap = (\<lambda>x y. real x < real y)"
proof -
  show f: "pg_half ex_heap = 256" "bh_next ex_heap = 5" "bh_length ex_heap = 65536"
    "bh_cmp ex_heap = (\<lambda>x y. real x < real y)"
    by (simp_all add: ex_heap_def pg_half_def)
  show "bh_small ex_heap" using f by (simp add: bh_small_def)
  have "rows_ok ex_heap"
    by (auto simp: rows_ok_def ex_heap_def ROW_WIDTH_def ROW_SHIFT_def nth_Cons')
  moreover have "page_ok ex_heap" by (simp add: page_ok_def ex_heap_def mask_eq_exp_minus_1)
  ultimately show "binheap_inv ex_heap"
    unfolding binheap_inv_def f less5
    by (auto simp: ex_heap_cells ex_heap_elems simp del: One_nat_def) (simp_all add: ex_heap_def)
qed

section \<open>Properties\<close>

text \<open>
  The bit operations of \<open>parent\<close> compute the arithmetic layout, for every page size
  that is a power of two, and the parent lies strictly before its child, never before the root.
\<close>

theorem binheap_parent_layout:
  assumes "page_ok bh" "2 \<le> unat u"
  shows "unat (parent bh u) = parent_nat (pg_half bh) (unat u) \<and> 1 \<le> unat (parent bh u) \<and>
         unat (parent bh u) < unat u"
  using parent_unat [OF assms(1)] parent_nat_less [OF page_facts(5) [OF assms(1)] assms(2)] by simp

definition ex_page :: "nat binheap" where
  "ex_page = \<lparr>bh_cmp = (<), bh_update = True, bh_told = (\<lambda>_. 0), bh_array = replicate 16 None,
     bh_length = 0, bh_next = 1, bh_page_size = 512, bh_page_mask = 511, bh_page_shift = 9\<rparr>"

lemma ex_page_ok: "page_ok ex_page"
  by (simp add: page_ok_def ex_page_def mask_eq_exp_minus_1)

theorem binheap_parent_layout_witness:
  "page_ok ex_page \<and> unat (parent ex_page 1025) = parent_nat (pg_half ex_page) 1025 \<and>
   unat (parent ex_page 1025) < 1025"
  using binheap_parent_layout [OF ex_page_ok, of 1025] ex_page_ok by simp

text \<open>
  C19 (functional).  Insertion always succeeds while row numbers fit 32 bits: the heap then holds the old
  elements and the new one, every element has been told its position, and a heap that was in order still
  is, with a smallest element at the root.
\<close>

theorem binheap_insert_correct:
  assumes inv: "binheap_inv bh" and new: "p \<notin> elems bh" and room: "bh_length bh + ROW_WIDTH < 2 ^ 32"
    and cmp: "bh_cmp bh = (\<lambda>x y. key x < (key y :: real))"
    and ord: "heap_ordered (bh_cmp bh) (par bh) (bh_next bh) (elem_at bh)"
  shows "\<exists>bh'. binheap_insert bh p = Some bh' \<and> binheap_inv bh' \<and> elems bh' = insert p (elems bh) \<and>
           heap_ordered (bh_cmp bh') (par bh') (bh_next bh') (elem_at bh') \<and>
           (\<forall>x. x \<notin> insert p (elems bh) \<longrightarrow> bh_told bh' x = bh_told bh x) \<and>
           (\<exists>x. binheap_root bh' = Some (Ptr x) \<and> x \<in> elems bh' \<and> (\<forall>y \<in> elems bh'. key x \<le> key y))"
proof -
  let ?n = "bh_next bh"
  obtain b where b: "binheap_insert bh p = map_option snd (binheap_trickleup b ?n)" "binheap_inv b"
    "bh_cmp b = bh_cmp bh" "par b = par bh" "bh_next b = ?n + 1" "elem_at b = (elem_at bh)(?n := p)"
    "bh_told b = (bh_told bh)(p := ?n)" "elems b = insert p (elems bh)"
    using binheap_insert_place [OF inv new room] by blast
  have pg: "page_ok bh" "1 \<le> ?n" using inv by (auto simp: binheap_inv_def)
  have "ordered_but (bh_cmp b) (par b) (bh_next b) (elem_at b) ?n"
    using ord par_less [OF pg(1)] unfolding ordered_but_def heap_ordered_def b(3-6)
    by (auto simp: less_Suc_eq) (metis less_irrefl less_trans)+
  then obtain w bh' where r: "binheap_trickleup b ?n = Some (w, bh')" "moved b bh'"
    "heap_ordered (bh_cmp b) (par b) (bh_next b) (elem_at bh')"
    using trickleup_moves [OF b(2), of ?n, where ?'k = real] b(3,5) cmp pg(2) by auto
  have f: "same_frame b bh'" "binheap_inv bh'" "elems bh' = elems b"
    "\<forall>x. x \<notin> elems b \<longrightarrow> bh_told bh' x = bh_told b x"
    using r(2) by (auto simp: moved_def)
  note d = same_frameD [OF f(1)]
  have o: "heap_ordered (bh_cmp bh') (par bh') (bh_next bh') (elem_at bh')" using r(3) d by simp
  have u1: "used bh' 1" using d(4) b(5) pg(2) by simp
  have "binheap_root bh' = Some (Ptr (elem_at bh' 1))"
    using A_get_used [OF f(2) u1] by (simp add: binheap_root_def ROOT_IDX_def)
  moreover have "elem_at bh' 1 \<in> elems bh'" using u1 by (simp add: elems_def)
  moreover have "\<forall>y \<in> elems bh'. key (elem_at bh' 1) \<le> key y"
    using root_min [of key bh'] o d(1) b(3) cmp f(2) by (auto simp: elems_def binheap_inv_def)
  ultimately show ?thesis
    using b(1,7,8) r(1) f o by (intro exI [of _ bh']) auto
qed

lemma binheap_delete_ok:
  assumes inv: "binheap_inv bh" and sm: "bh_small bh" and u: "1 \<le> idx" "idx < bh_next bh"
    and g: "unat g + bh_next bh < 2 ^ 32"
  shows "\<exists>bh'. binheap_delete g bh idx = Some bh' \<and> binheap_inv bh' \<and> bh_next bh' = bh_next bh - 1 \<and>
           elems bh' = elems bh - {elem_at bh idx} \<and> bh_told bh' (elem_at bh idx) = 0 \<and>
           (\<forall>x. x \<notin> elems bh \<longrightarrow> bh_told bh' x = bh_told bh x) \<and> pg_half bh' = pg_half bh \<and> bh_length bh' \<le> bh_length bh"
proof (cases "idx = bh_next bh - 1")
  case True
  then show ?thesis using binheap_delete_tail [OF inv, of g] u by auto
next
  case False
  have uu: "used bh idx" using u by simp
  obtain b where b: "binheap_delete g bh idx =
       Option.bind (binheap_trickleup b idx) (\<lambda>(i, b). Option.bind (binheap_trickledown b i g) (\<lambda>b.
         if bh_next b + 2 * ROW_WIDTH \<le> bh_length b
         then Some (b\<lparr>bh_array := (bh_array b)[(bh_length b - 1) div ROW_WIDTH := None],
                      bh_length := bh_length b - ROW_WIDTH\<rparr>)
         else Some b))"
    and inv0: "binheap_inv b" and e0: "bh_next b = bh_next bh - 1" "elems b = elems bh - {elem_at bh idx}"
    "pg_half b = pg_half bh" "bh_told b (elem_at bh idx) = 0" "bh_length b = bh_length bh" "\<forall>x. x \<notin> elems bh \<longrightarrow> bh_told b x = bh_told bh x"
    using binheap_delete_place [OF inv uu False, of g] by blast
  have "used b idx" using u False e0(1) by simp
  then obtain w b1 where b1: "binheap_trickleup b idx = Some (w, b1)" "moved b b1" "used b w"
    using trickleup_moves [OF inv0, of idx, where ?'k = real] by blast
  have f: "same_frame b b1" "binheap_inv b1" using b1(2) by (auto simp: moved_def)
  note d = same_frameD [OF f(1)]
  have "(bh_next b1 + 1) * (2 * pg_half b1) \<le> (bh_next bh + 1) * (2 * pg_half bh)"
    unfolding d(4,8) e0(1,3) by (intro mult_le_mono1) simp
  then have sm1: "bh_small b1" using sm unfolding bh_small_def by linarith
  have u1: "used b1 w" using b1(3) d(4) by simp
  have "unat g + (bh_next b1 - min w (unat g)) \<le> unat g + bh_next bh" using d(4) e0(1) by simp
  then obtain b2 where b2: "binheap_trickledown b1 w g = Some b2" "moved b1 b2"
    using trickledown_moves [OF f(2) sm1 u1, of g] g by (meson le_less_trans)
  have "moved b b2" using b1(2) b2(2) by (rule moved_trans)
  then have m: "binheap_inv b2" "elems b2 = elems b" "bh_next b2 = bh_next bh - 1" "bh_told b2 (elem_at bh idx) = 0"
    "pg_half b2 = pg_half bh" "bh_length b2 = bh_length bh" "\<forall>x. x \<notin> elems bh \<longrightarrow> bh_told b2 x = bh_told bh x"
    using e0 by (auto simp: moved_def same_frameD)
  show ?thesis
  proof (cases "bh_next b2 + 2 * ROW_WIDTH \<le> bh_length b2")
    case True
    then show ?thesis using b b1(1) b2(1) m e0(2) binheap_free_row [OF m(1) True] by (simp add: Let_def pg_half_def)
  next
    case False
    then show ?thesis using b b1(1) b2(1) m e0(2) by simp
  qed
qed


lemma ex_range5: "{1..<5 :: nat} = {1, 2, 3, 4}"
  by auto

theorem binheap_insert_correct_witness:
  "binheap_inv ex_heap \<and> (7 :: nat) \<notin> elems ex_heap \<and>
   (\<exists>bh'. binheap_insert ex_heap 7 = Some bh' \<and> binheap_inv bh' \<and> elems bh' = {1, 10, 5, 20, 7})"
proof -
  have el: "elems ex_heap = {1, 10, 5, 20}"
    using ex_heap_facts(4) by (simp add: elems_def ex_heap_elems ex_range5 insert_commute del: One_nat_def)
  have pr: "par ex_heap 2 = 1" "par ex_heap 3 = 1" "par ex_heap 4 = 2"
    by (simp_all add: par_def parent_nat_def ex_heap_facts(3))
  have r: "2 \<le> i \<and> i < (5 :: nat) \<longleftrightarrow> i = 2 \<or> i = 3 \<or> i = 4" for i by auto
  have "heap_ordered (bh_cmp ex_heap) (par ex_heap) (bh_next ex_heap) (elem_at ex_heap)"
    unfolding heap_ordered_def ex_heap_facts imp_conjL [symmetric] r
    by (auto simp: pr ex_heap_elems simp del: One_nat_def)
  then show ?thesis
    using binheap_insert_correct [OF ex_heap_facts(1), of 7 real] el ex_heap_facts
    by (auto simp: ROW_WIDTH_def ROW_SHIFT_def insert_commute)
qed


lemma child_low:
  assumes "page_ok bh" "4 \<le> pg_half bh" "u = 1 \<or> u = 2"
  shows "child bh u b0 = (u + u, b0 + 1)"
proof -
  have p: "2 ^ bh_page_shift bh = 2 * pg_half bh" by (rule pg_half_pow [OF assms(1)])
  have m: "bh_page_mask bh = mask (bh_page_shift bh)" using assms(1) by (simp add: page_ok_def)
  have "unat (u AND bh_page_mask bh) = unat u"
    using assms(2,3) by (auto simp: m u32_and_mask p)
  then have a: "u AND bh_page_mask bh = u" by (simp only: word_unat_eq_iff)
  have "unat u \<le> unat (bh_page_mask bh)" using page_facts(2) [OF assms(1)] assms(2,3) by auto
  then have b: "\<not> u > bh_page_mask bh" by (simp add: word_less_nat_alt not_less)
  have sh: "3 \<le> bh_page_shift bh"
  proof (rule ccontr)
    assume "\<not> 3 \<le> bh_page_shift bh"
    then have "(2 :: nat) ^ bh_page_shift bh \<le> 2 ^ 2" by (intro power_increasing) auto
    then show False using p assms(2) by simp
  qed
  have "u AND drop_bit 1 (bh_page_size bh) = 0"
    using assms(1,3) sh
    by (intro bit_word_eqI) (auto simp: page_ok_def bit_simps)
  then show ?thesis using a b by (simp add: child_def)
qed

text \<open>
  C23 (safety).  The uninitialised \<open>v2\<close> makes deletion lose the order: in a heap of four elements whose
  third is smaller than its second, deleting the root puts the second one at the root for every value
  of \<open>v2\<close> from 3 up, although the smaller third one is still in the heap.
\<close>

theorem binheap_delete_loses_minimum:
  assumes inv: "binheap_inv bh" and n: "bh_next bh = 5" and pg: "4 \<le> pg_half bh"
    and cmp: "bh_cmp bh = (\<lambda>x y. key x < (key y :: real))"
    and k: "key (elem_at bh 3) < key (elem_at bh 2)" "key (elem_at bh 2) \<le> key (elem_at bh 4)"
    and g: "3 \<le> unat g" "unat g < 2 ^ 32 - 2"
  shows "\<exists>bh'. binheap_delete g bh 1 = Some bh' \<and> binheap_root bh' = Some (Ptr (elem_at bh 2)) \<and>
           elem_at bh 3 \<in> elems bh' \<and> key (elem_at bh 3) < key (elem_at bh 2)"
proof -
  have u: "used bh 1" "1 \<noteq> bh_next bh - 1" using n by simp_all
  obtain b where b: "binheap_delete g bh 1 =
       Option.bind (binheap_trickleup b 1) (\<lambda>(i, b). Option.bind (binheap_trickledown b i g) (\<lambda>b.
         if bh_next b + 2 * ROW_WIDTH \<le> bh_length b
         then Some (b\<lparr>bh_array := (bh_array b)[(bh_length b - 1) div ROW_WIDTH := None],
                      bh_length := bh_length b - ROW_WIDTH\<rparr>)
         else Some b))"
    "binheap_inv b" "bh_next b = 4" "pg_half b = pg_half bh" "bh_cmp b = bh_cmp bh"
    "elem_at b 1 = elem_at bh 4" "elem_at b 2 = elem_at bh 2" "elem_at b 3 = elem_at bh 3"
    using binheap_delete_place [OF inv u, of g] n by auto
  have pb: "page_ok b" "4 \<le> pg_half b" using b(2,4) pg by (auto simp: binheap_inv_def)
  have g1: "unat (g + 1) = unat g + 1" "unat (g + 1 + 1) = unat g + 2"
    using g by (simp_all add: unat_word_ariths)
  have ub: "used b 1" "used b 2" "used b 3" using b(3) by simp_all
  obtain b1 where b1: "binhead_swap b 1 2 = Some b1" "moved b b1"
    "elem_at b1 = (elem_at b)(1 := elem_at b 2, 2 := elem_at b 1)"
    using binhead_swap_moves [OF b(2) ub(1,2)] by blast
  have f: "same_frame b b1" "binheap_inv b1" using b1(2) by (auto simp: moved_def)
  note d = same_frameD [OF f(1)]
  have "binheap_trickledown b1 2 (g + 1) = Some b1"
    using child_low [OF pb, of 2] d(4,10) b(3)
    by (subst binheap_trickledown.simps) (simp add: word_of_nat_eq_iff)
  then have td: "binheap_trickledown b 1 g = Some b1"
    using child_low [OF pb, of 1 g] b(3,5-8) g g1 cmp k A_ptr_used [OF b(2) ub(1)] A_ptr_used [OF b(2) ub(2)] b1(1)
    by (subst binheap_trickledown.simps) (simp add: Let_def)
  have tu: "binheap_trickleup b 1 = Some (1, b)"
    by (simp add: binheap_trickleup.simps ROOT_IDX_def)
  have e: "elem_at b1 1 = elem_at bh 2" "elem_at b1 3 = elem_at bh 3" using b1(3) b by simp_all
  have nb: "bh_next b1 = 4" using d(4) b(3) by simp
  have root: "binheap_root c = Some (Ptr (elem_at bh 2)) \<and> elem_at bh 3 \<in> elems c"
    if "binheap_inv c" "bh_next c = 4" "elem_at c 1 = elem_at bh 2" "elems c = elems b1" for c
  proof -
    have "elem_at b1 3 \<in> elems b1" unfolding elems_def using nb by (intro imageI) simp
    then show ?thesis
      using that A_get_used [OF that(1), of 1] e by (simp add: binheap_root_def ROOT_IDX_def)
  qed
  show ?thesis
  proof (cases "bh_next b1 + 2 * ROW_WIDTH \<le> bh_length b1")
    case True
    let ?c = "b1\<lparr>bh_array := (bh_array b1)[(bh_length b1 - 1) div ROW_WIDTH := None],
                 bh_length := bh_length b1 - ROW_WIDTH\<rparr>"
    have c: "binheap_inv ?c" "elems ?c = elems b1" using binheap_free_row [OF f(2) True] by (simp_all add: Let_def)
    have r: "1 div ROW_WIDTH \<noteq> (bh_length b1 - 1) div ROW_WIDTH"
      using True by (simp add: ROW_WIDTH_def ROW_SHIFT_def)
    have "elem_at ?c 1 = elem_at b1 1"
      using r by (simp add: elem_at_def A_ptr_def bh_cell_def)
    then show ?thesis using b(1) tu td True root [OF c(1)] c(2) nb e k(1) by simp
  next
    case False
    then show ?thesis using b(1) tu td root [OF f(2) nb] e k(1) by simp
  qed
qed

theorem binheap_delete_loses_minimum_witness:
  "\<exists>bh'. binheap_delete 100 ex_heap 1 = Some bh' \<and> binheap_root bh' = Some (Ptr 10) \<and> 5 \<in> elems bh'"
  using binheap_delete_loses_minimum [OF ex_heap_facts(1,4), of real 100] ex_heap_facts ex_heap_elems by auto

text \<open>
  With pages of 512 pointers the first child of the last element of the bottom row below
  position \<open>2 ^ 24\<close> overflows to position 0, so heaps beyond 16,777,215 elements are compared against the
  unused cell 0.
\<close>

theorem binheap_child_overflow:
  "child ex_heap 0xFFFFFF b0 = (0, 1)"
  by (simp add: child_def ex_heap_def)

end
