(* ===== verification/Http.thy ===== *)
theory Http
  imports CLib Workspace
begin

text \<open>
  HTTP headers: \<open>bin/varnishd/cache_http.c\<close>, the character table \<open>lib/libvarnish/vct.c\<close> and the
  header list \<open>include/http_headers.h\<close>.

  A header field is a text at an address (\<open>txt\<close>: begin and end pointer); the byte after a text is NUL.
  A null pointer is None.  Logging is left out; \<open>VSL_stats->losthdr\<close> is not counted.
\<close>

section \<open>Character classes\<close>

datatype vct = VCT_SP | VCT_CRLF | VCT_CTL | VCT_ALPHA | VCT_SEPARATOR | VCT_DIGIT | VCT_HEX
  | VCT_XMLNAMESTART | VCT_XMLNAME

definition vct_typtab :: "nat \<Rightarrow> vct list" where
  "vct_typtab n = (
     if n = 0x09 then [VCT_CTL, VCT_SP, VCT_SEPARATOR]
     else if n = 0x0a \<or> n = 0x0d then [VCT_CTL, VCT_CRLF]
     else if n < 0x20 then [VCT_CTL]
     else if n = 0x20 then [VCT_SP, VCT_SEPARATOR]
     else if n \<in> {0x22, 0x28, 0x29, 0x2c, 0x2f} then [VCT_SEPARATOR]
     else if n = 0x2d \<or> n = 0x2e then [VCT_XMLNAME]
     else if 0x30 \<le> n \<and> n \<le> 0x39 then [VCT_DIGIT, VCT_HEX, VCT_XMLNAME]
     else if n = 0x3a then [VCT_SEPARATOR, VCT_XMLNAMESTART]
     else if 0x3b \<le> n \<and> n \<le> 0x40 then [VCT_SEPARATOR]
     else if 0x41 \<le> n \<and> n \<le> 0x46 then [VCT_ALPHA, VCT_HEX, VCT_XMLNAMESTART]
     else if 0x47 \<le> n \<and> n \<le> 0x5a then [VCT_ALPHA, VCT_XMLNAMESTART]
     else if 0x5b \<le> n \<and> n \<le> 0x5d then [VCT_SEPARATOR]
     else if n = 0x5f then [VCT_XMLNAMESTART]
     else if 0x61 \<le> n \<and> n \<le> 0x66 then [VCT_ALPHA, VCT_HEX, VCT_XMLNAMESTART]
     else if 0x67 \<le> n \<and> n \<le> 0x7a then [VCT_ALPHA, VCT_XMLNAMESTART]
     else if n = 0x7b \<or> n = 0x7d then [VCT_SEPARATOR]
     else if n = 0x7f then [VCT_CTL]
     else if n = 0xb7 then [VCT_XMLNAME]
     else if 0xc0 \<le> n \<and> n \<noteq> 0xd7 \<and> n \<noteq> 0xf7 then [VCT_XMLNAMESTART]
     else [])"

definition vct_is :: "char \<Rightarrow> vct list \<Rightarrow> bool" where
  "vct_is c fs \<longleftrightarrow> list_ex (\<lambda>f. f \<in> set (vct_typtab (of_char c))) fs"

definition vct_issp :: "char \<Rightarrow> bool" where "vct_issp c = vct_is c [VCT_SP]"
definition vct_iscrlf :: "char \<Rightarrow> bool" where "vct_iscrlf c = vct_is c [VCT_CRLF]"
definition vct_islws :: "char \<Rightarrow> bool" where "vct_islws c = vct_is c [VCT_CRLF, VCT_SP]"
definition vct_isctl :: "char \<Rightarrow> bool" where "vct_isctl c = vct_is c [VCT_CTL]"
definition vct_issepctl :: "char \<Rightarrow> bool" where "vct_issepctl c = vct_is c [VCT_SEPARATOR, VCT_CTL]"

text \<open>\<open>vct_skipcrlf\<close>: two bytes for CR LF, else one.\<close>

definition vct_skipcrlf :: "string \<Rightarrow> nat" where
  "vct_skipcrlf s = (if take 2 s = [CHR 0x0D, CHR 0x0A] then 2 else 1)"

section \<open>State\<close>

type_synonym htxt = "nat \<times> string"

definition Tlen :: "htxt \<Rightarrow> nat" where
  "Tlen t = length (snd t)"

datatype httpwhence = HTTP_Rx | HTTP_Tx | HTTP_Obj

definition HTTP_HDR_REQ :: nat where "HTTP_HDR_REQ = 0"
definition HTTP_HDR_URL :: nat where "HTTP_HDR_URL = 1"
definition HTTP_HDR_PROTO :: nat where "HTTP_HDR_PROTO = 2"
definition HTTP_HDR_STATUS :: nat where "HTTP_HDR_STATUS = 3"
definition HTTP_HDR_RESPONSE :: nat where "HTTP_HDR_RESPONSE = 4"
definition HTTP_HDR_FIRST :: nat where "HTTP_HDR_FIRST = 5"

text \<open>
  \<open>hp_filter\<close> is the bit \<open>HDF_FILTER\<close> of \<open>hdf\<close>; \<open>hp_protover\<close> is the protocol version in
  tenths (9, 10 or 11).  \<open>hp_hd\<close> and \<open>hp_filter\<close> have \<open>hp_shd\<close> entries.
\<close>

record http =
  hp_conds :: bool
  hp_logtag :: httpwhence
  hp_status :: int
  hp_protover :: nat
  hp_shd :: nat
  hp_hd :: "htxt option list"
  hp_filter :: "bool list"
  hp_nhd :: nat

text \<open>The table of known headers: name and the filter operations that drop it.\<close>

datatype httph = HTTPH_R_PASS | HTTPH_A_PASS | HTTPH_R_PIPE | HTTPH_R_FETCH | HTTPH_A_INS | HTTPH_A_DELIVER

definition http_headers :: "(string \<times> httph list) list" where
  "http_headers = [
     (''Keep-Alive'', [HTTPH_R_PASS, HTTPH_A_PASS, HTTPH_R_FETCH]),
     (''Accept'', []), (''Accept-Charset'', []), (''Accept-Encoding'', []), (''Accept-Language'', []),
     (''Accept-Ranges'', [HTTPH_R_PASS, HTTPH_A_PASS, HTTPH_R_FETCH, HTTPH_A_INS]),
     (''Age'', [HTTPH_A_INS]), (''Allow'', []), (''Authorization'', []),
     (''Cache-Control'', [HTTPH_R_PASS, HTTPH_R_FETCH]),
     (''Connection'', [HTTPH_R_PASS, HTTPH_A_PASS, HTTPH_R_FETCH, HTTPH_A_INS]),
     (''Content-Encoding'', []), (''Content-Langugae'', []),
     (''Content-Length'', [HTTPH_R_FETCH, HTTPH_A_INS]),
     (''Content-Location'', []), (''Content-MD5'', []),
     (''Content-Range'', [HTTPH_R_PASS, HTTPH_A_PASS, HTTPH_R_FETCH, HTTPH_A_INS]),
     (''Content-Type'', []), (''Date'', [HTTPH_A_DELIVER]), (''ETag'', []), (''Expect'', []),
     (''Expires'', []), (''From'', []), (''Host'', []),
     (''If-Match'', [HTTPH_R_FETCH]), (''If-Modified-Since'', [HTTPH_R_FETCH]),
     (''If-None-Match'', [HTTPH_R_FETCH]), (''If-Range'', [HTTPH_R_FETCH]),
     (''If-Unmodified-Since'', [HTTPH_R_FETCH]),
     (''Last-Modified'', []), (''Location'', []), (''Max-Forwards'', []), (''Pragma'', []),
     (''Proxy-Authenticate'', [HTTPH_R_FETCH, HTTPH_A_INS]),
     (''Proxy-Authorization'', [HTTPH_R_FETCH, HTTPH_A_INS]),
     (''Range'', [HTTPH_R_FETCH, HTTPH_A_INS]),
     (''Referer'', []), (''Retry-After'', []), (''Server'', []),
     (''TE'', [HTTPH_R_PASS, HTTPH_A_PASS, HTTPH_R_FETCH, HTTPH_A_INS]),
     (''Trailer'', [HTTPH_R_PASS, HTTPH_A_PASS, HTTPH_R_FETCH, HTTPH_A_INS]),
     (''Transfer-Encoding'', [HTTPH_R_PASS, HTTPH_A_PASS, HTTPH_R_FETCH, HTTPH_A_INS]),
     (''Upgrade'', [HTTPH_R_PASS, HTTPH_A_PASS, HTTPH_R_FETCH, HTTPH_A_INS]),
     (''User-Agent'', []), (''Vary'', []), (''Via'', []), (''Warning'', []), (''WWW-Authenticate'', [])]"

text \<open>
  A header-matching string as the code has it: a length byte, the name and a colon, which
  \<open>HTTP_Init\<close> builds for the table (\<open>H_Vary\<close> and so on).
\<close>

definition H_of :: "string \<Rightarrow> string" where
  "H_of n = char_of (length n + 1) # n @ '':''"

section \<open>Setting up\<close>

definition HTTP_create :: "nat \<Rightarrow> http" where
  "HTTP_create nhttp = \<lparr>hp_conds = False, hp_logtag = HTTP_Rx, hp_status = 0, hp_protover = 0,
     hp_shd = nhttp, hp_hd = replicate nhttp None, hp_filter = replicate nhttp False, hp_nhd = 0\<rparr>"

definition http_Setup :: "http \<Rightarrow> http" where
  "http_Setup hp = \<lparr>hp_conds = False, hp_logtag = HTTP_Rx, hp_status = 0, hp_protover = 0,
     hp_shd = hp_shd hp, hp_hd = replicate (hp_shd hp) None, hp_filter = replicate (hp_shd hp) False,
     hp_nhd = HTTP_HDR_FIRST\<rparr>"

text \<open>The response texts of \<open>http_response.h\<close>.\<close>

definition http_msg :: "(nat \<times> string) list" where
  "http_msg = [
     (101, ''Switching Protocols''), (200, ''OK''), (201, ''Created''), (202, ''Accepted''),
     (203, ''Non-Authoritative Information''), (204, ''No Content''), (205, ''Reset Content''),
     (206, ''Partial Content''), (300, ''Multiple Choices''), (301, ''Moved Permanently''),
     (302, ''Found''), (303, ''See Other''), (304, ''Not Modified''), (305, ''Use Proxy''),
     (306, ''(Unused)''), (307, ''Temporary Redirect''), (400, ''Bad Request''), (401, ''Unauthorized''),
     (402, ''Payment Required''), (403, ''Forbidden''), (404, ''Not Found''), (405, ''Method Not Allowed''),
     (406, ''Not Acceptable''), (407, ''Proxy Authentication Required''), (408, ''Request Timeout''),
     (409, ''Conflict''), (410, ''Gone''), (411, ''Length Required''), (412, ''Precondition Failed''),
     (413, ''Request Entity Too Large''), (414, ''Request-URI Too Long''),
     (415, ''Unsupported Media Type''), (416, ''Requested Range Not Satisfiable''),
     (417, ''Expectation Failed''), (500, ''Internal Server Error''), (501, ''Not Implemented''),
     (502, ''Bad Gateway''), (503, ''Service Unavailable''), (504, ''Gateway Timeout''),
     (505, ''HTTP Version Not Supported'')]"

fun status_scan :: "(nat \<times> string) list \<Rightarrow> nat \<Rightarrow> string" where
  "status_scan [] status = ''Unknown Error''"
| "status_scan ((n, t) # ms) status =
     (if n > status then ''Unknown Error'' else if n = status then t else status_scan ms status)"

definition http_StatusMessage :: "nat \<Rightarrow> string option" where
  "http_StatusMessage status = do {
     chk (100 \<le> status \<and> status \<le> 999);
     Some (status_scan http_msg status) }"

section \<open>Finding headers\<close>

text \<open>\<open>http_IsHdr\<close>: does the text start with the header name and colon of a matching string?\<close>

definition http_IsHdr :: "htxt \<Rightarrow> string \<Rightarrow> bool option" where
  "http_IsHdr hh hdr = (case hdr of
     [] \<Rightarrow> None
   | c # name \<Rightarrow> do {
       let l = (of_char c :: nat);
       chk (l < 128);
       chk (l = length (cstr name));
       chk (0 < l \<and> name ! (l - 1) = CHR '':'');
       Some (strncaseeq l name (snd hh)) })"

fun findhdr_from :: "htxt option list \<Rightarrow> nat \<Rightarrow> nat \<Rightarrow> string \<Rightarrow> nat" where
  "findhdr_from [] u l hdr = 0"
| "findhdr_from (t # ts) u l hdr =
     (case t of
        None \<Rightarrow> findhdr_from ts (u + 1) l hdr
      | Some (_, s) \<Rightarrow>
          if length s < l + 1 then findhdr_from ts (u + 1) l hdr
          else if s ! l \<noteq> CHR '':'' then findhdr_from ts (u + 1) l hdr
          else if \<not> strncaseeq l hdr s then findhdr_from ts (u + 1) l hdr
          else u)"

definition http_findhdr :: "http \<Rightarrow> nat \<Rightarrow> string \<Rightarrow> nat" where
  "http_findhdr hp l hdr =
     findhdr_from (drop HTTP_HDR_FIRST (take (hp_nhd hp) (hp_hd hp))) HTTP_HDR_FIRST l hdr"

text \<open>
  The value of a header as a C string, None when the header is not there.  The outer option is a failed
  assertion, or a length byte above 127, which a signed \<open>char\<close> makes negative.
\<close>

definition http_GetHdr :: "http \<Rightarrow> string \<Rightarrow> string option option" where
  "http_GetHdr hp hdr = (case hdr of
     [] \<Rightarrow> None
   | c # name \<Rightarrow> do {
       let l = (of_char c :: nat);
       chk (l < 128);
       chk (0 < l \<and> l \<le> length name \<and> name ! (l - 1) = CHR '':'');
       let u = http_findhdr hp (l - 1) name;
       if u = 0 then Some None
       else do {
         t \<leftarrow> hp_hd hp ! u;
         Some (Some (cstr (dropWhile vct_issp (drop l (snd t))))) } })"

text \<open>
  The loop of \<open>http_GetHdrField\<close> over the value: None when the field is not there, else what the
  pointer is set to (None for a null pointer).
\<close>

definition field_value :: "string \<Rightarrow> string option" where
  "field_value h = (let h = dropWhile vct_issp h in
     if h \<noteq> [] \<and> hd h = CHR ''='' then Some (dropWhile vct_issp (tl h)) else None)"

function field_scan :: "string \<Rightarrow> string \<Rightarrow> string option option" where
  "field_scan [] field = None"
| "field_scan (c # h) field = (
     if length (c # h) < length field then None
     else if vct_issepctl c then field_scan h field
     else if (length (c # h) = length field \<or> vct_issepctl ((c # h) ! length field)) \<and>
             take (length field) (c # h) = field
     then Some (field_value (drop (length field) (c # h)))
     else field_scan (dropWhile (\<lambda>x. \<not> vct_issepctl x) (c # h)) field)"
  by pat_completeness auto
termination
  by (relation "measure (\<lambda>(h, f). length h)") (auto simp: le_imp_less_Suc length_dropWhile_le)

definition http_GetHdrField :: "http \<Rightarrow> string \<Rightarrow> string \<Rightarrow> string option option option" where
  "http_GetHdrField hp hdr field = do {
     h \<leftarrow> http_GetHdr hp hdr;
     Some (case h of None \<Rightarrow> None | Some v \<Rightarrow> field_scan v field) }"

text \<open>
  The loop of \<open>http_DoConnection\<close>: every token names a header to filter; \<open>close\<close> asks for the
  connection to be closed.
\<close>

definition conn_token :: "char \<Rightarrow> bool" where
  "conn_token c \<longleftrightarrow> \<not> (c = CHR '','' \<or> vct_issp c)"

function conn_scan :: "http \<Rightarrow> string \<Rightarrow> bool \<Rightarrow> bool \<times> http" where
  "conn_scan hp [] ret = (ret, hp)"
| "conn_scan hp (c # p) ret = (
     if \<not> conn_token c then conn_scan hp p ret
     else let tok = c # takeWhile conn_token p;
              q = dropWhile conn_token p;
              ret = (ret \<or> length tok = 5 \<and> strncaseeq 5 (c # p) ''close'');
              u = http_findhdr hp (length tok) (c # p);
              hp = (if u \<noteq> 0 then hp\<lparr>hp_filter := (hp_filter hp)[u := True]\<rparr> else hp)
          in conn_scan hp (tl q) ret)"
  by pat_completeness auto
termination
  by (relation "measure (\<lambda>(hp, p, r). length p)")
    (auto simp: le_imp_less_Suc intro!: le_imp_less_Suc le_trans [OF diff_le_self length_dropWhile_le])

definition http_DoConnection :: "http \<Rightarrow> (string option \<times> http) option" where
  "http_DoConnection hp = do {
     p \<leftarrow> http_GetHdr hp (H_of ''Connection'');
     Some (case p of
             None \<Rightarrow> (if hp_protover hp < 11 then Some ''not HTTP/1.1'' else None, hp)
           | Some v \<Rightarrow> (let (cl, hp) = conn_scan hp v False
                        in (if cl then Some ''Connection: close'' else None, hp))) }"

definition http_HdrIs :: "http \<Rightarrow> string \<Rightarrow> string \<Rightarrow> bool option" where
  "http_HdrIs hp hdr val = do {
     p \<leftarrow> http_GetHdr hp hdr;
     Some (case p of None \<Rightarrow> False | Some v \<Rightarrow> strcaseeq v val) }"

definition http_GetStatus :: "http \<Rightarrow> int option" where
  "http_GetStatus hp = do { _ \<leftarrow> hp_hd hp ! HTTP_HDR_STATUS; Some (hp_status hp) }"

definition http_GetReq :: "http \<Rightarrow> string option" where
  "http_GetReq hp = map_option (\<lambda>t. cstr (snd t)) (hp_hd hp ! HTTP_HDR_REQ)"


section \<open>Taking a message apart\<close>

text \<open>
  One header of \<open>http_dissect_hdrs\<close>, from the start of the buffer \<open>b\<close>: \<open>r\<close> is where the next
  header starts, \<open>q\<close> where this one ends.  Continuation lines are joined by writing spaces over the
  line break.
\<close>

definition lws_blank :: "string \<Rightarrow> nat \<Rightarrow> string" where
  "lws_blank b q = (let n = length (takeWhile vct_islws (drop q b))
                    in take q b @ replicate n (CHR '' '') @ drop (q + n) b)"

lemma length_lws_blank [simp]: "length (lws_blank b q) = length b"
proof -
  have "length (takeWhile vct_islws (drop q b)) \<le> length (drop q b)" by (rule length_takeWhile_le)
  then show ?thesis by (cases "q \<le> length b") (auto simp: lws_blank_def Let_def)
qed

function hdr_end :: "string \<Rightarrow> nat \<Rightarrow> nat \<Rightarrow> string \<times> nat \<times> nat" where
  "hdr_end b r q = (
     if r \<ge> length b then (b, r, q)
     else if \<not> vct_iscrlf (b ! r) then hdr_end b (r + 1) q
     else let q = r; r = r + vct_skipcrlf (drop r b) in
       if r \<ge> length b then (b, r, q)
       else if \<not> vct_issp (b ! r) then (b, r, q)
       else hdr_end (lws_blank b q) r (q + length (takeWhile vct_islws (drop q b))))"
  by pat_completeness auto
termination
  by (relation "measure (\<lambda>(b, r, q). length b - r)") (auto simp: vct_skipcrlf_def)

declare hdr_end.simps [simp del]

lemma hdr_end_cases [consumes 1, case_names stop step line join]:
  assumes "hdr_end b r q = (b', r', q')"
  obtains "length b \<le> r" "b' = b" "r' = r" "q' = q"
  | "r < length b" "\<not> vct_iscrlf (b ! r)" "hdr_end b (r + 1) q = (b', r', q')"
  | "r < length b" "vct_iscrlf (b ! r)" "b' = b" "r' = r + vct_skipcrlf (drop r b)" "q' = r"
    "r' \<ge> length b \<or> \<not> vct_issp (b ! r')"
  | n where "r < length b" "vct_iscrlf (b ! r)" "n = r + vct_skipcrlf (drop r b)" "n < length b" "vct_issp (b ! n)"
    "hdr_end (lws_blank b r) n (r + length (takeWhile vct_islws (drop r b))) = (b', r', q')"
proof -
  let ?n = "r + vct_skipcrlf (drop r b)"
  have e: "hdr_end b r q = (
     if r \<ge> length b then (b, r, q)
     else if \<not> vct_iscrlf (b ! r) then hdr_end b (r + 1) q
     else if ?n \<ge> length b then (b, ?n, r)
     else if \<not> vct_issp (b ! ?n) then (b, ?n, r)
     else hdr_end (lws_blank b r) ?n (r + length (takeWhile vct_islws (drop r b))))"
    by (subst hdr_end.simps) (simp only: Let_def)
  consider "length b \<le> r" | "r < length b" "\<not> vct_iscrlf (b ! r)"
    | "r < length b" "vct_iscrlf (b ! r)" "?n \<ge> length b \<or> \<not> vct_issp (b ! ?n)"
    | "r < length b" "vct_iscrlf (b ! r)" "?n < length b" "vct_issp (b ! ?n)"
    by linarith
  then show ?thesis
  proof cases
    case 1
    then have "hdr_end b r q = (b, r, q)" unfolding e by (simp only: if_True)
    then show ?thesis using assms 1 that(1) by (metis prod.inject)
  next
    case 2
    then have "hdr_end b r q = hdr_end b (r + 1) q" unfolding e by (simp only: not_le [symmetric] if_False if_True not_False_eq_True)
    then show ?thesis using assms 2 that(2) by metis
  next
    case 3
    then have "hdr_end b r q = (b, ?n, r)" unfolding e by (auto simp only: not_le [symmetric] if_False if_True not_True_eq_False not_False_eq_True if_cancel)
    then show ?thesis using assms 3 that(3) by (metis prod.inject)
  next
    case 4
    then have "hdr_end b r q = hdr_end (lws_blank b r) ?n (r + length (takeWhile vct_islws (drop r b)))"
      unfolding e by (simp only: not_le [symmetric] if_False not_True_eq_False if_True)
    then show ?thesis using assms 4 that(4) by metis
  qed
qed

lemma hdr_end_length: "hdr_end b r q = (b', r', q') \<Longrightarrow> length b' = length b"
proof (induction b r q rule: hdr_end.induct)
  case (1 b r q)
  show ?case using 1(3) by (cases rule: hdr_end_cases) (use 1(1,2) in auto)
qed

lemma skipcrlf_pos: "0 < vct_skipcrlf s"
  by (simp add: vct_skipcrlf_def)

lemma hdr_end_mono: "hdr_end b r q = (b', r', q') \<Longrightarrow> r \<le> r' \<and> (r < length b \<longrightarrow> r < r')"
proof (induction b r q rule: hdr_end.induct)
  case (1 b r q)
  show ?case
    using 1(3)
  proof (cases rule: hdr_end_cases)
    case step
    then show ?thesis using 1(1) by auto
  next
    case line
    then show ?thesis using skipcrlf_pos [of "drop r b"] by simp
  next
    case (join n)
    then show ?thesis using 1(2) [of r n] skipcrlf_pos [of "drop r b"] by simp
  qed simp
qed

definition is_cond :: "string \<Rightarrow> bool" where
  "is_cond b \<longleftrightarrow> length b \<ge> 3 \<and> b ! 0 \<in> {CHR ''i'', CHR ''I''} \<and> b ! 1 \<in> {CHR ''f'', CHR ''F''} \<and> b ! 2 = CHR ''-''"

definition trim_sp :: "string \<Rightarrow> string" where
  "trim_sp s = rev (dropWhile vct_issp (rev s))"

function dissect_loop :: "http \<Rightarrow> nat \<Rightarrow> string \<Rightarrow> int \<times> http" where
  "dissect_loop hp a b = (
     if b = [] then (0, hp)
     else let (b', r, q) = hdr_end b 0 0 in
       if q = 0 then (0, hp)
       else let hp = (if is_cond b' then hp\<lparr>hp_conds := True\<rparr> else hp) in
         if hp_nhd hp < hp_shd hp
         then dissect_loop (hp\<lparr>hp_hd := (hp_hd hp)[hp_nhd hp := Some (a, trim_sp (take q b'))],
                              hp_filter := (hp_filter hp)[hp_nhd hp := False],
                              hp_nhd := hp_nhd hp + 1\<rparr>) (a + r) (drop r b')
         else (400, hp))"
  by pat_completeness auto
termination
proof (relation "measure (\<lambda>(hp, a, b). length b)", goal_cases)
  case 1
  then show ?case by simp
next
  case (2 hp a b x b' y r q hpa)
  then have h: "hdr_end b 0 0 = (b', r, q)" by auto
  show ?case using hdr_end_length [OF h] hdr_end_mono [OF h] 2(1) by simp
qed

declare dissect_loop.simps [simp del]

definition http_dissect_hdrs :: "http \<Rightarrow> nat \<Rightarrow> string \<Rightarrow> int \<times> http" where
  "http_dissect_hdrs hp a p = (
     let (a, p) = (if p \<noteq> [] \<and> hd p = CHR 0x0D then (a + 1, tl p) else (a, p))
     in dissect_loop (hp\<lparr>hp_nhd := HTTP_HDR_FIRST, hp_conds := False\<rparr>) a p)"

text \<open>
  The loops of \<open>http_splitline\<close>: up to a stop character, or None (the function returns -1) at a
  control character; the NUL after the buffer is one.
\<close>

fun upto_stop :: "(char \<Rightarrow> bool) \<Rightarrow> string \<Rightarrow> (string \<times> string) option" where
  "upto_stop stop [] = None"
| "upto_stop stop (c # cs) =
     (if stop c then Some ([], c # cs)
      else if vct_isctl c then None
      else map_option (\<lambda>(x, y). (c # x, y)) (upto_stop stop cs))"

fun skip_sp :: "string \<Rightarrow> string option" where
  "skip_sp [] = Some []"
| "skip_sp (c # cs) = (if vct_issp c then (if vct_isctl c then None else skip_sp cs) else Some (c # cs))"

definition set_hd :: "http \<Rightarrow> nat \<Rightarrow> htxt option \<Rightarrow> http" where
  "set_hd hp n t = hp\<lparr>hp_hd := (hp_hd hp)[n := t]\<rparr>"

definition http_splitline :: "http \<Rightarrow> htxt \<Rightarrow> nat \<Rightarrow> nat \<Rightarrow> nat \<Rightarrow> int \<times> http" where
  "http_splitline hp rxbuf h1 h2 h3 = (
     let (a, buf) = rxbuf;
         pos = (\<lambda>p. a + (length buf - length p));
         p = dropWhile vct_islws buf
     in case upto_stop vct_issp p of
          None \<Rightarrow> (- 1, hp)
        | Some (f1, p1) \<Rightarrow> let hp = set_hd hp h1 (Some (pos p, f1)) in
       case skip_sp p1 of
          None \<Rightarrow> (- 1, hp)
        | Some p2 \<Rightarrow>
       case upto_stop vct_islws p2 of
          None \<Rightarrow> (- 1, hp)
        | Some (f2, p3) \<Rightarrow> let hp = set_hd hp h2 (Some (pos p2, f2)) in
       if f2 = [] then (400, hp) else
       case skip_sp p3 of
          None \<Rightarrow> (- 1, hp)
        | Some p4 \<Rightarrow>
       case upto_stop vct_iscrlf p4 of
          None \<Rightarrow> (- 1, hp)
        | Some (f3, p5) \<Rightarrow> let hp = set_hd hp h3 (Some (pos p4, f3));
                               n = vct_skipcrlf p5
                           in http_dissect_hdrs hp (pos p5 + n) (drop n p5))"

definition http_ProtoVer :: "http \<Rightarrow> http option" where
  "http_ProtoVer hp = do {
     t \<leftarrow> hp_hd hp ! HTTP_HDR_PROTO;
     Some (hp\<lparr>hp_protover := (if strcaseeq (snd t) ''HTTP/1.0'' then 10
                              else if strcaseeq (snd t) ''HTTP/1.1'' then 11 else 9)\<rparr>) }"

definition http_DissectRequest :: "http \<Rightarrow> htxt \<Rightarrow> (int \<times> http) option" where
  "http_DissectRequest hp rxbuf = (
     let hp = hp\<lparr>hp_logtag := HTTP_Rx\<rparr>;
         (i, hp) = http_splitline hp rxbuf HTTP_HDR_REQ HTTP_HDR_URL HTTP_HDR_PROTO
     in if i \<noteq> 0 then Some (i, hp)
        else do { hp \<leftarrow> http_ProtoVer hp; Some (i, hp) })"

text \<open>The program's constant strings lie outside every workspace: address 0 stands for them.\<close>

definition STATIC :: nat where "STATIC = 0"

definition http_DissectResponse :: "http \<Rightarrow> htxt \<Rightarrow> (int \<times> http) option" where
  "http_DissectResponse hp rxbuf = do {
     let hp = hp\<lparr>hp_logtag := HTTP_Rx\<rparr>;
     let (r, hp) = http_splitline hp rxbuf HTTP_HDR_PROTO HTTP_HDR_STATUS HTTP_HDR_RESPONSE;
     let i = (if r \<noteq> 0 then 503 else 0 :: int);
     i \<leftarrow> (if i = 0 then do { t \<leftarrow> hp_hd hp ! HTTP_HDR_PROTO;
                             Some (if take 7 (snd t) \<noteq> ''HTTP/1.'' then 503 else 0) }
           else Some i);
     i \<leftarrow> (if i = 0 then do { t \<leftarrow> hp_hd hp ! HTTP_HDR_STATUS;
                             Some (if Tlen t \<noteq> 3 then 503 else 0) }
           else Some i);
     (i, hp) \<leftarrow> (if i = 0 then do {
                    t \<leftarrow> hp_hd hp ! HTTP_HDR_STATUS;
                    let st = sint (word_of_nat (strtoul 10 (snd t)) :: u32);
                    let hp = hp\<lparr>hp_status := st\<rparr>;
                    Some (if st < 100 \<or> st > 999 then 503 else 0, hp) }
                 else Some (i, hp));
     hp \<leftarrow> (if i \<noteq> 0 then Some (hp\<lparr>hp_status := i\<rparr>) else http_ProtoVer hp);
     hp \<leftarrow> (case hp_hd hp ! HTTP_HDR_RESPONSE of
              Some t \<Rightarrow> if Tlen t \<noteq> 0 then Some hp
                        else do { m \<leftarrow> http_StatusMessage (nat (hp_status hp));
                                  Some (set_hd hp HTTP_HDR_RESPONSE (Some (STATIC, m))) }
            | None \<Rightarrow> do { m \<leftarrow> http_StatusMessage (nat (hp_status hp));
                           Some (set_hd hp HTTP_HDR_RESPONSE (Some (STATIC, m))) });
     Some (i, hp) }"


section \<open>Putting a message together\<close>

definition http_SetH :: "http \<Rightarrow> nat \<Rightarrow> htxt \<Rightarrow> http option" where
  "http_SetH to n fm = do {
     chk (n < hp_shd to);
     Some (to\<lparr>hp_hd := (hp_hd to)[n := Some (fst fm, cstr (snd fm))], hp_filter := (hp_filter to)[n := False]\<rparr>) }"

definition http_copyh :: "http \<Rightarrow> http \<Rightarrow> nat \<Rightarrow> http option" where
  "http_copyh to fm n = do {
     chk (n < hp_shd to);
     t \<leftarrow> hp_hd fm ! n;
     Some (to\<lparr>hp_hd := (hp_hd to)[n := Some t], hp_filter := (hp_filter to)[n := hp_filter fm ! n]\<rparr>) }"

definition http_ForceGet :: "http \<Rightarrow> http option" where
  "http_ForceGet to = do {
     m \<leftarrow> http_GetReq to;
     if m \<noteq> ''GET'' then http_SetH to HTTP_HDR_REQ (STATIC, ''GET'') else Some to }"

definition http_CopyResp :: "http \<Rightarrow> http \<Rightarrow> http option" where
  "http_CopyResp to fm = do {
     to \<leftarrow> http_SetH to HTTP_HDR_PROTO (STATIC, ''HTTP/1.1'');
     to \<leftarrow> http_copyh to fm HTTP_HDR_STATUS;
     http_copyh to fm HTTP_HDR_RESPONSE }"

definition http_SetResp :: "http \<Rightarrow> htxt \<Rightarrow> htxt \<Rightarrow> htxt \<Rightarrow> http option" where
  "http_SetResp to proto status response = do {
     to \<leftarrow> http_SetH to HTTP_HDR_PROTO proto;
     to \<leftarrow> http_SetH to HTTP_HDR_STATUS status;
     http_SetH to HTTP_HDR_RESPONSE response }"

definition http_copyheader :: "http \<Rightarrow> http \<Rightarrow> nat \<Rightarrow> http option" where
  "http_copyheader to fm n = do {
     chk (n < hp_shd fm);
     t \<leftarrow> hp_hd fm ! n;
     Some (if hp_nhd to < hp_shd to
           then to\<lparr>hp_hd := (hp_hd to)[hp_nhd to := Some t], hp_filter := (hp_filter to)[hp_nhd to := False],
                   hp_nhd := hp_nhd to + 1\<rparr>
           else to) }"

text \<open>
  Does a filter operation drop the header?  The expansion of \<open>http_headers.h\<close>: the header starts with
  one of the names whose flags meet \<open>how\<close>.
\<close>

fun filtered_by :: "(string \<times> httph list) list \<Rightarrow> httph list \<Rightarrow> htxt \<Rightarrow> bool option" where
  "filtered_by [] how t = Some False"
| "filtered_by ((n, e) # hs) how t =
     (if list_ex (\<lambda>f. f \<in> set how) e
      then do { b \<leftarrow> http_IsHdr t (H_of n); if b then Some True else filtered_by hs how t }
      else filtered_by hs how t)"

text \<open>The test at the top of the loops of \<open>http_EstimateWS\<close> and \<open>http_FilterFields\<close>: is slot \<open>u\<close> kept?\<close>

definition kept :: "http \<Rightarrow> httph list \<Rightarrow> nat \<Rightarrow> bool option" where
  "kept fm how u = (case hp_hd fm ! u of
     None \<Rightarrow> Some False
   | Some t \<Rightarrow> if hp_filter fm ! u then Some False else map_option Not (filtered_by http_headers how t))"

fun estimate_from :: "http \<Rightarrow> httph list \<Rightarrow> nat list \<Rightarrow> nat \<Rightarrow> nat \<Rightarrow> (nat \<times> nat) option" where
  "estimate_from fm how [] l nhd = Some (l, nhd)"
| "estimate_from fm how (u # us) l nhd = do {
     k \<leftarrow> kept fm how u;
     if k then do { t \<leftarrow> hp_hd fm ! u; estimate_from fm how us (l + Tlen t + 1) (nhd + 1) }
     else estimate_from fm how us l nhd }"

definition http_EstimateWS :: "http \<Rightarrow> httph list \<Rightarrow> (nat \<times> nat) option" where
  "http_EstimateWS fm how = estimate_from fm how [0..<hp_nhd fm] 0 HTTP_HDR_FIRST"

fun filter_from :: "http \<Rightarrow> http \<Rightarrow> httph list \<Rightarrow> nat list \<Rightarrow> http option" where
  "filter_from to fm how [] = Some to"
| "filter_from to fm how (u # us) = do {
     k \<leftarrow> kept fm how u;
     to \<leftarrow> (if k then http_copyheader to fm u else Some to);
     filter_from to fm how us }"

definition http_FilterFields :: "http \<Rightarrow> http \<Rightarrow> httph list \<Rightarrow> http option" where
  "http_FilterFields to fm how =
     filter_from (to\<lparr>hp_nhd := HTTP_HDR_FIRST, hp_status := hp_status fm\<rparr>) fm how
       [HTTP_HDR_FIRST..<hp_nhd fm]"

text \<open>\<open>http_PrintfHeader\<close> with the formatted text given: it is printed into the workspace.\<close>

definition http_PrintfHeader :: "http \<Rightarrow> ws \<Rightarrow> string \<Rightarrow> (http \<times> ws) option" where
  "http_PrintfHeader to ws s = do {
     (l, ws) \<leftarrow> WS_Reserve ws 0;
     let n = length s;
     if n + 1 \<ge> unat l \<or> hp_nhd to \<ge> hp_shd to then do {
       ws \<leftarrow> WS_Release ws 0;
       Some (to, ws) }
     else do {
       let to = to\<lparr>hp_hd := (hp_hd to)[hp_nhd to := Some (ws_f ws, s)],
                   hp_filter := (hp_filter to)[hp_nhd to := False]\<rparr>;
       ws \<leftarrow> WS_Release ws (word_of_nat (n + 1));
       Some (to\<lparr>hp_nhd := hp_nhd to + 1\<rparr>, ws) } }"

text \<open>\<open>%u\<close>\<close>

fun digits_of :: "nat \<Rightarrow> string" where
  "digits_of n = (if n < 10 then [char_of (48 + n)] else digits_of (n div 10) @ [char_of (48 + n mod 10)])"

declare digits_of.simps [simp del]

definition http_FilterHeader :: "http \<Rightarrow> ws \<Rightarrow> http \<Rightarrow> httph list \<Rightarrow> nat \<Rightarrow> (http \<times> ws) option" where
  "http_FilterHeader hp ws req how xid = do {
     let hp = hp\<lparr>hp_logtag := HTTP_Tx\<rparr>;
     hp \<leftarrow> http_copyh hp req HTTP_HDR_REQ;
     hp \<leftarrow> http_copyh hp req HTTP_HDR_URL;
     hp \<leftarrow> (if how = [HTTPH_R_FETCH] then http_SetH hp HTTP_HDR_PROTO (STATIC, ''HTTP/1.1'')
            else http_copyh hp req HTTP_HDR_PROTO);
     hp \<leftarrow> http_FilterFields hp req how;
     http_PrintfHeader hp ws (''X-Varnish: '' @ digits_of xid) }"

text \<open>A text lies in the workspace.\<close>

definition at_home :: "ws \<Rightarrow> htxt \<Rightarrow> bool" where
  "at_home ws t \<longleftrightarrow> ws_s ws \<le> fst t \<and> fst t + length (snd t) \<le> ws_e ws"

fun copy_home_from :: "http \<Rightarrow> ws \<Rightarrow> nat list \<Rightarrow> (http \<times> ws) option" where
  "copy_home_from hp ws [] = Some (hp, ws)"
| "copy_home_from hp ws (u # us) =
     (case hp_hd hp ! u of
        None \<Rightarrow> copy_home_from hp ws us
      | Some t \<Rightarrow>
          if at_home ws t then copy_home_from hp ws us
          else do {
            (p, ws) \<leftarrow> WS_Alloc ws (Tlen t + 1);
            (case p of
               Some a \<Rightarrow> copy_home_from (set_hd hp u (Some (a, snd t))) ws us
             | None \<Rightarrow> copy_home_from (set_hd hp u None) ws us) })"

definition http_CopyHome :: "http \<Rightarrow> ws \<Rightarrow> (http \<times> ws) option" where
  "http_CopyHome hp ws = copy_home_from hp ws [0..<hp_nhd hp]"

text \<open>
  \<open>memset(to->hd, 0, sizeof to->hd)\<close> clears the size of a pointer, not of the array: the begin pointer
  of the first slot only.
\<close>

definition http_ClrHeader :: "http \<Rightarrow> http" where
  "http_ClrHeader to = set_hd (to\<lparr>hp_nhd := HTTP_HDR_FIRST\<rparr>) 0 None"

definition http_SetHeader :: "http \<Rightarrow> htxt \<Rightarrow> http option" where
  "http_SetHeader to hdr =
     (if hp_nhd to \<ge> hp_shd to then Some to
      else http_SetH (to\<lparr>hp_nhd := hp_nhd to + 1\<rparr>) (hp_nhd to) hdr)"

definition http_PutField :: "http \<Rightarrow> ws \<Rightarrow> nat \<Rightarrow> string \<Rightarrow> (http \<times> ws) option" where
  "http_PutField to ws field s = do {
     (p, ws) \<leftarrow> WS_Alloc ws (length s + 1);
     let to = to\<lparr>hp_filter := (hp_filter to)[field := False]\<rparr>;
     Some (set_hd to field (map_option (\<lambda>a. (a, s)) p), ws) }"

definition http_PutProtocol :: "http \<Rightarrow> ws \<Rightarrow> string \<Rightarrow> (http \<times> ws) option" where
  "http_PutProtocol to ws protocol = http_PutField to ws HTTP_HDR_PROTO protocol"

definition http_PutStatus :: "http \<Rightarrow> ws \<Rightarrow> int \<Rightarrow> (http \<times> ws) option" where
  "http_PutStatus to ws status = do {
     chk (0 \<le> status \<and> status \<le> 999);
     (to, ws) \<leftarrow> http_PutField to ws HTTP_HDR_STATUS (digits_of (nat status));
     Some (to\<lparr>hp_status := status\<rparr>, ws) }"

definition http_PutResponse :: "http \<Rightarrow> ws \<Rightarrow> string \<Rightarrow> (http \<times> ws) option" where
  "http_PutResponse to ws response = http_PutField to ws HTTP_HDR_RESPONSE response"

fun unset_from :: "http \<Rightarrow> string \<Rightarrow> nat list \<Rightarrow> nat \<Rightarrow> http option" where
  "unset_from hp hdr [] v = Some (hp\<lparr>hp_nhd := v\<rparr>)"
| "unset_from hp hdr (u # us) v =
     (case hp_hd hp ! u of
        None \<Rightarrow> unset_from hp hdr us v
      | Some t \<Rightarrow> do {
          b \<leftarrow> http_IsHdr t hdr;
          if b then unset_from hp hdr us v
          else unset_from (if v \<noteq> u
               then hp\<lparr>hp_hd := (hp_hd hp)[v := hp_hd hp ! u], hp_filter := (hp_filter hp)[v := hp_filter hp ! u]\<rparr>
               else hp) hdr us (v + 1) })"

definition http_Unset :: "http \<Rightarrow> string \<Rightarrow> http option" where
  "http_Unset hp hdr = unset_from hp hdr [HTTP_HDR_FIRST..<hp_nhd hp] HTTP_HDR_FIRST"

definition HTTP_Copy :: "http \<Rightarrow> http \<Rightarrow> http option" where
  "HTTP_Copy to fm = do {
     chk (hp_nhd fm \<le> hp_shd to);
     Some (to\<lparr>hp_conds := hp_conds fm, hp_logtag := hp_logtag fm, hp_status := hp_status fm,
              hp_protover := hp_protover fm, hp_nhd := hp_nhd fm,
              hp_hd := take (hp_nhd fm) (hp_hd fm) @ drop (hp_nhd fm) (hp_hd to),
              hp_filter := take (hp_nhd fm) (hp_filter fm) @ drop (hp_nhd fm) (hp_filter to)\<rparr>) }"

text \<open>\<open>http_Write\<close>: what is written; a line is \<open>WRW_WriteH\<close> of a text and a suffix.\<close>

definition CRLF :: string where "CRLF = [CHR 0x0D, CHR 0x0A]"

definition write_h :: "http \<Rightarrow> nat \<Rightarrow> string \<Rightarrow> string option" where
  "write_h hp n suf = map_option (\<lambda>t. snd t @ suf) (hp_hd hp ! n)"

definition write_hdrs :: "http \<Rightarrow> string" where
  "write_hdrs hp = concat (map (\<lambda>t. case t of None \<Rightarrow> [] | Some t \<Rightarrow> snd t @ CRLF)
     (drop HTTP_HDR_FIRST (take (hp_nhd hp) (hp_hd hp))))"

definition http_Write :: "http \<Rightarrow> bool \<Rightarrow> string option" where
  "http_Write hp resp = do {
     l1 \<leftarrow> (if resp then do {
              a \<leftarrow> write_h hp HTTP_HDR_PROTO '' ''; b \<leftarrow> write_h hp HTTP_HDR_STATUS '' '';
              c \<leftarrow> write_h hp HTTP_HDR_RESPONSE CRLF; Some (a @ b @ c) }
            else do {
              a \<leftarrow> write_h hp HTTP_HDR_REQ '' ''; b \<leftarrow> write_h hp HTTP_HDR_URL '' '';
              c \<leftarrow> write_h hp HTTP_HDR_PROTO CRLF; Some (a @ b @ c) });
     Some (l1 @ write_hdrs hp @ CRLF) }"

end
