(* ===== verification/Http_Props.thy ===== *)
theory Http_Props
  imports Http
begin

text \<open>
  What the header functions of \<open>bin/varnishd/cache_http.c\<close> do: a written request reads back as the
  same request; removing, filtering and copying headers act on exactly the headers they should.
\<close>

section \<open>Writing a request and reading it back\<close>

text \<open>What a request has to look like for its text to mean the same thing.\<close>

definition good_method :: "string \<Rightarrow> bool" where
  "good_method s \<longleftrightarrow> s \<noteq> [] \<and> list_all (\<lambda>c. \<not> vct_issp c \<and> \<not> vct_isctl c) s"

definition good_url :: "string \<Rightarrow> bool" where
  "good_url s \<longleftrightarrow> s \<noteq> [] \<and> list_all (\<lambda>c. \<not> vct_islws c \<and> \<not> vct_isctl c) s"

definition good_proto :: "string \<Rightarrow> bool" where
  "good_proto s \<longleftrightarrow> list_all (\<lambda>c. \<not> vct_isctl c) s \<and> (s = [] \<or> \<not> vct_issp (hd s))"

definition good_header :: "string \<Rightarrow> bool" where
  "good_header s \<longleftrightarrow> s \<noteq> [] \<and> list_all (\<lambda>c. \<not> vct_iscrlf c) s \<and> \<not> vct_issp (hd s) \<and> \<not> vct_issp (last s)"

lemma vct_simps:
  "vct_iscrlf (CHR 0x0D)" "vct_iscrlf (CHR 0x0A)" "\<not> vct_issp (CHR 0x0D)" "\<not> vct_issp (CHR 0x0A)"
  "vct_issp (CHR '' '')" "\<not> vct_isctl (CHR '' '')" "vct_islws (CHR '' '')" "vct_islws (CHR 0x0D)"
  "vct_isctl (CHR 0x0D)" "\<not> vct_iscrlf (CHR '' '')"
  by (simp_all add: vct_iscrlf_def vct_issp_def vct_isctl_def vct_islws_def vct_is_def vct_typtab_def)

lemma vct_islws_iff: "vct_islws c \<longleftrightarrow> vct_iscrlf c \<or> vct_issp c"
  by (simp add: vct_iscrlf_def vct_issp_def vct_islws_def vct_is_def)

lemma typtab_crlf: "VCT_CRLF \<in> set (vct_typtab n) \<longleftrightarrow> n = 10 \<or> n = 13"
  by (simp add: vct_typtab_def)

lemma typtab_sp: "VCT_SP \<in> set (vct_typtab n) \<longleftrightarrow> n = 9 \<or> n = 32"
  by (simp add: vct_typtab_def)

lemma vct_iscrlf_ctl: "vct_iscrlf c \<Longrightarrow> vct_isctl c"
  by (auto simp: vct_iscrlf_def vct_isctl_def vct_is_def typtab_crlf) (simp_all add: vct_typtab_def)

lemma good_url_head: "good_url u \<Longrightarrow> \<not> vct_issp (hd u)"
  by (cases u) (auto simp: good_url_def vct_islws_iff)

lemma hdr_end_line:
  assumes "list_all (\<lambda>c. \<not> vct_iscrlf c) h" "rest \<noteq> []" "\<not> vct_issp (hd rest)" "r \<le> length h"
  shows "hdr_end (h @ CRLF @ rest) r q0 = (h @ CRLF @ rest, length h + 2, length h)"
  using assms(4)
proof (induction "length h - r" arbitrary: r)
  case 0
  let ?b = "h @ CRLF @ rest"
  have r: "r = length h" using 0 by simp
  have b: "?b ! r = CHR 0x0D" "?b ! (length h + 2) = hd rest" "r < length ?b" "length h + 2 < length ?b"
    "take 2 (drop r ?b) = CRLF"
    using assms(2) by (simp_all add: r CRLF_def nth_append hd_conv_nth)
  then show ?case
    using assms(3) r by (subst hdr_end.simps) (simp add: vct_simps vct_skipcrlf_def CRLF_def Let_def)
next
  case (Suc d)
  then have "r < length h" by simp
  then have "\<not> vct_iscrlf ((h @ CRLF @ rest) ! r)" "r < length (h @ CRLF @ rest)"
    using assms(1) by (auto simp: nth_append list_all_length)
  then show ?case using Suc.hyps(1) [of "r + 1"] Suc.hyps(2) Suc.prems by (subst hdr_end.simps) simp
qed

lemma trim_sp_id: "s \<noteq> [] \<Longrightarrow> \<not> vct_issp (last s) \<Longrightarrow> trim_sp s = s"
  by (cases s rule: rev_cases) (auto simp: trim_sp_def)

lemma dissect_end: "dissect_loop hp a CRLF = (0, hp)"
proof -
  have "hdr_end CRLF 0 0 = (CRLF, 2, 0)"
    by (subst hdr_end.simps) (simp add: CRLF_def vct_simps vct_skipcrlf_def Let_def)
  then show ?thesis by (subst dissect_loop.simps) (simp add: CRLF_def)
qed

definition lines_of :: "string list \<Rightarrow> string" where
  "lines_of hs = concat (map (\<lambda>h. h @ CRLF) hs)"

lemma dissect_lines:
  assumes "list_all good_header hs" "hp_nhd hp + length hs \<le> hp_shd hp" "length (hp_hd hp) = hp_shd hp"
  shows "\<exists>hp'. dissect_loop hp a (lines_of hs @ CRLF) = (0, hp') \<and> hp_nhd hp' = hp_nhd hp + length hs \<and>
     hp_shd hp' = hp_shd hp \<and> length (hp_hd hp') = hp_shd hp \<and>
     map (map_option snd) (take (hp_nhd hp') (hp_hd hp')) =
     map (map_option snd) (take (hp_nhd hp) (hp_hd hp)) @ map Some hs"
  using assms
proof (induction hs arbitrary: hp a)
  case Nil
  then show ?case by (simp add: lines_of_def dissect_end)
next
  case (Cons h hs)
  let ?b = "h @ CRLF @ lines_of hs @ CRLF"
  have g: "good_header h" "list_all good_header hs" using Cons.prems(1) by simp_all
  have hd: "\<not> vct_issp (hd (lines_of hs @ CRLF))"
    using g(2) by (cases hs) (auto simp: lines_of_def good_header_def CRLF_def vct_simps)
  have he: "hdr_end ?b 0 0 = (?b, length h + 2, length h)"
    using hdr_end_line [of h "lines_of hs @ CRLF" 0 0] g(1) hd by (simp add: good_header_def CRLF_def)
  have h0: "length h \<noteq> 0" "trim_sp h = h" using g(1) trim_sp_id by (auto simp: good_header_def)
  define hp1 where "hp1 = (if is_cond ?b then hp\<lparr>hp_conds := True\<rparr> else hp)"
  have f1: "hp_nhd hp1 = hp_nhd hp" "hp_shd hp1 = hp_shd hp" "hp_hd hp1 = hp_hd hp" by (simp_all add: hp1_def)
  define hp2 where "hp2 = hp1\<lparr>hp_hd := (hp_hd hp1)[hp_nhd hp1 := Some (a, h)],
    hp_filter := (hp_filter hp1)[hp_nhd hp1 := False], hp_nhd := hp_nhd hp1 + 1\<rparr>"
  have run: "dissect_loop hp a (lines_of (h # hs) @ CRLF) = dissect_loop hp2 (a + (length h + 2)) (lines_of hs @ CRLF)"
    using he h0 Cons.prems(2) f1
    by (subst dissect_loop.simps) (simp add: lines_of_def hp1_def hp2_def Let_def CRLF_def)
  have n: "hp_nhd hp < length (hp_hd hp)" using Cons.prems by simp
  have "map (map_option snd) (take (hp_nhd hp2) (hp_hd hp2)) =
        map (map_option snd) (take (hp_nhd hp) (hp_hd hp)) @ [Some h]"
    using n f1 by (simp add: hp2_def take_Suc_conv_app_nth)
  then show ?case
    using Cons.IH [OF g(2), of hp2 "a + (length h + 2)"] Cons.prems(2,3) f1 run
    by (auto simp: hp2_def)
qed

lemma upto_stop_field:
  assumes "list_all (\<lambda>c. \<not> stop c \<and> \<not> vct_isctl c) s" "stop x"
  shows "upto_stop stop (s @ x # rest) = Some (s, x # rest)"
  using assms by (induction s) auto

lemma skip_sp_one: "s = [] \<or> \<not> vct_issp (hd s) \<Longrightarrow> skip_sp (CHR '' '' # s) = Some s"
  by (cases s) (auto simp: vct_simps)

lemma dissect_lf: "dissect_loop hp a [CHR 0x0A] = (0, hp)"
proof -
  have "hdr_end [CHR 0x0A] 0 0 = ([CHR 0x0A], 1, 0)"
    by (subst hdr_end.simps) (simp add: vct_simps vct_skipcrlf_def Let_def)
  then show ?thesis by (subst dissect_loop.simps) simp
qed

definition hdr_texts :: "http \<Rightarrow> string option list" where
  "hdr_texts hp = map (map_option snd) (drop HTTP_HDR_FIRST (take (hp_nhd hp) (hp_hd hp)))"

lemma dissect_hdrs_lines:
  assumes "list_all good_header hs" "HTTP_HDR_FIRST + length hs \<le> hp_shd hp" "length (hp_hd hp) = hp_shd hp"
  shows "\<exists>hp'. http_dissect_hdrs hp a (lines_of hs @ CRLF) = (0, hp') \<and> hp_nhd hp' = HTTP_HDR_FIRST + length hs \<and>
     hdr_texts hp' = map Some hs \<and>
     (\<forall>i < HTTP_HDR_FIRST. map_option snd (hp_hd hp' ! i) = map_option snd (hp_hd hp ! i))"
proof (cases "hs = []")
  case True
  then show ?thesis
    using assms by (simp add: http_dissect_hdrs_def lines_of_def CRLF_def dissect_lf hdr_texts_def)
next
  case False
  let ?hp = "hp\<lparr>hp_nhd := HTTP_HDR_FIRST, hp_conds := False\<rparr>"
  have "hd (lines_of hs @ CRLF) \<noteq> CHR 0x0D"
  proof -
    obtain h hs' where hs: "hs = h # hs'" using False by (cases hs) auto
    then have h: "h \<noteq> []" "\<forall>c \<in> set h. \<not> vct_iscrlf c"
      using assms(1) by (auto simp: good_header_def list_all_iff)
    then have "hd h \<noteq> CHR 0x0D" using hd_in_set [OF h(1)] vct_simps(1) by metis
    then show ?thesis using hs h(1) by (simp add: lines_of_def)
  qed
  then have "http_dissect_hdrs hp a (lines_of hs @ CRLF) = dissect_loop ?hp a (lines_of hs @ CRLF)"
    by (simp add: http_dissect_hdrs_def)
  moreover obtain hp' where h: "dissect_loop ?hp a (lines_of hs @ CRLF) = (0, hp')"
    "hp_nhd hp' = HTTP_HDR_FIRST + length hs" "length (hp_hd hp') = hp_shd hp"
    "map (map_option snd) (take (hp_nhd hp') (hp_hd hp')) =
     map (map_option snd) (take HTTP_HDR_FIRST (hp_hd hp)) @ map Some hs"
    using dissect_lines [of hs ?hp a] assms by auto
  have l: "length (take HTTP_HDR_FIRST (hp_hd hp)) = HTTP_HDR_FIRST" using assms by simp
  have "hdr_texts hp' = map Some hs"
    using arg_cong [OF h(4), of "drop HTTP_HDR_FIRST"] l by (simp add: hdr_texts_def drop_map)
  moreover have "map_option snd (hp_hd hp' ! i) = map_option snd (hp_hd hp ! i)" if "i < HTTP_HDR_FIRST" for i
    using arg_cong [OF h(4), of "\<lambda>xs. xs ! i"] that h(2,3) assms(2,3) by (simp add: nth_append)
  ultimately show ?thesis using h(1,2) by auto
qed

lemma splitline_good:
  assumes "good_method m" "good_url u" "good_proto v" "list_all good_header hs"
    and "HTTP_HDR_FIRST + length hs \<le> hp_shd hp" "length (hp_hd hp) = hp_shd hp"
    and "h1 < 5" "h2 < 5" "h3 < 5" "distinct [h1, h2, h3]"
  shows "\<exists>hp'. http_splitline hp (a, m @ '' '' @ u @ '' '' @ v @ CRLF @ lines_of hs @ CRLF) h1 h2 h3 = (0, hp') \<and>
     hp_nhd hp' = HTTP_HDR_FIRST + length hs \<and> hdr_texts hp' = map Some hs \<and>
     map_option snd (hp_hd hp' ! h1) = Some m \<and> map_option snd (hp_hd hp' ! h2) = Some u \<and>
     map_option snd (hp_hd hp' ! h3) = Some v"
proof -
  let ?t = "lines_of hs @ CRLF"
  have m: "list_all (\<lambda>c. \<not> vct_issp c \<and> \<not> vct_isctl c) m" "\<not> vct_islws (hd m)" "m \<noteq> []"
    using assms(1) vct_iscrlf_ctl [of "hd m"] hd_in_set [of m]
    by (auto simp: good_method_def vct_islws_iff list_all_iff)
  have d: "dropWhile vct_islws (m @ r) = m @ r" for r using m(2,3) by (cases m) auto
  have u1: "upto_stop vct_issp (m @ CHR '' '' # r) = Some (m, CHR '' '' # r)" for r
    by (rule upto_stop_field [OF m(1)]) (rule vct_simps)
  have s1: "skip_sp (CHR '' '' # u @ r) = Some (u @ r)" for r
    by (rule skip_sp_one) (use good_url_head [OF assms(2)] assms(2) in \<open>auto simp: good_url_def\<close>)
  have u2: "upto_stop vct_islws (u @ CHR '' '' # r) = Some (u, CHR '' '' # r)" for r
    by (rule upto_stop_field) (use assms(2) in \<open>auto simp: good_url_def vct_simps\<close>)
  have s2: "skip_sp (CHR '' '' # v @ CHR 0x0D # r) = Some (v @ CHR 0x0D # r)" for r
    by (rule skip_sp_one) (use assms(3) in \<open>auto simp: good_proto_def vct_simps hd_append\<close>)
  have u3: "upto_stop vct_iscrlf (v @ CHR 0x0D # r) = Some (v, CHR 0x0D # r)" for r
    by (rule upto_stop_field)
      (use assms(3) vct_iscrlf_ctl in \<open>auto simp: good_proto_def vct_simps list_all_iff\<close>)
  have ne: "u \<noteq> []" using assms(2) by (simp add: good_url_def)
  define hp1 where "hp1 = hp\<lparr>hp_hd := (hp_hd hp)[h1 := Some (a, m), h2 := Some (Suc (a + length m), u),
    h3 := Some (Suc (Suc (a + (length m + length u))), v)]\<rparr>"
  define aa where "aa = Suc (Suc (Suc (Suc (a + (length m + (length u + length v))))))"
  have run: "http_splitline hp (a, m @ '' '' @ u @ '' '' @ v @ CRLF @ ?t) h1 h2 h3 = http_dissect_hdrs hp1 aa ?t"
    using u1 u2 u3 s1 s2 d ne
    by (simp add: http_splitline_def CRLF_def vct_skipcrlf_def Let_def set_hd_def hp1_def aa_def
        del: skip_sp.simps)
  have k: "h1 < length (hp_hd hp)" "h2 < length (hp_hd hp)" "h3 < length (hp_hd hp)"
    using assms(5-9) by (auto simp: HTTP_HDR_FIRST_def)
  have f: "map_option snd (hp_hd hp1 ! h1) = Some m" "map_option snd (hp_hd hp1 ! h2) = Some u"
    "map_option snd (hp_hd hp1 ! h3) = Some v" "hp_shd hp1 = hp_shd hp" "length (hp_hd hp1) = hp_shd hp"
    using k assms(6,10) by (simp_all add: hp1_def)
  obtain hp' where "http_dissect_hdrs hp1 aa ?t = (0, hp')" "hp_nhd hp' = HTTP_HDR_FIRST + length hs"
    "hdr_texts hp' = map Some hs" "\<forall>i < 5. map_option snd (hp_hd hp' ! i) = map_option snd (hp_hd hp1 ! i)"
    using dissect_hdrs_lines [OF assms(4), of hp1 aa] f(4,5) assms(5) by (auto simp: HTTP_HDR_FIRST_def)
  then show ?thesis using run f(1-3) assms(7-9) by metis
qed

text \<open>
  C25 (roundtrip).  A request that is written out (\<open>http_Write\<close>) and read again
  (\<open>http_DissectRequest\<close>) is the same request: method, URL, protocol and every header, in order.
\<close>

theorem http_request_roundtrip:
  assumes "hp_hd hp ! HTTP_HDR_REQ = Some (a1, m)" "hp_hd hp ! HTTP_HDR_URL = Some (a2, u)"
    and "hp_hd hp ! HTTP_HDR_PROTO = Some (a3, v)" "hdr_texts hp = map Some hs"
    and "good_method m" "good_url u" "good_proto v" "list_all good_header hs"
    and "http_Write hp False = Some s"
    and "HTTP_HDR_FIRST + length hs \<le> hp_shd to" "length (hp_hd to) = hp_shd to"
  shows "\<exists>to'. http_DissectRequest to (a, s) = Some (0, to') \<and> hdr_texts to' = map Some hs \<and>
     map_option snd (hp_hd to' ! HTTP_HDR_REQ) = Some m \<and> map_option snd (hp_hd to' ! HTTP_HDR_URL) = Some u \<and>
     map_option snd (hp_hd to' ! HTTP_HDR_PROTO) = Some v"
proof -
  have w: "write_hdrs hp = lines_of hs"
  proof -
    have "write_hdrs hp = concat (map (\<lambda>t. case t of None \<Rightarrow> [] | Some s \<Rightarrow> s @ CRLF) (hdr_texts hp))"
      unfolding write_hdrs_def hdr_texts_def
      by (rule arg_cong [of _ _ concat]) (auto split: option.splits)
    then show ?thesis unfolding assms(4) by (simp add: lines_of_def comp_def)
  qed
  have s: "s = m @ '' '' @ u @ '' '' @ v @ CRLF @ lines_of hs @ CRLF"
    using assms(1-3,9) w by (auto simp: http_Write_def write_h_def)
  let ?to = "to\<lparr>hp_logtag := HTTP_Rx\<rparr>"
  obtain to1 where t: "http_splitline ?to (a, s) HTTP_HDR_REQ HTTP_HDR_URL HTTP_HDR_PROTO = (0, to1)"
    "hdr_texts to1 = map Some hs" "map_option snd (hp_hd to1 ! HTTP_HDR_REQ) = Some m"
    "map_option snd (hp_hd to1 ! HTTP_HDR_URL) = Some u" "map_option snd (hp_hd to1 ! HTTP_HDR_PROTO) = Some v"
    using splitline_good [OF assms(5-8), of ?to HTTP_HDR_REQ HTTP_HDR_URL HTTP_HDR_PROTO a] assms(10,11) s
    by (auto simp: HTTP_HDR_REQ_def HTTP_HDR_URL_def HTTP_HDR_PROTO_def)
  obtain p where p: "http_ProtoVer to1 = Some (to1\<lparr>hp_protover := p\<rparr>)"
    using t(5) by (auto simp: http_ProtoVer_def)
  have "hdr_texts (to1\<lparr>hp_protover := p\<rparr>) = hdr_texts to1" by (simp add: hdr_texts_def)
  then show ?thesis using t p by (simp add: http_DissectRequest_def)
qed

section \<open>Looking headers up, removing and filtering them\<close>

definition valid_name :: "string \<Rightarrow> bool" where
  "valid_name n \<longleftrightarrow> length n < 127 \<and> NUL \<notin> set n"

text \<open>The header text \<open>s\<close> is a header of name \<open>n\<close>, in any case.\<close>

definition named :: "string \<Rightarrow> string \<Rightarrow> bool" where
  "named n s \<longleftrightarrow> length n < length s \<and> s ! length n = CHR '':'' \<and>
     map tolower (take (length n) s) = map tolower n"

lemma tolower_NUL: "tolower c = NUL \<longleftrightarrow> c = NUL"
proof -
  have "tolower c \<noteq> NUL" if "c \<noteq> NUL"
  proof (cases "65 \<le> (of_char c :: nat) \<and> (of_char c :: nat) \<le> 90")
    case True
    then have "of_char (tolower c) = (of_char c + 32 :: nat)" by (simp add: tolower_def)
    then show ?thesis by (auto simp: NUL_def)
  next
    case False
    then have "tolower c = c" by (auto simp: tolower_def Let_def)
    then show ?thesis using that by simp
  qed
  then show ?thesis by (auto simp: NUL_def tolower_def)
qed

lemma tolower_colon: "tolower c = CHR '':'' \<longleftrightarrow> c = CHR '':''"
proof (cases "65 \<le> (of_char c :: nat) \<and> (of_char c :: nat) \<le> 90")
  case True
  then have "of_char (tolower c) = (of_char c + 32 :: nat)" by (simp add: tolower_def)
  then show ?thesis using True by auto
next
  case False
  then show ?thesis by (auto simp: tolower_def Let_def)
qed

lemma tolower_colon' [simp]: "tolower (CHR '':'') = CHR '':''"
  by (simp add: tolower_colon)

lemma cstr_simps [simp]: "cstr [] = []" "cstr (c # s) = (if c = NUL then [] else c # cstr s)"
  by (simp_all add: cstr_def)

lemma cstr_prefix: "NUL \<notin> set (take l s) \<Longrightarrow> l \<le> length s \<Longrightarrow> take l (cstr s) = take l s \<and> l \<le> length (cstr s)"
proof (induction l arbitrary: s)
  case (Suc l)
  then show ?case by (cases s) auto
qed simp

lemma cstr_take: "length (take l (cstr s)) = l \<Longrightarrow> take l s = take l (cstr s) \<and> l \<le> length s"
proof (induction l arbitrary: s)
  case (Suc l)
  show ?case
  proof (cases s)
    case Nil
    then show ?thesis using Suc.prems by simp
  next
    case (Cons c s')
    then have c: "c \<noteq> NUL" using Suc.prems by (cases "c = NUL") simp_all
    then have "length (take l (cstr s')) = l" using Suc.prems Cons by (simp only: cstr_simps if_False take_Suc_Cons length_Cons)
    then show ?thesis using Suc.IH [of s'] Cons c by (simp only: cstr_simps if_False take_Suc_Cons length_Cons) simp
  qed
qed simp

text \<open>\<open>strncasecmp\<close> of a NUL-free name with the beginning of a text.\<close>

lemma strncaseeq_name:
  assumes "NUL \<notin> set n" "length n = l"
  shows "strncaseeq l (n @ r) s \<longleftrightarrow> l \<le> length s \<and> map tolower (take l s) = map tolower n"
proof -
  have n: "take l (map tolower (cstr (n @ r))) = map tolower n"
    using cstr_prefix [of l "n @ r"] assms by (simp add: take_map)
  show ?thesis
  proof
    assume "strncaseeq l (n @ r) s"
    then have e: "map tolower (take l (cstr s)) = map tolower n"
      using n by (simp add: strncaseeq_def take_map)
    then have "length (take l (cstr s)) = l" using assms(2) by (metis length_map)
    then have "take l s = take l (cstr s) \<and> l \<le> length s" by (rule cstr_take)
    then show "l \<le> length s \<and> map tolower (take l s) = map tolower n" using e by simp
  next
    assume a: "l \<le> length s \<and> map tolower (take l s) = map tolower n"
    have "NUL \<notin> set (take l s)"
    proof
      assume "NUL \<in> set (take l s)"
      then have "tolower NUL \<in> set (map tolower n)" using a by (metis image_eqI list.set_map)
      then show False using assms(1) tolower_NUL by auto (metis tolower_NUL)
    qed
    then show "strncaseeq l (n @ r) s"
      using n a cstr_prefix [of l s] by (simp add: strncaseeq_def take_map)
  qed
qed

lemma H_of_simps:
  assumes "valid_name n"
  shows "H_of n = char_of (length n + 1) # n @ '':''" "of_char (char_of (length n + 1) :: char) = length n + 1"
  using assms by (simp_all add: H_of_def valid_name_def)

lemma take_named: "length n < length s \<Longrightarrow>
  map tolower (take (Suc (length n)) s) = map tolower (n @ '':'') \<longleftrightarrow>
  s ! length n = CHR '':'' \<and> map tolower (take (length n) s) = map tolower n"
  by (auto simp: take_Suc_conv_app_nth tolower_colon)

lemma http_IsHdr_named:
  assumes "valid_name n"
  shows "http_IsHdr t (H_of n) = Some (named n (snd t))"
proof -
  have nn: "NUL \<notin> set (n @ '':'')" using assms by (auto simp: valid_name_def NUL_def)
  have "strncaseeq (Suc (length n)) (n @ '':'') (snd t) \<longleftrightarrow> named n (snd t)"
    using strncaseeq_name [OF nn, of "Suc (length n)" "[]" "snd t"] take_named [of n "snd t"]
    by (auto simp: named_def Suc_le_eq)
  then show ?thesis
    using H_of_simps [OF assms] assms nn by (simp add: http_IsHdr_def valid_name_def nth_append)
qed

text \<open>\<open>findhdr_from\<close> stops at the first header of the name.\<close>

lemma findhdr_from_step:
  assumes "valid_name n"
  shows "findhdr_from (t # ts) u (length n) (n @ '':'') =
    (if (\<exists>x. t = Some x \<and> named n (snd x)) then u else findhdr_from ts (u + 1) (length n) (n @ '':''))"
  using strncaseeq_name [of n "length n" "'':''"] assms
  by (auto simp: named_def valid_name_def split: option.splits)

lemma findhdr_from_none:
  assumes "valid_name n" "0 < u"
  shows "findhdr_from ts u (length n) (n @ '':'') = 0 \<longleftrightarrow> (\<forall>x. Some x \<in> set ts \<longrightarrow> \<not> named n (snd x))"
  using assms(2)
proof (induction ts arbitrary: u)
  case (Cons t ts)
  then show ?case by (auto simp: findhdr_from_step [OF assms(1)] simp del: findhdr_from.simps)
qed simp

lemma findhdr_from_some:
  assumes "valid_name n" "findhdr_from ts u (length n) (n @ '':'') = v" "v \<noteq> 0"
  shows "\<exists>i x. v = u + i \<and> i < length ts \<and> ts ! i = Some x \<and> named n (snd x) \<and>
    (\<forall>j < i. \<forall>y. ts ! j = Some y \<longrightarrow> \<not> named n (snd y))"
  using assms(2,3)
proof (induction ts arbitrary: u)
  case (Cons t ts)
  show ?case
  proof (cases "\<exists>x. t = Some x \<and> named n (snd x)")
    case True
    then show ?thesis using Cons.prems by (auto simp: findhdr_from_step [OF assms(1)] simp del: findhdr_from.simps)
  next
    case False
    then have "findhdr_from ts (u + 1) (length n) (n @ '':'') = v"
      using Cons.prems(1) by (simp only: findhdr_from_step [OF assms(1)] if_False)
    then obtain i x where "v = u + 1 + i" "i < length ts" "ts ! i = Some x" "named n (snd x)"
      "\<forall>j < i. \<forall>y. ts ! j = Some y \<longrightarrow> \<not> named n (snd y)"
      using Cons.IH Cons.prems(2) by blast
    then show ?thesis using False by (intro exI [of _ "Suc i"]) (auto simp: nth_Cons split: nat.splits)
  qed
qed simp

text \<open>The texts of the headers that are there, in order.\<close>

definition headers :: "http \<Rightarrow> string list" where
  "headers hp = map snd (List.map_filter id (drop HTTP_HDR_FIRST (take (hp_nhd hp) (hp_hd hp))))"

lemma headers_mem: "s \<in> set (headers hp) \<longleftrightarrow>
  (\<exists>a. Some (a, s) \<in> set (drop HTTP_HDR_FIRST (take (hp_nhd hp) (hp_hd hp))))"
  by (force simp: headers_def map_filter_def)

lemma http_GetHdr_unfold:
  assumes "valid_name n"
  shows "http_GetHdr hp (H_of n) = (let u = http_findhdr hp (length n) (n @ '':'') in
    if u = 0 then Some None
    else do { t \<leftarrow> hp_hd hp ! u; Some (Some (cstr (dropWhile vct_issp (drop (length n + 1) (snd t))))) })"
  using H_of_simps [OF assms] assms by (simp add: http_GetHdr_def valid_name_def nth_append Let_def)

lemma http_GetHdr_None:
  assumes "valid_name n"
  shows "http_GetHdr hp (H_of n) = Some None \<longleftrightarrow> (\<forall>s \<in> set (headers hp). \<not> named n s)"
proof -
  let ?ts = "drop HTTP_HDR_FIRST (take (hp_nhd hp) (hp_hd hp))"
  have "http_findhdr hp (length n) (n @ '':'') = 0 \<longleftrightarrow> (\<forall>s \<in> set (headers hp). \<not> named n s)"
    using findhdr_from_none [OF assms, of HTTP_HDR_FIRST ?ts]
    by (auto simp: http_findhdr_def headers_mem HTTP_HDR_FIRST_def)
  then show ?thesis
    using http_GetHdr_unfold [OF assms, of hp] by (auto simp: Let_def bind_eq_Some_conv split: if_splits)
qed

text \<open>The value of the first header of a name: what \<open>http_GetHdr\<close> finds.\<close>

definition hdr_value :: "http \<Rightarrow> string \<Rightarrow> string option" where
  "hdr_value hp n = map_option (\<lambda>s. cstr (dropWhile vct_issp (drop (length n + 1) s))) (find (named n) (headers hp))"

lemma findhdr_from_find:
  assumes "valid_name n" "0 < u"
  shows "(let v = findhdr_from ts u (length n) (n @ r) in
           if v = 0 then find (named n) (map snd (List.map_filter id ts)) = None
           else u \<le> v \<and> v - u < length ts \<and> (\<exists>t. ts ! (v - u) = Some t \<and>
             find (named n) (map snd (List.map_filter id ts)) = Some (snd t)))"
  using assms(2)
proof (induction ts arbitrary: u)
  case Nil
  then show ?case by (simp add: map_filter_simps)
next
  case (Cons t ts)
  have eq: "strncaseeq (length n) (n @ r) s \<longleftrightarrow> length n \<le> length s \<and> map tolower (take (length n) s) = map tolower n" for s
    using strncaseeq_name [of n] assms(1) by (simp add: valid_name_def)
  show ?case
  proof (cases "\<exists>x. t = Some x \<and> named n (snd x)")
    case True
    then show ?thesis using eq Cons.prems by (auto simp: named_def map_filter_simps Let_def split: option.splits)
  next
    case False
    then have s: "findhdr_from (t # ts) u (length n) (n @ r) = findhdr_from ts (u + 1) (length n) (n @ r)"
      using eq by (auto simp: named_def split: option.splits)
    have f: "find (named n) (map snd (List.map_filter id (t # ts))) = find (named n) (map snd (List.map_filter id ts))"
      using False by (auto simp: map_filter_simps split: option.splits)
    show ?thesis
      using Cons.IH [of "u + 1"] unfolding s f Let_def
      by (auto split: if_splits simp: nth_Cons Suc_diff_le split: nat.splits)
        (metis Suc_diff_Suc Suc_le_lessD diff_Suc_1)+
  qed
qed

lemma HDR_FIRST_pos: "0 < HTTP_HDR_FIRST"
  by (simp add: HTTP_HDR_FIRST_def)

lemma http_GetHdr_value:
  assumes "valid_name n"
  shows "http_GetHdr hp (H_of n @ r) = Some (hdr_value hp n)"
proof -
  let ?ts = "drop HTTP_HDR_FIRST (take (hp_nhd hp) (hp_hd hp))"
  let ?u = "http_findhdr hp (length n) (n @ '':'' @ r)"
  have g: "http_GetHdr hp (H_of n @ r) = (if ?u = 0 then Some None
    else do { t \<leftarrow> hp_hd hp ! ?u; Some (Some (cstr (dropWhile vct_issp (drop (length n + 1) (snd t))))) })"
    using assms by (simp add: http_GetHdr_def H_of_def valid_name_def nth_append Let_def)
  have f: "if ?u = 0 then find (named n) (headers hp) = None
    else HTTP_HDR_FIRST \<le> ?u \<and> ?u - HTTP_HDR_FIRST < length ?ts \<and>
      (\<exists>t. ?ts ! (?u - HTTP_HDR_FIRST) = Some t \<and> find (named n) (headers hp) = Some (snd t))"
    using findhdr_from_find [OF assms HDR_FIRST_pos, of ?ts "'':'' @ r"]
    unfolding http_findhdr_def headers_def Let_def .
  show ?thesis
  proof (cases "?u = 0")
    case True
    then show ?thesis using f g by (simp add: hdr_value_def)
  next
    case False
    then obtain t where t: "HTTP_HDR_FIRST \<le> ?u" "?u - HTTP_HDR_FIRST < length ?ts"
      "?ts ! (?u - HTTP_HDR_FIRST) = Some t" "find (named n) (headers hp) = Some (snd t)"
      using f by auto
    have "hp_hd hp ! ?u = take (hp_nhd hp) (hp_hd hp) ! (HTTP_HDR_FIRST + (?u - HTTP_HDR_FIRST))"
      using t(1,2) by simp
    also have "\<dots> = Some t" using t(2,3) by (subst nth_drop [symmetric]) auto
    finally have "hp_hd hp ! ?u = Some t" .
    then show ?thesis using False g t(4) by (simp add: hdr_value_def)
  qed
qed

definition http_wf :: "http \<Rightarrow> bool" where
  "http_wf hp \<longleftrightarrow> HTTP_HDR_FIRST \<le> hp_nhd hp \<and> hp_nhd hp \<le> hp_shd hp \<and> length (hp_hd hp) = hp_shd hp \<and>
     length (hp_filter hp) = hp_shd hp"

definition stays :: "string \<Rightarrow> htxt option \<Rightarrow> bool" where
  "stays n t \<longleftrightarrow> (case t of None \<Rightarrow> False | Some x \<Rightarrow> \<not> named n (snd x))"

lemma unset_from_hd:
  assumes n: "valid_name n" and "v \<le> u" "u \<le> N" "N \<le> length (hp_hd hp)"
  shows "\<exists>hp'. unset_from hp (H_of n) [u..<N] v = Some hp' \<and> hp_shd hp' = hp_shd hp \<and>
     length (hp_hd hp') = length (hp_hd hp) \<and> length (hp_filter hp') = length (hp_filter hp) \<and>
     v \<le> hp_nhd hp' \<and> hp_nhd hp' \<le> N \<and>
     take (hp_nhd hp') (hp_hd hp') = take v (hp_hd hp) @ filter (stays n) (drop u (take N (hp_hd hp)))"
  using assms(2-)
proof (induction "N - u" arbitrary: hp u v)
  case 0
  then show ?case by (intro exI [of _ "hp\<lparr>hp_nhd := v\<rparr>"]) simp
next
  case (Suc d)
  then have uN: "u < N" "d = N - Suc u" by simp_all
  have us: "[u..<N] = u # [Suc u..<N]" using uN(1) by (rule upt_conv_Cons)
  have tk: "drop u (take N (hp_hd hp)) = hp_hd hp ! u # drop (Suc u) (take N (hp_hd hp))"
    using uN Suc.prems(3) by (simp add: Cons_nth_drop_Suc [symmetric])
  show ?case
  proof (cases "stays n (hp_hd hp ! u)")
    case False
    then have r: "unset_from hp (H_of n) [u..<N] v = unset_from hp (H_of n) [Suc u..<N] v"
      using n by (auto simp: us stays_def http_IsHdr_named split: option.splits)
    show ?thesis
      using Suc.hyps(1) [of "Suc u" v hp] Suc.hyps(2) Suc.prems uN False by (simp add: r tk)
  next
    case True
    then obtain t where t: "hp_hd hp ! u = Some t" "\<not> named n (snd t)" by (auto simp: stays_def split: option.splits)
    define h1 where "h1 = (if v \<noteq> u then hp\<lparr>hp_hd := (hp_hd hp)[v := hp_hd hp ! u],
        hp_filter := (hp_filter hp)[v := hp_filter hp ! u]\<rparr> else hp)"
    have r: "unset_from hp (H_of n) [u..<N] v = unset_from h1 (H_of n) [Suc u..<N] (v + 1)"
      using t n by (simp add: us http_IsHdr_named h1_def)
    have h1: "hp_hd h1 = (hp_hd hp)[v := hp_hd hp ! u]" "hp_shd h1 = hp_shd hp"
      "length (hp_filter h1) = length (hp_filter hp)"
      using uN Suc.prems by (auto simp: h1_def)
    have a: "drop (Suc u) (take N (hp_hd h1)) = drop (Suc u) (take N (hp_hd hp))"
      using Suc.prems(1) by (simp add: h1 take_update_swap)
    have b: "take (Suc v) (hp_hd h1) = take v (hp_hd hp) @ [hp_hd hp ! u]"
      using uN Suc.prems by (simp add: h1 take_Suc_conv_app_nth)
    obtain hp' where "unset_from h1 (H_of n) [Suc u..<N] (v + 1) = Some hp'" "hp_shd hp' = hp_shd h1"
      "length (hp_hd hp') = length (hp_hd h1)" "length (hp_filter hp') = length (hp_filter h1)"
      "v + 1 \<le> hp_nhd hp'" "hp_nhd hp' \<le> N"
      "take (hp_nhd hp') (hp_hd hp') = take (v + 1) (hp_hd h1) @ filter (stays n) (drop (Suc u) (take N (hp_hd h1)))"
      using Suc.hyps(1) [of "Suc u" "v + 1" h1] Suc.hyps(2) Suc.prems uN h1 by auto
    then show ?thesis using r True a b h1 by (auto simp: tk)
  qed
qed

lemma headers_filter:
  assumes "take (hp_nhd hp') (hp_hd hp') = take HTTP_HDR_FIRST (hp_hd hp) @ filter (stays n) (drop HTTP_HDR_FIRST (take (hp_nhd hp) (hp_hd hp)))"
    and "HTTP_HDR_FIRST \<le> length (hp_hd hp)"
  shows "headers hp' = filter (\<lambda>s. \<not> named n s) (headers hp)"
proof -
  have "map snd (List.map_filter id (filter (stays n) ts)) = filter (\<lambda>s. \<not> named n s) (map snd (List.map_filter id ts))" for ts
    by (induction ts) (auto simp: map_filter_simps stays_def split: option.splits)
  then show ?thesis using assms by (simp add: headers_def)
qed

text \<open>
  C36 (functional).  \<open>http_Unset\<close> removes every header of the given name, in any case of letters, keeps
  all others in their order, and the header is not found afterwards.
\<close>

theorem http_Unset_correct:
  assumes "http_wf hp" "valid_name n"
  shows "\<exists>hp'. http_Unset hp (H_of n) = Some hp' \<and> http_wf hp' \<and>
     headers hp' = filter (\<lambda>s. \<not> named n s) (headers hp) \<and> http_GetHdr hp' (H_of n) = Some None"
proof -
  obtain hp' where h: "http_Unset hp (H_of n) = Some hp'" "hp_shd hp' = hp_shd hp"
     "length (hp_hd hp') = length (hp_hd hp)" "length (hp_filter hp') = length (hp_filter hp)"
     "HTTP_HDR_FIRST \<le> hp_nhd hp'" "hp_nhd hp' \<le> hp_nhd hp"
     "take (hp_nhd hp') (hp_hd hp') = take HTTP_HDR_FIRST (hp_hd hp) @ filter (stays n) (drop HTTP_HDR_FIRST (take (hp_nhd hp) (hp_hd hp)))"
    using unset_from_hd [OF assms(2), of HTTP_HDR_FIRST HTTP_HDR_FIRST "hp_nhd hp" hp] assms(1)
    by (auto simp: http_Unset_def http_wf_def)
  have hf: "headers hp' = filter (\<lambda>s. \<not> named n s) (headers hp)"
    using headers_filter [OF h(7)] assms(1) by (auto simp: http_wf_def)
  then have "http_GetHdr hp' (H_of n) = Some None" using http_GetHdr_None [OF assms(2)] by simp
  moreover have "http_wf hp'" using h(2-6) assms(1) by (auto simp: http_wf_def)
  ultimately show ?thesis using h(1) hf by blast
qed

subsection \<open>Filtering\<close>

lemma http_headers_valid: "\<forall>(n, e) \<in> set http_headers. valid_name n"
  by (simp add: http_headers_def valid_name_def NUL_def)

text \<open>The header is one of those an operation drops.\<close>

definition drops :: "httph list \<Rightarrow> string \<Rightarrow> bool" where
  "drops how s \<longleftrightarrow> (\<exists>(n, e) \<in> set http_headers. (\<exists>f \<in> set e. f \<in> set how) \<and> named n s)"

lemma filtered_by_names:
  "\<forall>(n, e) \<in> set hs. valid_name n \<Longrightarrow>
   filtered_by hs how t = Some (\<exists>(n, e) \<in> set hs. (\<exists>f \<in> set e. f \<in> set how) \<and> named n (snd t))"
proof (induction hs)
  case (Cons x hs)
  obtain n e where x: "x = (n, e)" by fastforce
  show ?case using Cons http_IsHdr_named [of n t] by (auto simp: x list_ex_iff)
qed simp

lemma filtered_by_drops: "filtered_by http_headers how t = Some (drops how (snd t))"
  using filtered_by_names [OF http_headers_valid] by (simp add: drops_def)

definition keep :: "http \<Rightarrow> httph list \<Rightarrow> nat \<Rightarrow> bool" where
  "keep fm how u \<longleftrightarrow> (case hp_hd fm ! u of None \<Rightarrow> False | Some t \<Rightarrow> \<not> hp_filter fm ! u \<and> \<not> drops how (snd t))"

lemma kept_keep: "kept fm how u = Some (keep fm how u)"
  by (auto simp: kept_def keep_def filtered_by_drops split: option.splits)

lemma filter_from_hd:
  assumes "\<forall>u \<in> set us. u < hp_shd fm" "http_wf to"
  shows "\<exists>to'. filter_from to fm how us = Some to' \<and> http_wf to' \<and> hp_shd to' = hp_shd to \<and> hp_status to' = hp_status to \<and>
    take (hp_nhd to') (hp_hd to') = take (hp_nhd to) (hp_hd to) @
      take (hp_shd to - hp_nhd to) (map ((!) (hp_hd fm)) (filter (keep fm how) us))"
  using assms
proof (induction us arbitrary: to)
  case Nil
  then show ?case by simp
next
  case (Cons u us)
  show ?case
  proof (cases "keep fm how u")
    case False
    then show ?thesis using Cons by (simp add: kept_keep)
  next
    case True
    then obtain t where t: "hp_hd fm ! u = Some t" by (auto simp: keep_def split: option.splits)
    show ?thesis
    proof (cases "hp_nhd to < hp_shd to")
      case room: True
      define t1 where "t1 = to\<lparr>hp_hd := (hp_hd to)[hp_nhd to := Some t],
        hp_filter := (hp_filter to)[hp_nhd to := False], hp_nhd := hp_nhd to + 1\<rparr>"
      have w: "http_wf t1" "hp_shd t1 = hp_shd to" "hp_status t1 = hp_status to" using Cons.prems(2) room by (auto simp: t1_def http_wf_def)
      have r: "filter_from to fm how (u # us) = filter_from t1 fm how us"
        using True t room Cons.prems(1) by (simp add: kept_keep http_copyheader_def t1_def)
      have "take (hp_nhd t1) (hp_hd t1) = take (hp_nhd to) (hp_hd to) @ [Some t]"
        using room Cons.prems(2) by (simp add: t1_def http_wf_def take_Suc_conv_app_nth)
      moreover have "hp_shd to - hp_nhd to = Suc (hp_shd t1 - hp_nhd t1)" using room by (simp add: t1_def)
      ultimately show ?thesis using Cons.IH [OF _ w(1)] Cons.prems(1) r w(2,3) True t by auto
    next
      case False
      then have r: "filter_from to fm how (u # us) = filter_from to fm how us"
        using True t Cons.prems(1) by (simp add: kept_keep http_copyheader_def)
      show ?thesis unfolding r using Cons.IH [OF _ Cons.prems(2)] Cons.prems(1) False by simp
    qed
  qed
qed

text \<open>
  \<open>http_FilterFields\<close> copies, in order and up to the room there is, exactly the headers
  that are not marked by \<open>Connection\<close> and not listed as dropped for the operation.
\<close>

theorem http_FilterFields_correct:
  assumes "http_wf fm" "http_wf to"
  shows "\<exists>to'. http_FilterFields to fm how = Some to' \<and> http_wf to' \<and> hp_status to' = hp_status fm \<and>
    drop HTTP_HDR_FIRST (take (hp_nhd to') (hp_hd to')) =
      take (hp_shd to - HTTP_HDR_FIRST)
        (map ((!) (hp_hd fm)) (filter (keep fm how) [HTTP_HDR_FIRST..<hp_nhd fm])) \<and>
    (\<forall>s \<in> set (headers to'). \<not> drops how s)"
proof -
  let ?to = "to\<lparr>hp_nhd := HTTP_HDR_FIRST, hp_status := hp_status fm\<rparr>"
  have w: "http_wf ?to" using assms(2) by (auto simp: http_wf_def)
  obtain to' where t: "http_FilterFields to fm how = Some to'" "http_wf to'" "hp_status to' = hp_status fm"
    "take (hp_nhd to') (hp_hd to') = take HTTP_HDR_FIRST (hp_hd to) @
      take (hp_shd to - HTTP_HDR_FIRST) (map ((!) (hp_hd fm)) (filter (keep fm how) [HTTP_HDR_FIRST..<hp_nhd fm]))"
    using filter_from_hd [OF _ w, of "[HTTP_HDR_FIRST..<hp_nhd fm]" fm how] assms(1)
    by (auto simp: http_FilterFields_def http_wf_def)
  have l: "length (take HTTP_HDR_FIRST (hp_hd to)) = HTTP_HDR_FIRST" using assms(2) by (simp add: http_wf_def)
  have d: "drop HTTP_HDR_FIRST (take (hp_nhd to') (hp_hd to')) =
      take (hp_shd to - HTTP_HDR_FIRST)
        (map ((!) (hp_hd fm)) (filter (keep fm how) [HTTP_HDR_FIRST..<hp_nhd fm]))"
    unfolding t(4) using l by simp
  have "\<not> drops how s" if h: "s \<in> set (headers to')" for s
  proof -
    obtain a u where "Some (a, s) = hp_hd fm ! u" "keep fm how u"
      using h unfolding headers_mem d by (auto dest!: in_set_takeD)
    then show ?thesis by (auto simp: keep_def split: option.splits)
  qed
  then show ?thesis using t(1-3) d by blast
qed

subsection \<open>Copying into the workspace\<close>

lemma WS_Alloc_home:
  assumes "ws_inv ws" "ws_r ws = None"
  shows "\<exists>p ws'. WS_Alloc ws n = Some (p, ws') \<and> ws_inv ws' \<and> ws_r ws' = None \<and> ws_s ws' = ws_s ws \<and>
     ws_e ws' = ws_e ws \<and> (\<forall>a. p = Some a \<longrightarrow> ws_s ws \<le> a \<and> a + n \<le> ws_e ws)"
  using assms by (auto simp: WS_Alloc_def ws_invD ws_inv_simps)

lemma copy_home_step:
  "copy_home_from hp ws (u # us) =
     (case hp_hd hp ! u of
        None \<Rightarrow> copy_home_from hp ws us
      | Some t \<Rightarrow> if at_home ws t then copy_home_from hp ws us
          else Option.bind (WS_Alloc ws (Tlen t + 1)) (\<lambda>(p, ws).
            copy_home_from (set_hd hp u (map_option (\<lambda>a. (a, snd t)) p)) ws us))"
  by (auto split: option.splits simp: map_option_case intro!: arg_cong [of _ _ "Option.bind _"])

definition home_or_lost :: "ws \<Rightarrow> htxt option \<Rightarrow> htxt option \<Rightarrow> bool" where
  "home_or_lost ws old new \<longleftrightarrow> (case new of None \<Rightarrow> True
     | Some t \<Rightarrow> at_home ws t \<and> map_option snd old = Some (snd t))"

lemma copy_home_from_home:
  assumes "ws_inv ws" "ws_r ws = None" "distinct us" "\<forall>u \<in> set us. u < length (hp_hd hp)"
  shows "\<exists>hp' ws'. copy_home_from hp ws us = Some (hp', ws') \<and> ws_inv ws' \<and> hp_nhd hp' = hp_nhd hp \<and>
     ws_s ws' = ws_s ws \<and> ws_e ws' = ws_e ws \<and> length (hp_hd hp') = length (hp_hd hp) \<and>
     (\<forall>u \<in> set us. home_or_lost ws (hp_hd hp ! u) (hp_hd hp' ! u)) \<and>
     (\<forall>u. u \<notin> set us \<longrightarrow> hp_hd hp' ! u = hp_hd hp ! u)"
  using assms
proof (induction us arbitrary: hp ws)
  case Nil
  then show ?case by simp
next
  case (Cons u us)
  have skip: ?case if "home_or_lost ws (hp_hd hp ! u) (hp_hd hp ! u)"
    "copy_home_from hp ws (u # us) = copy_home_from hp ws us"
    using Cons.IH [OF Cons.prems(1,2), of hp] Cons.prems(3,4) that by (auto split: if_splits)
  show ?case
  proof (cases "hp_hd hp ! u")
    case None
    then show ?thesis by (intro skip) (simp_all add: home_or_lost_def)
  next
    case (Some t)
    show ?thesis
    proof (cases "at_home ws t")
      case True
      then show ?thesis using Some by (intro skip) (simp_all add: home_or_lost_def)
    next
      case False
      obtain p ws1 where a: "WS_Alloc ws (Tlen t + 1) = Some (p, ws1)" "ws_inv ws1" "ws_r ws1 = None"
        "ws_s ws1 = ws_s ws" "ws_e ws1 = ws_e ws" "\<forall>x. p = Some x \<longrightarrow> ws_s ws \<le> x \<and> x + (Tlen t + 1) \<le> ws_e ws"
        using WS_Alloc_home [OF Cons.prems(1,2)] by metis
      define h1 where "h1 = set_hd hp u (map_option (\<lambda>a. (a, snd t)) p)"
      have run: "copy_home_from hp ws (u # us) = copy_home_from h1 ws1 us"
        using Some False a(1) by (simp only: copy_home_step h1_def) simp
      have h1: "hp_nhd h1 = hp_nhd hp" "length (hp_hd h1) = length (hp_hd hp)"
        "hp_hd h1 ! u = map_option (\<lambda>a. (a, snd t)) p" "\<And>v. v \<noteq> u \<Longrightarrow> hp_hd h1 ! v = hp_hd hp ! v"
        using Cons.prems(4) by (simp_all add: h1_def set_hd_def)
      obtain hp' ws' where r: "copy_home_from h1 ws1 us = Some (hp', ws')" "ws_inv ws'" "hp_nhd hp' = hp_nhd hp"
        "ws_s ws' = ws_s ws" "ws_e ws' = ws_e ws" "length (hp_hd hp') = length (hp_hd hp)"
        "\<forall>v \<in> set us. home_or_lost ws1 (hp_hd h1 ! v) (hp_hd hp' ! v)"
        "\<forall>v. v \<notin> set us \<longrightarrow> hp_hd hp' ! v = hp_hd h1 ! v"
        using Cons.IH [OF a(2,3), of h1] Cons.prems(3,4) h1 a(4,5) by auto
      have "at_home ws1 = at_home ws" using a(4,5) by (simp add: at_home_def fun_eq_iff)
      then have same: "home_or_lost ws1 = home_or_lost ws" by (intro ext) (simp only: home_or_lost_def)
      have "home_or_lost ws (hp_hd hp ! u) (hp_hd hp' ! u)"
        using r(8) Cons.prems(3) h1(3) a(6) Some
        by (cases p) (auto simp: home_or_lost_def at_home_def Tlen_def)
      moreover have "home_or_lost ws (hp_hd hp ! v) (hp_hd hp' ! v)" if v: "v \<in> set us" for v
      proof -
        have "v \<noteq> u" using v Cons.prems(3) by auto
        then show ?thesis using r(7) v same h1(4) [of v] by metis
      qed
      ultimately show ?thesis using run r h1(4) by auto
    qed
  qed
qed


section \<open>Witnesses\<close>

text \<open>A message with the given headers, for concrete runs.\<close>

definition mk_msg :: "string list \<Rightarrow> http" where
  "mk_msg hs = (HTTP_create (8 + length hs))\<lparr>hp_hd := replicate 5 None @ map (\<lambda>h. Some (0, h)) hs @ replicate 3 None,
     hp_nhd := 5 + length hs\<rparr>"

lemmas http_eval = mk_msg_def HTTP_create_def http_GetHdr_def http_findhdr_def HTTP_HDR_FIRST_def H_of_def
  NUL_def nth_append strncaseeq_def tolower_def cstr_def vct_issp_def vct_is_def vct_typtab_def Let_def

definition ex_req :: http where
  "ex_req = \<lparr>hp_conds = False, hp_logtag = HTTP_Rx, hp_status = 0, hp_protover = 11, hp_shd = 8,
     hp_hd = [Some (10, ''GET''), Some (20, ''/''), Some (30, ''HTTP/1.1''), None, None,
              Some (40, ''Host: a''), Some (50, ''Keep-Alive: 3''), None],
     hp_filter = replicate 8 False, hp_nhd = 7\<rparr>"

lemma ex_req_wf: "http_wf ex_req" "headers ex_req = [''Host: a'', ''Keep-Alive: 3'']"
  "hdr_texts ex_req = map Some [''Host: a'', ''Keep-Alive: 3'']"
  by (simp_all add: http_wf_def ex_req_def headers_def hdr_texts_def HTTP_HDR_FIRST_def map_filter_simps)

theorem http_Unset_correct_witness:
  "http_wf ex_req \<and> valid_name ''host'' \<and>
   (\<exists>hp'. http_Unset ex_req (H_of ''host'') = Some hp' \<and> headers hp' = [''Keep-Alive: 3''] \<and>
      http_GetHdr hp' (H_of ''host'') = Some None)"
proof -
  have "valid_name ''host''" by (simp add: valid_name_def NUL_def)
  moreover have "named ''host'' ''Host: a''" "\<not> named ''host'' ''Keep-Alive: 3''"
    by (simp_all add: named_def tolower_def char_of_def bit_0)
  ultimately show ?thesis using http_Unset_correct [OF ex_req_wf(1)] ex_req_wf by fastforce
qed

theorem http_FilterFields_correct_witness:
  "\<exists>to'. http_FilterFields (HTTP_create 8\<lparr>hp_nhd := 5\<rparr>) ex_req [HTTPH_R_PASS] = Some to' \<and>
     http_wf to' \<and> (\<forall>s \<in> set (headers to'). \<not> drops [HTTPH_R_PASS] s)"
proof -
  have "http_wf (HTTP_create 8\<lparr>hp_nhd := 5\<rparr>)" by (simp add: http_wf_def HTTP_create_def HTTP_HDR_FIRST_def)
  then show ?thesis using http_FilterFields_correct [OF ex_req_wf(1)] by blast
qed


theorem http_request_roundtrip_witness:
  "\<exists>s to'. http_Write ex_req False = Some s \<and> http_DissectRequest (HTTP_create 8) (500, s) = Some (0, to') \<and>
     hdr_texts to' = [Some ''Host: a'', Some ''Keep-Alive: 3'']"
proof -
  obtain s where s: "http_Write ex_req False = Some s"
    by (simp add: http_Write_def write_h_def ex_req_def HTTP_HDR_REQ_def HTTP_HDR_URL_def HTTP_HDR_PROTO_def)
  have g: "good_method ''GET''" "good_url ''/''" "good_proto ''HTTP/1.1''"
    "list_all good_header [''Host: a'', ''Keep-Alive: 3'']"
    by (simp_all add: good_method_def good_url_def good_proto_def good_header_def vct_issp_def vct_isctl_def
        vct_islws_def vct_iscrlf_def vct_is_def vct_typtab_def)
  have h: "hp_hd ex_req ! HTTP_HDR_REQ = Some (10, ''GET'')" "hp_hd ex_req ! HTTP_HDR_URL = Some (20, ''/'')"
    "hp_hd ex_req ! HTTP_HDR_PROTO = Some (30, ''HTTP/1.1'')"
    by (simp_all add: ex_req_def HTTP_HDR_REQ_def HTTP_HDR_URL_def HTTP_HDR_PROTO_def)
  show ?thesis
    using http_request_roundtrip [OF h ex_req_wf(3) g s, where to = "HTTP_create 8" and a = 500] s
    by (auto simp: HTTP_HDR_FIRST_def HTTP_create_def)
qed

end
