(* ===== verification/Vary.thy ===== *)
theory Vary
  imports Http_Props
begin

text \<open>
  Object variants: \<open>bin/varnishd/cache_vary.c\<close>.

  \<open>VRY_Create\<close> turns the \<open>Vary:\<close> header of a backend response into a match string for the request
  that caused the fetch; \<open>VRY_Match\<close> decides whether a later request may use the object.  The match
  string has, for every header name, the length byte, the name, a colon and NUL, and then two length bytes
  and the value, or \<open>0xffff\<close> for a header that is not there; a NUL ends it.

  The \<open>vsb\<close> buffers are the texts they hold.  Reading beyond the match string is None, as a panic is.
\<close>

section \<open>The code\<close>

definition byte_of :: "nat \<Rightarrow> char" where
  "byte_of n = char_of (n mod 256)"

text \<open>Leading and trailing white space, by \<open>isspace\<close>.\<close>

definition trim_value :: "string \<Rightarrow> string" where
  "trim_value h = rev (dropWhile is_space (rev (dropWhile is_space h)))"

definition vary_name_char :: "char \<Rightarrow> bool" where
  "vary_name_char c \<longleftrightarrow> \<not> is_space c \<and> c \<noteq> CHR '',''"

definition vary_header :: "string \<Rightarrow> string" where
  "vary_header n = byte_of (1 + length n) # n @ '':'' @ [NUL]"

definition vary_value :: "string option \<Rightarrow> string option" where
  "vary_value v = (case v of
     None \<Rightarrow> Some [byte_of 0xff, byte_of 0xff]
   | Some h \<Rightarrow> (let h = trim_value h; l = length h in do {
       chk (l \<le> 0xffff);
       Some (byte_of (l div 256) # byte_of l # h) }))"

function vary_loop :: "http \<Rightarrow> string \<Rightarrow> string \<Rightarrow> string option" where
  "vary_loop req sb [] = Some sb"
| "vary_loop req sb (c # p) = (
     if is_space c then vary_loop req sb p
     else let n = takeWhile vary_name_char (c # p);
              q = dropWhile is_space (dropWhile vary_name_char (c # p));
              sbh = vary_header n
          in do {
            h \<leftarrow> http_GetHdr req sbh;
            v \<leftarrow> vary_value h;
            let sb = sb @ sbh @ v;
            (case q of
               [] \<Rightarrow> Some sb
             | d # q \<Rightarrow> do { chk (d = CHR '',''); vary_loop req sb q }) })"
  by pat_completeness auto
termination
proof (relation "measure (\<lambda>(r, sb, p). length p)", goal_cases)
  case (3 req sb c p n q sbh h v sb' d q' u)
  have "length (d # q') \<le> length (dropWhile vary_name_char (c # p))"
    using 3 by (metis length_dropWhile_le)
  also have "\<dots> \<le> length (c # p)" by (rule length_dropWhile_le)
  finally show ?case by simp
qed auto

definition VRY_Create :: "http \<Rightarrow> http \<Rightarrow> string option option" where
  "VRY_Create req hp = do {
     v \<leftarrow> http_GetHdr hp (H_of ''Vary'');
     (case v of
        None \<Rightarrow> Some None
      | Some v \<Rightarrow> do { sb \<leftarrow> vary_loop req [] v; Some (Some (sb @ [NUL])) }) }"

function VRY_Match :: "http \<Rightarrow> string \<Rightarrow> bool option" where
  "VRY_Match req [] = None"
| "VRY_Match req (c # rest) = (
     if c = NUL then Some True
     else do {
       i \<leftarrow> http_GetHdr req (c # rest);
       let vary = drop (of_char c + 1) rest;
       chk (2 \<le> length vary);
       let l = of_char (vary ! 0) * 256 + of_char (vary ! 1);
       let vary = drop 2 vary;
       (case i of
          None \<Rightarrow> if l \<noteq> 0xffff then Some False else VRY_Match req vary
        | Some h \<Rightarrow>
            if l = 0xffff then Some False
            else let h = trim_value h in
              if length h \<noteq> l then Some False
              else if h \<noteq> take l vary then Some False
              else VRY_Match req (drop l vary)) })"
  by pat_completeness auto
termination
  by (relation "measure (\<lambda>(r, v). length v)") auto

declare vary_loop.simps [simp del] VRY_Match.simps [simp del]

section \<open>Which requests match\<close>

lemma vary_header_H: "valid_name n \<Longrightarrow> vary_header n = H_of n @ [NUL]"
  by (simp add: vary_header_def H_of_def byte_of_def valid_name_def)

text \<open>The header names of a \<open>Vary:\<close> value: separated by commas, with white space around them.\<close>

function vary_names :: "string \<Rightarrow> string list" where
  "vary_names [] = []"
| "vary_names (c # p) = (
     if is_space c then vary_names p
     else takeWhile vary_name_char (c # p) #
       vary_names (tl (dropWhile is_space (dropWhile vary_name_char (c # p)))))"
  by pat_completeness auto
termination
proof (relation "measure length", goal_cases)
  case (3 c p)
  have "length (dropWhile is_space (dropWhile vary_name_char (c # p))) \<le> length (c # p)"
    by (meson length_dropWhile_le le_trans)
  then show ?case by (auto simp: vary_name_char_def)
qed auto

declare vary_names.simps [simp del]

definition trimmed :: "http \<Rightarrow> string \<Rightarrow> string option" where
  "trimmed req n = map_option trim_value (hdr_value req n)"

definition vary_entry :: "http \<Rightarrow> string \<Rightarrow> string" where
  "vary_entry req n = H_of n @ [NUL] @ (case trimmed req n of
     None \<Rightarrow> [byte_of 0xff, byte_of 0xff]
   | Some h \<Rightarrow> byte_of (length h div 256) # byte_of (length h) # h)"

lemma vary_loop_entries:
  assumes "vary_loop req sb p = Some sb'" "\<forall>n \<in> set (vary_names p). valid_name n"
  shows "sb' = sb @ concat (map (vary_entry req) (vary_names p))
    \<and> (\<forall>n \<in> set (vary_names p). \<forall>h. trimmed req n = Some h \<longrightarrow> length h < 65536)"
  using assms
proof (induction req sb p rule: vary_loop.induct)
  case (1 req sb)
  then show ?case by (simp add: vary_loop.simps vary_names.simps)
next
  case (2 req sb c p)
  show ?case
  proof (cases "is_space c")
    case True
    then show ?thesis using 2 by (simp add: vary_loop.simps vary_names.simps)
  next
    case False
    define n where "n = takeWhile vary_name_char (c # p)"
    define q where "q = dropWhile is_space (dropWhile vary_name_char (c # p))"
    have ns: "vary_names (c # p) = n # vary_names (tl q)"
      using False by (simp add: vary_names.simps(2) n_def q_def)
    then have vn: "valid_name n" using "2.prems"(2) by simp
    have g: "http_GetHdr req (vary_header n) = Some (hdr_value req n)"
      using vn by (simp add: vary_header_H http_GetHdr_value)
    have "vary_loop req sb (c # p) = do { v \<leftarrow> vary_value (hdr_value req n);
        (case q of [] \<Rightarrow> Some (sb @ vary_header n @ v)
               | d # q \<Rightarrow> do { chk (d = CHR '',''); vary_loop req (sb @ vary_header n @ v) q }) }"
      unfolding vary_loop.simps(2) Let_def n_def [symmetric] q_def [symmetric] g by (simp only: False if_False bind.bind_lunit)
    then obtain v where v: "vary_value (hdr_value req n) = Some v"
      and l: "(case q of [] \<Rightarrow> Some (sb @ vary_header n @ v)
               | d # q \<Rightarrow> do { chk (d = CHR '',''); vary_loop req (sb @ vary_header n @ v) q }) = Some sb'"
      using "2.prems"(1) by (metis (no_types, lifting) bind_eq_Some_conv)
    have e: "sb @ vary_header n @ v = sb @ vary_entry req n"
      "\<forall>h. trimmed req n = Some h \<longrightarrow> length h < 65536"
      using v vn by (auto simp: vary_value_def trimmed_def vary_entry_def vary_header_H Let_def split: option.splits)
    show ?thesis
    proof (cases q)
      case Nil
      then show ?thesis using l e ns by (simp add: vary_names.simps)
    next
      case (Cons d q')
      then have "d = CHR '',''" and r: "vary_loop req (sb @ vary_header n @ v) q' = Some sb'"
        using l by auto
      have "sb' = (sb @ vary_header n @ v) @ concat (map (vary_entry req) (vary_names q'))
          \<and> (\<forall>n \<in> set (vary_names q'). \<forall>h. trimmed req n = Some h \<longrightarrow> length h < 65536)"
        by (rule "2.IH"(2) [OF False n_def q_def refl g v refl Cons _ r])
          (use \<open>d = _\<close> "2.prems"(2) ns Cons in auto)
      then show ?thesis using e ns Cons by simp
    qed
  qed
qed

lemma byte_of_nat: "of_char (byte_of n) = (n mod 256 :: nat)"
  by (simp add: byte_of_def)

lemma byte_of_pair: "l < 65536 \<Longrightarrow> of_char (byte_of (l div 256)) * 256 + of_char (byte_of l) = (l :: nat)"
  by (simp add: byte_of_nat)

text \<open>Matching one entry of the string.\<close>

lemma VRY_Match_entry:
  assumes "valid_name n" "\<forall>h. trimmed r n = Some h \<longrightarrow> length h < 65535"
  shows "VRY_Match req (vary_entry r n @ rest) =
    (if trimmed req n = trimmed r n then VRY_Match req rest else Some False)"
proof -
  obtain c where c: "H_of n = c # n @ '':''" "of_char c = length n + 1"
    using H_of_simps [OF assms(1)] by blast
  have nz: "c \<noteq> NUL"
  proof
    assume "c = NUL"
    then show False using c(2) by (simp add: NUL_def)
  qed
  define v where "v = (case trimmed r n of None \<Rightarrow> [byte_of 0xff, byte_of 0xff]
     | Some h \<Rightarrow> byte_of (length h div 256) # byte_of (length h) # h)"
  have e: "vary_entry r n @ rest = c # (n @ '':'' @ [NUL] @ v @ rest)"
    by (simp add: vary_entry_def c(1) v_def)
  have g: "http_GetHdr req (c # (n @ '':'' @ [NUL] @ v @ rest)) = Some (hdr_value req n)"
    using http_GetHdr_value [OF assms(1), of req "[NUL] @ v @ rest"] by (simp add: c(1))
  have d: "drop (of_char c + 1) (n @ '':'' @ [NUL] @ v @ rest) = v @ rest" by (simp add: c(2))
  have s: "VRY_Match req (vary_entry r n @ rest) = (let l = of_char ((v @ rest) ! 0) * 256 + of_char ((v @ rest) ! 1);
       vary = drop 2 (v @ rest) in
       (case hdr_value req n of
          None \<Rightarrow> if l \<noteq> 0xffff then Some False else VRY_Match req vary
        | Some h \<Rightarrow>
            if l = 0xffff then Some False
            else let h = trim_value h in
              if length h \<noteq> l then Some False
              else if h \<noteq> take l vary then Some False
              else VRY_Match req (drop l vary)))"
    unfolding e VRY_Match.simps(2) g d Let_def using nz by (simp add: v_def split: option.splits)
  show ?thesis
  proof (cases "trimmed r n")
    case None
    then have "v = [byte_of 0xff, byte_of 0xff]" by (simp add: v_def)
    then show ?thesis using s None byte_of_pair [of 65535]
      by (simp add: trimmed_def byte_of_nat split: option.splits)
  next
    case (Some h)
    then have v: "v = byte_of (length h div 256) # byte_of (length h) # h" by (simp add: v_def)
    have l: "length h < 65535" using assms(2) Some by simp
    have "of_char ((v @ rest) ! 0) * 256 + of_char ((v @ rest) ! 1) = length h"
      using byte_of_pair [of "length h"] l v by simp
    moreover have "drop 2 (v @ rest) = h @ rest" using v by simp
    ultimately show ?thesis using s Some l
      by (auto simp: trimmed_def Let_def split: option.splits)
  qed
qed

lemma VRY_Match_entries:
  assumes "\<forall>n \<in> set ns. valid_name n \<and> (\<forall>h. trimmed r n = Some h \<longrightarrow> length h < 65535)"
  shows "VRY_Match req (concat (map (vary_entry r) ns) @ [NUL]) = Some (\<forall>n \<in> set ns. trimmed req n = trimmed r n)"
  using assms
proof (induction ns)
  case Nil
  then show ?case by (simp add: VRY_Match.simps)
next
  case (Cons n ns)
  then show ?case using VRY_Match_entry [of n r req "concat (map (vary_entry r) ns) @ [NUL]"] by simp
qed


lemmas vary_eval = http_eval vary_loop.simps vary_header_def vary_value_def trim_value_def vary_name_char_def
  is_space_def byte_of_def


text \<open>
  A \<open>Vary:\<close> value that begins with a name and white space and then goes on with anything but a
  comma fails an assertion: the backend's response stops the process, whatever the request is.
\<close>
theorem VRY_Create_no_comma:
  assumes "hdr_value resp ''Vary'' = Some (n @ s @ c # r)"
    "n \<noteq> []" "\<forall>x \<in> set n. vary_name_char x" "s \<noteq> []" "\<forall>x \<in> set s. is_space x" "vary_name_char c"
  shows "VRY_Create req resp = None"
proof -
  have v: "http_GetHdr resp (H_of ''Vary'') = Some (Some (n @ s @ c # r))"
    using http_GetHdr_value [of "''Vary''" resp "[]"] assms(1) by (simp add: valid_name_def NUL_def)
  obtain x n' where n: "n = x # n'" "\<not> is_space x" using assms(2,3) by (cases n) (auto simp: vary_name_char_def)
  have "\<not> vary_name_char (hd s)" using assms(4,5) by (cases s) (auto simp: vary_name_char_def)
  then have d: "dropWhile vary_name_char (n @ s @ c # r) = s @ c # r"
    using assms(3,4) by (cases s) (simp_all add: dropWhile_append)
  have e: "dropWhile is_space (s @ c # r) = c # r"
    using assms(5,6) by (simp add: dropWhile_append vary_name_char_def)
  have "vary_loop req [] (n @ s @ c # r) = None"
    using n assms(6) d e by (simp add: vary_loop.simps bind_eq_None_conv Let_def vary_name_char_def)
  then show ?thesis by (simp add: VRY_Create_def v)
qed

theorem VRY_Create_no_comma_witness: "VRY_Create (mk_msg []) (mk_msg [''Vary: A B'']) = None"
proof -
  have "hdr_value (mk_msg [''Vary: A B'']) ''Vary'' = Some (''A'' @ '' '' @ CHR ''B'' # [])" by code_simp
  from VRY_Create_no_comma [OF this] show ?thesis by (simp add: vary_name_char_def is_space_def)
qed

end
