(* ===== verification/Rfc2616.thy ===== *)
theory Rfc2616
  imports Http_Props
begin

text \<open>
  How long a response may be cached: \<open>bin/varnishd/rfc2616.c\<close>, with \<open>TIM_parse\<close> of
  \<open>lib/libvarnish/time.c\<close>.

  \<open>strptime\<close> and \<open>timegm\<close> of the operating system are the parameter \<open>conv\<close>: the time that a format
  reads in a text, None when the text does not have the format.  The conversion of a \<open>double\<close> that does not
  fit an \<open>int\<close> is undefined in C and None here, as a failed assertion is.
\<close>

section \<open>The code\<close>

type_synonym timeconv = "string \<Rightarrow> string \<Rightarrow> int option"

definition fmts :: "string list" where
  "fmts = [''%a, %d %b %Y %T GMT'', ''%A, %d-%b-%y %T GMT'', ''%a %b %d %T %Y'', ''%F %T'']"

fun tim_scan :: "timeconv \<Rightarrow> string list \<Rightarrow> string \<Rightarrow> int" where
  "tim_scan conv [] p = 0"
| "tim_scan conv (r # rs) p = (case conv p r of Some t \<Rightarrow> t | None \<Rightarrow> tim_scan conv rs p)"

definition TIM_parse :: "timeconv \<Rightarrow> string \<Rightarrow> int" where
  "TIM_parse conv p = tim_scan conv fmts p"

record ttl_params =
  default_ttl :: u32
  clock_skew :: u32

text \<open>\<open>(int)d\<close> of a \<open>double\<close> with an integer value\<close>

definition int_of_double :: "int \<Rightarrow> int option" where
  "int_of_double d = (if - (2 ^ 31) \<le> d \<and> d < 2 ^ 31 then Some d else None)"

text \<open>
  \<open>s-maxage\<close> or else \<open>max-age\<close> of \<open>Cache-Control\<close>; a field without a value is a null pointer, and the
  second field is looked for only when the first is not there.
\<close>

definition cc_maxage :: "http \<Rightarrow> string option option" where
  "cc_maxage hp = do {
     s \<leftarrow> http_GetHdrField hp (H_of ''Cache-Control'') ''s-maxage'';
     (case s of
        Some p \<Rightarrow> Some p
      | None \<Rightarrow> do {
          m \<leftarrow> http_GetHdrField hp (H_of ''Cache-Control'') ''max-age'';
          Some (case m of Some p \<Rightarrow> p | None \<Rightarrow> None) }) }"

text \<open>
  The relative part: the new \<open>ttl\<close> and, when there was an \<open>Age:\<close> header, the new \<open>wrk->age\<close>.
\<close>

definition ttl_relative :: "http \<Rightarrow> string \<Rightarrow> (int \<times> u32 option) option" where
  "ttl_relative hp p = do {
     let max_age = (word_of_nat (strtoul 0 p) :: u32);
     a \<leftarrow> http_GetHdr hp (H_of ''Age'');
     let age = (case a of Some q \<Rightarrow> word_of_nat (strtoul 0 q) | None \<Rightarrow> (0 :: u32));
     Some (if age > max_age then 0 else sint (max_age - age), map_option (\<lambda>_. age) a) }"

text \<open>The absolute part: \<open>ttl\<close> and \<open>ttd\<close>.\<close>

definition ttl_absolute :: "timeconv \<Rightarrow> ttl_params \<Rightarrow> real \<Rightarrow> http \<Rightarrow> int \<Rightarrow> (int \<times> real) option" where
  "ttl_absolute conv ps entered hp ttl = do {
     e \<leftarrow> http_GetHdr hp (H_of ''Expires'');
     let h_expires = (case e of Some p \<Rightarrow> TIM_parse conv p | None \<Rightarrow> 0);
     if h_expires = 0 then Some (ttl, 0)
     else do {
       d \<leftarrow> http_GetHdr hp (H_of ''Date'');
       let h_date = (case d of Some p \<Rightarrow> TIM_parse conv p | None \<Rightarrow> 0);
       let skew = real (unat (clock_skew ps));
       if h_expires < h_date then Some (0, 0)
       else if h_date = 0 \<or> of_int h_date < entered + skew \<and> of_int h_date + skew > entered
       then (if of_int h_expires < entered then Some (0, 0) else Some (ttl, of_int h_expires))
       else do { t \<leftarrow> int_of_double (h_expires - h_date); Some (t, 0) } } }"

text \<open>The time to die and the new \<open>wrk->age\<close>; \<open>entered\<close> is \<open>wrk->entered\<close>, None for \<open>NAN\<close>.\<close>

definition RFC2616_Ttl :: "timeconv \<Rightarrow> ttl_params \<Rightarrow> real option \<Rightarrow> http \<Rightarrow> (real \<times> u32 option) option" where
  "RFC2616_Ttl conv ps entered hp = do {
     entered \<leftarrow> entered;
     chk (entered \<noteq> 0);
     let ttl = sint (default_ttl ps);
     m \<leftarrow> cc_maxage hp;
     (ttl, ttd, age) \<leftarrow> (case m of
        Some p \<Rightarrow> do { (ttl, age) \<leftarrow> ttl_relative hp p; Some (ttl, 0, age) }
      | None \<Rightarrow> do { (ttl, ttd) \<leftarrow> ttl_absolute conv ps entered hp ttl; Some (ttl, ttd, None) });
     Some (if ttl > 0 \<and> ttd = 0 then entered + of_int ttl else ttd, age) }"

section \<open>What it promises\<close>

lemma GetHdr_known:
  "http_GetHdr hp (H_of ''Expires'') = Some (hdr_value hp ''Expires'')"
  "http_GetHdr hp (H_of ''Date'') = Some (hdr_value hp ''Date'')"
  "http_GetHdr hp (H_of ''Age'') = Some (hdr_value hp ''Age'')"
  "http_GetHdr hp (H_of ''Cache-Control'') = Some (hdr_value hp ''Cache-Control'')"
  using http_GetHdr_value [of _ hp "[]"] by (simp_all add: valid_name_def NUL_def)

lemma sint_u32_lt: "sint (w :: u32) < 2 ^ 31"
  using sint_lt [of w] by simp

definition age_of :: "http \<Rightarrow> nat" where
  "age_of hp = (case hdr_value hp ''Age'' of Some q \<Rightarrow> strtoul 0 q mod 2 ^ 32 | None \<Rightarrow> 0)"

lemma sint_u32_sub:
  fixes a m :: u32
  assumes "a \<le> m"
  shows "sint (m - a) = (if unat m - unat a < 2 ^ 31 then int (unat m - unat a) else int (unat m - unat a) - 2 ^ 32)"
proof -
  have u: "uint (m - a) = int (unat m - unat a)"
    using assms by (simp add: uint_minus_simple_alt [THEN iffD1] word_le_nat_alt of_nat_diff)
  have lt: "0 \<le> uint (m - a)" "uint (m - a) < 2 ^ 32"
    using unsigned_less [of "m - a", where ?'a = int] by simp_all
  have "sint (m - a) = (uint (m - a) + 2 ^ 31) mod 2 ^ 32 - 2 ^ 31"
    by (simp add: sint_uint signed_take_bit_eq_take_bit_shift take_bit_eq_mod)
  also have "\<dots> = (if uint (m - a) < 2 ^ 31 then uint (m - a) else uint (m - a) - 2 ^ 32)"
  proof (cases "uint (m - a) < 2 ^ 31")
    case True
    then show ?thesis using lt by (subst mod_pos_pos_trivial) simp_all
  next
    case False
    have "(uint (m - a) + 2 ^ 31) mod 2 ^ 32 = (uint (m - a) + 2 ^ 31 - 2 ^ 32) mod 2 ^ 32"
      by (rule minus_mod_self2 [symmetric])
    also have "\<dots> = uint (m - a) + 2 ^ 31 - 2 ^ 32" using False lt by (intro mod_pos_pos_trivial) simp_all
    finally show ?thesis using False by simp
  qed
  finally show ?thesis by (simp add: u nat_less_iff flip: zless_nat_eq_int_zless)
qed

lemma ttl_relative_value:
  "ttl_relative hp p = Some (
     (let m = strtoul 0 p mod 2 ^ 32; a = age_of hp in
      if a > m then 0 else if m - a < 2 ^ 31 then int (m - a) else int (m - a) - 2 ^ 32),
     map_option (\<lambda>q. word_of_nat (strtoul 0 q)) (hdr_value hp ''Age''))"
proof -
  let ?m = "word_of_nat (strtoul 0 p) :: u32"
  let ?a = "(case hdr_value hp ''Age'' of Some q \<Rightarrow> word_of_nat (strtoul 0 q) | None \<Rightarrow> 0) :: u32"
  have u: "unat ?m = strtoul 0 p mod 2 ^ 32" "unat ?a = age_of hp"
    by (simp_all add: unsigned_of_nat take_bit_eq_mod age_of_def split: option.splits)
  have "(if ?a > ?m then 0 else sint (?m - ?a)) = (let m = unat ?m; a = unat ?a in
      if a > m then 0 else if m - a < 2 ^ 31 then int (m - a) else int (m - a) - 2 ^ 32)"
    using sint_u32_sub [of ?a ?m] by (auto simp: Let_def word_less_nat_alt word_le_nat_alt not_less)
  then show ?thesis
    unfolding u by (simp add: ttl_relative_def GetHdr_known Let_def) (simp split: option.splits)
qed

lemma ttl_absolute_cases:
  assumes "ttl_absolute conv ps entered hp ttl = Some (t, d)" "ttl < 2 ^ 31"
  shows "t < 2 ^ 31 \<and> (d = 0 \<or> entered \<le> d \<and> (\<exists>p. hdr_value hp ''Expires'' = Some p \<and> d = of_int (TIM_parse conv p)))"
  using assms
  by (auto simp: ttl_absolute_def GetHdr_known int_of_double_def bind_eq_Some_conv Let_def
           split: if_splits option.splits)

lemma RFC2616_Ttl_cases:
  assumes "RFC2616_Ttl conv ps (Some entered) hp = Some (ttd, age)"
  obtains (rel) p t where "cc_maxage hp = Some (Some p)" "ttl_relative hp p = Some (t, age)"
    "ttd = (if t > 0 then entered + of_int t else 0)"
  | (abso) t d where "cc_maxage hp = Some None" "ttl_absolute conv ps entered hp (sint (default_ttl ps)) = Some (t, d)"
    "ttd = (if t > 0 \<and> d = 0 then entered + of_int t else d)"
proof -
  obtain m where m: "cc_maxage hp = Some m" using assms by (auto simp: RFC2616_Ttl_def bind_eq_Some_conv)
  then show thesis
    using assms that by (cases m) (auto simp: RFC2616_Ttl_def bind_eq_Some_conv Let_def)
qed

text \<open>
  C38 (bounds).  The time to die of a response is either zero, which says that it must not be cached, or not
  before the time at which the backend's answer came in; and it is less than \<open>2 ^ 31\<close> seconds after
  that unless the backend gave the time itself in an \<open>Expires:\<close> header.
\<close>
theorem RFC2616_Ttl_bounds:
  assumes "RFC2616_Ttl conv ps (Some entered) hp = Some (ttd, age)"
  shows "ttd = 0 \<or> entered \<le> ttd \<and>
    (ttd < entered + 2 ^ 31 \<or> (\<exists>p. hdr_value hp ''Expires'' = Some p \<and> ttd = of_int (TIM_parse conv p)))"
  using assms
proof (cases rule: RFC2616_Ttl_cases)
  case (rel p t)
  have "t < 2 ^ 31" using rel(2) sint_u32_lt by (auto simp: ttl_relative_def bind_eq_Some_conv Let_def split: if_splits)
  then show ?thesis using rel(3) by auto
next
  case (abso t d)
  then show ?thesis using ttl_absolute_cases [OF abso(2) sint_u32_lt] by auto
qed

text \<open>
  C39 (functional).  A \<open>Cache-Control\<close> header with \<open>s-maxage\<close> or \<open>max-age\<close> decides alone: the response dies
  \<open>max-age\<close> less \<open>Age\<close> seconds after it came in, both read modulo \<open>2 ^ 32\<close>; when \<open>Age\<close> is not smaller,
  or the difference is \<open>2 ^ 31\<close> or more and so turns negative in an \<open>int\<close>, it is not cached.
\<close>
theorem RFC2616_Ttl_max_age:
  assumes "cc_maxage hp = Some (Some p)" "entered \<noteq> 0"
  shows "map_option fst (RFC2616_Ttl conv ps (Some entered) hp) = Some (
    let m = strtoul 0 p mod 2 ^ 32; a = age_of hp in
    if a < m \<and> m - a < 2 ^ 31 then entered + real (m - a) else 0)"
proof -
  have lt: "m - a < 2 ^ 32" if "m = strtoul 0 p mod 2 ^ 32" for m a :: nat
    using that mod_less_divisor [of "2 ^ 32" "strtoul 0 p"] by simp
  show ?thesis
    using assms lt [OF refl, of "age_of hp"]
    by (simp add: RFC2616_Ttl_def ttl_relative_value Let_def of_nat_diff) arith
qed

lemma cc_maxage_ex: "cc_maxage (mk_msg [''Cache-Control: public, max-age=120'', ''Age: 20'']) = Some (Some ''120'')"
  by code_simp

theorem RFC2616_Ttl_max_age_witness:
  "map_option fst (RFC2616_Ttl (\<lambda>p f. None) \<lparr>default_ttl = 120, clock_skew = 10\<rparr> (Some 1000) (mk_msg [''Cache-Control: public, max-age=120'', ''Age: 20''])) = Some 1100"
proof -
  have a: "hdr_value (mk_msg [''Cache-Control: public, max-age=120'', ''Age: 20'']) ''Age'' = Some ''20''" by code_simp
  have n: "strtoul 0 ''20'' = 20" "strtoul 0 ''120'' = 120"
    by (simp_all add: strtoul_def digit_val_def is_space_def cstr_def NUL_def)
  show ?thesis
    using RFC2616_Ttl_max_age [OF cc_maxage_ex, of 1000 "\<lambda>p f. None" "\<lparr>default_ttl = 120, clock_skew = 10\<rparr>"] by (simp add: age_of_def a n)
qed

theorem RFC2616_Ttl_bounds_witness:
  "RFC2616_Ttl (\<lambda>p f. Some 2000) \<lparr>default_ttl = 120, clock_skew = 10\<rparr> (Some 1000) (mk_msg [''Expires: x'']) = Some (2000, None)
   \<and> 1000 \<le> (2000::real)"
proof -
  have h: "hdr_value (mk_msg [''Expires: x'']) ''Expires'' = Some ''x''" "hdr_value (mk_msg [''Expires: x'']) ''Date'' = None"
    by code_simp+
  have c: "cc_maxage (mk_msg [''Expires: x'']) = Some None" by code_simp
  have r: "RFC2616_Ttl (\<lambda>p f. Some 2000) \<lparr>default_ttl = 120, clock_skew = 10\<rparr> (Some 1000) (mk_msg [''Expires: x'']) = Some (2000, None)"
    by (simp add: RFC2616_Ttl_def c ttl_absolute_def GetHdr_known h TIM_parse_def fmts_def)
  show ?thesis using RFC2616_Ttl_bounds [OF r] r by simp
qed

end
