(* ===== verification/Vsb.thy ===== *)
theory Vsb
  imports CLib
begin

text \<open>
  String buffers: \<open>lib/libvarnish/vsb.c\<close>, \<open>include/vsb.h\<close>.

  \<open>s_data\<close> is what the buffer holds, its first \<open>s_len\<close> bytes; the bytes behind them are never read.
  Whether \<open>malloc\<close> of a number of bytes succeeds is the argument \<open>alloc\<close>.  Sizes are natural numbers;
  a size that does not fit the \<open>int\<close> of \<open>vsb_extendsize\<close> is undefined behaviour and None, as a failed
  assertion is.  \<open>vsb_printf\<close> gets the formatted text.
\<close>

section \<open>State\<close>

record vsb =
  s_data :: string
  s_size :: nat
  s_autoextend :: bool
  s_dynamic :: bool
  s_finished :: bool
  s_overflowed :: bool
  s_dynstruct :: bool

type_synonym malloc = "nat \<Rightarrow> bool"

definition VSB_MINEXTENDSIZE :: nat where "VSB_MINEXTENDSIZE = 16"
definition VSB_MAXEXTENDSIZE :: nat where "VSB_MAXEXTENDSIZE = 4096"
definition VSB_MAXEXTENDINCR :: nat where "VSB_MAXEXTENDINCR = 4096"

definition s_len :: "vsb \<Rightarrow> nat" where
  "s_len s = length (s_data s)"

definition VSB_HASROOM :: "vsb \<Rightarrow> bool" where
  "VSB_HASROOM s \<longleftrightarrow> s_len s < s_size s - 1"

definition VSB_FREESPACE :: "vsb \<Rightarrow> nat" where
  "VSB_FREESPACE s = s_size s - (s_len s + 1)"

text \<open>\<open>vsb_assert_integrity\<close> and \<open>vsb_assert_state\<close>\<close>

definition vsb_integrity :: "vsb \<Rightarrow> bool" where
  "vsb_integrity s \<longleftrightarrow> s_len s < s_size s"

definition vsb_state :: "vsb \<Rightarrow> bool \<Rightarrow> bool" where
  "vsb_state s state \<longleftrightarrow> s_finished s = state"

section \<open>Growing\<close>

text \<open>The loop of \<open>vsb_extendsize\<close>; \<open>newsize\<close> is positive from the start.\<close>

function extend_from :: "nat \<Rightarrow> nat \<Rightarrow> nat" where
  "extend_from newsize sz = (
     if newsize < sz \<and> newsize > 0
     then extend_from (if newsize < VSB_MAXEXTENDSIZE then newsize * 2 else newsize + VSB_MAXEXTENDINCR) sz
     else newsize)"
  by pat_completeness auto
termination
  by (relation "measure (\<lambda>(n, s). s - n)") (auto simp: VSB_MAXEXTENDINCR_def)

declare extend_from.simps [simp del]

definition vsb_extendsize :: "nat \<Rightarrow> nat option" where
  "vsb_extendsize sz = do {
     chk (sz < 2 ^ 31);
     let newsize = extend_from VSB_MINEXTENDSIZE sz;
     chk (newsize < 2 ^ 31);
     Some newsize }"

definition vsb_extend :: "malloc \<Rightarrow> vsb \<Rightarrow> nat \<Rightarrow> (int \<times> vsb) option" where
  "vsb_extend alloc s addlen = (
     if \<not> s_autoextend s then Some (- 1, s)
     else do {
       newsize \<leftarrow> vsb_extendsize (s_size s + addlen);
       Some (if \<not> alloc newsize then (- 1, s) else (0, s\<lparr>s_dynamic := True, s_size := newsize\<rparr>)) })"

text \<open>
  \<open>vsb_new\<close> with \<open>flags\<close> either none or \<open>VSB_AUTOEXTEND\<close>; \<open>s\<close> tells whether the caller supplied
  the structure and \<open>buf\<close> whether it supplied the buffer.  The result None within the option is a null
  pointer.
\<close>

definition vsb_new :: "malloc \<Rightarrow> bool \<Rightarrow> bool \<Rightarrow> nat \<Rightarrow> bool \<Rightarrow> vsb option option" where
  "vsb_new alloc s buf len auto = do {
     let v = \<lparr>s_data = [], s_size = len, s_autoextend = auto, s_dynamic = False,
              s_finished = False, s_overflowed = False, s_dynstruct = \<not> s\<rparr>;
     if \<not> s \<and> \<not> alloc 40 then Some None
     else if buf then Some (Some v)
     else do {
       sz \<leftarrow> (if auto then vsb_extendsize len else Some len);
       Some (if alloc sz then Some (v\<lparr>s_size := sz, s_dynamic := True\<rparr>) else None) } }"

definition vsb_newauto :: "malloc \<Rightarrow> vsb option option" where
  "vsb_newauto alloc = vsb_new alloc False False 0 True"

section \<open>Operations\<close>

definition vsb_clear :: "vsb \<Rightarrow> vsb option" where
  "vsb_clear s = do {
     chk (vsb_integrity s);
     Some (s\<lparr>s_finished := False, s_overflowed := False, s_data := []\<rparr>) }"

definition vsb_setpos :: "vsb \<Rightarrow> int \<Rightarrow> (int \<times> vsb) option" where
  "vsb_setpos s pos = do {
     chk (vsb_integrity s \<and> vsb_state s False);
     chk (pos \<ge> 0);
     chk (pos < int (s_size s));
     Some (if pos < 0 \<or> pos > int (s_len s) then (- 1, s)
           else (0, s\<lparr>s_data := take (nat pos) (s_data s)\<rparr>)) }"

definition vsb_put :: "vsb \<Rightarrow> char \<Rightarrow> vsb" where
  "vsb_put s c = s\<lparr>s_data := s_data s @ [c]\<rparr>"

text \<open>The copying loop of \<open>vsb_bcat\<close> and \<open>vsb_cat\<close>: what is left of the text when it stops.\<close>

fun cat_loop :: "malloc \<Rightarrow> vsb \<Rightarrow> string \<Rightarrow> (string \<times> vsb) option" where
  "cat_loop alloc s [] = Some ([], s)"
| "cat_loop alloc s (c # str) =
     (if VSB_HASROOM s then cat_loop alloc (vsb_put s c) str
      else do {
        (r, s) \<leftarrow> vsb_extend alloc s (length (c # str));
        if r < 0 then Some (c # str, s) else cat_loop alloc (vsb_put s c) str })"

definition vsb_bcat :: "malloc \<Rightarrow> vsb \<Rightarrow> string \<Rightarrow> (int \<times> vsb) option" where
  "vsb_bcat alloc s buf = do {
     chk (vsb_integrity s \<and> vsb_state s False);
     if s_overflowed s then Some (- 1, s)
     else do {
       (rest, s) \<leftarrow> cat_loop alloc s buf;
       Some (if rest \<noteq> [] then (- 1, s\<lparr>s_overflowed := True\<rparr>) else (0, s)) } }"

definition vsb_bcpy :: "malloc \<Rightarrow> vsb \<Rightarrow> string \<Rightarrow> (int \<times> vsb) option" where
  "vsb_bcpy alloc s buf = do {
     chk (vsb_integrity s \<and> vsb_state s False);
     s \<leftarrow> vsb_clear s;
     vsb_bcat alloc s buf }"

definition vsb_cat :: "malloc \<Rightarrow> vsb \<Rightarrow> string \<Rightarrow> (int \<times> vsb) option" where
  "vsb_cat alloc s str = do {
     chk (vsb_integrity s \<and> vsb_state s False);
     if s_overflowed s then Some (- 1, s)
     else do {
       (rest, s) \<leftarrow> cat_loop alloc s (cstr str);
       Some (if rest \<noteq> [] then (- 1, s\<lparr>s_overflowed := True\<rparr>) else (0, s)) } }"

definition vsb_cpy :: "malloc \<Rightarrow> vsb \<Rightarrow> string \<Rightarrow> (int \<times> vsb) option" where
  "vsb_cpy alloc s str = do {
     chk (vsb_integrity s \<and> vsb_state s False);
     s \<leftarrow> vsb_clear s;
     vsb_cat alloc s str }"

text \<open>
  \<open>vsb_vprintf\<close> of the formatted text \<open>t\<close>.  The loop formats again after the buffer was extended; an
  extension makes room for all of the text (\<open>vsb_extend_room\<close> below), so there is one at most.
\<close>

definition vsb_vprintf :: "malloc \<Rightarrow> vsb \<Rightarrow> string \<Rightarrow> (int \<times> vsb) option" where
  "vsb_vprintf alloc s t = do {
     chk (vsb_integrity s \<and> vsb_state s False);
     if s_overflowed s then Some (- 1, s)
     else do {
       (r, s) \<leftarrow> (if length t > VSB_FREESPACE s
                  then vsb_extend alloc s (length t - VSB_FREESPACE s) else Some (0, s));
       let s = s\<lparr>s_data := s_data s @ take (VSB_FREESPACE s) t\<rparr>;
       let s = (if \<not> VSB_HASROOM s \<and> \<not> s_autoextend s then s\<lparr>s_overflowed := True\<rparr> else s);
       chk (vsb_integrity s);
       Some (if s_overflowed s then - 1 else 0, s) } }"

definition vsb_printf :: "malloc \<Rightarrow> vsb \<Rightarrow> string \<Rightarrow> (int \<times> vsb) option" where
  "vsb_printf alloc s t = vsb_vprintf alloc s t"

definition vsb_putc :: "malloc \<Rightarrow> vsb \<Rightarrow> char \<Rightarrow> (int \<times> vsb) option" where
  "vsb_putc alloc s c = do {
     chk (vsb_integrity s \<and> vsb_state s False);
     if s_overflowed s then Some (- 1, s)
     else do {
       (r, s) \<leftarrow> (if VSB_HASROOM s then Some (0, s) else vsb_extend alloc s 1);
       Some (if r < 0 then (- 1, s\<lparr>s_overflowed := True\<rparr>)
             else (0, if c \<noteq> NUL then vsb_put s c else s)) } }"

definition vsb_trim :: "vsb \<Rightarrow> (int \<times> vsb) option" where
  "vsb_trim s = do {
     chk (vsb_integrity s \<and> vsb_state s False);
     Some (if s_overflowed s then (- 1, s)
           else (0, s\<lparr>s_data := rev (dropWhile is_space (rev (s_data s)))\<rparr>)) }"

definition vsb_overflowed :: "vsb \<Rightarrow> bool" where
  "vsb_overflowed s = s_overflowed s"

definition vsb_finish :: "vsb \<Rightarrow> vsb option" where
  "vsb_finish s = do {
     chk (vsb_integrity s \<and> vsb_state s False);
     Some (s\<lparr>s_overflowed := False, s_finished := True\<rparr>) }"

text \<open>The text \<open>vsb_data\<close> points to, as the bytes before the NUL that \<open>vsb_finish\<close> has put.\<close>

definition vsb_data :: "vsb \<Rightarrow> string option" where
  "vsb_data s = do {
     chk (vsb_integrity s \<and> vsb_state s True);
     Some (s_data s) }"

definition vsb_len :: "vsb \<Rightarrow> int option" where
  "vsb_len s = do {
     chk (vsb_integrity s);
     Some (if s_overflowed s then - 1 else int (s_len s)) }"

definition vsb_done :: "vsb \<Rightarrow> bool" where
  "vsb_done s = s_finished s"

section \<open>Quoting\<close>

text \<open>\<open>%o\<close> of a byte\<close>

definition octal :: "nat \<Rightarrow> string" where
  "octal n = (if n < 8 then [char_of (48 + n)]
     else if n < 64 then [char_of (48 + n div 8), char_of (48 + n mod 8)]
     else [char_of (48 + n div 64), char_of (48 + n div 8 mod 8), char_of (48 + n mod 8)])"

definition quote_char :: "char \<Rightarrow> string" where
  "quote_char c = (
     if c = CHR '' '' then [c]
     else if c = CHR 0x5C \<or> c = CHR 0x22 then [CHR 0x5C, c]
     else if c = CHR 0x0A then [CHR 0x5C, CHR ''n'']
     else if c = CHR 0x0D then [CHR 0x5C, CHR ''r'']
     else if c = CHR 0x09 then [CHR 0x5C, CHR ''t'']
     else if is_graph c then [c]
     else CHR 0x5C # octal (of_char c))"

definition needs_quote :: "string \<Rightarrow> bool" where
  "needs_quote p \<longleftrightarrow> list_ex (\<lambda>c. \<not> is_graph c \<or> c = CHR 0x22) p"

text \<open>
  \<open>vsb_quote\<close> appends piece by piece and ignores every result: \<open>vsb_putc\<close> for a character,
  \<open>vsb_cat\<close> for a short escape, \<open>vsb_printf\<close> for an octal one.
\<close>

definition quote_piece :: "malloc \<Rightarrow> vsb \<Rightarrow> char \<Rightarrow> vsb option" where
  "quote_piece alloc s c = (
     if c = CHR '' '' then map_option snd (vsb_putc alloc s c)
     else if c = CHR 0x5C \<or> c = CHR 0x22 then do {
       (_, s) \<leftarrow> vsb_putc alloc s (CHR 0x5C);
       map_option snd (vsb_putc alloc s c) }
     else if c = CHR 0x0A then map_option snd (vsb_cat alloc s [CHR 0x5C, CHR ''n''])
     else if c = CHR 0x0D then map_option snd (vsb_cat alloc s [CHR 0x5C, CHR ''r''])
     else if c = CHR 0x09 then map_option snd (vsb_cat alloc s [CHR 0x5C, CHR ''t''])
     else if is_graph c then map_option snd (vsb_putc alloc s c)
     else map_option snd (vsb_printf alloc s (CHR 0x5C # octal (of_char c))))"

fun quote_loop :: "malloc \<Rightarrow> vsb \<Rightarrow> string \<Rightarrow> vsb option" where
  "quote_loop alloc s [] = Some s"
| "quote_loop alloc s (c # p) = do { s \<leftarrow> quote_piece alloc s c; quote_loop alloc s p }"

definition vsb_quote :: "malloc \<Rightarrow> vsb \<Rightarrow> string \<Rightarrow> vsb option" where
  "vsb_quote alloc s p = (
     if \<not> needs_quote p then map_option snd (vsb_bcat alloc s p)
     else do {
       (_, s) \<leftarrow> vsb_putc alloc s (CHR 0x22);
       s \<leftarrow> quote_loop alloc s p;
       map_option snd (vsb_putc alloc s (CHR 0x22)) })"

text \<open>
  \<open>vsb_unquote\<close>: an error message or None for success.  The octal number is read by \<open>strtoul\<close>, which
  takes every octal digit there is.
\<close>

datatype unquote_error = Incomplete_sequence | Sequence_out_of_range

definition is_octal :: "char \<Rightarrow> bool" where
  "is_octal c \<longleftrightarrow> c \<in> set ''01234567''"

function unquote_loop :: "malloc \<Rightarrow> vsb \<Rightarrow> string \<Rightarrow> (unquote_error option \<times> vsb) option" where
  "unquote_loop alloc s [] = Some (None, s)"
| "unquote_loop alloc s (c # p) = (
     if c \<noteq> CHR 0x5C then do { (_, s) \<leftarrow> vsb_bcat alloc s [c]; unquote_loop alloc s p }
     else case p of
       [] \<Rightarrow> Some (Some Incomplete_sequence, s)
     | d # q \<Rightarrow>
         if d = CHR ''n'' then do { (_, s) \<leftarrow> vsb_bcat alloc s [CHR 0x0A]; unquote_loop alloc s q }
         else if d = CHR ''r'' then do { (_, s) \<leftarrow> vsb_bcat alloc s [CHR 0x0D]; unquote_loop alloc s q }
         else if d = CHR ''t'' then do { (_, s) \<leftarrow> vsb_bcat alloc s [CHR 0x09]; unquote_loop alloc s q }
         else if is_octal d then
           let u = strtoul 8 (takeWhile is_octal p) in
           if u > 255 then Some (Some Sequence_out_of_range, s)
           else do { (_, s) \<leftarrow> vsb_bcat alloc s [char_of u]; unquote_loop alloc s (dropWhile is_octal p) }
         else do { (_, s) \<leftarrow> vsb_bcat alloc s [d]; unquote_loop alloc s q })"
  by pat_completeness auto
termination
  by (relation "measure (\<lambda>(a, s, p). length p)") (auto intro: le_imp_less_Suc le_SucI length_dropWhile_le)

definition vsb_unquote :: "malloc \<Rightarrow> vsb \<Rightarrow> string \<Rightarrow> (unquote_error option \<times> vsb) option" where
  "vsb_unquote alloc s p = unquote_loop alloc s p"

declare unquote_loop.simps [simp del]

section \<open>Growing is enough\<close>

lemma extend_from_ge: "0 < n \<Longrightarrow> sz \<le> extend_from n sz"
  by (induction n sz rule: extend_from.induct)
    (subst extend_from.simps, auto simp: VSB_MAXEXTENDINCR_def)

lemma extend_from_le: "0 < n \<Longrightarrow> extend_from n sz \<le> max n (sz + 4096)"
proof (induction n sz rule: extend_from.induct)
  case (1 n sz)
  show ?case
  proof (cases "n < sz")
    case True
    let ?m = "if n < VSB_MAXEXTENDSIZE then n * 2 else n + VSB_MAXEXTENDINCR"
    have "extend_from n sz = extend_from ?m sz" using True 1(2) by (subst extend_from.simps) simp
    moreover have "?m \<le> n + 4096" by (simp add: VSB_MAXEXTENDSIZE_def VSB_MAXEXTENDINCR_def)
    ultimately show ?thesis using 1 True by (simp add: VSB_MAXEXTENDINCR_def)
  qed (simp add: extend_from.simps)
qed

lemma vsb_extendsize_some:
  assumes "sz + 4112 < 2 ^ 31"
  obtains n where "vsb_extendsize sz = Some n" "sz \<le> n" "0 < n"
proof
  have "extend_from 16 sz \<le> max 16 (sz + 4096)" by (rule extend_from_le) simp
  then show "vsb_extendsize sz = Some (extend_from 16 sz)"
    using assms by (simp add: vsb_extendsize_def VSB_MINEXTENDSIZE_def)
  show "sz \<le> extend_from 16 sz" by (rule extend_from_ge) simp
  show "0 < extend_from 16 sz"
    by (rule ccontr) (use extend_from_ge [of 16 sz] extend_from.simps [of 16 sz] in \<open>auto split: if_splits\<close>)
qed

text \<open>
  \<open>room alloc s n\<close>: the buffer is in use, grows by itself, memory is there, and \<open>n\<close> more bytes stay clear
  of the largest \<open>int\<close>.
\<close>

definition room :: "malloc \<Rightarrow> vsb \<Rightarrow> nat \<Rightarrow> bool" where
  "room alloc s n \<longleftrightarrow> vsb_integrity s \<and> \<not> s_finished s \<and> \<not> s_overflowed s \<and> s_autoextend s \<and>
     (\<forall>k. alloc k) \<and> s_len s + n + 4113 < 2 ^ 31"

lemma room_mono: "room alloc s n \<Longrightarrow> m \<le> n \<Longrightarrow> room alloc s m"
  by (auto simp: room_def)

lemma vsb_extend_room:
  assumes "room alloc s n" "s_size s + k \<le> s_len s + n + 1"
  obtains s' where "vsb_extend alloc s k = Some (0, s')" "s_size s + k \<le> s_size s'" "s_data s' = s_data s"
    "\<not> s_finished s'" "\<not> s_overflowed s'" "s_autoextend s'"
proof -
  have "s_size s + k + 4112 < 2 ^ 31" using assms by (simp add: room_def)
  then obtain m where "vsb_extendsize (s_size s + k) = Some m" "s_size s + k \<le> m" by (rule vsb_extendsize_some)
  then show thesis using assms(1) that [of "s\<lparr>s_dynamic := True, s_size := m\<rparr>"]
    by (simp add: vsb_extend_def room_def)
qed

lemma s_len_put [simp]: "s_len (vsb_put s c) = s_len s + 1" "s_data (vsb_put s c) = s_data s @ [c]"
  "s_size (vsb_put s c) = s_size s" "s_finished (vsb_put s c) = s_finished s"
  "s_overflowed (vsb_put s c) = s_overflowed s" "s_autoextend (vsb_put s c) = s_autoextend s"
  by (simp_all add: vsb_put_def s_len_def)

lemma full: "vsb_integrity s \<Longrightarrow> \<not> VSB_HASROOM s \<Longrightarrow> s_size s = s_len s + 1"
  by (simp add: vsb_integrity_def VSB_HASROOM_def)

lemma room_put: "VSB_HASROOM s \<Longrightarrow> room alloc s (Suc n) \<Longrightarrow> room alloc (vsb_put s c) n"
  by (auto simp: room_def vsb_integrity_def VSB_HASROOM_def)

lemma cat_loop_room:
  assumes "room alloc s n" "length t \<le> n"
  shows "\<exists>s'. cat_loop alloc s t = Some ([], s') \<and> s_data s' = s_data s @ t \<and> room alloc s' (n - length t)"
  using assms
proof (induction t arbitrary: s n)
  case (Cons c t)
  obtain m where n: "n = Suc m" using Cons.prems(2) by (cases n) auto
  show ?case
  proof (cases "VSB_HASROOM s")
    case True
    have "room alloc (vsb_put s c) m" using room_put [OF True] Cons.prems(1) by (simp add: n)
    then show ?thesis using Cons.IH [of "vsb_put s c" m] Cons.prems(2) True by (auto simp: n)
  next
    case False
    have f: "s_size s = s_len s + 1" using full False Cons.prems(1) by (auto simp: room_def)
    have "s_size s + length (c # t) \<le> s_len s + n + 1" using f Cons.prems(2) by simp
    then obtain s' where e: "vsb_extend alloc s (length (c # t)) = Some (0, s')"
      and s': "s_size s + length (c # t) \<le> s_size s'" "s_data s' = s_data s" "\<not> s_finished s'" "\<not> s_overflowed s'" "s_autoextend s'"
      using vsb_extend_room [OF Cons.prems(1)] by blast
    then have "VSB_HASROOM s'" "room alloc s' n"
      using Cons.prems f by (auto simp: room_def VSB_HASROOM_def vsb_integrity_def s_len_def)
    then have "room alloc (vsb_put s' c) m" using room_put n by blast
    then show ?thesis using Cons.IH [of "vsb_put s' c" m] Cons.prems(2) False e s'(2) by (auto simp: n)
  qed
qed simp

text \<open>Each appending operation appends.\<close>

definition appends :: "malloc \<Rightarrow> vsb \<Rightarrow> nat \<Rightarrow> string \<Rightarrow> (int \<times> vsb) option \<Rightarrow> bool" where
  "appends alloc s n t r \<longleftrightarrow>
     (\<exists>s'. r = Some (0, s') \<and> s_data s' = s_data s @ t \<and> room alloc s' (n - length t))"

lemma vsb_bcat_room: "room alloc s n \<Longrightarrow> length t \<le> n \<Longrightarrow> appends alloc s n t (vsb_bcat alloc s t)"
  using cat_loop_room [of alloc s n t] by (auto simp: appends_def vsb_bcat_def room_def vsb_state_def)

lemma vsb_cat_room: "room alloc s n \<Longrightarrow> length (cstr t) \<le> n \<Longrightarrow> appends alloc s n (cstr t) (vsb_cat alloc s t)"
  using cat_loop_room [of alloc s n "cstr t"] by (auto simp: appends_def vsb_cat_def room_def vsb_state_def)

lemma vsb_printf_room:
  assumes "room alloc s n" "length t \<le> n"
  shows "appends alloc s n t (vsb_printf alloc s t)"
proof -
  have i: "s_size s = VSB_FREESPACE s + s_len s + 1"
    using assms(1) by (simp add: room_def vsb_integrity_def VSB_FREESPACE_def)
  have "\<exists>s'. (if length t > VSB_FREESPACE s then vsb_extend alloc s (length t - VSB_FREESPACE s) else Some (0, s)) = Some (0, s')
    \<and> s_data s' = s_data s \<and> s_len s + length t < s_size s' \<and> \<not> s_finished s' \<and> \<not> s_overflowed s' \<and> s_autoextend s'"
  proof (cases "length t > VSB_FREESPACE s")
    case True
    have "s_size s + (length t - VSB_FREESPACE s) \<le> s_len s + n + 1" using i True assms(2) by simp
    from vsb_extend_room [OF assms(1) this] obtain s' where
      "vsb_extend alloc s (length t - VSB_FREESPACE s) = Some (0, s')"
      "s_size s + (length t - VSB_FREESPACE s) \<le> s_size s'" "s_data s' = s_data s"
      "\<not> s_finished s'" "\<not> s_overflowed s'" "s_autoextend s'" by blast
    then show ?thesis using True i by auto
  qed (use i assms(1) in \<open>auto simp: room_def\<close>)
  then show ?thesis
    using assms by (auto simp: appends_def vsb_printf_def vsb_vprintf_def room_def vsb_state_def
        VSB_FREESPACE_def vsb_integrity_def s_len_def Let_def)
qed

lemma vsb_putc_room:
  assumes "room alloc s n" "0 < n" "c \<noteq> NUL"
  shows "appends alloc s n [c] (vsb_putc alloc s c)"
proof -
  have "cat_loop alloc s [c] = (if VSB_HASROOM s then Some ([], vsb_put s c) else do {
      (r, s) \<leftarrow> vsb_extend alloc s 1; Some (if r < 0 then ([c], s) else ([], vsb_put s c)) })"
    by (cases "vsb_extend alloc s (Suc 0)") (auto split: prod.splits)
  moreover obtain s' where "cat_loop alloc s [c] = Some ([], s')" "s_data s' = s_data s @ [c]" "room alloc s' (n - 1)"
    using cat_loop_room [OF assms(1), of "[c]"] assms(2) by auto
  ultimately show ?thesis
    using assms by (auto simp: appends_def vsb_putc_def room_def vsb_state_def bind_eq_Some_conv split: if_splits prod.splits)
qed

section \<open>What quoting writes\<close>

definition quoted :: "string \<Rightarrow> string" where
  "quoted p = (if needs_quote p then CHR 0x22 # concat (map quote_char p) @ [CHR 0x22] else p)"

lemma appends_trans:
  assumes "appends alloc s n t r" "\<And>s'. room alloc s' (n - length t) \<Longrightarrow> appends alloc s' (n - length t) u (f s')"
  shows "appends alloc s n (t @ u) (Option.bind r (\<lambda>(_, s). f s))"
  using assms by (fastforce simp: appends_def)

lemma octal_noNUL: "n < 256 \<Longrightarrow> NUL \<notin> set (octal n)"
proof -
  have c: "char_of (48 + k) \<noteq> NUL" if "k < 8" for k :: nat
  proof
    assume "char_of (48 + k) = NUL"
    then have "of_char (char_of (48 + k) :: char) = (of_char NUL :: nat)" by simp
    then show False using that by (simp add: NUL_def)
  qed
  assume "n < 256"
  then have "n div 64 < 8" by (simp add: less_mult_imp_div_less)
  then show ?thesis using c [of n] c [of "n div 8"] c [of "n div 64"] c [of "n mod 8"] c [of "n div 8 mod 8"]
    by (auto simp: octal_def less_mult_imp_div_less)
qed

lemma quote_piece_room:
  assumes "room alloc s n" "length (quote_char c) \<le> n" "c \<noteq> NUL"
  shows "\<exists>s'. quote_piece alloc s c = Some s' \<and> s_data s' = s_data s @ quote_char c \<and> room alloc s' (n - length (quote_char c))"
proof -
  have one: "length (quote_char c) = 1 \<Longrightarrow> 0 < n" using assms(2) by simp
  have two: "appends alloc s n ([CHR 0x5C] @ [c]) (do { (_, s) \<leftarrow> vsb_putc alloc s (CHR 0x5C); vsb_putc alloc s c })" if "2 \<le> n"
    by (rule appends_trans [OF vsb_putc_room [OF assms(1)]]) (use that assms(3) in \<open>auto intro!: vsb_putc_room simp: NUL_def\<close>)
  have esc: "appends alloc s n [CHR 0x5C, d] (vsb_cat alloc s [CHR 0x5C, d])" if "2 \<le> n" "d \<noteq> NUL" for d
    using vsb_cat_room [OF assms(1), of "[CHR 0x5C, d]"] that by (simp add: NUL_def cstr_def)
  have oct: "appends alloc s n (CHR 0x5C # octal (of_char c)) (vsb_printf alloc s (CHR 0x5C # octal (of_char c)))"
    if "length (CHR 0x5C # octal (of_char c)) \<le> n"
    by (rule vsb_printf_room [OF assms(1) that])
  have bind_snd: "do { (_, s) \<leftarrow> vsb_putc alloc s (CHR 0x5C); map_option snd (vsb_putc alloc s c) } =
      map_option snd (do { (_, s) \<leftarrow> vsb_putc alloc s (CHR 0x5C); vsb_putc alloc s c })"
    by (simp add: map_option_bind case_prod_unfold o_def)
  have "\<exists>r. quote_piece alloc s c = map_option snd r \<and> appends alloc s n (quote_char c) r"
  proof (cases "c = CHR '' '' \<or> is_graph c \<and> c \<noteq> CHR 0x5C \<and> c \<noteq> CHR 0x22")
    case True
    then have "quote_char c = [c]" "quote_piece alloc s c = map_option snd (vsb_putc alloc s c)"
      by (auto simp: quote_char_def quote_piece_def is_graph_def)
    then show ?thesis using vsb_putc_room [OF assms(1) _ assms(3)] one by auto
  next
    case False
    consider "c = CHR 0x5C \<or> c = CHR 0x22" | "c = CHR 0x0A" | "c = CHR 0x0D" | "c = CHR 0x09"
      | "c \<notin> {CHR 0x5C, CHR 0x22, CHR 0x0A, CHR 0x0D, CHR 0x09}" "\<not> is_graph c"
      using False by blast
    then show ?thesis
    proof cases
      case 1
      then have "quote_char c = [CHR 0x5C] @ [c]" "quote_piece alloc s c = map_option snd (do { (_, s) \<leftarrow> vsb_putc alloc s (CHR 0x5C); vsb_putc alloc s c })"
        unfolding bind_snd [symmetric] by (auto simp: quote_char_def quote_piece_def)
      then show ?thesis using two assms(2) by auto
    next
      case 2
      then show ?thesis using esc [of "CHR ''n''"] assms(2) by (auto simp: quote_char_def quote_piece_def NUL_def)
    next
      case 3
      then show ?thesis using esc [of "CHR ''r''"] assms(2) by (auto simp: quote_char_def quote_piece_def NUL_def)
    next
      case 4
      then show ?thesis using esc [of "CHR ''t''"] assms(2) by (auto simp: quote_char_def quote_piece_def NUL_def)
    next
      case 5
      then have "quote_char c = CHR 0x5C # octal (of_char c)"
        "quote_piece alloc s c = map_option snd (vsb_printf alloc s (CHR 0x5C # octal (of_char c)))"
        using False by (auto simp: quote_char_def quote_piece_def)
      then show ?thesis using oct assms(2) by auto
    qed
  qed
  then show ?thesis by (auto simp: appends_def)
qed

lemma quote_loop_room:
  assumes "room alloc s n" "length (concat (map quote_char p)) \<le> n" "NUL \<notin> set p"
  shows "\<exists>s'. quote_loop alloc s p = Some s' \<and> s_data s' = s_data s @ concat (map quote_char p) \<and>
    room alloc s' (n - length (concat (map quote_char p)))"
  using assms
proof (induction p arbitrary: s n)
  case (Cons c p)
  have l: "length (quote_char c) \<le> n" using Cons.prems(2) by simp
  have "c \<noteq> NUL" using Cons.prems(3) by auto
  from quote_piece_room [OF Cons.prems(1) l this] obtain s1 where
    1: "quote_piece alloc s c = Some s1" "s_data s1 = s_data s @ quote_char c" "room alloc s1 (n - length (quote_char c))" by blast
  show ?case using Cons.IH [OF 1(3)] Cons.prems 1 by (auto simp: diff_diff_eq)
qed simp

lemma vsb_quote_text:
  assumes "room alloc s n" "length (quoted p) \<le> n" "NUL \<notin> set p"
  shows "\<exists>s'. vsb_quote alloc s p = Some s' \<and> s_data s' = s_data s @ quoted p \<and> room alloc s' (n - length (quoted p))"
proof (cases "needs_quote p")
  case True
  then have q: "quoted p = CHR 0x22 # concat (map quote_char p) @ [CHR 0x22]" by (simp add: quoted_def)
  have n: "CHR 0x22 \<noteq> NUL" by (simp add: NUL_def)
  obtain s1 where 1: "vsb_putc alloc s (CHR 0x22) = Some (0, s1)" "s_data s1 = s_data s @ [CHR 0x22]" "room alloc s1 (n - 1)"
    using vsb_putc_room [OF assms(1) _ n] assms(2) q by (auto simp: appends_def)
  have l: "length (concat (map quote_char p)) \<le> n - 1" using assms(2) q by simp
  obtain s2 where 2: "quote_loop alloc s1 p = Some s2" "s_data s2 = s_data s1 @ concat (map quote_char p)"
    "room alloc s2 (n - 1 - length (concat (map quote_char p)))"
    using quote_loop_room [OF 1(3) l assms(3)] by blast
  obtain s3 where 3: "vsb_putc alloc s2 (CHR 0x22) = Some (0, s3)" "s_data s3 = s_data s2 @ [CHR 0x22]"
    "room alloc s3 (n - 1 - length (concat (map quote_char p)) - 1)"
    using vsb_putc_room [OF 2(3) _ n] assms(2) q by (auto simp: appends_def)
  have "n - length (quoted p) = n - 1 - length (concat (map quote_char p)) - 1" by (simp add: q)
  then show ?thesis using True 1 2 3 q by (auto simp: vsb_quote_def)
next
  case False
  then show ?thesis using vsb_bcat_room [OF assms(1), of p] assms(2) by (auto simp: vsb_quote_def quoted_def appends_def)
qed

section \<open>Sequences of operations\<close>

datatype vsb_op = Bcat string | Bcpy string | Cat string | Cpy string | Printf string | Putc char | Trim | Clear

text \<open>One operation on the buffer, its result ignored, and what it means for the text.\<close>

fun vsb_step :: "malloc \<Rightarrow> vsb_op \<Rightarrow> vsb \<Rightarrow> vsb option" where
  "vsb_step alloc (Bcat t) s = map_option snd (vsb_bcat alloc s t)"
| "vsb_step alloc (Bcpy t) s = map_option snd (vsb_bcpy alloc s t)"
| "vsb_step alloc (Cat t) s = map_option snd (vsb_cat alloc s t)"
| "vsb_step alloc (Cpy t) s = map_option snd (vsb_cpy alloc s t)"
| "vsb_step alloc (Printf t) s = map_option snd (vsb_printf alloc s t)"
| "vsb_step alloc (Putc c) s = map_option snd (vsb_putc alloc s c)"
| "vsb_step alloc Trim s = map_option snd (vsb_trim s)"
| "vsb_step alloc Clear s = vsb_clear s"

fun vsb_text :: "vsb_op \<Rightarrow> string \<Rightarrow> string" where
  "vsb_text (Bcat t) d = d @ t"
| "vsb_text (Bcpy t) d = t"
| "vsb_text (Cat t) d = d @ cstr t"
| "vsb_text (Cpy t) d = cstr t"
| "vsb_text (Printf t) d = d @ t"
| "vsb_text (Putc c) d = (if c = NUL then d else d @ [c])"
| "vsb_text Trim d = rev (dropWhile is_space (rev d))"
| "vsb_text Clear d = []"

fun vsb_steps :: "malloc \<Rightarrow> vsb_op list \<Rightarrow> vsb \<Rightarrow> vsb option" where
  "vsb_steps alloc [] s = Some s"
| "vsb_steps alloc (op # ops) s = do { s \<leftarrow> vsb_step alloc op s; vsb_steps alloc ops s }"

text \<open>How many bytes the operations may bring.\<close>

fun op_bytes :: "vsb_op \<Rightarrow> nat" where
  "op_bytes (Bcat t) = length t"
| "op_bytes (Bcpy t) = length t"
| "op_bytes (Cat t) = length t"
| "op_bytes (Cpy t) = length t"
| "op_bytes (Printf t) = length t"
| "op_bytes (Putc c) = 1"
| "op_bytes Trim = 0"
| "op_bytes Clear = 0"

lemma room_clear:
  assumes "room alloc s n"
  shows "vsb_clear s = Some (s\<lparr>s_finished := False, s_overflowed := False, s_data := []\<rparr>)"
    "room alloc (s\<lparr>s_finished := False, s_overflowed := False, s_data := []\<rparr>) n"
  using assms by (auto simp: vsb_clear_def room_def vsb_integrity_def s_len_def)

lemma length_cstr: "length (cstr t) \<le> length t"
  by (simp add: cstr_def length_takeWhile_le)

lemma appends_step: "appends alloc s n t r \<Longrightarrow> length t \<le> m \<Longrightarrow> m \<le> n \<Longrightarrow>
  \<exists>s'. map_option snd r = Some s' \<and> s_data s' = s_data s @ t \<and> room alloc s' (n - m)"
  by (auto simp: appends_def intro: room_mono [OF _ diff_le_mono2])

lemma room_ready: "room alloc s n \<Longrightarrow> vsb_integrity s \<and> vsb_state s False"
  by (simp add: room_def vsb_state_def)

lemma vsb_step_room:
  assumes "room alloc s n" "op_bytes op \<le> n"
  shows "\<exists>s'. vsb_step alloc op s = Some s' \<and> s_data s' = vsb_text op (s_data s) \<and> room alloc s' (n - op_bytes op)"
proof (cases op)
  case (Bcat t)
  then show ?thesis using appends_step [OF vsb_bcat_room [OF assms(1)], of t "length t"] assms(2) by simp
next
  case (Bcpy t)
  then show ?thesis
    using appends_step [OF vsb_bcat_room [OF room_clear(2) [OF assms(1)]], of t "length t"] room_clear(1) [OF assms(1)]
      assms(2) room_ready [OF assms(1)] by (simp add: vsb_bcpy_def)
next
  case (Cat t)
  then show ?thesis
    using appends_step [OF vsb_cat_room [OF assms(1)], of t "length t"] length_cstr [of t] assms(2) by simp
next
  case (Cpy t)
  then show ?thesis
    using appends_step [OF vsb_cat_room [OF room_clear(2) [OF assms(1)]], of t "length t"] room_clear(1) [OF assms(1)]
      length_cstr [of t] assms(2) room_ready [OF assms(1)] by (simp add: vsb_cpy_def)
next
  case (Printf t)
  then show ?thesis using appends_step [OF vsb_printf_room [OF assms(1)], of t "length t"] assms(2) by simp
next
  case (Putc c)
  show ?thesis
  proof (cases "c = NUL")
    case True
    have "appends alloc s n ''x'' (vsb_putc alloc s (CHR ''x''))"
      using vsb_putc_room [OF assms(1)] assms(2) Putc by (simp add: NUL_def)
    then have "\<exists>s'. vsb_putc alloc s c = Some (0, s') \<and> s_data s' = s_data s \<and> room alloc s' (n - 1)"
      using True by (fastforce simp: vsb_putc_def appends_def bind_eq_Some_conv room_def vsb_integrity_def s_len_def NUL_def
          split: if_splits)
    then show ?thesis using Putc True by auto
  next
    case False
    then show ?thesis using appends_step [OF vsb_putc_room [OF assms(1)], of c 1] assms(2) Putc by simp
  qed
next
  case Trim
  have "length (rev (dropWhile is_space (rev (s_data s)))) \<le> length (s_data s)"
    using length_dropWhile_le [of is_space "rev (s_data s)"] by simp
  then show ?thesis using assms Trim by (simp add: vsb_trim_def room_def vsb_state_def vsb_integrity_def s_len_def)
next
  case Clear
  then show ?thesis using room_clear [OF assms(1)] by simp
qed

lemma vsb_steps_room:
  assumes "room alloc s n" "sum_list (map op_bytes ops) \<le> n"
  shows "\<exists>s'. vsb_steps alloc ops s = Some s' \<and> s_data s' = fold vsb_text ops (s_data s) \<and>
    room alloc s' (n - sum_list (map op_bytes ops))"
  using assms
proof (induction ops arbitrary: s n)
  case (Cons op ops)
  then obtain s1 where 1: "vsb_step alloc op s = Some s1" "s_data s1 = vsb_text op (s_data s)" "room alloc s1 (n - op_bytes op)"
    using vsb_step_room [of alloc s n op] by auto
  show ?case using Cons.IH [OF 1(3)] Cons.prems(2) 1 by auto
qed simp



text \<open>Without a failed assertion, a fixed buffer either holds the whole text or is marked.\<close>

definition holds :: "nat \<Rightarrow> vsb \<Rightarrow> string \<Rightarrow> bool" where
  "holds len s d \<longleftrightarrow> s_size s = len \<and> vsb_integrity s \<and> \<not> s_finished s \<and> \<not> s_autoextend s \<and> (\<not> s_overflowed s \<longrightarrow> s_data s = d)"

lemma cat_loop_fixed:
  assumes "vsb_integrity s" "\<not> s_finished s" "\<not> s_autoextend s" "\<not> s_overflowed s"
  shows "\<exists>rest s'. cat_loop alloc s t = Some (rest, s') \<and> vsb_integrity s' \<and> \<not> s_finished s' \<and> \<not> s_autoextend s' \<and>
    \<not> s_overflowed s' \<and> s_size s' = s_size s \<and> (rest = [] \<longrightarrow> s_data s' = s_data s @ t)"
  using assms
proof (induction t arbitrary: s)
  case (Cons c t)
  have "vsb_integrity (vsb_put s c)" if "VSB_HASROOM s" using that by (auto simp: VSB_HASROOM_def vsb_integrity_def)
  then show ?case using Cons.IH [of "vsb_put s c"] Cons.prems by (auto simp: vsb_extend_def)
qed simp

lemma vsb_bcat_holds: "holds len s d \<Longrightarrow> \<exists>s'. map_option snd (vsb_bcat alloc s t) = Some s' \<and> holds len s' (d @ t)"
  using cat_loop_fixed [of s alloc t]
  by (cases "s_overflowed s") (auto simp: holds_def vsb_bcat_def vsb_state_def vsb_integrity_def s_len_def)

lemma vsb_cat_holds: "holds len s d \<Longrightarrow> \<exists>s'. map_option snd (vsb_cat alloc s t) = Some s' \<and> holds len s' (d @ cstr t)"
  using cat_loop_fixed [of s alloc "cstr t"]
  by (cases "s_overflowed s") (auto simp: holds_def vsb_cat_def vsb_state_def vsb_integrity_def s_len_def)

lemma vsb_clear_holds: "holds len s d \<Longrightarrow> vsb_clear s = Some (s\<lparr>s_finished := False, s_overflowed := False, s_data := []\<rparr>)
  \<and> holds len (s\<lparr>s_finished := False, s_overflowed := False, s_data := []\<rparr>) []"
  by (auto simp: holds_def vsb_clear_def vsb_integrity_def s_len_def)

lemma vsb_printf_holds: "holds len s d \<Longrightarrow> \<exists>s'. map_option snd (vsb_printf alloc s t) = Some s' \<and> holds len s' (d @ t)"
  by (auto simp: holds_def vsb_printf_def vsb_vprintf_def vsb_state_def vsb_extend_def vsb_integrity_def
      VSB_FREESPACE_def VSB_HASROOM_def s_len_def Let_def min_def)

lemma holds_ready: "holds len s d \<Longrightarrow> vsb_integrity s \<and> vsb_state s False"
  by (simp add: holds_def vsb_state_def)

lemma vsb_step_holds:
  assumes "holds len s d"
  shows "\<exists>s'. vsb_step alloc op s = Some s' \<and> holds len s' (vsb_text op d)"
proof (cases op)
  case (Bcpy t)
  then show ?thesis
    using vsb_clear_holds [OF assms] vsb_bcat_holds [of len _ "[]" alloc t] holds_ready [OF assms] by (simp add: vsb_bcpy_def)
next
  case (Cpy t)
  then show ?thesis
    using vsb_clear_holds [OF assms] vsb_cat_holds [of len _ "[]" alloc t] holds_ready [OF assms] by (simp add: vsb_cpy_def)
next
  case (Putc c)
  then show ?thesis using assms
    by (auto simp: holds_def vsb_putc_def vsb_state_def vsb_extend_def vsb_integrity_def VSB_HASROOM_def vsb_put_def s_len_def)
next
  case Trim
  have "length (rev (dropWhile is_space (rev (s_data s)))) \<le> length (s_data s)"
    using length_dropWhile_le [of is_space "rev (s_data s)"] by simp
  then show ?thesis using assms Trim by (auto simp: holds_def vsb_trim_def vsb_state_def vsb_integrity_def s_len_def)
qed (use assms vsb_bcat_holds vsb_cat_holds vsb_printf_holds vsb_clear_holds in auto)

lemma vsb_steps_holds: "holds len s d \<Longrightarrow> \<exists>s'. vsb_steps alloc ops s = Some s' \<and> holds len s' (fold vsb_text ops d)"
proof (induction ops arbitrary: s d)
  case (Cons op ops)
  then show ?case using vsb_step_holds [OF Cons.prems, of alloc op] by fastforce
qed auto

text \<open>
  A fixed buffer tells when text was lost, until \<open>vsb_finish\<close>: every sequence of operations runs
  without a failed assertion and stays inside the buffer, and unless the buffer is marked as overflowed it holds
  the whole text.  \<open>vsb_finish\<close> takes the mark away, so asking \<open>vsb_overflowed\<close> after it, as the callers in
  \<open>cache_ban.c\<close> and \<open>cache_vary.c\<close> do, never shows an overflow.
\<close>
theorem vsb_fixed_overflow:
  assumes "0 < len"
  shows "\<exists>s0 s s'. vsb_new alloc True True len False = Some (Some s0) \<and> vsb_steps alloc ops s0 = Some s \<and>
    s_len s < len \<and> (vsb_overflowed s \<or> s_data s = fold vsb_text ops []) \<and>
    vsb_finish s = Some s' \<and> \<not> vsb_overflowed s'"
proof -
  define s0 where "s0 = \<lparr>s_data = [], s_size = len, s_autoextend = False, s_dynamic = False,
    s_finished = False, s_overflowed = False, s_dynstruct = False\<rparr>"
  have n: "vsb_new alloc True True len False = Some (Some s0)" by (simp add: vsb_new_def s0_def)
  have "holds len s0 []" using assms by (simp add: holds_def s0_def vsb_integrity_def s_len_def)
  from vsb_steps_holds [OF this] obtain s where s: "vsb_steps alloc ops s0 = Some s" "holds len s (fold vsb_text ops [])" by blast
  then show ?thesis
    using n by (auto simp: holds_def vsb_overflowed_def vsb_finish_def vsb_state_def vsb_integrity_def)
qed

theorem vsb_fixed_overflow_witness:
  "\<exists>s. vsb_steps (\<lambda>k. False) [Cat ''abcd''] \<lparr>s_data = [], s_size = 4, s_autoextend = False, s_dynamic = False,
    s_finished = False, s_overflowed = False, s_dynstruct = False\<rparr> = Some s \<and> s_len s < 4 \<and> vsb_overflowed s"
  using vsb_fixed_overflow [of 4 "\<lambda>k. False" "[Cat ''abcd'']"]
  by (auto simp: vsb_new_def NUL_def cstr_def vsb_overflowed_def s_len_def)

end
