(* ===== verification/Argv.thy ===== *)
theory Argv
  imports Vsb
begin

text \<open>
  Words of a command line: \<open>lib/libvarnish/argv.c\<close>.

  A pointer into the line is the rest of the line from there; the NUL comes after its last character.
  Advancing a pointer beyond the NUL, and a loop that never ends, are None, as a failed assertion is.
  \<open>calloc\<close> and \<open>realloc\<close> succeed.
\<close>

section \<open>Escapes\<close>

definition is_xdigit :: "char \<Rightarrow> bool" where
  "is_xdigit c \<longleftrightarrow> digit_val c < 16"

text \<open>
  \<open>sscanf(s, "%02x", &u)\<close>: white space, then at most two characters, the first of which may be a sign,
  read as \<open>strtoul\<close> does in base 16.  None when nothing was converted; a lone prefix \<open>0x\<close> does not
  convert.
\<close>

definition sscanf_02x :: "string \<Rightarrow> u32 option" where
  "sscanf_02x s = (
     let t = take 2 (dropWhile is_space s);
         neg = (t \<noteq> [] \<and> hd t = CHR ''-'');
         d = takeWhile is_xdigit (if t \<noteq> [] \<and> hd t \<in> {CHR ''-'', CHR ''+''} then tl t else t);
         n = foldl (\<lambda>n c. 16 * n + digit_val c) 0 d
     in if d = [] \<or> t \<in> {''0x'', ''0X''} then None
        else Some (if neg then - word_of_nat n else word_of_nat n))"

text \<open>The loop over octal digits, from position \<open>r\<close>: how far it gets and the character.\<close>

fun octal_loop :: "string \<Rightarrow> nat \<Rightarrow> nat \<Rightarrow> nat \<times> nat" where
  "octal_loop [] r c = (r, c)"
| "octal_loop (d # s) r c =
     (if r < 4 \<and> is_digit d \<and> digit_val d \<le> 7 then octal_loop s (r + 1) (c * 8 mod 256 + digit_val d) else (r, c))"

text \<open>\<open>BackSlash\<close>: the length of the escape, 0 when there is none, and the character.\<close>

definition BackSlash :: "string \<Rightarrow> (nat \<times> char) option" where
  "BackSlash s = do {
     chk (s \<noteq> [] \<and> hd s = CHR 0x5C);
     (case tl s of
        [] \<Rightarrow> Some (0, NUL)
      | d # q \<Rightarrow>
          if d = CHR ''n'' then Some (2, CHR 0x0A)
          else if d = CHR ''r'' then Some (2, CHR 0x0D)
          else if d = CHR ''t'' then Some (2, CHR 0x09)
          else if d = CHR 0x22 then Some (2, CHR 0x22)
          else if d = CHR 0x5C then Some (2, CHR 0x5C)
          else if is_octal d then let (r, c) = octal_loop (tl s) 1 0 in Some (r, char_of c)
          else if d = CHR ''x'' then
            (case sscanf_02x q of
               None \<Rightarrow> Some (0, NUL)
             | Some u \<Rightarrow> do { chk (unat u \<le> 0xff); Some (4, char_of (unat u)) })
          else Some (0, NUL)) }"

text \<open>
  Reading on behind an escape: \<open>s += i\<close>.
\<close>

definition skip :: "nat \<Rightarrow> string \<Rightarrow> string option" where
  "skip i s = (if i \<le> length s then Some (drop i s) else None)"

lemma skip_length: "skip i s = Some t \<Longrightarrow> 0 < i \<Longrightarrow> length t < length s"
  by (auto simp: skip_def split: if_splits)

text \<open>
  \<open>BackSlashDecode\<close> of the first \<open>n\<close> characters of \<open>s\<close> (the end pointer is \<open>n\<close> characters on).  It
  reads escapes beyond its end pointer when they start before it, and does not end at a wrong escape.
\<close>

function BackSlashDecode :: "string \<Rightarrow> nat \<Rightarrow> string option" where
  "BackSlashDecode s n = (
     if n = 0 then Some []
     else case s of
       [] \<Rightarrow> None
     | c # q \<Rightarrow>
         if c \<noteq> CHR 0x5C then map_option ((#) c) (BackSlashDecode q (n - 1))
         else do {
           (i, c) \<leftarrow> BackSlash s;
           chk (i \<noteq> 0);
           s' \<leftarrow> skip i s;
           map_option ((#) c) (BackSlashDecode s' (n - i)) })"
  by pat_completeness auto
termination
  by (relation "measure (\<lambda>(s, n). n)") (auto simp: chk_def split: if_splits)

declare BackSlashDecode.simps [simp del]

section \<open>Splitting a line\<close>

datatype argv_error = Invalid_backslash | Missing_quote

text \<open>
  The inner loop: from the rest of the line \<open>s\<close>, of which \<open>n\<close> characters of the word were passed, to
  the end of the word.
\<close>

function word_end :: "bool \<Rightarrow> bool \<Rightarrow> string \<Rightarrow> nat \<Rightarrow> (argv_error + string \<times> nat) option" where
  "word_end comma quote [] n = Some (if quote then Inl Missing_quote else Inr ([], n))"
| "word_end comma quote (c # s) n = (
     if c = CHR 0x5C then do {
       (i, _) \<leftarrow> BackSlash (c # s);
       if i = 0 then Some (Inl Invalid_backslash)
       else do { s' \<leftarrow> skip i (c # s); word_end comma quote s' (n + i) } }
     else if \<not> quote then
       (if is_space c \<or> comma \<and> c = CHR '','' then Some (Inr (c # s, n)) else word_end comma quote s (n + 1))
     else if c = CHR 0x22 then Some (Inr (c # s, n))
     else word_end comma quote s (n + 1))"
  by pat_completeness auto
termination
  by (relation "measure (\<lambda>(a, b, s, n). length s)") (auto dest: skip_length)

declare word_end.simps [simp del]

lemma word_end_length: "word_end comma quote s n = Some (Inr (t, m)) \<Longrightarrow> length t \<le> length s"
proof (induction comma quote s n rule: word_end.induct)
  case (2 comma quote c s n)
  then show ?case
    by (subst (asm) word_end.simps)
      (force simp: bind_eq_Some_conv dest: skip_length split: if_splits)
qed (auto simp: word_end.simps split: if_splits)

text \<open>
  The outer loop: the words found so far are \<open>argv\<close>.  The error is what \<open>argv[0]\<close> becomes.
\<close>

function argv_loop :: "bool \<Rightarrow> bool \<Rightarrow> string \<Rightarrow> string list \<Rightarrow> (argv_error option \<times> string list) option" where
  "argv_loop comment comma [] argv = Some (None, argv)"
| "argv_loop comment comma (c # s) argv = (
     if is_space c then argv_loop comment comma s argv
     else if comment \<and> c = CHR ''#'' then Some (None, argv)
     else let quote = (c = CHR 0x22); p = (if quote then s else c # s) in do {
       w \<leftarrow> word_end comma quote p 0;
       (case w of
          Inl e \<Rightarrow> Some (Some e, argv)
        | Inr (t, n) \<Rightarrow>
            do { a \<leftarrow> BackSlashDecode p n; argv_loop comment comma (tl t) (argv @ [a]) }) })"
  by pat_completeness auto
termination
proof (relation "measure (\<lambda>(a, b, s, v). length s)", goal_cases)
  case (3 comment comma c s argv quote p w e t n a)
  then have "length t \<le> length p" by (auto dest: word_end_length)
  also have "length p \<le> length (c # s)" using 3 by simp
  finally show ?case by auto
qed auto

definition ParseArgv :: "bool \<Rightarrow> bool \<Rightarrow> string \<Rightarrow> (argv_error option \<times> string list) option" where
  "ParseArgv comment comma s = argv_loop comment comma (cstr s) []"

declare argv_loop.simps [simp del]

section \<open>Quoted words are read back\<close>

lemma char_eq_nat: "c = d \<longleftrightarrow> (of_char c :: nat) = of_char d"
  by simp

lemma is_octal_iff: "is_octal c \<longleftrightarrow> 48 \<le> (of_char c :: nat) \<and> (of_char c :: nat) \<le> 55"
  unfolding is_octal_def list.set insert_iff empty_iff char_eq_nat
  by (simp del: of_char_eq_iff) presburger

lemma is_digit_iff: "is_digit c \<longleftrightarrow> 48 \<le> (of_char c :: nat) \<and> (of_char c :: nat) \<le> 57"
  unfolding is_digit_def list.set insert_iff empty_iff char_eq_nat
  by (simp del: of_char_eq_iff) presburger

lemma octal_digit:
  assumes "k < 8"
  shows "is_octal (char_of (48 + k))" "is_digit (char_of (48 + k))" "digit_val (char_of (48 + k)) = k"
    "char_of (48 + k) \<notin> {CHR ''n'', CHR ''r'', CHR ''t'', CHR 0x22, CHR 0x5C, CHR ''x''}"
  using assms unfolding is_octal_iff is_digit_iff insert_iff empty_iff char_eq_nat
  by (simp_all add: digit_val_def del: of_char_eq_iff)

text \<open>A character whose octal escape is shorter than three digits runs into a digit that follows it.\<close>

definition octal_escaped :: "char \<Rightarrow> bool" where
  "octal_escaped c \<longleftrightarrow> \<not> is_graph c \<and> c \<notin> {CHR '' '', CHR 0x0A, CHR 0x0D, CHR 0x09}"

definition runs_on :: "char \<Rightarrow> string \<Rightarrow> bool" where
  "runs_on c s \<longleftrightarrow> octal_escaped c \<and> (of_char c :: nat) < 64 \<and> s \<noteq> [] \<and> is_octal (hd s)"

lemma octal_loop_stop: "\<not> (s \<noteq> [] \<and> is_octal (hd s)) \<Longrightarrow> octal_loop s r c = (r, c)"
  by (cases s) (auto simp: is_octal_iff is_digit_iff digit_val_def Let_def)

lemma octal_loop_4 [simp]: "octal_loop s 4 c = (4, c)"
  by (cases s) simp_all

lemma octal_loop_step:
  "k < 8 \<Longrightarrow> r < 4 \<Longrightarrow> octal_loop (char_of (48 + k) # s) r c = octal_loop s (r + 1) (c * 8 mod 256 + k)"
  using octal_digit [of k] by simp

lemma octal_loop_octal:
  assumes "n < 256" "n < 64 \<Longrightarrow> \<not> (s \<noteq> [] \<and> is_octal (hd s))"
  shows "octal_loop (octal n @ s) 1 0 = (1 + length (octal n), n)"
proof -
  have d: "n div 64 < 8" "n div 8 mod 8 < 8" "n mod 8 < 8" using assms(1) by auto
  consider "n < 8" | "8 \<le> n" "n < 64" | "64 \<le> n" by linarith
  then show ?thesis
  proof cases
    case 1
    then show ?thesis using assms octal_loop_step [of n 1 s 0] octal_loop_stop [of s 2 n] by (simp add: octal_def numeral_2_eq_2)
  next
    case 2
    then have "n div 8 < 8" by auto
    then have "octal_loop (octal n @ s) 1 0 = octal_loop s 3 (n div 8 * 8 mod 256 + n mod 8)"
      using 2 d by (simp add: octal_def octal_loop_step del: octal_loop.simps One_nat_def)
    also have "n div 8 * 8 mod 256 + n mod 8 = n" using 2 by simp
    finally show ?thesis using assms 2 octal_loop_stop [of s 3 n] by (simp add: octal_def)
  next
    case 3
    have "octal_loop (octal n @ s) 1 0 = octal_loop s 4 ((n div 64 * 8 mod 256 + n div 8 mod 8) * 8 mod 256 + n mod 8)"
      using 3 d by (simp add: octal_def octal_loop_step del: octal_loop.simps One_nat_def)
    also have "n div 64 * 8 mod 256 + n div 8 mod 8 = n div 8"
      using assms(1) div_mult2_eq [of n 8 8] div_mult_mod_eq [of "n div 8" 8] by simp
    also have "n div 8 * 8 mod 256 + n mod 8 = n"
      using assms(1) div_mult_mod_eq [of n 8] by simp
    finally show ?thesis using 3 by (simp add: octal_def)
  qed
qed

lemma octal_head:
  assumes "n < 256"
  shows "\<exists>(k :: nat) r. k < 8 \<and> octal n = char_of (48 + k) # r"
proof -
  have "n div 64 < 8" by (rule less_mult_imp_div_less) (use assms in simp)
  moreover have "n div 8 < 8" if "n < 64" by (rule less_mult_imp_div_less) (use that in simp)
  ultimately have "(if n < 8 then n else if n < 64 then n div 8 else n div 64) < 8"
    "octal n = char_of (48 + (if n < 8 then n else if n < 64 then n div 8 else n div 64)) # tl (octal n)"
    by (simp_all add: octal_def)
  then show ?thesis by blast
qed

lemma BackSlash_quote:
  assumes "quote_char c \<noteq> [c]" "\<not> runs_on c s"
  shows "BackSlash (quote_char c @ s) = Some (length (quote_char c), c)" "hd (quote_char c) = CHR 0x5C"
    "1 < length (quote_char c)"
proof -
  have "BackSlash (quote_char c @ s) = Some (length (quote_char c), c) \<and> hd (quote_char c) = CHR 0x5C \<and> 1 < length (quote_char c)"
  proof (cases "octal_escaped c")
    case True
    then have q: "quote_char c = CHR 0x5C # octal (of_char c)"
      by (auto simp: quote_char_def octal_escaped_def is_graph_def)
    have n: "(of_char c :: nat) < 256" by simp
    obtain d r where d: "octal (of_char c) @ s = d # r" "is_octal d" "d \<notin> {CHR ''n'', CHR ''r'', CHR ''t'', CHR 0x22, CHR 0x5C}"
      using octal_head [OF n] octal_digit by fastforce
    have l: "octal_loop (octal (of_char c) @ s) 1 0 = (1 + length (octal (of_char c)), of_char c)"
      by (rule octal_loop_octal [OF n]) (use assms(2) True in \<open>auto simp: runs_on_def\<close>)
    have "octal (of_char c) \<noteq> []" by (simp add: octal_def)
    then show ?thesis using d l by (simp add: q BackSlash_def del: One_nat_def)
  next
    case False
    then show ?thesis using assms(1) by (auto simp: quote_char_def octal_escaped_def BackSlash_def split: if_splits)
  qed
  then show "BackSlash (quote_char c @ s) = Some (length (quote_char c), c)" "hd (quote_char c) = CHR 0x5C"
    "1 < length (quote_char c)" by auto
qed

fun octal_safe :: "string \<Rightarrow> bool" where
  "octal_safe [] = True"
| "octal_safe (c # p) = (\<not> runs_on c p \<and> octal_safe p)"

lemma quote_char_ne [simp]: "quote_char c \<noteq> []"
  by (simp add: quote_char_def)

lemma quote_char_id: "quote_char c = [c] \<Longrightarrow> c \<noteq> CHR 0x5C \<and> c \<noteq> CHR 0x22"
  by (auto simp: quote_char_def)

lemma runs_on_quoted:
  assumes "runs_on c (concat (map quote_char p) @ CHR 0x22 # r)"
  shows "runs_on c p"
proof (cases p)
  case Nil
  then show ?thesis using assms by (simp add: runs_on_def is_octal_def)
next
  case (Cons d q)
  then have "is_octal (hd (quote_char d))" using assms by (simp add: runs_on_def)
  then have "hd (quote_char d) = d" by (auto simp: quote_char_def is_octal_def split: if_splits)
  then show ?thesis using assms Cons by (simp add: runs_on_def)
qed

lemma skip_append [simp]: "skip (length x) (x @ s) = Some s"
  by (simp add: skip_def)

lemma quote_char_cases:
  assumes "\<not> runs_on c (concat (map quote_char p) @ CHR 0x22 # r)"
  obtains (plain) "quote_char c = [c]" "c \<noteq> CHR 0x5C" "c \<noteq> CHR 0x22"
  | (escape) q where "quote_char c = CHR 0x5C # q" "q \<noteq> []"
    "BackSlash (CHR 0x5C # q @ concat (map quote_char p) @ CHR 0x22 # r) = Some (Suc (length q), c)"
proof (cases "quote_char c = [c]")
  case True
  then show ?thesis using plain quote_char_id by blast
next
  case False
  obtain x q where q: "quote_char c = x # q" by (cases "quote_char c") auto
  then show ?thesis using escape [of q] BackSlash_quote [OF False assms] by auto
qed

lemma word_end_quoted:
  assumes "octal_safe p"
  shows "word_end comma True (concat (map quote_char p) @ CHR 0x22 # r) n =
    Some (Inr (CHR 0x22 # r, n + length (concat (map quote_char p))))"
  using assms
proof (induction p arbitrary: n)
  case Nil
  then show ?case by (simp add: word_end.simps)
next
  case (Cons c p)
  then have "\<not> runs_on c (concat (map quote_char p) @ CHR 0x22 # r)" using runs_on_quoted by auto
  then show ?case
  proof (cases rule: quote_char_cases)
    case plain
    then show ?thesis using Cons by (simp add: word_end.simps(2))
  next
    case (escape q)
    have "skip (Suc (length q)) (CHR 0x5C # q @ concat (map quote_char p) @ CHR 0x22 # r) =
        Some (concat (map quote_char p) @ CHR 0x22 # r)"
      using skip_append [of "CHR 0x5C # q"] by simp
    then show ?thesis using Cons escape by (simp add: word_end.simps(2) add.assoc)
  qed
qed

lemma BackSlashDecode_quoted:
  assumes "octal_safe p"
  shows "BackSlashDecode (concat (map quote_char p) @ CHR 0x22 # r) (length (concat (map quote_char p))) = Some p"
  using assms
proof (induction p)
  case Nil
  then show ?case by (simp add: BackSlashDecode.simps)
next
  case (Cons c p)
  then have "\<not> runs_on c (concat (map quote_char p) @ CHR 0x22 # r)" using runs_on_quoted by auto
  then show ?case
  proof (cases rule: quote_char_cases)
    case plain
    then show ?thesis using Cons by (subst BackSlashDecode.simps) simp
  next
    case (escape q)
    have "skip (Suc (length q)) (CHR 0x5C # q @ concat (map quote_char p) @ CHR 0x22 # r) =
        Some (concat (map quote_char p) @ CHR 0x22 # r)"
      using skip_append [of "CHR 0x5C # q"] by simp
    then show ?thesis using Cons escape by (subst BackSlashDecode.simps) simp
  qed
qed

text \<open>A word that \<open>vsb_quote\<close> leaves as it is has no backslash either.\<close>

definition quotable :: "string \<Rightarrow> bool" where
  "quotable p \<longleftrightarrow> p \<noteq> [] \<and> NUL \<notin> set p \<and> octal_safe p \<and> (needs_quote p \<or> CHR 0x5C \<notin> set p)"

lemma graph_not_space: "is_graph c \<Longrightarrow> \<not> is_space c"
  unfolding is_graph_def is_space_def char_eq_nat by (simp add: Let_def del: of_char_eq_iff)

lemma plain_word:
  assumes "\<forall>c \<in> set p. \<not> is_space c \<and> c \<noteq> CHR 0x5C" "r = [] \<or> is_space (hd r) \<and> hd r \<noteq> CHR 0x5C"
  shows "word_end False False (p @ r) n = Some (Inr (r, n + length p))" "BackSlashDecode (p @ r) (length p) = Some p"
proof -
  show "word_end False False (p @ r) n = Some (Inr (r, n + length p))"
    using assms by (induction p arbitrary: n) (cases r; auto simp: word_end.simps)+
  show "BackSlashDecode (p @ r) (length p) = Some p"
    using assms(1)
  proof (induction p)
    case (Cons c p)
    then show ?case by (subst BackSlashDecode.simps) simp
  qed (simp add: BackSlashDecode.simps)
qed

lemma argv_loop_word:
  assumes "quotable p" "r = [] \<or> is_space (hd r) \<and> hd r \<noteq> CHR 0x5C"
  shows "argv_loop False False (quoted p @ r) argv = argv_loop False False (if needs_quote p then r else tl r) (argv @ [p])"
proof (cases "needs_quote p")
  case True
  have "octal_safe p" using assms(1) by (simp add: quotable_def)
  then show ?thesis
    using True word_end_quoted [of p False r 0] BackSlashDecode_quoted [of p r]
    by (simp add: quoted_def argv_loop.simps is_space_def)
next
  case False
  obtain c q where p: "p = c # q" using assms(1) by (cases p) (auto simp: quotable_def)
  have g: "\<forall>c \<in> set p. \<not> is_space c \<and> c \<noteq> CHR 0x5C"
    using False assms(1) graph_not_space by (auto simp: quotable_def needs_quote_def list_ex_iff)
  have "c \<noteq> CHR 0x22" using False by (simp add: p needs_quote_def)
  then show ?thesis
    using plain_word [OF g assms(2)] g False p by (simp add: quoted_def argv_loop.simps(2))
qed

text \<open>A line of words: each quoted where it has to be, with a space between them.\<close>

fun command_line :: "string list \<Rightarrow> string" where
  "command_line [] = []"
| "command_line [p] = quoted p"
| "command_line (p # ps) = quoted p @ CHR '' '' # command_line ps"

lemma argv_loop_line:
  assumes "\<forall>p \<in> set ps. quotable p"
  shows "argv_loop False False (command_line ps) argv = Some (None, argv @ ps)"
  using assms
proof (induction ps arbitrary: argv rule: command_line.induct)
  case 1
  then show ?case by (simp add: argv_loop.simps)
next
  case (2 p)
  then show ?case using argv_loop_word [of p "[]" argv] by (simp add: argv_loop.simps)
next
  case (3 p p' ps)
  then show ?case
    using argv_loop_word [of p "CHR '' '' # command_line (p' # ps)" argv]
    by (simp add: argv_loop.simps(2) [of _ _ "CHR '' ''"] is_space_def)
qed

lemma quoted_noNUL: "NUL \<notin> set p \<Longrightarrow> NUL \<notin> set (quoted p)"
proof -
  assume n: "NUL \<notin> set p"
  have "NUL \<notin> set (quote_char c)" if "c \<in> set p" for c
    using that n octal_noNUL [of "of_char c"] by (auto simp: quote_char_def NUL_def)
  then show ?thesis using n by (auto simp: quoted_def NUL_def)
qed

lemma command_line_noNUL: "\<forall>p \<in> set ps. NUL \<notin> set p \<Longrightarrow> NUL \<notin> set (command_line ps)"
proof (induction ps rule: command_line.induct)
  case (3 p p' ps)
  have "NUL \<noteq> CHR '' ''" by (simp add: NUL_def)
  then show ?case using 3 quoted_noNUL [of p] by simp
qed (simp_all add: quoted_noNUL)



section \<open>Every line without hexadecimal escapes is dealt with\<close>

fun no_hex :: "string \<Rightarrow> bool" where
  "no_hex (c # d # s) = (\<not> (c = CHR 0x5C \<and> d = CHR ''x'') \<and> no_hex (d # s))"
| "no_hex s = True"

lemma no_hex_tl: "no_hex s \<Longrightarrow> no_hex (tl s)"
  by (cases s rule: no_hex.cases) auto

lemma no_hex_drop: "no_hex s \<Longrightarrow> no_hex (drop n s)"
  by (induction n) (auto simp: drop_Suc tl_drop no_hex_tl simp flip: tl_drop)

lemma octal_loop_bound: "octal_loop s r c = (r', c') \<Longrightarrow> r \<le> r' \<and> r' \<le> r + length s"
  by (induction s arbitrary: r c) (fastforce split: if_splits)+

lemma BackSlash_bound:
  assumes "no_hex (CHR 0x5C # s)"
  shows "\<exists>i c. BackSlash (CHR 0x5C # s) = Some (i, c) \<and> i \<le> length (CHR 0x5C # s)"
proof (cases s)
  case (Cons d q)
  obtain r c where "octal_loop s 1 0 = (r, c)" by (cases "octal_loop s 1 0")
  then show ?thesis using assms Cons octal_loop_bound [of s 1 0 r c] by (auto simp: BackSlash_def)
qed (simp add: BackSlash_def)

lemma skip_no_hex: "skip i s = Some t \<Longrightarrow> no_hex s \<Longrightarrow> no_hex t"
  by (auto simp: skip_def no_hex_drop split: if_splits)

lemma word_end_some:
  assumes "no_hex s"
  shows "\<exists>w. word_end comma quote s n = Some w \<and>
    (\<forall>t m. w = Inr (t, m) \<longrightarrow> n \<le> m \<and> no_hex t \<and> BackSlashDecode s (m - n) \<noteq> None)"
  using assms
proof (induction comma quote s n rule: word_end.induct)
  case (1 comma quote n)
  then show ?case by (simp add: word_end.simps BackSlashDecode.simps)
next
  case (2 comma quote c s n)
  have nh: "no_hex s" using no_hex_tl [OF "2.prems"] by simp
  show ?case
  proof (cases "c = CHR 0x5C")
    case True
    obtain i d where b: "BackSlash (c # s) = Some (i, d)" "i \<le> length (c # s)"
      using BackSlash_bound "2.prems" True by blast
    show ?thesis
    proof (cases "i = 0")
      case True
      then show ?thesis using b \<open>c = CHR 0x5C\<close> by (simp add: word_end.simps(2))
    next
      case False
      have k: "skip i (c # s) = Some (drop i (c # s))" using b(2) by (simp add: skip_def)
      obtain w where w: "word_end comma quote (drop i (c # s)) (n + i) = Some w"
        "\<forall>t m. w = Inr (t, m) \<longrightarrow> n + i \<le> m \<and> no_hex t \<and> BackSlashDecode (drop i (c # s)) (m - (n + i)) \<noteq> None"
        using "2.IH"(1) [OF True b(1) refl False k] no_hex_drop [OF "2.prems"] by blast
      have "BackSlashDecode (c # s) (m - n) \<noteq> None" if "w = Inr (t, m)" for t m
      proof -
        have "m - n - i = m - (n + i)" "m - n \<noteq> 0" using w(2) that False by auto
        then show ?thesis
          using w(2) that True b(1) k False by (subst BackSlashDecode.simps) auto
      qed
      then show ?thesis using w b(1) k False True by (fastforce simp: word_end.simps(2))
    qed
  next
    case False
    have step: "BackSlashDecode (c # s) (m - n) \<noteq> None" if "n + 1 \<le> m" "BackSlashDecode s (m - (n + 1)) \<noteq> None" for m
    proof -
      have "m - n - 1 = m - (n + 1)" "m - n \<noteq> 0" using that by auto
      then show ?thesis using that False by (subst BackSlashDecode.simps) auto
    qed
    show ?thesis
    proof (cases "if quote then c = CHR 0x22 else is_space c \<or> comma \<and> c = CHR '',''")
      case True
      then show ?thesis using False "2.prems" by (auto simp: word_end.simps(2) BackSlashDecode.simps [of _ 0])
    next
      case c: False
      have e: "word_end comma quote (c # s) n = word_end comma quote s (n + 1)"
        using c False by (auto simp: word_end.simps(2))
      have "\<exists>w. word_end comma quote s (n + 1) = Some w \<and>
        (\<forall>t m. w = Inr (t, m) \<longrightarrow> n + 1 \<le> m \<and> no_hex t \<and> BackSlashDecode s (m - (n + 1)) \<noteq> None)"
        using "2.IH"(2) [OF False] "2.IH"(3) [OF False] c nh by (cases quote) auto
      then show ?thesis using e step by (metis add_leD1)
    qed
  qed
qed

lemma argv_loop_some: "no_hex s \<Longrightarrow> \<exists>r. argv_loop comment comma s argv = Some r"
proof (induction comment comma s argv rule: argv_loop.induct)
  case (2 comment comma c s argv)
  have nh: "no_hex s" using no_hex_tl [OF "2.prems"] by simp
  let ?p = "if c = CHR 0x22 then s else c # s"
  have np: "no_hex ?p" using nh "2.prems" by simp
  obtain w where w: "word_end comma (c = CHR 0x22) ?p 0 = Some w"
    "\<forall>t m. w = Inr (t, m) \<longrightarrow> no_hex t \<and> BackSlashDecode ?p m \<noteq> None"
    using word_end_some [OF np, of comma "c = CHR 0x22" 0] by auto
  show ?case
  proof (cases "is_space c \<or> comment \<and> c = CHR ''#''")
    case True
    then show ?thesis using "2.IH"(1) nh by (auto simp: argv_loop.simps(2))
  next
    case False
    then have e: "argv_loop comment comma (c # s) argv = (case w of
          Inl e \<Rightarrow> Some (Some e, argv)
        | Inr (t, n) \<Rightarrow> do { a \<leftarrow> BackSlashDecode ?p n; argv_loop comment comma (tl t) (argv @ [a]) })"
      unfolding argv_loop.simps(2) Let_def w(1) by (simp only: de_Morgan_disj if_False bind.bind_lunit)
    show ?thesis
    proof (cases w)
      case (Inl e)
      then show ?thesis using e by simp
    next
      case (Inr tn)
      obtain t n where tn: "tn = (t, n)" by (cases tn)
      obtain a where a: "BackSlashDecode ?p n = Some a" using w(2) Inr tn by auto
      have "\<exists>r. argv_loop comment comma (tl t) (argv @ [a]) = Some r"
        using "2.IH"(2) [OF _ _ refl refl w(1) Inr tn [symmetric] a] False w(2) Inr tn no_hex_tl by blast
      then show ?thesis using e Inr tn a by simp
    qed
  qed
qed (simp add: argv_loop.simps)

text \<open>
  C40 (safety).  On a line in which no backslash is followed by an \<open>x\<close>, \<open>ParseArgv\<close> always comes to an end
  without failing an assertion and without reading behind the line: it gives words or one of its two errors.
\<close>
theorem ParseArgv_safe:
  assumes "no_hex (cstr s)"
  shows "\<exists>err argv. ParseArgv comment comma s = Some (err, argv)"
  using argv_loop_some [OF assms, of comment comma "[]"] by (auto simp: ParseArgv_def)

theorem ParseArgv_safe_witness:
  "\<exists>err argv. ParseArgv True True [CHR ''a'', CHR 0x5C, CHR ''7'', CHR '','', CHR 0x22] = Some (err, argv)"
  by (rule ParseArgv_safe) (simp add: cstr_def NUL_def)

text \<open>
  A hexadecimal escape with one digit at the end of a line takes \<open>ParseArgv\<close> beyond the NUL, and one
  whose digit has a minus sign fails an assertion, whatever comes before it.
\<close>
theorem ParseArgv_hex_escapes:
  assumes "\<forall>c \<in> set w. is_graph c \<and> c \<noteq> CHR 0x5C" "w \<noteq> []" "hd w \<noteq> CHR 0x22"
  shows "ParseArgv False False (w @ [CHR 0x5C, CHR ''x'', CHR ''1'']) = None \<and>
    ParseArgv False False (w @ [CHR 0x5C, CHR ''x'', CHR ''-'', CHR ''1'']) = None"
proof -
  have we: "word_end False False (w @ CHR 0x5C # r) n = word_end False False (CHR 0x5C # r) (n + length w)" for r n
    using assms(1)
  proof (induction w arbitrary: n)
    case (Cons c w)
    then have "\<not> is_space c" "c \<noteq> CHR 0x5C" using graph_not_space by auto
    then show ?case using Cons by (simp add: word_end.simps(2) [of _ _ c])
  qed simp
  have n: "cstr (w @ CHR 0x5C # r) = w @ CHR 0x5C # r" if "NUL \<notin> set r" for r
  proof (rule cstr_id)
    have "\<not> is_graph NUL" by (simp add: is_graph_def NUL_def)
    then have "NUL \<notin> set w" using assms(1) by blast
    then show "NUL \<notin> set (w @ CHR 0x5C # r)" using that by (simp add: NUL_def)
  qed
  obtain d where b: "BackSlash [CHR 0x5C, CHR ''x'', CHR ''1''] = Some (4, d)"
    by (simp add: BackSlash_def is_octal_def sscanf_02x_def is_space_def is_xdigit_def digit_val_def)
  have "\<not> unat (- 1 :: u32) \<le> 255" by (simp add: unsigned_minus_1_eq_mask mask_eq_exp_minus_1)
  then have b': "BackSlash [CHR 0x5C, CHR ''x'', CHR ''-'', CHR ''1''] = None"
    by (simp add: BackSlash_def is_octal_def sscanf_02x_def is_space_def is_xdigit_def digit_val_def)
  obtain c v where w: "w = c # v" using assms(2) by (cases w) auto
  have nx: "argv_loop False False (w @ CHR 0x5C # r) [] = None" if "word_end False False (CHR 0x5C # r) (length w) = None" for r
  proof -
    have "word_end False False (c # v @ CHR 0x5C # r) 0 = None" using that we [of r 0] w by simp
    moreover have "\<not> is_space c" "c \<noteq> CHR 0x22" using assms w graph_not_space by auto
    ultimately show ?thesis unfolding w append_Cons argv_loop.simps(2) Let_def by simp
  qed
  have "word_end False False [CHR 0x5C, CHR ''x'', CHR ''1''] k = None" for k
    by (simp add: word_end.simps(2) b skip_def)
  moreover have "word_end False False [CHR 0x5C, CHR ''x'', CHR ''-'', CHR ''1''] k = None" for k
    by (simp add: word_end.simps(2) b')
  ultimately show ?thesis using nx n by (simp_all add: ParseArgv_def NUL_def)
qed

theorem ParseArgv_hex_escapes_witness: "ParseArgv False False [CHR ''a'', CHR 0x5C, CHR ''x'', CHR ''1''] = None"
  using ParseArgv_hex_escapes [of "''a''"] by (simp add: is_graph_def)

end
