(* ===== verification/Ban.thy ===== *)
theory Ban
  imports Http_Props Argv
begin

text \<open>
  Bans: \<open>bin/varnishd/cache_ban.c\<close>, \<open>cache_ban.h\<close> and \<open>include/purge_vars.h\<close>.

  Every ban on the list \<open>ban_head\<close> (newest first) has an address.  An object is known by the address of its
  \<open>objcore\<close>.  \<open>VRE_compile\<close> and \<open>VRE_exec\<close> are parameters (\<open>vre\<close>), with any type \<open>'re\<close> of compiled
  expressions; \<open>VRE_exec\<close> gives its \<open>int\<close> result.  \<open>TIM_real\<close> and the address of new memory are
  arguments.  Reference counts are integers: no wrap at \<open>2 ^ 32\<close> references to one ban.  Calls into other
  components are recorded (\<open>EXP_Rearm\<close>) or left out (logging, statistics, the persistent storage
  \<open>SMP_NewBan\<close>, \<open>SMP_BANchanged\<close>, \<open>SMP_TTLchanged\<close>).
\<close>

section \<open>State\<close>

datatype ban_cond_f = Ban_cond_url | Ban_cond_req_http | Ban_cond_obj_http

record 're vre =
  VRE_compile :: "string \<Rightarrow> 're option"
  VRE_exec :: "'re \<Rightarrow> string \<Rightarrow> int"

record 're ban_test =
  bt_func :: "ban_cond_f option"
  bt_regexp :: bool
  bt_not :: bool
  bt_re :: "'re option"
  bt_dst :: "string option"
  bt_src :: "string option"

record 're ban =
  b_refcount :: int
  b_gone :: bool
  b_pending :: bool
  b_req :: bool
  b_tests :: "'re ban_test list"
  b_objcore :: "nat list"
  b_t0 :: real
  b_vsb :: "string option"
  b_test :: "string option"

record ban_obj =
  o_http :: http
  o_ban :: "nat option"
  o_ban_t :: real
  o_ttl :: real
  o_cacheable :: bool

record 're banst =
  ban_head :: "(nat \<times> 're ban) list"
  ban_start :: "nat option"
  ban_objs :: "nat \<Rightarrow> ban_obj option"
  exp_rearmed :: "nat list"

definition upd_ban :: "nat \<Rightarrow> ('re ban \<Rightarrow> 're ban) \<Rightarrow> (nat \<times> 're ban) list \<Rightarrow> (nat \<times> 're ban) list" where
  "upd_ban a f bs = map (\<lambda>(x, b). (x, if x = a then f b else b)) bs"

section \<open>Making bans\<close>

definition BAN_New :: "'re ban" where
  "BAN_New = \<lparr>b_refcount = 0, b_gone = False, b_pending = False, b_req = False, b_tests = [], b_objcore = [],
     b_t0 = 0, b_vsb = Some [], b_test = None\<rparr>"

definition new_test :: "'re ban_test" where
  "new_test = \<lparr>bt_func = None, bt_regexp = False, bt_not = False, bt_re = None, bt_dst = None, bt_src = None\<rparr>"

text \<open>\<open>ban_add_test\<close> puts the new test at the tail; the callers then fill it in: \<open>set_test\<close> is the store.\<close>

definition ban_add_test :: "'re ban \<Rightarrow> 're ban" where
  "ban_add_test b = b\<lparr>b_tests := b_tests b @ [new_test]\<rparr>"

definition set_test :: "'re ban \<Rightarrow> 're ban_test \<Rightarrow> 're ban" where
  "set_test b bt = b\<lparr>b_tests := butlast (b_tests b) @ [bt]\<rparr>"

definition BAN_Free :: "'re ban \<Rightarrow> unit option" where
  "BAN_Free b = do { chk (b_refcount b = 0); chk (b_objcore b = []) }"

section \<open>Testing\<close>

text \<open>A test function returns 0 when the test matches.\<close>

definition ban_cond_str :: "('re, 'm) vre_scheme \<Rightarrow> 're ban_test \<Rightarrow> string option \<Rightarrow> int option" where
  "ban_cond_str vre bt p = (case p of
     None \<Rightarrow> Some (if bt_not bt then 0 else 1)
   | Some p \<Rightarrow> do {
       i \<leftarrow> (if bt_regexp bt then do { re \<leftarrow> bt_re bt; Some (if VRE_exec vre re p \<ge> 0 then 0 else VRE_exec vre re p) }
            else do { d \<leftarrow> bt_dst bt; Some (if d = p then 0 else 1) });
       Some (if bt_not bt then (if i = 0 then 1 else 0) else i) })"

definition ban_cond_url :: "('re, 'm) vre_scheme \<Rightarrow> 're ban_test \<Rightarrow> http \<Rightarrow> int option" where
  "ban_cond_url vre bt req = ban_cond_str vre bt (map_option (\<lambda>t. cstr (snd t)) (hp_hd req ! HTTP_HDR_URL))"

definition ban_cond_req_http :: "('re, 'm) vre_scheme \<Rightarrow> 're ban_test \<Rightarrow> http \<Rightarrow> int option" where
  "ban_cond_req_http vre bt req = do { src \<leftarrow> bt_src bt; s \<leftarrow> http_GetHdr req src; ban_cond_str vre bt s }"

definition ban_cond_obj_http :: "('re, 'm) vre_scheme \<Rightarrow> 're ban_test \<Rightarrow> http \<Rightarrow> int option" where
  "ban_cond_obj_http vre bt obj = do { src \<leftarrow> bt_src bt; s \<leftarrow> http_GetHdr obj src; ban_cond_str vre bt s }"

text \<open>\<open>bt->func(bt, o, sp)\<close>\<close>

definition ban_cond :: "('re, 'm) vre_scheme \<Rightarrow> 're ban_test \<Rightarrow> http \<Rightarrow> http \<Rightarrow> int option" where
  "ban_cond vre bt obj req = do {
     f \<leftarrow> bt_func bt;
     (case f of
        Ban_cond_url \<Rightarrow> ban_cond_url vre bt req
      | Ban_cond_req_http \<Rightarrow> ban_cond_req_http vre bt req
      | Ban_cond_obj_http \<Rightarrow> ban_cond_obj_http vre bt obj) }"

section \<open>Parsing a test\<close>

definition ban_parse_regexp :: "('re, 'm) vre_scheme \<Rightarrow> 're ban_test \<Rightarrow> string \<Rightarrow> int \<times> 're ban_test" where
  "ban_parse_regexp vre bt a3 = (case VRE_compile vre a3 of
     None \<Rightarrow> (- 1, bt\<lparr>bt_re := None\<rparr>)
   | Some re \<Rightarrow> (0, bt\<lparr>bt_re := Some re, bt_regexp := True\<rparr>))"

definition ban_parse_http :: "'re ban_test \<Rightarrow> string \<Rightarrow> 're ban_test option" where
  "ban_parse_http bt a1 = do {
     chk (length a1 < 127);
     Some (bt\<lparr>bt_src := Some (char_of (length a1 + 1) # a1 @ '':'')\<rparr>) }"

text \<open>\<open>purge_vars.h\<close>: name, \<open>PVAR_REQ\<close>, \<open>PVAR_HTTP\<close>, test function.\<close>

definition pvars :: "(string \<times> bool \<times> bool \<times> ban_cond_f) list" where
  "pvars = [(''req.url'', True, False, Ban_cond_url),
            (''req.http.'', True, True, Ban_cond_req_http),
            (''obj.http.'', False, True, Ban_cond_obj_http)]"

definition find_pvar :: "string \<Rightarrow> (string \<times> bool \<times> bool \<times> ban_cond_f) option" where
  "find_pvar a1 = find (\<lambda>(n, _). take (length n) a1 = n) pvars"

text \<open>
  \<open>BAN_AddTest\<close>: 0 or -1, and the ban with the new test, which stays on the list half-made on an error.
  The text goes to the string buffer, which holds all of it (\<open>vsb_auto_refines_text\<close>); quoting writes
  \<open>quoted\<close>.
\<close>

definition ban_operator :: "('re, 'm) vre_scheme \<Rightarrow> 're ban_test \<Rightarrow> string \<Rightarrow> string \<Rightarrow> int \<times> 're ban_test" where
  "ban_operator vre bt a2 a3 = (
     if a2 = ''~'' then ban_parse_regexp vre bt a3
     else if a2 = ''!~'' then ban_parse_regexp vre (bt\<lparr>bt_not := True\<rparr>) a3
     else if a2 = ''=='' then (0, bt\<lparr>bt_dst := Some a3\<rparr>)
     else if a2 = ''!='' then (0, bt\<lparr>bt_not := True, bt_dst := Some a3\<rparr>)
     else (- 1, bt))"

definition BAN_AddTest :: "('re, 'm) vre_scheme \<Rightarrow> 're ban \<Rightarrow> string \<Rightarrow> string \<Rightarrow> string \<Rightarrow> (int \<times> 're ban) option" where
  "BAN_AddTest vre b a1 a2 a3 = do {
     v \<leftarrow> b_vsb b;
     let v = (if b_tests b \<noteq> [] then v @ '' && '' else v);
     let b = ban_add_test (b\<lparr>b_vsb := Some v\<rparr>);
     let (i, bt) = ban_operator vre new_test a2 a3;
     if i \<noteq> 0 then Some (i, set_test b bt)
     else (case find_pvar a1 of
        None \<Rightarrow> Some (- 1, set_test b bt)
      | Some (n, req, hdr, f) \<Rightarrow> do {
          let bt = bt\<lparr>bt_func := Some f\<rparr>;
          let b = (if req then b\<lparr>b_req := True\<rparr> else b);
          bt \<leftarrow> (if hdr then ban_parse_http bt (drop (length n) a1) else Some bt);
          Some (0, (set_test b bt)\<lparr>b_vsb := Some (v @ a1 @ '' '' @ a2 @ '' '' @ quoted a3)\<rparr>) }) }"

section \<open>The ban list\<close>

text \<open>
  \<open>BAN_Insert\<close> is two critical sections with a hunt for duplicates between them.  In the first the ban
  gets its text and time and becomes the newest; the oldest ban is held by a reference meanwhile.
\<close>

definition insert_head :: "nat \<Rightarrow> real \<Rightarrow> bool \<Rightarrow> 're ban \<Rightarrow> 're banst \<Rightarrow> (nat option \<times> 're banst) option" where
  "insert_head a now purge_dups b st = do {
     v \<leftarrow> b_vsb b;
     let b = b\<lparr>b_t0 := now, b_test := Some (cstr v), b_vsb := None\<rparr>;
     let bs = (a, b) # ban_head st;
     let be = fst (last bs);
     Some (if purge_dups \<and> be \<noteq> a
           then (Some be, st\<lparr>ban_head := upd_ban be (\<lambda>b. b\<lparr>b_refcount := b_refcount b + 1\<rparr>) bs, ban_start := Some a\<rparr>)
           else (None, st\<lparr>ban_head := bs, ban_start := Some a\<rparr>)) }"

text \<open>The loop from the new ban to \<open>be\<close>, over the bans behind the new one.\<close>

fun hunt :: "string option \<Rightarrow> nat \<Rightarrow> (nat \<times> 're ban) list \<Rightarrow> (nat \<times> 're ban) list option" where
  "hunt test be [] = None"
| "hunt test be ((x, b) # bs) = (
     let b = (if \<not> b_gone b \<and> test = b_test b then b\<lparr>b_gone := True\<rparr> else b)
     in if x = be then Some ((x, b) # bs) else map_option ((#) (x, b)) (hunt test be bs))"

definition BAN_Insert :: "nat \<Rightarrow> real \<Rightarrow> bool \<Rightarrow> 're ban \<Rightarrow> 're banst \<Rightarrow> 're banst option" where
  "BAN_Insert a now purge_dups b st = do {
     (be, st) \<leftarrow> insert_head a now purge_dups b st;
     (case be of
        None \<Rightarrow> Some st
      | Some be \<Rightarrow> (case ban_head st of
          [] \<Rightarrow> None
        | (x, b) # bs \<Rightarrow> do {
            bs \<leftarrow> hunt (b_test b) be bs;
            Some (st\<lparr>ban_head := upd_ban be (\<lambda>b. b\<lparr>b_refcount := b_refcount b - 1\<rparr>) ((x, b) # bs)\<rparr>) })) }"

definition attach :: "nat \<Rightarrow> 're ban \<Rightarrow> 're ban" where
  "attach oc b = b\<lparr>b_refcount := b_refcount b + 1, b_objcore := b_objcore b @ [oc]\<rparr>"

definition detach :: "nat \<Rightarrow> 're ban \<Rightarrow> 're ban" where
  "detach oc b = b\<lparr>b_refcount := b_refcount b - 1, b_objcore := remove1 oc (b_objcore b)\<rparr>"

definition BAN_NewObj :: "nat \<Rightarrow> 're banst \<Rightarrow> 're banst option" where
  "BAN_NewObj oc st = do {
     ob \<leftarrow> ban_objs st oc;
     chk (o_ban ob = None);
     a \<leftarrow> ban_start st;
     b \<leftarrow> map_of (ban_head st) a;
     Some (st\<lparr>ban_head := upd_ban a (attach oc) (ban_head st),
              ban_objs := (ban_objs st)(oc \<mapsto> ob\<lparr>o_ban := Some a, o_ban_t := b_t0 b\<rparr>)\<rparr>) }"

text \<open>The last ban is taken off when nobody refers to it and it is not the only one.\<close>

definition BAN_CheckLast :: "'re banst \<Rightarrow> ('re ban option \<times> 're banst) option" where
  "BAN_CheckLast st = (case ban_head st of
     [] \<Rightarrow> None
   | _ \<Rightarrow> let (a, b) = last (ban_head st) in
       Some (if length (ban_head st) \<noteq> 1 \<and> b_refcount b = 0
             then (Some b, st\<lparr>ban_head := butlast (ban_head st)\<rparr>) else (None, st)))"

definition free_last :: "'re ban option \<times> 're banst \<Rightarrow> 're banst option" where
  "free_last = (\<lambda>(b, st). case b of None \<Rightarrow> Some st | Some b \<Rightarrow> do { BAN_Free b; Some st })"

definition BAN_DestroyObj :: "nat \<Rightarrow> 're banst \<Rightarrow> 're banst option" where
  "BAN_DestroyObj oc st = do {
     ob \<leftarrow> ban_objs st oc;
     (case o_ban ob of
        None \<Rightarrow> Some st
      | Some a \<Rightarrow> do {
          b \<leftarrow> map_of (ban_head st) a;
          chk (b_refcount b > 0);
          let st = st\<lparr>ban_head := upd_ban a (detach oc) (ban_head st),
                      ban_objs := (ban_objs st)(oc \<mapsto> ob\<lparr>o_ban := None\<rparr>)\<rparr>;
          r \<leftarrow> BAN_CheckLast st;
          free_last r }) }"

section \<open>Checking an object\<close>

text \<open>The loop over the tests of a ban: do all of them match?\<close>

fun tests_match :: "('re, 'm) vre_scheme \<Rightarrow> 're ban_test list \<Rightarrow> http \<Rightarrow> http \<Rightarrow> bool option" where
  "tests_match vre [] obj req = Some True"
| "tests_match vre (bt # bts) obj req = do {
     i \<leftarrow> ban_cond vre bt obj req;
     if i \<noteq> 0 then Some False else tests_match vre bts obj req }"

datatype walk = Not_banned | Banned | Needs_request

fun ban_walk :: "('re, 'm) vre_scheme \<Rightarrow> (nat \<times> 're ban) list \<Rightarrow> nat \<Rightarrow> http \<Rightarrow> http \<Rightarrow> bool \<Rightarrow> walk option" where
  "ban_walk vre [] oban obj req has_req = None"
| "ban_walk vre ((x, b) # bs) oban obj req has_req =
     (if x = oban then Some Not_banned
      else if b_gone b then ban_walk vre bs oban obj req has_req
      else if \<not> has_req \<and> b_req b then Some Needs_request
      else do {
        m \<leftarrow> tests_match vre (b_tests b) obj req;
        if m then Some Banned else ban_walk vre bs oban obj req has_req })"

definition ban_check_object :: "('re, 'm) vre_scheme \<Rightarrow> nat \<Rightarrow> http \<Rightarrow> bool \<Rightarrow> 're banst \<Rightarrow> (bool \<times> 're banst) option" where
  "ban_check_object vre oc req has_req st = do {
     ob \<leftarrow> ban_objs st oc;
     oban \<leftarrow> o_ban ob;
     b0 \<leftarrow> ban_start st;
     if b0 = oban then Some (False, st)
     else do {
       w \<leftarrow> ban_walk vre (dropWhile (\<lambda>(x, b). x \<noteq> b0) (ban_head st)) oban (o_http ob) req has_req;
       if w = Needs_request then Some (False, st)
       else do {
         let bs = upd_ban oban (detach oc) (ban_head st);
         if w = Not_banned then do {
           b \<leftarrow> map_of bs b0;
           Some (False, st\<lparr>ban_head := upd_ban b0 (attach oc) bs,
                           ban_objs := (ban_objs st)(oc \<mapsto> ob\<lparr>o_ban := Some b0, o_ban_t := b_t0 b\<rparr>)\<rparr>) }
         else Some (True, st\<lparr>ban_head := bs,
                             ban_objs := (ban_objs st)(oc \<mapsto> ob\<lparr>o_ttl := 0, o_cacheable := False, o_ban := None\<rparr>),
                             exp_rearmed := exp_rearmed st @ [oc]\<rparr>) } } }"

definition BAN_CheckObject :: "('re, 'm) vre_scheme \<Rightarrow> nat \<Rightarrow> http \<Rightarrow> 're banst \<Rightarrow> (bool \<times> 're banst) option" where
  "BAN_CheckObject vre oc req st = ban_check_object vre oc req True st"

text \<open>
  One turn of the lurker.  Whether \<open>HSH_FindBan\<close> finds the object core in the cache is \<open>found\<close>; the
  reference it takes and gives back is the business of the hash.
\<close>

definition ban_lurker_turn :: "('re, 'm) vre_scheme \<Rightarrow> (nat \<Rightarrow> bool) \<Rightarrow> http \<Rightarrow> 're banst \<Rightarrow> 're banst option" where
  "ban_lurker_turn vre found req st = do {
     (bf, st) \<leftarrow> BAN_CheckLast st;
     (case bf of
        Some bf \<Rightarrow> do { BAN_Free bf; Some st }
      | None \<Rightarrow>
          let (a, b) = last (ban_head st) in
          if Some a = ban_start st then Some st
          else (case b_objcore b of
             [] \<Rightarrow> Some st
           | oc # _ \<Rightarrow>
               if \<not> found oc then Some st
               else map_option snd (ban_check_object vre oc req False st))) }"

section \<open>References\<close>

definition BAN_Deref :: "nat \<Rightarrow> 're banst \<Rightarrow> 're banst" where
  "BAN_Deref a st = st\<lparr>ban_head := upd_ban a (\<lambda>b. b\<lparr>b_refcount := b_refcount b - 1\<rparr>) (ban_head st)\<rparr>"

definition BAN_TailRef :: "'re banst \<Rightarrow> (nat \<times> 're banst) option" where
  "BAN_TailRef st = do {
     chk (ban_head st \<noteq> []);
     let a = fst (last (ban_head st));
     Some (a, st\<lparr>ban_head := upd_ban a (\<lambda>b. b\<lparr>b_refcount := b_refcount b + 1\<rparr>) (ban_head st)\<rparr>) }"

definition BAN_RefBan :: "nat \<Rightarrow> real \<Rightarrow> nat option \<Rightarrow> 're banst \<Rightarrow> (nat \<times> 're banst) option" where
  "BAN_RefBan oc t0 tail st = do {
     (a, b) \<leftarrow> find (\<lambda>(x, b). Some x = tail \<or> b_t0 b \<le> t0) (ban_head st);
     chk (b_t0 b = t0);
     Some (a, st\<lparr>ban_head := upd_ban a (attach oc) (ban_head st)\<rparr>) }"

section \<open>Bans from persistent storage\<close>

text \<open>
  The search of \<open>BAN_Reload\<close>: None when the same ban is there already, else whether a newer ban has the
  same condition, and how many bans stay before the new one.
\<close>

fun reload_scan :: "(nat \<times> 're ban) list \<Rightarrow> real \<Rightarrow> string \<Rightarrow> bool \<Rightarrow> nat \<Rightarrow> (bool \<times> nat) option" where
  "reload_scan [] t0 ban gone n = Some (gone, n)"
| "reload_scan ((x, b) # bs) t0 ban gone n = (
     if b_test b = Some ban then
       (if b_t0 b > t0 then reload_scan bs t0 ban True (n + 1)
        else if b_t0 b = t0 then None
        else Some (gone, n))
     else if b_t0 b > t0 then reload_scan bs t0 ban gone (n + 1)
     else if b_t0 b < t0 then Some (gone, n)
     else reload_scan bs t0 ban gone (n + 1))"

definition hunt_older :: "string \<Rightarrow> (nat \<times> 're ban) list \<Rightarrow> (nat \<times> 're ban) list" where
  "hunt_older test bs = map (\<lambda>(x, b). (x, if \<not> b_gone b \<and> b_test b = Some test then b\<lparr>b_gone := True\<rparr> else b)) bs"

definition BAN_Reload :: "nat \<Rightarrow> real \<Rightarrow> string \<Rightarrow> 're banst \<Rightarrow> 're banst" where
  "BAN_Reload a t0 ban st = (case reload_scan (ban_head st) t0 ban False 0 of
     None \<Rightarrow> st
   | Some (gone, n) \<Rightarrow>
       let b2 = BAN_New\<lparr>b_test := Some ban, b_t0 := t0, b_pending := True, b_gone := gone\<rparr>
       in st\<lparr>ban_head := take n (ban_head st) @ (a, b2) # hunt_older ban (drop n (ban_head st))\<rparr>)"

text \<open>
  The argument loop of \<open>BAN_Compile\<close>: threes of words with \<open>&&\<close> between them.  A missing word is the end
  of the argument vector, which the code would read beyond.
\<close>

fun compile_tests :: "('re, 'm) vre_scheme \<Rightarrow> bool \<Rightarrow> string list \<Rightarrow> 're ban \<Rightarrow> 're ban option" where
  "compile_tests vre first [] b = Some b"
| "compile_tests vre True (a1 # a2 # a3 # av) b = do {
     (i, b) \<leftarrow> BAN_AddTest vre b a1 a2 a3;
     chk (i = 0);
     compile_tests vre False av b }"
| "compile_tests vre False (x # a1 # a2 # a3 # av) b = do {
     chk (x = ''&&'');
     (i, b) \<leftarrow> BAN_AddTest vre b a1 a2 a3;
     chk (i = 0);
     compile_tests vre False av b }"
| "compile_tests vre first _ b = None"

definition compile_ban :: "('re, 'm) vre_scheme \<Rightarrow> 're ban \<Rightarrow> 're ban option" where
  "compile_ban vre b = (
     if \<not> b_pending b then Some b
     else let b = b\<lparr>b_pending := False\<rparr> in
       if b_gone b then Some b
       else do {
         test \<leftarrow> b_test b;
         (err, av) \<leftarrow> ParseArgv False False test;
         chk (err = None);
         compile_tests vre True av b })"

fun compile_bans :: "('re, 'm) vre_scheme \<Rightarrow> (nat \<times> 're ban) list \<Rightarrow> (nat \<times> 're ban) list option" where
  "compile_bans vre [] = Some []"
| "compile_bans vre ((x, b) # bs) = do {
     b \<leftarrow> compile_ban vre b;
     bs \<leftarrow> compile_bans vre bs;
     Some ((x, b) # bs) }"

definition BAN_Compile :: "('re, 'm) vre_scheme \<Rightarrow> 're banst \<Rightarrow> 're banst option" where
  "BAN_Compile vre st = do {
     bs \<leftarrow> compile_bans vre (ban_head st);
     Some (st\<lparr>ban_head := bs, ban_start := (case bs of [] \<Rightarrow> None | (x, b) # _ \<Rightarrow> Some x)\<rparr>) }"

section \<open>Commands\<close>

datatype purge_result = Purge_ok | Wrong_number_of_arguments | Expected_and string | Bad_test

fun purge_ands :: "string list \<Rightarrow> string option" where
  "purge_ands (a1 # a2 # a3 # x # av) = (if x \<noteq> ''&&'' then Some x else purge_ands av)"
| "purge_ands _ = None"

fun purge_tests :: "('re, 'm) vre_scheme \<Rightarrow> string list \<Rightarrow> 're ban \<Rightarrow> (int \<times> 're ban) option" where
  "purge_tests vre (a1 # a2 # a3 # av) b = do {
     (i, b) \<leftarrow> BAN_AddTest vre b a1 a2 a3;
     if i \<noteq> 0 then Some (i, b) else purge_tests vre (tl av) b }"
| "purge_tests vre _ b = Some (0, b)"

text \<open>\<open>av\<close> are the words behind the name of the command.\<close>

definition ccf_purge :: "('re, 'm) vre_scheme \<Rightarrow> nat \<Rightarrow> real \<Rightarrow> bool \<Rightarrow> string list \<Rightarrow> 're banst \<Rightarrow> (purge_result \<times> 're banst) option" where
  "ccf_purge vre a now purge_dups av st = (
     if length av mod 4 \<noteq> 3 then Some (Wrong_number_of_arguments, st)
     else case purge_ands av of
       Some x \<Rightarrow> Some (Expected_and x, st)
     | None \<Rightarrow> do {
         (i, b) \<leftarrow> purge_tests vre av BAN_New;
         if i \<noteq> 0 then do { BAN_Free b; Some (Bad_test, st) }
         else do { st \<leftarrow> BAN_Insert a now purge_dups b st; Some (Purge_ok, st) } })"

definition ccf_purge_url :: "('re, 'm) vre_scheme \<Rightarrow> nat \<Rightarrow> real \<Rightarrow> bool \<Rightarrow> string list \<Rightarrow> 're banst \<Rightarrow> (purge_result \<times> 're banst) option" where
  "ccf_purge_url vre a now purge_dups av st = (case av of
     [] \<Rightarrow> None
   | x # _ \<Rightarrow> ccf_purge vre a now purge_dups [''req.url'', ''~'', x] st)"

text \<open>\<open>ccf_purge_list\<close>: bans nobody refers to are retired from the end, then the list is shown.\<close>

function purge_last :: "'re banst \<Rightarrow> 're banst option" where
  "purge_last st = do {
     (b, st') \<leftarrow> BAN_CheckLast st;
     (case b of None \<Rightarrow> Some st' | Some b \<Rightarrow> do { BAN_Free b; purge_last st' }) }"
  by pat_completeness auto
termination
  by (relation "measure (\<lambda>st. length (ban_head st))")
    (auto simp: BAN_CheckLast_def split: list.splits if_splits prod.splits)

definition ccf_purge_list :: "'re banst \<Rightarrow> ((nat \<times> real \<times> int \<times> bool \<times> string option) list \<times> 're banst) option" where
  "ccf_purge_list st = do {
     st \<leftarrow> purge_last st;
     Some (map (\<lambda>(x, b). (x, b_t0 b, b_refcount b, b_gone b, b_test b)) (ban_head st), st) }"

definition BAN_Init :: "nat \<Rightarrow> real \<Rightarrow> bool \<Rightarrow> 're banst option" where
  "BAN_Init a now purge_dups = BAN_Insert a now purge_dups (BAN_New\<lparr>b_gone := True\<rparr>)
     \<lparr>ban_head = [], ban_start = None, ban_objs = Map.empty, exp_rearmed = []\<rparr>"

end
