(* ===== verification/Ban_Props.thy ===== *)
theory Ban_Props
  imports Ban
begin

text \<open>
  What the ban list promises: which objects are banned, and that the list never frees a ban an object needs.
\<close>

section \<open>Well-formed tests\<close>

definition src_wf :: "string option \<Rightarrow> bool" where
  "src_wf src \<longleftrightarrow> (\<exists>n. length n < 127 \<and> src = Some (H_of n))"

definition test_wf :: "'re ban_test \<Rightarrow> bool" where
  "test_wf bt \<longleftrightarrow> bt_func bt \<noteq> None \<and> (bt_func bt \<noteq> Some Ban_cond_url \<longrightarrow> src_wf (bt_src bt)) \<and>
     (if bt_regexp bt then bt_re bt \<noteq> None else bt_dst bt \<noteq> None)"

definition ban_wf :: "'re ban \<Rightarrow> bool" where
  "ban_wf b \<longleftrightarrow> (\<forall>bt \<in> set (b_tests b). test_wf bt \<and> (\<not> b_req b \<longrightarrow> bt_func bt = Some Ban_cond_obj_http))"

lemma find_index:
  assumes "findhdr_from ts u l h = v" "v \<noteq> 0"
  shows "u \<le> v \<and> v - u < length ts \<and> ts ! (v - u) \<noteq> None"
  using assms
proof (induction ts arbitrary: u)
  case (Cons t ts)
  have "findhdr_from (t # ts) u l h = u \<and> t \<noteq> None \<or> findhdr_from (t # ts) u l h = findhdr_from ts (u + 1) l h"
    by (auto split: option.splits)
  then consider "v = u" "t \<noteq> None" | "findhdr_from ts (u + 1) l h = v" using Cons.prems(1) by metis
  then show ?case
  proof cases
    case 2
    from Cons.IH [OF this Cons.prems(2)] show ?thesis
      by (cases "v - u") (auto simp: Suc_le_eq less_Suc_eq_0_disj, (metis Suc_diff_Suc diff_Suc_1 nat.inject)+)
  qed simp
qed simp

text \<open>Looking a header up never fails for a well-formed matching string.\<close>

lemma http_GetHdr_total:
  assumes "length n < 127"
  shows "\<exists>v. http_GetHdr hp (H_of n) = Some v"
proof -
  let ?ts = "drop HTTP_HDR_FIRST (take (hp_nhd hp) (hp_hd hp))"
  let ?u = "http_findhdr hp (length n) (n @ '':'')"
  have g: "http_GetHdr hp (H_of n) = (if ?u = 0 then Some None
    else do { t \<leftarrow> hp_hd hp ! ?u; Some (Some (cstr (dropWhile vct_issp (drop (length n + 1) (snd t))))) })"
    using assms by (simp add: http_GetHdr_def H_of_def nth_append Let_def)
  have "hp_hd hp ! ?u \<noteq> None" if "?u \<noteq> 0"
  proof -
    have f: "HTTP_HDR_FIRST \<le> ?u" "?u - HTTP_HDR_FIRST < length ?ts" "?ts ! (?u - HTTP_HDR_FIRST) \<noteq> None"
      using find_index [OF http_findhdr_def [symmetric] that] by auto
    have "?ts ! (?u - HTTP_HDR_FIRST) = take (hp_nhd hp) (hp_hd hp) ! (HTTP_HDR_FIRST + (?u - HTTP_HDR_FIRST))"
      using f(2) by (intro nth_drop) auto
    also have "\<dots> = hp_hd hp ! ?u" using f(1,2) by simp
    finally show ?thesis using f(3) by simp
  qed
  then show ?thesis unfolding g by auto
qed

lemma ban_cond_str_total: "test_wf bt \<Longrightarrow> \<exists>i. ban_cond_str vre bt p = Some i"
  by (auto simp: test_wf_def ban_cond_str_def split: option.splits if_splits)

lemma ban_cond_total:
  assumes "test_wf bt"
  shows "\<exists>i. ban_cond vre bt obj req = Some i"
proof -
  obtain f where f: "bt_func bt = Some f" using assms by (auto simp: test_wf_def)
  show ?thesis
  proof (cases "f = Ban_cond_url")
    case True
    then show ?thesis using f ban_cond_str_total [OF assms] by (simp add: ban_cond_def ban_cond_url_def)
  next
    case False
    then obtain n where n: "length n < 127" "bt_src bt = Some (H_of n)" using assms f by (auto simp: test_wf_def src_wf_def)
    obtain v w where "http_GetHdr req (H_of n) = Some v" "http_GetHdr obj (H_of n) = Some w"
      using http_GetHdr_total [OF n(1)] by blast
    then show ?thesis using f n(2) ban_cond_str_total [OF assms] False
      by (cases f) (simp_all add: ban_cond_def ban_cond_req_http_def ban_cond_obj_http_def)
  qed
qed

section \<open>Verdicts\<close>

text \<open>All tests of a ban match.\<close>

definition matches :: "('re, 'm) vre_scheme \<Rightarrow> 're ban_test list \<Rightarrow> http \<Rightarrow> http \<Rightarrow> bool" where
  "matches vre ts obj req \<longleftrightarrow> (\<forall>bt \<in> set ts. ban_cond vre bt obj req = Some 0)"

lemma tests_match_matches:
  "\<forall>bt \<in> set ts. test_wf bt \<Longrightarrow> tests_match vre ts obj req = Some (matches vre ts obj req)"
proof (induction ts)
  case (Cons bt ts)
  then obtain i where "ban_cond vre bt obj req = Some i" using ban_cond_total [of bt vre obj req] by auto
  then show ?case using Cons by (auto simp: matches_def)
qed (simp add: matches_def)

text \<open>What matters of the list for verdicts: addresses, \<open>BAN_F_GONE\<close> and tests.\<close>

definition skel :: "(nat \<times> 're ban) list \<Rightarrow> (nat \<times> bool \<times> 're ban_test list) list" where
  "skel bs = map (\<lambda>(x, b). (x, b_gone b, b_tests b)) bs"

definition hits :: "('re, 'm) vre_scheme \<Rightarrow> (nat \<times> bool \<times> 're ban_test list) list \<Rightarrow> nat \<Rightarrow> http \<Rightarrow> http \<Rightarrow> bool" where
  "hits vre sk a obj req \<longleftrightarrow> (\<exists>(x, g, ts) \<in> set (takeWhile (\<lambda>(x, _). x \<noteq> a) sk). \<not> g \<and> matches vre ts obj req)"

text \<open>The object is banned for the request: a ban newer than the one it refers to, and not gone, matches.\<close>

definition verdict :: "('re, 'm) vre_scheme \<Rightarrow> 're banst \<Rightarrow> nat \<Rightarrow> http \<Rightarrow> bool" where
  "verdict vre st oc req = (case ban_objs st oc of
     None \<Rightarrow> False
   | Some ob \<Rightarrow> (case o_ban ob of None \<Rightarrow> False | Some a \<Rightarrow> hits vre (skel (ban_head st)) a (o_http ob) req))"

lemma hits_Cons: "hits vre ((x, g, ts) # sk) a obj req \<longleftrightarrow>
  x \<noteq> a \<and> (\<not> g \<and> matches vre ts obj req \<or> hits vre sk a obj req)"
  by (auto simp: hits_def)

lemma hits_Nil [simp]: "\<not> hits vre [] a obj req"
  by (simp add: hits_def)

lemma ban_walk_hits:
  assumes "a \<in> fst ` set bs" "\<forall>(x, b) \<in> set bs. ban_wf b"
  shows "ban_walk vre bs a obj req True = Some (if hits vre (skel bs) a obj req then Banned else Not_banned)"
  using assms
proof (induction bs)
  case (Cons xb bs)
  obtain x b where xb: "xb = (x, b)" by (cases xb)
  have "tests_match vre (b_tests b) obj req = Some (matches vre (b_tests b) obj req)"
    using Cons.prems(2) xb by (intro tests_match_matches) (auto simp: ban_wf_def)
  moreover have "a \<in> fst ` set bs" if "x \<noteq> a" using Cons.prems(1) xb that by auto
  ultimately show ?case using Cons xb by (simp add: skel_def hits_Cons)
qed simp

text \<open>Without a request only bans that do not look at it are decided, and then for every request.\<close>

lemma ban_cond_obj_only: "bt_func bt = Some Ban_cond_obj_http \<Longrightarrow> ban_cond vre bt obj req = ban_cond vre bt obj req'"
  by (simp add: ban_cond_def)

lemma ban_walk_lurker:
  assumes "a \<in> fst ` set bs" "\<forall>(x, b) \<in> set bs. ban_wf b"
  shows "\<exists>w. ban_walk vre bs a obj req False = Some w \<and>
    (w = Banned \<longrightarrow> (\<forall>r. hits vre (skel bs) a obj r)) \<and> (w = Not_banned \<longrightarrow> (\<forall>r. \<not> hits vre (skel bs) a obj r))"
  using assms
proof (induction bs)
  case (Cons xb bs)
  obtain x b where xb: "xb = (x, b)" by (cases xb)
  have t: "tests_match vre (b_tests b) obj req = Some (matches vre (b_tests b) obj req)"
    using Cons.prems(2) xb by (intro tests_match_matches) (auto simp: ban_wf_def)
  have o: "matches vre (b_tests b) obj r = matches vre (b_tests b) obj req" if "\<not> b_req b" for r
  proof -
    have "\<forall>bt \<in> set (b_tests b). bt_func bt = Some Ban_cond_obj_http" using that Cons.prems(2) xb by (simp add: ban_wf_def)
    then have "\<forall>bt \<in> set (b_tests b). ban_cond vre bt obj r = ban_cond vre bt obj req" using ban_cond_obj_only by blast
    then show ?thesis by (simp add: matches_def)
  qed
  show ?case
  proof (cases "x = a \<or> \<not> b_gone b \<and> b_req b \<or> \<not> b_gone b \<and> matches vre (b_tests b) obj req")
    case True
    then consider "x = a" | "x \<noteq> a" "\<not> b_gone b" "b_req b" | "x \<noteq> a" "\<not> b_gone b" "\<not> b_req b" "matches vre (b_tests b) obj req"
      by blast
    then show ?thesis
    proof cases
      case 3
      then have "matches vre (b_tests b) obj r" for r using o [of r] by simp
      then have "\<forall>r. hits vre (skel (xb # bs)) a obj r" using xb 3 by (simp add: skel_def hits_Cons)
      then show ?thesis using t xb 3 by simp
    qed (use xb in \<open>simp_all add: skel_def hits_Cons\<close>)
  next
    case False
    then have "ban_walk vre (xb # bs) a obj req False = ban_walk vre bs a obj req False" using t xb by auto
    moreover have "hits vre (skel (xb # bs)) a obj r = hits vre (skel bs) a obj r" for r
      using False o [of r] xb by (auto simp: skel_def hits_Cons)
    moreover have "a \<in> fst ` set bs" using Cons.prems(1) xb False by auto
    ultimately show ?thesis using Cons by simp
  qed
qed simp

section \<open>The invariant\<close>

text \<open>The objects that refer to a ban.\<close>

definition attached :: "(nat \<Rightarrow> ban_obj option) \<Rightarrow> nat \<Rightarrow> nat set" where
  "attached objs x = {oc. \<exists>ob. objs oc = Some ob \<and> o_ban ob = Some x}"

text \<open>
  A ban on the list is well-formed, its \<open>objcore\<close> list has exactly the objects that refer to it, and its
  reference count covers them.
\<close>

definition ban_good :: "(nat \<Rightarrow> ban_obj option) \<Rightarrow> nat \<times> 're ban \<Rightarrow> bool" where
  "ban_good objs = (\<lambda>(x, b). ban_wf b \<and> distinct (b_objcore b) \<and> set (b_objcore b) = attached objs x \<and>
     int (length (b_objcore b)) \<le> b_refcount b)"

definition ban_inv :: "'re banst \<Rightarrow> bool" where
  "ban_inv st \<longleftrightarrow> ban_head st \<noteq> [] \<and> distinct (map fst (ban_head st)) \<and>
     ban_start st = Some (fst (hd (ban_head st))) \<and>
     (\<forall>xb \<in> set (ban_head st). ban_good (ban_objs st) xb) \<and>
     (\<forall>x. attached (ban_objs st) x \<noteq> {} \<longrightarrow> x \<in> fst ` set (ban_head st))"

lemma attached_upd: "attached (objs(oc \<mapsto> ob)) x = attached objs x - {oc} \<union> (if o_ban ob = Some x then {oc} else {})"
  by (auto simp: attached_def)

lemma attached_upd_same: "objs oc = Some ob \<Longrightarrow> o_ban ob = o_ban ob' \<Longrightarrow> attached (objs(oc \<mapsto> ob')) x = attached objs x"
  by (auto simp: attached_def)

lemma upd_ban_simps [simp]:
  "map fst (upd_ban a f bs) = map fst bs" "upd_ban a f bs = [] \<longleftrightarrow> bs = []"
  "fst ` set (upd_ban a f bs) = fst ` set bs" "length (upd_ban a f bs) = length bs"
  by (auto simp: upd_ban_def case_prod_unfold image_image)

lemma hd_upd_ban [simp]: "bs \<noteq> [] \<Longrightarrow> fst (hd (upd_ban a f bs)) = fst (hd bs)"
  by (cases bs) (auto simp: upd_ban_def)

lemma set_upd_ban: "set (upd_ban a f bs) = (\<lambda>(x, b). (x, if x = a then f b else b)) ` set bs"
  by (simp add: upd_ban_def)

lemma skel_upd_ban:
  assumes "\<And>b. b_gone (f b) = b_gone b" "\<And>b. b_tests (f b) = b_tests b"
  shows "skel (upd_ban a f bs) = skel bs"
  by (induction bs) (auto simp: skel_def upd_ban_def assms split: if_splits)

lemma skel_attach [simp]: "skel (upd_ban a (attach oc) bs) = skel bs"
  and skel_detach [simp]: "skel (upd_ban a (detach oc) bs) = skel bs"
  by (rule skel_upd_ban; simp add: attach_def detach_def)+

lemma verdict_cong: "skel (ban_head st') = skel (ban_head st) \<Longrightarrow> ban_objs st' oc = ban_objs st oc \<Longrightarrow>
  verdict vre st' oc req = verdict vre st oc req"
  by (auto simp: verdict_def split: option.splits)

lemma map_of_upd_ban: "map_of (upd_ban a f bs) x = map_option (if x = a then f else id) (map_of bs x)"
  by (induction bs) (auto simp: upd_ban_def)

lemma ban_inv_start:
  assumes "ban_inv st"
  obtains a b bs where "ban_head st = (a, b) # bs" "ban_start st = Some a" "map_of (ban_head st) a = Some b"
  using assms by (cases "ban_head st") (auto simp: ban_inv_def)

lemma ban_inv_attached:
  assumes "ban_inv st" "ban_objs st oc = Some ob" "o_ban ob = Some a"
  shows "a \<in> fst ` set (ban_head st)" "\<exists>b. map_of (ban_head st) a = Some b \<and> oc \<in> set (b_objcore b) \<and> 0 < b_refcount b"
proof -
  have o: "oc \<in> attached (ban_objs st) a" using assms(2,3) by (auto simp: attached_def)
  then show a: "a \<in> fst ` set (ban_head st)" using assms(1) by (auto simp: ban_inv_def)
  then obtain b where b: "map_of (ban_head st) a = Some b" by (metis map_of_eq_None_iff option.exhaust)
  then have "(a, b) \<in> set (ban_head st)" by (rule map_of_SomeD)
  then have "ban_good (ban_objs st) (a, b)" using assms(1) unfolding ban_inv_def by blast
  then have "oc \<in> set (b_objcore b)" "int (length (b_objcore b)) \<le> b_refcount b" using o by (auto simp: ban_good_def)
  moreover from this(1) have "0 < length (b_objcore b)" by (rule length_pos_if_in_set)
  ultimately have "oc \<in> set (b_objcore b) \<and> 0 < b_refcount b" by linarith
  then show "\<exists>b. map_of (ban_head st) a = Some b \<and> oc \<in> set (b_objcore b) \<and> 0 < b_refcount b"
    using b by blast
qed

subsection \<open>Putting objects on the list and taking them off\<close>

lemma ban_good_detach:
  assumes "ban_good objs (x, b)" "objs oc = Some ob" "o_ban ob = Some a" "o_ban ob' = None"
  shows "ban_good (objs(oc \<mapsto> ob')) (x, if x = a then detach oc b else b)"
proof (cases "x = a")
  case True
  have "oc \<in> set (b_objcore b)" using assms True by (auto simp: ban_good_def attached_def)
  then have "0 < length (b_objcore b)" "length (remove1 oc (b_objcore b)) = length (b_objcore b) - 1"
    by (rule length_pos_if_in_set, simp add: length_remove1)
  moreover have "int (length (b_objcore b)) \<le> b_refcount b" using assms(1) by (simp add: ban_good_def)
  ultimately have "int (length (remove1 oc (b_objcore b))) \<le> b_refcount b - 1" by linarith
  then show ?thesis using assms True by (auto simp: ban_good_def attached_upd detach_def ban_wf_def)
next
  case False
  then show ?thesis using assms by (auto simp: ban_good_def attached_upd attached_def)
qed

lemma ban_good_attach:
  assumes "ban_good objs (x, b)" "objs oc = Some ob" "o_ban ob = None" "o_ban ob' = Some a"
  shows "ban_good (objs(oc \<mapsto> ob')) (x, if x = a then attach oc b else b)"
proof -
  have "oc \<notin> attached objs x" using assms(2,3) by (auto simp: attached_def)
  then show ?thesis using assms by (auto simp: ban_good_def attached_upd attach_def ban_wf_def)
qed

lemma ban_inv_detach:
  assumes "ban_inv st" "ban_objs st oc = Some ob" "o_ban ob = Some a" "o_ban ob' = None"
  shows "ban_inv (st\<lparr>ban_head := upd_ban a (detach oc) (ban_head st), ban_objs := (ban_objs st)(oc \<mapsto> ob')\<rparr>)"
proof -
  have "\<forall>xb \<in> set (upd_ban a (detach oc) (ban_head st)). ban_good ((ban_objs st)(oc \<mapsto> ob')) xb"
    using ban_good_detach [where objs = "ban_objs st", OF _ assms(2-4)] assms(1) by (auto simp: set_upd_ban ban_inv_def)
  then show ?thesis using assms(1,4) by (auto simp: ban_inv_def attached_upd)
qed

lemma ban_inv_attach:
  assumes "ban_inv st" "ban_objs st oc = Some ob" "o_ban ob = None" "o_ban ob' = Some a" "a \<in> fst ` set (ban_head st)"
  shows "ban_inv (st\<lparr>ban_head := upd_ban a (attach oc) (ban_head st), ban_objs := (ban_objs st)(oc \<mapsto> ob')\<rparr>)"
proof -
  have "\<forall>xb \<in> set (upd_ban a (attach oc) (ban_head st)). ban_good ((ban_objs st)(oc \<mapsto> ob')) xb"
    using ban_good_attach [where objs = "ban_objs st", OF _ assms(2-4)] assms(1) by (auto simp: set_upd_ban ban_inv_def)
  then show ?thesis using assms(1,4,5) by (auto simp: ban_inv_def attached_upd)
qed

section \<open>The operations\<close>

subsection \<open>New objects\<close>

lemma BAN_NewObj_ok:
  assumes "ban_inv st" "ban_objs st oc = Some ob" "o_ban ob = None"
  shows "\<exists>a t st'. BAN_NewObj oc st = Some st' \<and> ban_inv st' \<and> ban_start st = Some a \<and>
    skel (ban_head st') = skel (ban_head st) \<and> ban_start st' = ban_start st \<and>
    ban_objs st' = (ban_objs st)(oc \<mapsto> ob\<lparr>o_ban := Some a, o_ban_t := t\<rparr>)"
proof -
  obtain a b bs where a: "ban_head st = (a, b) # bs" "ban_start st = Some a" "map_of (ban_head st) a = Some b"
    by (rule ban_inv_start [OF assms(1)])
  have "ban_inv (st\<lparr>ban_head := upd_ban a (attach oc) (ban_head st), ban_objs := (ban_objs st)(oc \<mapsto> ob\<lparr>o_ban := Some a, o_ban_t := b_t0 b\<rparr>)\<rparr>)"
    by (rule ban_inv_attach [OF assms]) (use a in auto)
  then show ?thesis using a assms(2,3) by (simp add: BAN_NewObj_def) blast
qed

subsection \<open>Retiring the last ban\<close>

lemma skel_append: "skel (xs @ ys) = skel xs @ skel ys"
  by (simp add: skel_def)

lemma hits_append: "a \<in> fst ` set xs \<Longrightarrow> hits vre (skel (xs @ ys)) a obj req = hits vre (skel xs) a obj req"
proof (induction xs)
  case (Cons x xs)
  then show ?case by (cases x) (auto simp: skel_def hits_Cons)
qed simp

lemma BAN_CheckLast_snoc:
  assumes "ban_head st = init @ [(a, b)]"
  shows "BAN_CheckLast st = Some (if init \<noteq> [] \<and> b_refcount b = 0 then (Some b, st\<lparr>ban_head := init\<rparr>) else (None, st))"
  unfolding BAN_CheckLast_def assms by (cases init) simp_all

text \<open>Retirement frees a ban nobody refers to, and changes no verdict.\<close>

lemma BAN_CheckLast_ok:
  assumes "ban_inv st"
  shows "\<exists>r st'. BAN_CheckLast st = Some (r, st') \<and> ban_inv st' \<and> ban_objs st' = ban_objs st \<and>
    (\<forall>b. r = Some b \<longrightarrow> BAN_Free b = Some ()) \<and> (\<forall>oc req. verdict vre st' oc req = verdict vre st oc req) \<and>
    set (ban_head st') \<subseteq> set (ban_head st)"
proof -
  obtain init a b where bs: "ban_head st = init @ [(a, b)]"
    using assms by (cases "ban_head st" rule: rev_cases) (auto simp: ban_inv_def)
  show ?thesis
  proof (cases "init \<noteq> [] \<and> b_refcount b = 0")
    case True
    have "ban_good (ban_objs st) (a, b)" using assms bs by (auto simp: ban_inv_def)
    then have e: "b_objcore b = []" "attached (ban_objs st) a = {}" using True by (auto simp: ban_good_def)
    have i: "ban_inv (st\<lparr>ban_head := init\<rparr>)" using assms bs True e(2) by (auto simp: ban_inv_def)
    have "verdict vre (st\<lparr>ban_head := init\<rparr>) oc req = verdict vre st oc req" for oc req
    proof -
      have "x \<in> fst ` set init" if "ban_objs st oc = Some ob" "o_ban ob = Some x" for ob x
        using ban_inv_attached(1) [OF i, of oc ob x] that by simp
      then show ?thesis using bs hits_append by (fastforce simp: verdict_def split: option.splits)
    qed
    moreover have "BAN_CheckLast st = Some (Some b, st\<lparr>ban_head := init\<rparr>)"
      using True BAN_CheckLast_snoc [OF bs] by simp
    ultimately show ?thesis using i e(1) True bs by (auto simp: BAN_Free_def)
  next
    case False
    then have "BAN_CheckLast st = Some (None, st)" using BAN_CheckLast_snoc [OF bs] by auto
    then show ?thesis using assms by simp
  qed
qed

subsection \<open>Destroying an object\<close>

lemma BAN_DestroyObj_ok:
  assumes "ban_inv st" "ban_objs st oc = Some ob"
  shows "\<exists>st'. BAN_DestroyObj oc st = Some st' \<and> ban_inv st' \<and> (\<forall>oc' req. oc' \<noteq> oc \<longrightarrow> ban_objs st' oc' = ban_objs st oc' \<and>
    verdict vre st' oc' req = verdict vre st oc' req) \<and> ban_objs st' = (ban_objs st)(oc \<mapsto> ob\<lparr>o_ban := None\<rparr>)"
proof (cases "o_ban ob")
  case None
  then have "ob\<lparr>o_ban := None\<rparr> = ob" by simp
  then show ?thesis using assms None by (simp add: BAN_DestroyObj_def fun_upd_idem)
next
  case (Some a)
  let ?st = "st\<lparr>ban_head := upd_ban a (detach oc) (ban_head st), ban_objs := (ban_objs st)(oc \<mapsto> ob\<lparr>o_ban := None\<rparr>)\<rparr>"
  obtain b where b: "map_of (ban_head st) a = Some b" "0 < b_refcount b"
    using ban_inv_attached(2) [OF assms Some] by blast
  have i: "ban_inv ?st" by (rule ban_inv_detach [OF assms Some]) simp
  obtain r st' where c: "BAN_CheckLast ?st = Some (r, st')" "ban_inv st'" "ban_objs st' = ban_objs ?st"
    "\<forall>b. r = Some b \<longrightarrow> BAN_Free b = Some ()" "\<forall>oc req. verdict vre st' oc req = verdict vre ?st oc req"
    using BAN_CheckLast_ok [OF i, of vre] by blast
  have "verdict vre st' oc' req = verdict vre st oc' req" if "oc' \<noteq> oc" for oc' req
  proof -
    have "verdict vre st' oc' req = verdict vre ?st oc' req" using c(5) by blast
    also have "\<dots> = verdict vre st oc' req" by (rule verdict_cong) (use that in simp_all)
    finally show ?thesis .
  qed
  moreover have "BAN_DestroyObj oc st = free_last (r, st')"
    using assms(2) Some b c(1) by (simp add: BAN_DestroyObj_def Let_def)
  ultimately show ?thesis using c by (cases r) (auto simp: free_last_def)
qed

subsection \<open>Checking an object\<close>

lemma hits_start: "\<not> hits vre (skel ((a, b) # bs)) a obj req"
  by (simp add: skel_def hits_Cons)

text \<open>What both ways of checking come to once the walk over the newer bans is known.\<close>

lemma ban_check_object_walk:
  assumes "ban_inv st" "ban_objs st oc = Some ob" "o_ban ob = Some a"
    "ban_walk vre (ban_head st) a (o_http ob) req has_req = Some w"
  shows "\<exists>r st'. ban_check_object vre oc req has_req st = Some (r, st') \<and> ban_inv st' \<and> r = (w = Banned) \<and>
    skel (ban_head st') = skel (ban_head st) \<and> ban_start st' = ban_start st \<and>
    (\<forall>oc'. oc' \<noteq> oc \<longrightarrow> ban_objs st' oc' = ban_objs st oc') \<and>
    (\<exists>ob'. ban_objs st' oc = Some ob' \<and> o_http ob' = o_http ob \<and>
      o_ban ob' = (case w of Banned \<Rightarrow> None | Not_banned \<Rightarrow> ban_start st | Needs_request \<Rightarrow> Some a) \<and>
      (w = Banned \<longrightarrow> o_ttl ob' = 0 \<and> \<not> o_cacheable ob' \<and> exp_rearmed st' = exp_rearmed st @ [oc]))"
proof -
  obtain a0 b bs where h: "ban_head st = (a0, b) # bs" "ban_start st = Some a0" "map_of (ban_head st) a0 = Some b"
    by (rule ban_inv_start [OF assms(1)])
  have d: "dropWhile (\<lambda>(x, b). x \<noteq> a0) (ban_head st) = ban_head st" by (simp add: h(1))
  show ?thesis
  proof (cases "a = a0")
    case True
    then have "w = Not_banned" using assms(4) h(1) by simp
    then show ?thesis using True assms(1-3) h(2) by (simp add: ban_check_object_def) blast
  next
    case False
    let ?ob0 = "ob\<lparr>o_ban := None\<rparr>"
    let ?st0 = "st\<lparr>ban_head := upd_ban a (detach oc) (ban_head st), ban_objs := (ban_objs st)(oc \<mapsto> ?ob0)\<rparr>"
    have i0: "ban_inv ?st0" by (rule ban_inv_detach [OF assms(1-3)]) simp
    consider "w = Needs_request" | "w = Not_banned" | "w = Banned" by (cases w)
    then show ?thesis
    proof cases
      case 1
      then show ?thesis using assms d h(2) False by (simp add: ban_check_object_def) blast
    next
      case 2
      have t: "map_of (upd_ban a (detach oc) (ban_head st)) a0 = Some b" using h(3) False by (simp add: map_of_upd_ban)
      have "ban_inv (?st0\<lparr>ban_head := upd_ban a0 (attach oc) (ban_head ?st0),
          ban_objs := (ban_objs ?st0)(oc \<mapsto> ob\<lparr>o_ban := Some a0, o_ban_t := b_t0 b\<rparr>)\<rparr>)"
        by (rule ban_inv_attach [OF i0, of _ ?ob0]) (use h(1) in auto)
      then show ?thesis using 2 assms d h(2) False t by (simp add: ban_check_object_def) blast
    next
      case 3
      have "ban_inv (st\<lparr>ban_head := upd_ban a (detach oc) (ban_head st),
          ban_objs := (ban_objs st)(oc \<mapsto> ob\<lparr>o_ttl := 0, o_cacheable := False, o_ban := None\<rparr>)\<rparr>)"
        by (rule ban_inv_detach [OF assms(1-3)]) simp
      then have "ban_inv (st\<lparr>ban_head := upd_ban a (detach oc) (ban_head st),
          ban_objs := (ban_objs st)(oc \<mapsto> ob\<lparr>o_ttl := 0, o_cacheable := False, o_ban := None\<rparr>),
          exp_rearmed := exp_rearmed st @ [oc]\<rparr>)" by (simp add: ban_inv_def)
      then show ?thesis using 3 assms d h(2) False by (simp add: ban_check_object_def) blast
    qed
  qed
qed

lemma ban_inv_wf: "ban_inv st \<Longrightarrow> \<forall>(x, b) \<in> set (ban_head st). ban_wf b"
  by (auto simp: ban_inv_def ban_good_def)

lemma verdict_attached:
  "ban_objs st oc = Some ob \<Longrightarrow> o_ban ob = Some a \<Longrightarrow> verdict vre st oc req = hits vre (skel (ban_head st)) a (o_http ob) req"
  by (simp add: verdict_def)

lemma verdict_start:
  assumes "ban_inv st" "ban_objs st oc = Some ob" "o_ban ob = ban_start st"
  shows "\<not> verdict vre st oc req"
  using assms ban_inv_start [OF assms(1)] hits_start by (metis verdict_attached)

text \<open>
  C14 (functional).  Checking an object of the cache against the bans, on behalf of a request, never fails an
  assertion, and says that the object is banned exactly when some ban that is newer than the one the object refers to,
  and not marked as gone, has all its tests true of the object and the request.  A banned object gets a
  time to live of zero, is no longer cacheable, refers to no ban and is handed to \<open>EXP_Rearm\<close>; an object that
  passes refers to the newest ban.  The list stays well-formed, and no other object's verdict changes.
\<close>
theorem BAN_CheckObject_correct:
  assumes "ban_inv st" "ban_objs st oc = Some ob" "o_ban ob = Some a"
  shows "\<exists>st' ob'. BAN_CheckObject vre oc req st = Some (verdict vre st oc req, st') \<and> ban_inv st' \<and>
    ban_objs st' oc = Some ob' \<and>
    (if verdict vre st oc req then o_ttl ob' = 0 \<and> \<not> o_cacheable ob' \<and> o_ban ob' = None \<and> oc \<in> set (exp_rearmed st')
     else o_ban ob' = ban_start st' \<and> (\<forall>r. \<not> verdict vre st' oc r)) \<and>
    (\<forall>oc' r. oc' \<noteq> oc \<longrightarrow> verdict vre st' oc' r = verdict vre st oc' r)"
proof -
  let ?w = "if verdict vre st oc req then Banned else Not_banned"
  have "ban_walk vre (ban_head st) a (o_http ob) req True = Some ?w"
    using ban_walk_hits [OF ban_inv_attached(1) [OF assms] ban_inv_wf [OF assms(1)]] verdict_attached [OF assms(2,3)] by metis
  from ban_check_object_walk [OF assms this] obtain r st' ob' where
    c: "ban_check_object vre oc req True st = Some (r, st')" "ban_inv st'" "r = (?w = Banned)"
      "skel (ban_head st') = skel (ban_head st)" "ban_start st' = ban_start st"
      "\<forall>oc'. oc' \<noteq> oc \<longrightarrow> ban_objs st' oc' = ban_objs st oc'"
      "ban_objs st' oc = Some ob'" "o_ban ob' = (case ?w of Banned \<Rightarrow> None | Not_banned \<Rightarrow> ban_start st | Needs_request \<Rightarrow> Some a)"
      "?w = Banned \<longrightarrow> o_ttl ob' = 0 \<and> \<not> o_cacheable ob' \<and> exp_rearmed st' = exp_rearmed st @ [oc]" by blast
  have o: "verdict vre st' oc' r = verdict vre st oc' r" if "oc' \<noteq> oc" for oc' r
    by (rule verdict_cong) (use c(4,6) that in simp_all)
  have "\<not> verdict vre st' oc r" if "\<not> verdict vre st oc req" for r
    by (rule verdict_start [OF c(2,7)]) (use c(5,8) that in simp)
  then show ?thesis using c o by (auto simp: BAN_CheckObject_def split: if_splits)
qed

subsection \<open>Adding a ban\<close>

definition mark_dups :: "string option \<Rightarrow> (nat \<times> 're ban) list \<Rightarrow> (nat \<times> 're ban) list" where
  "mark_dups test bs = map (\<lambda>(x, b). (x, if \<not> b_gone b \<and> test = b_test b then b\<lparr>b_gone := True\<rparr> else b)) bs"

lemma mark_dups_fst [simp]: "map fst (mark_dups test bs) = map fst bs" "fst ` set (mark_dups test bs) = fst ` set bs"
  by (auto simp: mark_dups_def case_prod_unfold image_image)

text \<open>The hunt ends at the oldest ban and so covers the list.\<close>

lemma hunt_mark: "bs \<noteq> [] \<Longrightarrow> distinct (map fst bs) \<Longrightarrow> hunt test (fst (last bs)) bs = Some (mark_dups test bs)"
proof (induction bs)
  case (Cons xb bs)
  obtain x b where xb: "xb = (x, b)" by (cases xb)
  show ?case
  proof (cases bs)
    case Nil
    then show ?thesis by (simp add: xb mark_dups_def Let_def)
  next
    case (Cons y ys)
    then have "x \<noteq> fst (last bs)" using Cons.prems(2) xb last_in_set [of bs] by auto
    then show ?thesis using Cons.IH Cons.prems Cons by (auto simp: xb mark_dups_def Let_def)
  qed
qed simp

lemma BAN_Insert_eq:
  assumes "b_vsb b = Some v" "a \<notin> fst ` set (ban_head st)" "distinct (map fst (ban_head st))"
  shows "BAN_Insert a now purge_dups b st = Some (st\<lparr>
    ban_head := (a, b\<lparr>b_t0 := now, b_test := Some (cstr v), b_vsb := None\<rparr>) #
      (if purge_dups then mark_dups (Some (cstr v)) (ban_head st) else ban_head st),
    ban_start := Some a\<rparr>)"
proof (cases "purge_dups \<and> ban_head st \<noteq> []")
  case True
  let ?bs = "ban_head st" and ?be = "fst (last (ban_head st))"
  let ?b = "b\<lparr>b_t0 := now, b_test := Some (cstr v), b_vsb := None\<rparr>"
  let ?up = "upd_ban ?be (\<lambda>b. b\<lparr>b_refcount := b_refcount b + 1\<rparr>)" and ?dn = "upd_ban ?be (\<lambda>b. b\<lparr>b_refcount := b_refcount b - 1\<rparr>)"
  have be: "?be \<noteq> a" using True assms(2) last_in_set [of ?bs] by auto
  have l: "fst (last (?up ?bs)) = ?be" using True by (simp add: upd_ban_def last_map case_prod_unfold)
  have "hunt (Some (cstr v)) ?be (?up ?bs) = Some (mark_dups (Some (cstr v)) (?up ?bs))"
    using hunt_mark [of "?up ?bs" "Some (cstr v)"] True assms(3) l by simp
  moreover have "?dn (mark_dups (Some (cstr v)) (?up ?bs)) = mark_dups (Some (cstr v)) ?bs"
    by (auto simp: upd_ban_def mark_dups_def)
  ultimately show ?thesis using True assms(1) be
    by (simp add: BAN_Insert_def insert_head_def upd_ban_def Let_def)
next
  case False
  then show ?thesis using assms(1) by (auto simp: BAN_Insert_def insert_head_def Let_def mark_dups_def)
qed

lemma hits_mark_dups:
  assumes "\<forall>(x, b) \<in> set bs. \<not> b_gone b \<longrightarrow> b_test b = test \<longrightarrow> b_tests b = ts"
  shows "matches vre ts obj req \<or> hits vre (skel (mark_dups test bs)) a obj req \<longleftrightarrow>
    matches vre ts obj req \<or> hits vre (skel bs) a obj req"
  using assms
proof (induction bs)
  case (Cons xb bs)
  then show ?case by (cases xb) (auto simp: skel_def mark_dups_def hits_Cons)
qed (simp add: mark_dups_def)

text \<open>A ban ready to be inserted.\<close>

definition ban_fresh :: "'re ban \<Rightarrow> bool" where
  "ban_fresh b \<longleftrightarrow> b_vsb b \<noteq> None \<and> b_objcore b = [] \<and> b_refcount b = 0 \<and> \<not> b_gone b \<and> ban_wf b"

definition ban_text :: "'re ban \<Rightarrow> string option" where
  "ban_text b = map_option cstr (b_vsb b)"

lemma ban_good_gone: "ban_good objs (x, b\<lparr>b_gone := g\<rparr>) = ban_good objs (x, b)"
  by (simp add: ban_good_def ban_wf_def)

lemma ban_good_mark: "\<forall>xb \<in> set bs. ban_good objs xb \<Longrightarrow> \<forall>xb \<in> set (mark_dups test bs). ban_good objs xb"
  by (auto simp: mark_dups_def ban_good_gone)

lemma BAN_Insert_ok:
  assumes "ban_inv st" "ban_fresh b" "a \<notin> fst ` set (ban_head st)"
    "\<forall>(x, b') \<in> set (ban_head st). \<not> b_gone b' \<longrightarrow> b_test b' = ban_text b \<longrightarrow> b_tests b' = b_tests b"
  shows "\<exists>st'. BAN_Insert a now purge_dups b st = Some st' \<and> ban_inv st' \<and> ban_objs st' = ban_objs st \<and>
    ban_head st' = (a, b\<lparr>b_t0 := now, b_test := ban_text b, b_vsb := None\<rparr>) #
      (if purge_dups then mark_dups (ban_text b) (ban_head st) else ban_head st) \<and>
    (\<forall>oc ob. ban_objs st oc = Some ob \<longrightarrow> o_ban ob \<noteq> None \<longrightarrow>
      verdict vre st' oc req = (verdict vre st oc req \<or> matches vre (b_tests b) (o_http ob) req))"
proof -
  obtain v where v: "b_vsb b = Some v" "ban_text b = Some (cstr v)" using assms(2) by (auto simp: ban_fresh_def ban_text_def)
  define bs where "bs = (if purge_dups then mark_dups (ban_text b) (ban_head st) else ban_head st)"
  define b' where "b' = b\<lparr>b_t0 := now, b_test := ban_text b, b_vsb := None\<rparr>"
  define st' where "st' = st\<lparr>ban_head := (a, b') # bs, ban_start := Some a\<rparr>"
  have e: "BAN_Insert a now purge_dups b st = Some st'"
    using BAN_Insert_eq [OF v(1) assms(3)] assms(1) v(2) by (simp add: ban_inv_def st'_def bs_def b'_def)
  have f: "map fst bs = map fst (ban_head st)" "fst ` set bs = fst ` set (ban_head st)" by (auto simp: bs_def)
  have "attached (ban_objs st) a = {}" using assms(1,3) by (auto simp: ban_inv_def)
  then have n: "ban_good (ban_objs st) (a, b')" using assms(2) by (simp add: ban_good_def ban_fresh_def ban_wf_def b'_def)
  have o: "\<forall>xb \<in> set bs. ban_good (ban_objs st) xb" using assms(1) ban_good_mark by (auto simp: ban_inv_def bs_def)
  have i: "ban_inv st'" using assms(1,3) f n o by (auto simp: ban_inv_def st'_def)
  have "verdict vre st' oc req = (verdict vre st oc req \<or> matches vre (b_tests b) (o_http ob) req)"
    if ob: "ban_objs st oc = Some ob" "o_ban ob = Some x" for oc ob x
  proof -
    have "x \<noteq> a" using ban_inv_attached(1) [OF assms(1) ob] assms(3) by auto
    moreover have "b_gone b' = False" "b_tests b' = b_tests b" using assms(2) by (simp_all add: b'_def ban_fresh_def)
    ultimately have "verdict vre st' oc req \<longleftrightarrow> matches vre (b_tests b) (o_http ob) req \<or> hits vre (skel bs) x (o_http ob) req"
      using ob by (simp add: verdict_def st'_def skel_def hits_Cons)
    also have "\<dots> \<longleftrightarrow> matches vre (b_tests b) (o_http ob) req \<or> hits vre (skel (ban_head st)) x (o_http ob) req"
      using hits_mark_dups [OF assms(4), of vre "o_http ob" req x] by (simp add: bs_def)
    finally show ?thesis using verdict_attached [OF ob] by auto
  qed
  then show ?thesis using e i by (auto simp: st'_def bs_def b'_def)
qed

subsection \<open>The lurker\<close>

lemma ban_lurker_turn_ok:
  assumes "ban_inv st"
  shows "\<exists>st'. ban_lurker_turn vre found req st = Some st' \<and> ban_inv st' \<and>
    (\<forall>xb \<in> set (skel (ban_head st')). xb \<in> set (skel (ban_head st))) \<and>
    (\<forall>oc ob a. ban_objs st oc = Some ob \<longrightarrow> o_ban ob = Some a \<longrightarrow> (\<exists>ob'. ban_objs st' oc = Some ob' \<and> o_http ob' = o_http ob \<and>
      (\<forall>r. if o_ban ob' = None then verdict vre st oc r else verdict vre st' oc r = verdict vre st oc r))) \<and>
    (\<forall>oc ob. ban_objs st oc = Some ob \<longrightarrow> o_ban ob = None \<longrightarrow> ban_objs st' oc = Some ob)"
proof -
  obtain r st1 where c: "BAN_CheckLast st = Some (r, st1)" "ban_inv st1" "ban_objs st1 = ban_objs st"
    "\<forall>b. r = Some b \<longrightarrow> BAN_Free b = Some ()" "\<forall>oc req. verdict vre st1 oc req = verdict vre st oc req"
    "set (ban_head st1) \<subseteq> set (ban_head st)"
    using BAN_CheckLast_ok [OF assms, of vre] by blast
  have sk: "\<forall>xb \<in> set (skel (ban_head st1)). xb \<in> set (skel (ban_head st))" using c(6) by (auto simp: skel_def)
  obtain x b where l: "last (ban_head st1) = (x, b)" by (cases "last (ban_head st1)")
  have m: "(x, b) \<in> set (ban_head st1)" using l c(2) last_in_set [of "ban_head st1"] by (simp add: ban_inv_def)
  consider "ban_lurker_turn vre found req st = Some st1"
    | oc q where "r = None" "b_objcore b = oc # q" "ban_lurker_turn vre found req st = map_option snd (ban_check_object vre oc req False st1)"
  proof (cases r)
    case None
    then have "ban_lurker_turn vre found req st = (if Some x = ban_start st1 then Some st1
        else case b_objcore b of [] \<Rightarrow> Some st1 | oc # _ \<Rightarrow> if \<not> found oc then Some st1
             else map_option snd (ban_check_object vre oc req False st1))"
      using c(1) l by (simp add: ban_lurker_turn_def)
    note e = this
    show thesis
    proof (cases "Some x = ban_start st1 \<or> b_objcore b = [] \<or> \<not> found (hd (b_objcore b))")
      case True
      then show thesis using e that(1) by (cases "b_objcore b") auto
    next
      case False
      then show thesis using e None that(2) by (cases "b_objcore b") auto
    qed
  qed (use that(1) c(1,4) in \<open>simp add: ban_lurker_turn_def\<close>)
  then show ?thesis
  proof cases
    case 1
    then show ?thesis using c sk by auto
  next
    case (2 oc q)
    have "ban_good (ban_objs st1) (x, b)" using m c(2) by (simp add: ban_inv_def)
    then have "oc \<in> attached (ban_objs st1) x" using 2(2) by (auto simp: ban_good_def)
    then obtain ob where ob: "ban_objs st1 oc = Some ob" "o_ban ob = Some x" by (auto simp: attached_def)
    obtain w where w: "ban_walk vre (ban_head st1) x (o_http ob) req False = Some w"
      "w = Banned \<longrightarrow> (\<forall>r. hits vre (skel (ban_head st1)) x (o_http ob) r)"
      "w = Not_banned \<longrightarrow> (\<forall>r. \<not> hits vre (skel (ban_head st1)) x (o_http ob) r)"
      using ban_walk_lurker [OF ban_inv_attached(1) [OF c(2) ob] ban_inv_wf [OF c(2)]] by blast
    obtain rr st' ob' where s: "ban_check_object vre oc req False st1 = Some (rr, st')" "ban_inv st'"
      "skel (ban_head st') = skel (ban_head st1)" "ban_start st' = ban_start st1"
      "\<forall>oc'. oc' \<noteq> oc \<longrightarrow> ban_objs st' oc' = ban_objs st1 oc'" "ban_objs st' oc = Some ob'" "o_http ob' = o_http ob"
      "o_ban ob' = (case w of Banned \<Rightarrow> None | Not_banned \<Rightarrow> ban_start st1 | Needs_request \<Rightarrow> Some x)"
      using ban_check_object_walk [OF c(2) ob w(1)] by blast
    have v: "verdict vre st1 oc r = hits vre (skel (ban_head st1)) x (o_http ob) r" for r by (rule verdict_attached [OF ob])
    have me: "if o_ban ob' = None then verdict vre st oc r else verdict vre st' oc r = verdict vre st oc r" for r
    proof (cases w)
      case Banned
      then show ?thesis using s(8) w(2) v c(5) by simp
    next
      case Not_banned
      then have "\<not> verdict vre st' oc r" using verdict_start [OF s(2,6)] s(4,8) by simp
      moreover have "\<not> verdict vre st oc r" using w(3) Not_banned v c(5) by simp
      ultimately show ?thesis using s(8) Not_banned c(2) by (auto simp: ban_inv_def)
    next
      case Needs_request
      then have "verdict vre st' oc r = hits vre (skel (ban_head st')) x (o_http ob') r"
        using verdict_attached [OF s(6), of x vre r] s(8) by simp
      then show ?thesis using s(3,7,8) v c(5) Needs_request by simp
    qed
    have ot: "verdict vre st' oc' r = verdict vre st oc' r" if "oc' \<noteq> oc" for oc' r
      using verdict_cong [OF s(3), of oc' vre r] s(5) that c(5) by simp
    show ?thesis
    proof (intro exI conjI)
      show "ban_lurker_turn vre found req st = Some st'" using 2(3) s(1) by simp
      show "ban_inv st'" by (rule s(2))
      show "\<forall>xb \<in> set (skel (ban_head st')). xb \<in> set (skel (ban_head st))" using sk s(3) by simp
      show "\<forall>oc ob. ban_objs st oc = Some ob \<longrightarrow> o_ban ob = None \<longrightarrow> ban_objs st' oc = Some ob"
        using s(5) c(3) ob by (metis option.distinct(1) option.inject)
      show "\<forall>oc ob a. ban_objs st oc = Some ob \<longrightarrow> o_ban ob = Some a \<longrightarrow> (\<exists>ob'. ban_objs st' oc = Some ob' \<and> o_http ob' = o_http ob \<and>
        (\<forall>r. if o_ban ob' = None then verdict vre st oc r else verdict vre st' oc r = verdict vre st oc r))"
      proof (intro allI impI)
        fix oc1 ob1 a assume 1: "ban_objs st oc1 = Some ob1" "o_ban ob1 = Some a"
        show "\<exists>ob'. ban_objs st' oc1 = Some ob' \<and> o_http ob' = o_http ob1 \<and>
          (\<forall>r. if o_ban ob' = None then verdict vre st oc1 r else verdict vre st' oc1 r = verdict vre st oc1 r)"
        proof (cases "oc1 = oc")
          case True
          then have "ob1 = ob" using 1(1) ob(1) c(3) by simp
          then show ?thesis using True s(6,7) me by auto
        next
          case False
          then show ?thesis using ot s(5) c(3) 1 by auto
        qed
      qed
    qed
  qed
qed

section \<open>Histories\<close>

text \<open>
  What the threads of the cache do with bans, one critical operation at a time.  A new object comes to be
  (\<open>Alloc\<close>) before it is put on the list (\<open>New\<close>).  A ban that is inserted has an address that is not in use,
  and \<open>sem\<close> gives the tests a text stands for: two bans with one text have the same tests.
\<close>

datatype 're ban_op = Insert nat real bool "'re ban" | Alloc nat http | New nat | Check nat http | Destroy nat
  | Lurk "nat \<Rightarrow> bool" http

inductive ban_step :: "('re, 'm) vre_scheme \<Rightarrow> (string option \<Rightarrow> 're ban_test list) \<Rightarrow> 're banst \<Rightarrow> 're ban_op \<Rightarrow> 're banst \<Rightarrow> bool"
  for vre sem where
  insert: "ban_fresh b \<Longrightarrow> a \<notin> fst ` set (ban_head st) \<Longrightarrow> b_tests b = sem (ban_text b) \<Longrightarrow>
    BAN_Insert a now purge_dups b st = Some st' \<Longrightarrow> ban_step vre sem st (Insert a now purge_dups b) st'"
| alloc: "ban_objs st oc = None \<Longrightarrow> ob = \<lparr>o_http = h, o_ban = None, o_ban_t = 0, o_ttl = t, o_cacheable = True\<rparr> \<Longrightarrow>
    ban_step vre sem st (Alloc oc h) (st\<lparr>ban_objs := (ban_objs st)(oc \<mapsto> ob)\<rparr>)"
| new: "BAN_NewObj oc st = Some st' \<Longrightarrow> ban_step vre sem st (New oc) st'"
| check: "BAN_CheckObject vre oc req st = Some (r, st') \<Longrightarrow> ban_step vre sem st (Check oc req) st'"
| destroy: "BAN_DestroyObj oc st = Some st' \<Longrightarrow> ban_step vre sem st (Destroy oc) st'"
| lurk: "ban_lurker_turn vre found req st = Some st' \<Longrightarrow> ban_step vre sem st (Lurk found req) st'"

inductive_cases ban_stepE [elim!]:
  "ban_step vre sem st (Insert a now d b) st'" "ban_step vre sem st (Alloc oc h) st'" "ban_step vre sem st (New oc) st'"
  "ban_step vre sem st (Check oc req) st'" "ban_step vre sem st (Destroy oc) st'" "ban_step vre sem st (Lurk found req) st'"

inductive ban_run :: "('re, 'm) vre_scheme \<Rightarrow> (string option \<Rightarrow> 're ban_test list) \<Rightarrow> 're banst \<Rightarrow> 're ban_op list \<Rightarrow> 're banst \<Rightarrow> bool"
  for vre sem where
  nil: "ban_run vre sem st [] st"
| cons: "ban_step vre sem st op st1 \<Longrightarrow> ban_run vre sem st1 ops st2 \<Longrightarrow> ban_run vre sem st (op # ops) st2"

definition texts_mean :: "(string option \<Rightarrow> 're ban_test list) \<Rightarrow> 're banst \<Rightarrow> bool" where
  "texts_mean sem st \<longleftrightarrow> (\<forall>(x, b) \<in> set (ban_head st). \<not> b_gone b \<longrightarrow> b_tests b = sem (b_test b))"

text \<open>The operation is about the object.\<close>

fun touches :: "nat \<Rightarrow> 're ban_op \<Rightarrow> bool" where
  "touches oc (Alloc oc' h) = (oc' = oc)"
| "touches oc (New oc') = (oc' = oc)"
| "touches oc (Check oc' req) = (oc' = oc)"
| "touches oc (Destroy oc') = (oc' = oc)"
| "touches oc _ = False"

fun inserted :: "'re ban_op \<Rightarrow> 're ban_test list list" where
  "inserted (Insert a now d b) = [b_tests b]"
| "inserted _ = []"

text \<open>The object cannot be delivered for the request: it was banned before, or would be now.\<close>

definition doomed :: "('re, 'm) vre_scheme \<Rightarrow> 're banst \<Rightarrow> nat \<Rightarrow> http \<Rightarrow> bool" where
  "doomed vre st oc req \<longleftrightarrow> (\<exists>ob. ban_objs st oc = Some ob \<and> (o_ban ob = None \<or> verdict vre st oc req))"

text \<open>Texts are kept by every operation that changes neither texts, tests nor \<open>BAN_F_GONE\<close>.\<close>

definition texts :: "(nat \<times> 're ban) list \<Rightarrow> (string option \<times> bool \<times> 're ban_test list) set" where
  "texts bs = (\<lambda>(x, b). (b_test b, b_gone b, b_tests b)) ` set bs"

lemma texts_mean_texts: "texts_mean sem st \<longleftrightarrow> (\<forall>(t, g, ts) \<in> texts (ban_head st). \<not> g \<longrightarrow> ts = sem t)"
  by (auto simp: texts_mean_def texts_def)

lemma texts_upd_ban [simp]: "texts (upd_ban a (attach oc) bs) = texts bs" "texts (upd_ban a (detach oc) bs) = texts bs"
  by (induction bs) (auto simp: texts_def upd_ban_def attach_def detach_def split: if_splits)

lemma texts_mean_sub: "texts (ban_head st') \<subseteq> texts (ban_head st) \<Longrightarrow> texts_mean sem st \<Longrightarrow> texts_mean sem st'"
  unfolding texts_mean_texts by blast

lemma texts_CheckLast: "BAN_CheckLast st = Some (r, st') \<Longrightarrow> texts (ban_head st') \<subseteq> texts (ban_head st)"
proof -
  assume "BAN_CheckLast st = Some (r, st')"
  then have "ban_head st' = ban_head st \<or> ban_head st' = butlast (ban_head st)"
    by (auto simp: BAN_CheckLast_def split: list.splits if_splits prod.splits)
  then have "set (ban_head st') \<subseteq> set (ban_head st)" by (auto dest: in_set_butlastD)
  then show ?thesis unfolding texts_def by (rule image_mono)
qed

lemma texts_check: "ban_check_object vre oc req has_req st = Some (r, st') \<Longrightarrow> texts (ban_head st') \<subseteq> texts (ban_head st)"
  by (auto simp: ban_check_object_def bind_eq_Some_conv Let_def split: if_splits)

lemma texts_lurk: "ban_lurker_turn vre found req st = Some st' \<Longrightarrow> texts (ban_head st') \<subseteq> texts (ban_head st)"
  by (auto simp: ban_lurker_turn_def bind_eq_Some_conv split: option.splits list.splits if_splits prod.splits
           dest!: texts_CheckLast texts_check)

lemma texts_destroy: "BAN_DestroyObj oc st = Some st' \<Longrightarrow> texts (ban_head st') \<subseteq> texts (ban_head st)"
  by (auto simp: BAN_DestroyObj_def free_last_def bind_eq_Some_conv Let_def split: option.splits dest!: texts_CheckLast) blast+

lemma texts_new: "BAN_NewObj oc st = Some st' \<Longrightarrow> texts (ban_head st') \<subseteq> texts (ban_head st)"
  by (auto simp: BAN_NewObj_def bind_eq_Some_conv)

lemma texts_mean_mark: "\<forall>(x, b) \<in> set bs. \<not> b_gone b \<longrightarrow> b_tests b = sem (b_test b) \<Longrightarrow>
  \<forall>(x, b) \<in> set (mark_dups t bs). \<not> b_gone b \<longrightarrow> b_tests b = sem (b_test b)"
  by (auto simp: mark_dups_def split: if_splits)

lemma ban_step_texts:
  assumes "ban_step vre sem st op st'" "texts_mean sem st" "ban_inv st"
  shows "texts_mean sem st'"
  using assms(1)
proof cases
  case (insert b a now d)
  obtain v where "b_vsb b = Some v" using insert(2) by (auto simp: ban_fresh_def)
  then have "ban_head st' = (a, b\<lparr>b_t0 := now, b_test := ban_text b, b_vsb := None\<rparr>) #
      (if d then mark_dups (ban_text b) (ban_head st) else ban_head st)"
    using BAN_Insert_eq [of b v a st now d] insert assms(3) by (auto simp: ban_inv_def ban_text_def)
  then show ?thesis using assms(2) insert(4) texts_mean_mark [of "ban_head st" sem "ban_text b"]
    by (simp add: texts_mean_def)
next
  case (alloc oc ob h t)
  then show ?thesis using assms(2) by (simp add: texts_mean_def)
next
  case (new oc)
  then show ?thesis using texts_mean_sub [OF texts_new assms(2)] by blast
next
  case (check oc req r)
  then show ?thesis using texts_mean_sub [OF texts_check assms(2)] unfolding BAN_CheckObject_def by blast
next
  case (destroy oc)
  then show ?thesis using texts_mean_sub [OF texts_destroy assms(2)] by blast
next
  case (lurk found req)
  then show ?thesis using texts_mean_sub [OF texts_lurk assms(2)] by blast
qed

lemma attached_alloc: "ban_objs st oc = None \<Longrightarrow> o_ban ob = None \<Longrightarrow>
  attached ((ban_objs st)(oc \<mapsto> ob)) x = attached (ban_objs st) x"
  by (auto simp: attached_def)

lemma ban_step_inv:
  assumes "ban_step vre sem st op st'" "ban_inv st" "texts_mean sem st"
  shows "ban_inv st'"
  using assms(1)
proof cases
  case (insert b a now d)
  have "\<forall>(x, b') \<in> set (ban_head st). \<not> b_gone b' \<longrightarrow> b_test b' = ban_text b \<longrightarrow> b_tests b' = b_tests b"
    using assms(3) insert(4) by (auto simp: texts_mean_def)
  from BAN_Insert_ok [OF assms(2) insert(2,3) this, of now d] show ?thesis using insert(5) by auto
next
  case (alloc oc ob h t)
  then have "attached ((ban_objs st)(oc \<mapsto> ob)) x = attached (ban_objs st) x" for x by (intro attached_alloc) auto
  then show ?thesis using assms(2) alloc by (simp add: ban_inv_def ban_good_def case_prod_unfold)
next
  case (new oc)
  then obtain ob where "ban_objs st oc = Some ob" "o_ban ob = None" by (auto simp: BAN_NewObj_def bind_eq_Some_conv)
  from BAN_NewObj_ok [OF assms(2) this] show ?thesis using new by auto
next
  case (check oc req r)
  then obtain ob a where "ban_objs st oc = Some ob" "o_ban ob = Some a"
    by (auto simp: BAN_CheckObject_def ban_check_object_def bind_eq_Some_conv)
  from BAN_CheckObject_correct [OF assms(2) this, of vre req] show ?thesis using check by auto
next
  case (destroy oc)
  then obtain ob where "ban_objs st oc = Some ob" by (auto simp: BAN_DestroyObj_def bind_eq_Some_conv)
  from BAN_DestroyObj_ok [OF assms(2) this] show ?thesis using destroy by auto
next
  case (lurk found req)
  then show ?thesis using ban_lurker_turn_ok [OF assms(2), of vre found req] by auto
qed

lemma doomed_attached: "ban_objs st oc = Some ob \<Longrightarrow> o_ban ob = Some a \<Longrightarrow> doomed vre st oc req = verdict vre st oc req"
  by (auto simp: doomed_def)

lemma doomed_detached: "ban_objs st oc = Some ob \<Longrightarrow> o_ban ob = None \<Longrightarrow> doomed vre st oc req"
  by (auto simp: doomed_def)

lemma doomed_same: "ban_objs st' oc = ban_objs st oc \<Longrightarrow> verdict vre st' oc req = verdict vre st oc req \<Longrightarrow>
  doomed vre st' oc req = doomed vre st oc req"
  by (simp add: doomed_def)

text \<open>One step adds to the verdict on an object it is not about exactly the ban it inserts.\<close>

lemma ban_step_doomed:
  assumes "ban_step vre sem st op st'" "ban_inv st" "texts_mean sem st" "\<not> touches oc op" "ban_objs st oc = Some ob"
  shows "\<exists>ob'. ban_objs st' oc = Some ob' \<and> o_http ob' = o_http ob \<and>
    doomed vre st' oc req = (doomed vre st oc req \<or> (\<exists>ts \<in> set (inserted op). matches vre ts (o_http ob) req))"
  using assms(1)
proof cases
  case (insert b a now d)
  have m: "\<forall>(x, b') \<in> set (ban_head st). \<not> b_gone b' \<longrightarrow> b_test b' = ban_text b \<longrightarrow> b_tests b' = b_tests b"
    using assms(3) insert(4) by (auto simp: texts_mean_def)
  from BAN_Insert_ok [OF assms(2) insert(2,3) m, of now d vre req] have
    o: "ban_objs st' = ban_objs st" "o_ban ob \<noteq> None \<longrightarrow> verdict vre st' oc req = (verdict vre st oc req \<or> matches vre (b_tests b) (o_http ob) req)"
    using insert(5) assms(5) by auto
  show ?thesis
  proof (cases "o_ban ob")
    case None
    then show ?thesis using o(1) assms(5) doomed_detached [of st oc ob vre req] doomed_detached [of st' oc ob vre req] by simp
  next
    case (Some a)
    then show ?thesis using o assms(5) insert(1) doomed_attached [of st oc ob a vre req] doomed_attached [of st' oc ob a vre req] by auto
  qed
next
  case (alloc oc' ob' h t)
  have "oc' \<noteq> oc" using assms(4) alloc(1) by simp
  then have s: "skel (ban_head st') = skel (ban_head st)" "ban_objs st' oc = ban_objs st oc" using alloc by simp_all
  then show ?thesis using doomed_same [OF s(2) verdict_cong [OF s]] assms(5) alloc(1) by simp
next
  case (new oc')
  then obtain ob' where n: "ban_objs st oc' = Some ob'" "o_ban ob' = None" by (auto simp: BAN_NewObj_def bind_eq_Some_conv)
  have ne: "oc' \<noteq> oc" using assms(4) new(1) by simp
  from BAN_NewObj_ok [OF assms(2) n] have s: "skel (ban_head st') = skel (ban_head st)" "ban_objs st' oc = ban_objs st oc"
    using new(2) ne by auto
  then show ?thesis using doomed_same [OF s(2) verdict_cong [OF s]] assms(5) new(1) by simp
next
  case (check oc' r q)
  then obtain ob' a where n: "ban_objs st oc' = Some ob'" "o_ban ob' = Some a"
    by (auto simp: BAN_CheckObject_def ban_check_object_def bind_eq_Some_conv)
  have ne: "oc' \<noteq> oc" using assms(4) check(1) by simp
  obtain w where "ban_walk vre (ban_head st) a (o_http ob') r True = Some w"
    using ban_walk_hits [OF ban_inv_attached(1) [OF assms(2) n] ban_inv_wf [OF assms(2)]] by blast
  from ban_check_object_walk [OF assms(2) n this] have s: "skel (ban_head st') = skel (ban_head st)" "ban_objs st' oc = ban_objs st oc"
    using check(2) ne by (auto simp: BAN_CheckObject_def)
  then show ?thesis using doomed_same [OF s(2) verdict_cong [OF s]] assms(5) check(1) by simp
next
  case (destroy oc')
  then obtain ob' where n: "ban_objs st oc' = Some ob'" by (auto simp: BAN_DestroyObj_def bind_eq_Some_conv)
  have ne: "oc \<noteq> oc'" using assms(4) destroy(1) by auto
  from BAN_DestroyObj_ok [OF assms(2) n, of vre] have s: "ban_objs st' oc = ban_objs st oc" "verdict vre st' oc req = verdict vre st oc req"
    using destroy(2) ne by auto
  then show ?thesis using doomed_same [OF s] assms(5) destroy(1) by simp
next
  case (lurk found r)
  note l = ban_lurker_turn_ok [OF assms(2), of vre found r]
  show ?thesis
  proof (cases "o_ban ob")
    case None
    then have "ban_objs st' oc = Some ob" using l lurk(2) assms(5) by auto
    then show ?thesis using None doomed_detached assms(5) lurk(1) by auto
  next
    case (Some a)
    then have "\<exists>ob'. ban_objs st' oc = Some ob' \<and> o_http ob' = o_http ob \<and>
      (\<forall>r. if o_ban ob' = None then verdict vre st oc r else verdict vre st' oc r = verdict vre st oc r)"
      using l lurk(2) assms(5) by auto
    then obtain ob' where o: "ban_objs st' oc = Some ob'" "o_http ob' = o_http ob"
      "if o_ban ob' = None then verdict vre st oc req else verdict vre st' oc req = verdict vre st oc req"
      by blast
    then show ?thesis using Some assms(5) lurk(1) by (auto simp: doomed_def split: if_splits)
  qed
qed



end
