(* ===== verification/Ban_Reload.thy ===== *)
theory Ban_Reload
  imports Ban_Props
begin

text \<open>
  Bans that come back from the persistent storage (\<open>BAN_Reload\<close>, \<open>BAN_Compile\<close> of
  \<open>bin/varnishd/cache_ban.c\<close>), and concrete runs of the ban list.
\<close>

section \<open>Bans from persistent storage\<close>

text \<open>Newest first, and of two bans with one condition the older is gone.\<close>

definition ban_before :: "nat \<times> 're ban \<Rightarrow> nat \<times> 're ban \<Rightarrow> bool" where
  "ban_before = (\<lambda>(x, b) (y, c). b_t0 c \<le> b_t0 b \<and> (b_test b = b_test c \<longrightarrow> b_gone c))"

lemma reload_scan_result:
  assumes "reload_scan bs t0 ban g n = Some (gone, m)" "sorted_wrt ban_before bs"
  shows "\<exists>k. m = n + k \<and> k \<le> length bs \<and> (\<forall>(x, b) \<in> set (take k bs). t0 \<le> b_t0 b \<and> (b_test b = Some ban \<longrightarrow> gone)) \<and>
    (\<forall>(x, b) \<in> set (drop k bs). b_t0 b < t0) \<and> (g \<longrightarrow> gone)"
  using assms
proof (induction bs arbitrary: g n)
  case (Cons xb bs)
  obtain x b where xb: "xb = (x, b)" by (cases xb)
  have s: "sorted_wrt ban_before bs" "\<forall>(y, c) \<in> set bs. b_t0 c \<le> b_t0 b"
    using Cons.prems(2) by (auto simp: xb ban_before_def)
  consider (stop) "b_t0 b < t0" "gone = g" "m = n"
    | (go) g' where "reload_scan bs t0 ban g' (n + 1) = Some (gone, m)" "t0 \<le> b_t0 b" "b_test b = Some ban \<longrightarrow> g'" "g \<longrightarrow> g'"
    using Cons.prems(1) by (fastforce simp: xb split: if_splits)
  then show ?case
  proof cases
    case stop
    then show ?thesis using s(2) xb by (intro exI [of _ 0]) fastforce
  next
    case go
    from Cons.IH [OF go(1) s(1)] obtain k where "m = n + 1 + k" "k \<le> length bs"
      "\<forall>(x, b) \<in> set (take k bs). t0 \<le> b_t0 b \<and> (b_test b = Some ban \<longrightarrow> gone)"
      "\<forall>(x, b) \<in> set (drop k bs). b_t0 b < t0" "g' \<longrightarrow> gone" by blast
    then show ?thesis using go xb by (intro exI [of _ "Suc k"]) auto
  qed
qed auto

lemma sorted_wrt_hunt_older:
  assumes "sorted_wrt ban_before bs"
  shows "sorted_wrt ban_before (hunt_older t bs)"
  using assms unfolding hunt_older_def sorted_wrt_map
  by (rule sorted_wrt_mono_rel [rotated]) (auto simp: ban_before_def split: if_splits)


section \<open>The text of a ban gives the ban back\<close>

definition plain_word :: "string \<Rightarrow> bool" where
  "plain_word p \<longleftrightarrow> quotable p \<and> \<not> needs_quote p"

lemma plain_quoted: "plain_word p \<Longrightarrow> quoted p = p" "plain_word p \<Longrightarrow> quotable p"
  by (simp_all add: plain_word_def quoted_def)

text \<open>Tests as \<open>ccf_purge\<close> takes them: threes of words with \<open>&&\<close> between.\<close>

fun ban_words :: "string list \<Rightarrow> bool" where
  "ban_words [a1, a2, a3] \<longleftrightarrow> plain_word a1 \<and> plain_word a2 \<and> quotable a3"
| "ban_words (a1 # a2 # a3 # x # av) \<longleftrightarrow> plain_word a1 \<and> plain_word a2 \<and> quotable a3 \<and> x = ''&&'' \<and> ban_words av"
| "ban_words _ \<longleftrightarrow> False"

lemma and_plain: "plain_word ''&&''"
  by (simp add: plain_word_def quotable_def needs_quote_def is_graph_def runs_on_def octal_escaped_def is_octal_def NUL_def)

lemma ban_words_quotable: "ban_words av \<Longrightarrow> \<forall>p \<in> set av. quotable p"
  by (induction av rule: ban_words.induct) (auto simp: plain_word_def and_plain [unfolded plain_word_def])

lemma BAN_AddTest_text:
  assumes "BAN_AddTest vre b a1 a2 a3 = Some (0, b')" "b_vsb b = Some v"
  shows "b_vsb b' = Some ((if b_tests b \<noteq> [] then v @ '' && '' else v) @ a1 @ '' '' @ a2 @ '' '' @ quoted a3)" "b_tests b' \<noteq> []"
  using assms by (auto simp: BAN_AddTest_def Let_def bind_eq_Some_conv set_test_def split: if_splits prod.splits option.splits)

lemma purge_tests_text:
  assumes "ban_words av" "purge_tests vre av b = Some (0, b')" "b_vsb b = Some v"
  shows "b_vsb b' = Some ((if b_tests b \<noteq> [] then v @ '' && '' else v) @ command_line av)"
  using assms
proof (induction av arbitrary: b v rule: ban_words.induct)
  case (1 a1 a2 a3)
  then show ?case using BAN_AddTest_text [of vre b a1 a2 a3 b' v] plain_quoted
    by (auto simp: bind_eq_Some_conv split: if_splits prod.splits)
next
  case (2 a1 a2 a3 x av)
  obtain b1 where b1: "BAN_AddTest vre b a1 a2 a3 = Some (0, b1)" "purge_tests vre av b1 = Some (0, b')"
    using "2.prems"(2) by (auto simp: bind_eq_Some_conv split: if_splits prod.splits)
  note t = BAN_AddTest_text [OF b1(1) "2.prems"(3)]
  have w: "ban_words av" "plain_word a1" "plain_word a2" "x = ''&&''" using "2.prems"(1) by auto
  obtain c av' where av: "av = c # av'" using w(1) by (cases av) auto
  have "b_vsb b' = Some ((if b_tests b \<noteq> [] then v @ '' && '' else v) @ a1 @ '' '' @ a2 @ '' '' @ quoted a3 @ '' && '' @ command_line av)"
    using "2.IH" [OF w(1) b1(2) t(1)] t(2) by simp
  then show ?case using w plain_quoted(1) and_plain by (simp add: av)
qed auto

lemma BAN_AddTest_other:
  "BAN_AddTest vre (b\<lparr>b_test := t, b_t0 := z\<rparr>) a1 a2 a3 = map_option (\<lambda>(i, b). (i, b\<lparr>b_test := t, b_t0 := z\<rparr>)) (BAN_AddTest vre b a1 a2 a3)"
proof (cases "b_vsb b")
  case (Some v)
  obtain i bt where o: "ban_operator vre new_test a2 a3 = (i, bt)" by (cases "ban_operator vre new_test a2 a3")
  show ?thesis
  proof (cases "find_pvar a1")
    case None
    then show ?thesis using Some o by (simp add: BAN_AddTest_def Let_def set_test_def ban_add_test_def)
  next
    case (Some p)
    obtain n req hdr f where "p = (n, req, hdr, f)" by (cases p)
    then show ?thesis using Some \<open>b_vsb b = Some v\<close> o
      by (cases hdr; cases req; cases "length (drop (length n) a1) < 127")
        (simp_all add: BAN_AddTest_def Let_def set_test_def ban_add_test_def ban_parse_http_def)
  qed
qed (simp add: BAN_AddTest_def)

lemma compile_tests_purge:
  assumes "ban_words av" "purge_tests vre av b = Some (0, b')"
  shows "compile_tests vre True av (b\<lparr>b_test := t, b_t0 := z\<rparr>) = Some (b'\<lparr>b_test := t, b_t0 := z\<rparr>)"
  using assms
proof (induction av arbitrary: b rule: ban_words.induct)
  case (1 a1 a2 a3)
  then show ?case by (auto simp: BAN_AddTest_other bind_eq_Some_conv split: if_splits prod.splits)
next
  case (2 a1 a2 a3 x av)
  obtain b1 where b1: "BAN_AddTest vre b a1 a2 a3 = Some (0, b1)" "purge_tests vre av b1 = Some (0, b')"
    using "2.prems"(2) by (auto simp: bind_eq_Some_conv split: if_splits prod.splits)
  have x: "compile_tests vre False (''&&'' # av) c = compile_tests vre True av c" for c
    using "2.prems"(1) by (cases av rule: ban_words.cases) auto
  show ?case using "2.IH" [OF _ b1(2)] "2.prems"(1) b1(1) x by (simp add: BAN_AddTest_other)
qed auto


section \<open>Concrete runs\<close>

text \<open>One object in the cache, entered before any ban, and a ban on its URL.\<close>

definition ex_vre :: "string vre" where
  "ex_vre = \<lparr>VRE_compile = Some, VRE_exec = (\<lambda>re s. if re = s then 0 else - 1)\<rparr>"

definition ex_test :: "string ban_test" where
  "ex_test = \<lparr>bt_func = Some Ban_cond_url, bt_regexp = False, bt_not = False, bt_re = None, bt_dst = Some ''/a'', bt_src = None\<rparr>"

definition ex_ban :: "string ban" where
  "ex_ban = BAN_New\<lparr>b_tests := [ex_test], b_req := True, b_vsb := Some ''req.url == /a''\<rparr>"

definition ex_msg :: http where
  "ex_msg = (HTTP_create 8)\<lparr>hp_hd := [None, Some (0, ''/a''), None, None, None, None, None, None], hp_nhd := 5\<rparr>"

definition ex_obj :: ban_obj where
  "ex_obj = \<lparr>o_http = ex_msg, o_ban = Some 1, o_ban_t = 0, o_ttl = 60, o_cacheable = True\<rparr>"

definition ex_magic :: "string ban" where
  "ex_magic = BAN_New\<lparr>b_gone := True, b_test := Some [], b_vsb := None, b_refcount := 1, b_objcore := [7]\<rparr>"

definition ex_st :: "string banst" where
  "ex_st = \<lparr>ban_head = [(1, ex_magic)], ban_start = Some 1, ban_objs = [7 \<mapsto> ex_obj], exp_rearmed = []\<rparr>"

definition ex_banned :: "string banst" where
  "ex_banned = ex_st\<lparr>ban_head := [(2, ex_ban\<lparr>b_t0 := 5, b_test := Some ''req.url == /a'', b_vsb := None\<rparr>), (1, ex_magic)], ban_start := Some 2\<rparr>"

lemma ex_attached: "attached [7 \<mapsto> ex_obj] x = (if x = 1 then {7} else {})"
  by (auto simp: attached_def ex_obj_def split: if_splits)

lemma ex_inv: "ban_inv ex_st" "ban_inv ex_banned"
  by (auto simp: ban_inv_def ex_st_def ex_banned_def ban_good_def ex_attached ban_wf_def ex_magic_def ex_ban_def BAN_New_def
      test_wf_def ex_test_def)

lemma ex_fresh: "ban_fresh ex_ban" "ban_text ex_ban = Some ''req.url == /a''"
  by (auto simp: ban_fresh_def ex_ban_def BAN_New_def ban_wf_def test_wf_def ex_test_def ban_text_def cstr_def NUL_def)

lemma ex_matches: "matches ex_vre [ex_test] ex_msg ex_msg"
  by (simp add: matches_def ban_cond_def ban_cond_url_def ban_cond_str_def ex_test_def ex_msg_def HTTP_HDR_URL_def cstr_def NUL_def)

lemma ex_insert: "BAN_Insert 2 5 True ex_ban ex_st = Some ex_banned"
  using BAN_Insert_eq [of ex_ban "''req.url == /a''" 2 ex_st 5 True]
  by (simp add: ex_st_def ex_banned_def ex_ban_def BAN_New_def mark_dups_def ex_magic_def cstr_def NUL_def)

theorem BAN_CheckObject_correct_witness:
  "\<exists>st' ob'. BAN_CheckObject ex_vre 7 ex_msg ex_banned = Some (True, st') \<and> ban_objs st' 7 = Some ob' \<and> o_ttl ob' = 0"
proof -
  have o: "ban_objs ex_banned 7 = Some ex_obj" "o_ban ex_obj = Some 1" by (simp_all add: ex_banned_def ex_st_def ex_obj_def)
  have "verdict ex_vre ex_banned 7 ex_msg"
    using ex_matches by (simp add: verdict_def ex_banned_def ex_st_def ex_ban_def BAN_New_def skel_def hits_Cons ex_obj_def)
  then show ?thesis using BAN_CheckObject_correct [OF ex_inv(2) o, of ex_vre ex_msg] by auto
qed





end
