(* ===== verification/Hash_Table.thy ===== *)
theory Hash_Table
  imports Critbit Hash_Lists
begin

text \<open>
  The interface between \<open>bin/varnishd/cache_hash.c\<close> and the hash implementations: \<open>struct hash_slinger\<close> of
  \<open>hash_slinger.h\<close>, and the memory of the object heads, which \<open>cache_hash.c\<close> reads and writes itself.

  Every implementation has its object heads in its own state, with private fields as a record extension.
  \<open>slinger\<close> has, beside the two functions of the C structure, the access to the common fields: reading
  \<open>oh->field\<close>, writing it, \<open>ALLOC_OBJ\<close> and \<open>FREE_OBJ\<close>, and one turn of the background thread of the
  implementation.  The locale \<open>hash_table\<close> adds to the contract \<open>hash_slinger\<close> what \<open>cache_hash.c\<close>
  relies on: lookups and dereferences leave the lists of objects and of waiting sessions alone, and
  writing those lists does not disturb the hash.
\<close>

record 's slinger =
  sl_lookup :: "'s \<Rightarrow> addr \<Rightarrow> (addr \<times> 's) option"
  sl_deref :: "'s \<Rightarrow> addr \<Rightarrow> (bool \<times> 's) option"
  sl_oh :: "'s \<Rightarrow> addr \<Rightarrow> objhead option"
  sl_upd :: "'s \<Rightarrow> addr \<Rightarrow> (objhead \<Rightarrow> objhead) \<Rightarrow> 's"
  sl_alloc :: "'s \<Rightarrow> addr \<Rightarrow> objhead \<Rightarrow> 's"
  sl_free :: "'s \<Rightarrow> addr \<Rightarrow> 's"
  sl_tick :: "'s \<Rightarrow> 's option"

section \<open>Common fields of an object head\<close>

definition on_base :: "(objhead \<Rightarrow> objhead) \<Rightarrow> 'a objhead_scheme \<Rightarrow> 'a objhead_scheme" where
  "on_base f h = objhead.extend (f (objhead.truncate h)) (objhead.more h)"

definition base :: "'a oh_heap \<Rightarrow> addr \<rightharpoonup> objhead" where
  "base h a = map_option objhead.truncate (h a)"

definition base_upd :: "'a oh_heap \<Rightarrow> addr \<Rightarrow> (objhead \<Rightarrow> objhead) \<Rightarrow> 'a oh_heap" where
  "base_upd h a f = (case h a of None \<Rightarrow> h | Some oh \<Rightarrow> h(a \<mapsto> on_base f oh))"

definition oh_lists :: "objhead \<Rightarrow> addr list \<times> addr list" where
  "oh_lists h = (oh_objcs h, oh_waitinglist h)"

lemma truncate_simps [simp]:
  "oh_refcnt (objhead.truncate h) = oh_refcnt h" "oh_digest (objhead.truncate h) = oh_digest h"
  "oh_objcs (objhead.truncate h) = oh_objcs h" "oh_waitinglist (objhead.truncate h) = oh_waitinglist h"
  by (simp_all add: objhead.defs)

lemma on_base_simps [simp]:
  "oh_refcnt (on_base f h) = oh_refcnt (f (objhead.truncate h))"
  "oh_digest (on_base f h) = oh_digest (f (objhead.truncate h))"
  "oh_objcs (on_base f h) = oh_objcs (f (objhead.truncate h))"
  "oh_waitinglist (on_base f h) = oh_waitinglist (f (objhead.truncate h))"
  "objhead.more (on_base f h) = objhead.more h"
  "objhead.truncate (on_base f h) = f (objhead.truncate h)"
  by (simp_all add: on_base_def objhead.defs)

lemma truncate_upd [simp]:
  "objhead.truncate (h\<lparr>oh_refcnt := n\<rparr>) = (objhead.truncate h)\<lparr>oh_refcnt := n\<rparr>"
  "objhead.truncate (h\<lparr>oh_digest := d\<rparr>) = (objhead.truncate h)\<lparr>oh_digest := d\<rparr>"
  by (simp_all add: objhead.defs)

lemma truncate_more [simp]:
  "objhead.truncate ((g :: hcb_objhead)\<lparr>oh_y := y\<rparr>) = objhead.truncate g"
  "objhead.truncate ((k :: hcl_objhead)\<lparr>oh_hoh_head := u\<rparr>) = objhead.truncate k"
  "objhead.truncate (z :: objhead) = z"
  by (simp_all add: objhead.defs)

lemma base_ref: "oh_ref (base h) = oh_ref h" and base_key: "oh_key (base h) = oh_key h"
  by (auto simp: oh_ref_def oh_key_def base_def fun_eq_iff split: option.splits)

lemma base_base_upd: "base (base_upd h a f) = (case base h a of None \<Rightarrow> base h | Some o1 \<Rightarrow> (base h)(a \<mapsto> f o1))"
  by (auto simp: base_def base_upd_def fun_eq_iff split: option.splits)

lemma base_fun_upd [simp]:
  "base (h(a \<mapsto> oh)) = (base h)(a \<mapsto> objhead.truncate oh)" "base (h(a := None)) = (base h)(a := None)"
  by (auto simp: base_def fun_eq_iff)

section \<open>The contract\<close>

locale hash_table = hash_slinger "sl_lookup S" "sl_deref S" inv spare idle index refcnt key
  for S :: "'s slinger" and inv spare idle index refcnt key +
  assumes refcnt_oh: "refcnt s = oh_ref (sl_oh S s)"
    and key_oh: "key s = oh_key (sl_oh S s)"
    and spare_iff: "inv s \<Longrightarrow> spare s m \<longleftrightarrow>
      (\<exists>h. sl_oh S s m = Some h \<and> oh_refcnt h = 1 \<and> length (oh_digest h) = DIGEST_LEN) \<and> (\<forall>d. index s d \<noteq> Some m)"
    and idleI: "sl_oh S s a = Some h \<Longrightarrow> oh_lists h = ([], []) \<Longrightarrow> idle s a"
    and lookup_frame: "sl_lookup S s noh = Some (x, s') \<Longrightarrow>
      map_option (\<lambda>h. (oh_digest h, oh_lists h)) (sl_oh S s' a) = map_option (\<lambda>h. (oh_digest h, oh_lists h)) (sl_oh S s a)"
    and deref_frame: "sl_deref S s x = Some (r, s') \<Longrightarrow>
      map_option oh_lists (sl_oh S s' a) = map_option oh_lists (sl_oh S s a) \<and> (a \<noteq> x \<longrightarrow> sl_oh S s' a = sl_oh S s a)"
    and deref_dead: "inv s \<Longrightarrow> index s d = Some x \<Longrightarrow> refcnt s x = 1 \<Longrightarrow> sl_deref S s x = Some (False, s') \<Longrightarrow>
      inv (sl_free S s' x) \<and> index (sl_free S s' x) = index s' \<and> sl_oh S (sl_free S s' x) = (sl_oh S s')(x := None)"
    and upd_oh: "sl_oh S (sl_upd S s a f) = (case sl_oh S s a of None \<Rightarrow> sl_oh S s | Some h \<Rightarrow> (sl_oh S s)(a \<mapsto> f h))"
    and upd_live: "inv s \<Longrightarrow> sl_oh S s a = Some h \<Longrightarrow> oh_refcnt h > 0 \<Longrightarrow> oh_refcnt (f h) = oh_refcnt h \<Longrightarrow>
      oh_digest (f h) = oh_digest h \<or> spare s a \<Longrightarrow> inv (sl_upd S s a f) \<and> index (sl_upd S s a f) = index s"
    and alloc_new: "inv s \<Longrightarrow> sl_oh S s a = None \<Longrightarrow> oh_refcnt h = 1 \<Longrightarrow>
      inv (sl_alloc S s a h) \<and> index (sl_alloc S s a h) = index s \<and> sl_oh S (sl_alloc S s a h) = (sl_oh S s)(a \<mapsto> h)"
    and free_spare: "inv s \<Longrightarrow> spare s a \<Longrightarrow>
      inv (sl_free S s a) \<and> index (sl_free S s a) = index s \<and> sl_oh S (sl_free S s a) = (sl_oh S s)(a := None)"
    and tick_live: "inv s \<Longrightarrow> \<exists>s'. sl_tick S s = Some s' \<and> inv s' \<and> index s' = index s \<and>
      (\<forall>a. refcnt s a > 0 \<longrightarrow> sl_oh S s' a = sl_oh S s a)"
begin

lemma indexed_oh: "inv s \<Longrightarrow> index s d = Some a \<Longrightarrow> \<exists>h. sl_oh S s a = Some h \<and> oh_refcnt h > 0"
  using index_key [of s d a] by (auto simp: refcnt_oh oh_ref_def split: option.splits)

text \<open>The memory after a lookup that hits, one that misses, and a dereference that is not the last.\<close>

lemma oh_eqI:
  assumes "map_option (\<lambda>h. (oh_digest h, oh_lists h)) (sl_oh S s' a) = map_option (\<lambda>h. (oh_digest h, oh_lists h)) (sl_oh S s a)"
    and "refcnt s' a = refcnt s a"
  shows "sl_oh S s' a = sl_oh S s a"
  using assms by (cases "sl_oh S s a"; cases "sl_oh S s' a") (auto simp: refcnt_oh oh_lists_def)

lemma lookup_hit_oh:
  assumes "inv s" "spare s noh" "index s (key s noh) = Some a"
  shows "\<exists>s' h. sl_lookup S s noh = Some (a, s') \<and> inv s' \<and> index s' = index s \<and> sl_oh S s a = Some h \<and>
           sl_oh S s' = (sl_oh S s)(a \<mapsto> h\<lparr>oh_refcnt := oh_refcnt h + 1\<rparr>)"
proof -
  obtain s' where s': "sl_lookup S s noh = Some (a, s')" "inv s'" "index s' = index s"
    "refcnt s' = (refcnt s)(a := refcnt s a + 1)"
    using lookup_hit [OF assms] by blast
  obtain h where h: "sl_oh S s a = Some h" using indexed_oh [OF assms(1,3)] by blast
  have "sl_oh S s' b = ((sl_oh S s)(a \<mapsto> h\<lparr>oh_refcnt := oh_refcnt h + 1\<rparr>)) b" for b
  proof (cases "b = a")
    case True
    then show ?thesis
      using lookup_frame [OF s'(1), of a] fun_cong [OF s'(4), of a] h
      by (auto simp: refcnt_oh oh_lists_def)
  next
    case False
    then show ?thesis using oh_eqI [OF lookup_frame [OF s'(1)]] s'(4) by simp
  qed
  then show ?thesis using s' h by blast
qed

lemma lookup_miss_oh:
  assumes "inv s" "spare s noh" "index s (key s noh) = None"
  shows "\<exists>s'. sl_lookup S s noh = Some (noh, s') \<and> inv s' \<and> index s' = (index s)(key s noh \<mapsto> noh) \<and> sl_oh S s' = sl_oh S s"
proof -
  obtain s' where s': "sl_lookup S s noh = Some (noh, s')" "inv s'" "index s' = (index s)(key s noh \<mapsto> noh)"
    "refcnt s' = refcnt s"
    using lookup_miss [OF assms] by blast
  have "sl_oh S s' a = sl_oh S s a" for a using oh_eqI [OF lookup_frame [OF s'(1)]] s'(4) by simp
  then show ?thesis using s' by blast
qed

lemma deref_more_oh:
  assumes "inv s" "index s d = Some a" "sl_oh S s a = Some h" "oh_refcnt h > 1"
  shows "\<exists>s'. sl_deref S s a = Some (True, s') \<and> inv s' \<and> index s' = index s \<and>
           (\<exists>h'. sl_oh S s' = (sl_oh S s)(a \<mapsto> h') \<and> oh_lists h' = oh_lists h \<and> oh_refcnt h' = oh_refcnt h - 1)"
proof -
  have "refcnt s a > 1" using assms(3,4) by (simp add: refcnt_oh)
  then obtain s' where s': "sl_deref S s a = Some (True, s')" "inv s'" "index s' = index s"
    "refcnt s' = (refcnt s)(a := refcnt s a - 1)"
    using deref_more [OF assms(1,2)] by blast
  obtain h' where h': "sl_oh S s' a = Some h'" "oh_lists h' = oh_lists h"
    using deref_frame [OF s'(1), of a] assms(3) by auto
  have "oh_refcnt h' = oh_refcnt h - 1"
    using fun_cong [OF s'(4), of a] h' assms(3) by (simp add: refcnt_oh)
  moreover have "sl_oh S s' = (sl_oh S s)(a \<mapsto> h')"
    using deref_frame [OF s'(1)] h'(1) by (auto simp: fun_eq_iff)
  ultimately show ?thesis using s' h'(2) by blast
qed

end

section \<open>The simple list and the classic hash\<close>

definition hsl_slinger :: "hsl slinger" where
  "hsl_slinger = \<lparr>sl_lookup = hsl_lookup, sl_deref = hsl_deref, sl_oh = \<lambda>s. base (hsl_heap s),
     sl_upd = \<lambda>s a f. s\<lparr>hsl_heap := base_upd (hsl_heap s) a f\<rparr>,
     sl_alloc = \<lambda>s a h. s\<lparr>hsl_heap := (hsl_heap s)(a \<mapsto> h)\<rparr>,
     sl_free = \<lambda>s a. s\<lparr>hsl_heap := (hsl_heap s)(a := None)\<rparr>,
     sl_tick = Some\<rparr>"

definition hcl_slinger :: "hcl slinger" where
  "hcl_slinger = \<lparr>sl_lookup = hcl_lookup, sl_deref = hcl_deref, sl_oh = \<lambda>s. base (hcl_heap s),
     sl_upd = \<lambda>s a f. s\<lparr>hcl_heap := base_upd (hcl_heap s) a f\<rparr>,
     sl_alloc = \<lambda>s a h. s\<lparr>hcl_heap := (hcl_heap s)(a \<mapsto> objhead.extend h (hcl_objhead.fields None))\<rparr>,
     sl_free = \<lambda>s a. s\<lparr>hcl_heap := (hcl_heap s)(a := None)\<rparr>,
     sl_tick = Some\<rparr>"

definition hcb_slinger :: "hcb slinger" where
  "hcb_slinger = \<lparr>sl_lookup = hcb_lookup, sl_deref = hcb_deref, sl_oh = \<lambda>s. base (hcb_heap (hcb_tree s)),
     sl_upd = \<lambda>s a f. s\<lparr>hcb_tree := (hcb_tree s)\<lparr>hcb_heap := base_upd (hcb_heap (hcb_tree s)) a f\<rparr>\<rparr>,
     sl_alloc = \<lambda>s a h. set_oh s a (objhead.extend h (hcb_objhead.fields y_zero)),
     sl_free = \<lambda>s a. s\<lparr>hcb_tree := (hcb_tree s)\<lparr>hcb_heap := (hcb_heap (hcb_tree s))(a := None)\<rparr>\<rparr>,
     sl_tick = hcb_cleaner\<rparr>"

text \<open>Changes of the memory outside a list, and changes of the lists of an object head.\<close>

lemma hoh_same:
  assumes "\<And>b. b \<in> set as \<Longrightarrow> (h' b = None) = (h b = None) \<and> oh_ref h' b = oh_ref h b \<and> oh_key h' b = oh_key h b"
  shows "hoh_ok h' as = hoh_ok h as" "hoh_at h' as = hoh_at h as"
proof -
  show "hoh_at h' as = hoh_at h as" unfolding fun_eq_iff using assms by (induction as) (auto simp: hoh_at_def)
  show "hoh_ok h' as = hoh_ok h as" using assms by (induction as) (auto simp: hoh_ok_Cons less_key_def)
qed

lemma hoh_outside:
  assumes "a \<notin> set as"
  shows "hoh_ok (h(a := v)) as = hoh_ok h as" "hoh_at (h(a := v)) as = hoh_at h as"
proof -
  have "((h(a := v)) b = None) = (h b = None) \<and> oh_ref (h(a := v)) b = oh_ref h b \<and> oh_key (h(a := v)) b = oh_key h b"
    if "b \<in> set as" for b using that assms by (auto simp: oh_ref_def oh_key_def)
  note same = hoh_same [OF this]
  show "hoh_ok (h(a := v)) as = hoh_ok h as" by (rule same(1))
  show "hoh_at (h(a := v)) as = hoh_at h as" by (rule same(2))
qed

lemma base_upd_at: "base_upd h a f b = (if b = a then map_option (on_base f) (h a) else h b)"
  by (auto simp: base_upd_def split: option.splits)

lemma base_upd_ref: "h a = Some o1 \<Longrightarrow> oh_refcnt (f (objhead.truncate o1)) = oh_refcnt o1 \<Longrightarrow> oh_ref (base_upd h a f) b = oh_ref h b"
  and base_upd_key: "h a = Some o1 \<Longrightarrow> oh_digest (f (objhead.truncate o1)) = oh_digest o1 \<or> b \<noteq> a \<Longrightarrow> oh_key (base_upd h a f) b = oh_key h b"
  by (auto simp: base_upd_def)

lemma hoh_base_upd:
  assumes "h a = Some o1" "oh_refcnt (f (objhead.truncate o1)) = oh_refcnt o1"
    and "oh_digest (f (objhead.truncate o1)) = oh_digest o1 \<or> a \<notin> set as"
  shows "hoh_ok (base_upd h a f) as = hoh_ok h as" "hoh_at (base_upd h a f) as = hoh_at h as"
proof -
  have "(base_upd h a f b = None) = (h b = None) \<and> oh_ref (base_upd h a f) b = oh_ref h b \<and> oh_key (base_upd h a f) b = oh_key h b"
    if "b \<in> set as" for b
    using that assms base_upd_ref [of h a o1 f b] base_upd_key [of h a o1 f b] by (auto simp: base_upd_at)
  note same = hoh_same [OF this]
  show "hoh_ok (base_upd h a f) as = hoh_ok h as" by (rule same(1))
  show "hoh_at (base_upd h a f) as = hoh_at h as" by (rule same(2))
qed

lemma hsl_lookup_base:
  assumes "hsl_lookup s noh = Some (x, s')"
  shows "map_option (\<lambda>h. (oh_digest h, oh_lists h)) (base (hsl_heap s') a) = map_option (\<lambda>h. (oh_digest h, oh_lists h)) (base (hsl_heap s) a)"
proof -
  obtain o1 r where "hsl_heap s noh = Some o1" "hoh_scan (hsl_heap s) (oh_digest o1) (hsl_head s) = Some r"
    using assms by (auto simp: hsl_lookup_def bind_eq_Some_conv)
  then show ?thesis
    using assms by (cases r) (auto simp: hsl_lookup_def oh_lists_def base_def bind_eq_Some_conv)
qed

lemma hcl_lookup_base:
  assumes "hcl_lookup s noh = Some (x, s')"
  shows "map_option (\<lambda>h. (oh_digest h, oh_lists h)) (base (hcl_heap s') a) = map_option (\<lambda>h. (oh_digest h, oh_lists h)) (base (hcl_heap s) a)"
proof -
  obtain o1 r where "hcl_heap s noh = Some o1"
    "hoh_scan (hcl_heap s) (oh_digest o1) (hcl_head s ! hcl_bucket (hcl_nhash s) (oh_digest o1)) = Some r"
    using assms by (auto simp: hcl_lookup_def bind_eq_Some_conv Let_def)
  then show ?thesis
    using assms by (cases r) (auto simp: hcl_lookup_def oh_lists_def base_def bind_eq_Some_conv Let_def)
qed

lemma hsl_member: "hsl_inv s \<Longrightarrow> a \<in> set (hsl_head s) \<longleftrightarrow> (\<exists>d. hsl_index s d = Some a)"
  by (auto simp: hsl_views hoh_at_Some)

lemma hsl_slinger_ops: "sl_lookup hsl_slinger = hsl_lookup" "sl_deref hsl_slinger = hsl_deref"
  by (simp_all add: hsl_slinger_def)

interpretation hsl_tbl: hash_table hsl_slinger hsl_inv hsl_spare "\<lambda>_ _. True" hsl_index hsl_ref hsl_key
proof (intro hash_table.intro hash_table_axioms.intro, unfold hsl_slinger_ops, rule hsl.hash_slinger_axioms)
  fix s :: hsl and a x d r s' f h noh m
  show "hsl_ref s = oh_ref (sl_oh hsl_slinger s)" "hsl_key s = oh_key (sl_oh hsl_slinger s)"
    by (simp_all add: hsl_views hsl_slinger_def base_ref base_key)
  show "hsl_spare s m \<longleftrightarrow> (\<exists>h. sl_oh hsl_slinger s m = Some h \<and> oh_refcnt h = 1 \<and> length (oh_digest h) = DIGEST_LEN) \<and>
      (\<forall>d. hsl_index s d \<noteq> Some m)" if "hsl_inv s"
    using hsl_member [OF that, of m]
    by (auto simp: hsl_spare_def hsl_slinger_def base_def)
  show "map_option (\<lambda>h. (oh_digest h, oh_lists h)) (sl_oh hsl_slinger s' a) =
      map_option (\<lambda>h. (oh_digest h, oh_lists h)) (sl_oh hsl_slinger s a)" if "hsl_lookup s noh = Some (x, s')"
    using hsl_lookup_base [OF that] by (simp add: hsl_slinger_def)
  show "map_option oh_lists (sl_oh hsl_slinger s' a) = map_option oh_lists (sl_oh hsl_slinger s a) \<and>
      (a \<noteq> x \<longrightarrow> sl_oh hsl_slinger s' a = sl_oh hsl_slinger s a)" if "hsl_deref s x = Some (r, s')"
    using that by (auto simp: hsl_deref_def hsl_slinger_def base_def oh_lists_def bind_eq_Some_conv Let_def split: if_splits)
  show "sl_oh hsl_slinger (sl_upd hsl_slinger s a f) = (case sl_oh hsl_slinger s a of None \<Rightarrow> sl_oh hsl_slinger s
      | Some h \<Rightarrow> (sl_oh hsl_slinger s)(a \<mapsto> f h))"
    by (simp add: hsl_slinger_def base_base_upd split: option.splits)
  show "hsl_inv (sl_upd hsl_slinger s a f) \<and> hsl_index (sl_upd hsl_slinger s a f) = hsl_index s"
    if u: "hsl_inv s" "sl_oh hsl_slinger s a = Some h" "oh_refcnt h > 0" "oh_refcnt (f h) = oh_refcnt h"
      "oh_digest (f h) = oh_digest h \<or> hsl_spare s a"
  proof -
    obtain o1 where o1: "hsl_heap s a = Some o1" "h = objhead.truncate o1" using u(2) by (auto simp: hsl_slinger_def base_def)
    have "oh_digest (f (objhead.truncate o1)) = oh_digest o1 \<or> a \<notin> set (hsl_head s)"
      using u(5) o1 by (auto simp: hsl_spare_def)
    then show ?thesis
      using hoh_base_upd [of "hsl_heap s" a o1 f "hsl_head s"] u(1,4) o1 by (simp add: hsl_inv_def hsl_slinger_def hsl_index_def)
  qed
  show "hsl_inv (sl_alloc hsl_slinger s a h) \<and> hsl_index (sl_alloc hsl_slinger s a h) = hsl_index s \<and>
      sl_oh hsl_slinger (sl_alloc hsl_slinger s a h) = (sl_oh hsl_slinger s)(a \<mapsto> h)"
    if "hsl_inv s" "sl_oh hsl_slinger s a = None" "oh_refcnt h = 1"
  proof -
    have "a \<notin> set (hsl_head s)" using that(1,2) by (auto simp: hsl_inv_def hoh_ok_def hsl_slinger_def base_def)
    then show ?thesis
      using that(1) hoh_outside [of a "hsl_head s" "hsl_heap s" "Some h"]
      by (simp add: hsl_slinger_def hsl_inv_def hsl_index_def)
  qed
  have fr: "hsl_inv (sl_free hsl_slinger s a) \<and> hsl_index (sl_free hsl_slinger s a) = hsl_index s \<and>
      sl_oh hsl_slinger (sl_free hsl_slinger s a) = (sl_oh hsl_slinger s)(a := None)" if "hsl_inv s" "a \<notin> set (hsl_head s)" for s a
    using that hoh_outside [of a "hsl_head s" "hsl_heap s" None]
    by (simp add: hsl_slinger_def hsl_inv_def hsl_index_def)
  show "hsl_inv (sl_free hsl_slinger s a) \<and> hsl_index (sl_free hsl_slinger s a) = hsl_index s \<and>
      sl_oh hsl_slinger (sl_free hsl_slinger s a) = (sl_oh hsl_slinger s)(a := None)" if "hsl_inv s" "hsl_spare s a"
    using fr [OF that(1)] that(2) by (simp add: hsl_spare_def)
  show "hsl_inv (sl_free hsl_slinger s' x) \<and> hsl_index (sl_free hsl_slinger s' x) = hsl_index s' \<and>
      sl_oh hsl_slinger (sl_free hsl_slinger s' x) = (sl_oh hsl_slinger s')(x := None)"
    if "hsl_inv s" "hsl_index s d = Some x" "hsl_ref s x = 1" "hsl_deref s x = Some (False, s')"
  proof -
    have "hsl_inv s'" "hsl_ref s' x = 0" using hsl.deref_last [OF that(1-3)] that(4) by auto
    then show ?thesis using fr [of s' x] hsl.index_key [of s'] hsl_member [of s' x] by force
  qed
  show "\<exists>s'. sl_tick hsl_slinger s = Some s' \<and> hsl_inv s' \<and> hsl_index s' = hsl_index s \<and>
      (\<forall>a. hsl_ref s a > 0 \<longrightarrow> sl_oh hsl_slinger s' a = sl_oh hsl_slinger s a)" if "hsl_inv s"
    using that by (simp add: hsl_slinger_def)
qed (simp_all)

lemma hcl_member: "hcl_inv s \<Longrightarrow> (\<exists>hp \<in> set (hcl_head s). a \<in> set hp) \<longleftrightarrow> (\<exists>d. hcl_index s d = Some a)"
proof
  assume i: "hcl_inv s"
  show "\<exists>d. hcl_index s d = Some a" if e: "\<exists>hp \<in> set (hcl_head s). a \<in> set hp"
  proof -
    obtain hp where hp: "hp \<in> set (hcl_head s)" "a \<in> set hp" using e by blast
    obtain u where "u < length (hcl_head s)" "hp = hcl_head s ! u" using hp(1) by (auto simp: in_set_conv_nth)
    then have u: "u < length (hcl_head s)" "a \<in> set (hcl_head s ! u)" using hp(2) by simp_all
    then show ?thesis using hcl_invD(4) [OF i u] hcl_index_Some [OF i, of "oh_key (hcl_heap s) a" a] by auto
  qed
  show "\<exists>hp \<in> set (hcl_head s). a \<in> set hp" if "\<exists>d. hcl_index s d = Some a"
    using that hcl_index_Some [OF i] hcl_invD(2) [OF i] by (metis nth_mem)
qed

text \<open>A change of the memory that every bucket survives.\<close>

lemma hcl_heap_change:
  assumes i: "hcl_inv s"
    and ok: "\<And>u. u < length (hcl_head s) \<Longrightarrow>
      hoh_ok h' (hcl_head s ! u) = hoh_ok (hcl_heap s) (hcl_head s ! u) \<and> hoh_at h' (hcl_head s ! u) = hoh_at (hcl_heap s) (hcl_head s ! u)"
    and k: "\<And>u b. u < length (hcl_head s) \<Longrightarrow> b \<in> set (hcl_head s ! u) \<Longrightarrow>
      oh_key h' b = oh_key (hcl_heap s) b \<and> map_option oh_hoh_head (h' b) = map_option oh_hoh_head (hcl_heap s b)"
  shows "hcl_inv (s\<lparr>hcl_heap := h'\<rparr>)" "hcl_index (s\<lparr>hcl_heap := h'\<rparr>) = hcl_index s"
proof -
  show "hcl_index (s\<lparr>hcl_heap := h'\<rparr>) = hcl_index s"
    using ok hcl_invD(2) [OF i] by (simp add: hcl_index_def fun_eq_iff)
  show "hcl_inv (s\<lparr>hcl_heap := h'\<rparr>)" using i ok k unfolding hcl_inv_def by simp
qed

lemma hcl_outside:
  assumes "hcl_inv s" "\<forall>hp \<in> set (hcl_head s). a \<notin> set hp"
  shows "hcl_inv (s\<lparr>hcl_heap := (hcl_heap s)(a := v)\<rparr>)" "hcl_index (s\<lparr>hcl_heap := (hcl_heap s)(a := v)\<rparr>) = hcl_index s"
proof -
  have o: "a \<notin> set (hcl_head s ! u)" if "u < length (hcl_head s)" for u using assms(2) that by simp
  have k: "oh_key ((hcl_heap s)(a := v)) b = oh_key (hcl_heap s) b \<and>
      map_option oh_hoh_head (((hcl_heap s)(a := v)) b) = map_option oh_hoh_head (hcl_heap s b)"
    if "u < length (hcl_head s)" "b \<in> set (hcl_head s ! u)" for u b
    using o [OF that(1)] that(2) by (auto simp: oh_key_def)
  show "hcl_inv (s\<lparr>hcl_heap := (hcl_heap s)(a := v)\<rparr>)" "hcl_index (s\<lparr>hcl_heap := (hcl_heap s)(a := v)\<rparr>) = hcl_index s"
    using hcl_heap_change [OF assms(1), of "(hcl_heap s)(a := v)"] hoh_outside [OF o] k by blast+
qed

lemma on_base_hoh [simp]: "oh_hoh_head (on_base f h) = oh_hoh_head h"
  by (metis hcl_objhead.select_convs(1) hcl_objhead.surjective objhead.ext_inject objhead.surjective on_base_simps(5))


lemma hcl_slinger_ops: "sl_lookup hcl_slinger = hcl_lookup" "sl_deref hcl_slinger = hcl_deref"
  by (simp_all add: hcl_slinger_def)

interpretation hcl_tbl: hash_table hcl_slinger hcl_inv hcl_spare "\<lambda>_ _. True" hcl_index hcl_ref hcl_key
proof (intro hash_table.intro hash_table_axioms.intro, unfold hcl_slinger_ops, rule hcl.hash_slinger_axioms)
  fix s :: hcl and a x d r s' f h noh m
  show "hcl_ref s = oh_ref (sl_oh hcl_slinger s)" "hcl_key s = oh_key (sl_oh hcl_slinger s)"
    by (simp_all add: hcl_ref_def hcl_key_def hcl_slinger_def base_ref base_key)
  show "hcl_spare s m \<longleftrightarrow> (\<exists>h. sl_oh hcl_slinger s m = Some h \<and> oh_refcnt h = 1 \<and> length (oh_digest h) = DIGEST_LEN) \<and>
      (\<forall>d. hcl_index s d \<noteq> Some m)" if "hcl_inv s"
    using hcl_member [OF that, of m]
    by (auto simp: hcl_spare_def hcl_slinger_def base_def)
  show "map_option (\<lambda>h. (oh_digest h, oh_lists h)) (sl_oh hcl_slinger s' a) =
      map_option (\<lambda>h. (oh_digest h, oh_lists h)) (sl_oh hcl_slinger s a)" if "hcl_lookup s noh = Some (x, s')"
    using hcl_lookup_base [OF that] by (simp add: hcl_slinger_def)
  show "map_option oh_lists (sl_oh hcl_slinger s' a) = map_option oh_lists (sl_oh hcl_slinger s a) \<and>
      (a \<noteq> x \<longrightarrow> sl_oh hcl_slinger s' a = sl_oh hcl_slinger s a)" if "hcl_deref s x = Some (r, s')"
    using that by (auto simp: hcl_deref_def hcl_slinger_def base_def oh_lists_def bind_eq_Some_conv Let_def split: if_splits)
  show "sl_oh hcl_slinger (sl_upd hcl_slinger s a f) = (case sl_oh hcl_slinger s a of None \<Rightarrow> sl_oh hcl_slinger s
      | Some h \<Rightarrow> (sl_oh hcl_slinger s)(a \<mapsto> f h))"
    by (simp add: hcl_slinger_def base_base_upd split: option.splits)
  show "hcl_inv (sl_upd hcl_slinger s a f) \<and> hcl_index (sl_upd hcl_slinger s a f) = hcl_index s"
    if u: "hcl_inv s" "sl_oh hcl_slinger s a = Some h" "oh_refcnt h > 0" "oh_refcnt (f h) = oh_refcnt h"
      "oh_digest (f h) = oh_digest h \<or> hcl_spare s a"
  proof -
    obtain o1 where o1: "hcl_heap s a = Some o1" "h = objhead.truncate o1" using u(2) by (auto simp: hcl_slinger_def base_def)
    have dg: "oh_digest (f (objhead.truncate o1)) = oh_digest o1 \<or> a \<notin> set (hcl_head s ! v)" if "v < length (hcl_head s)" for v
      using u(5) o1 that by (auto simp: hcl_spare_def)
    have k: "oh_key (base_upd (hcl_heap s) a f) b = oh_key (hcl_heap s) b \<and>
        map_option oh_hoh_head (base_upd (hcl_heap s) a f b) = map_option oh_hoh_head (hcl_heap s b)"
      if "v < length (hcl_head s)" "b \<in> set (hcl_head s ! v)" for v b
      using that dg [OF that(1)] base_upd_key [of "hcl_heap s" a o1 f b] o1(1) by (auto simp: base_upd_at)
    have ok: "hoh_ok (base_upd (hcl_heap s) a f) (hcl_head s ! v) = hoh_ok (hcl_heap s) (hcl_head s ! v) \<and>
        hoh_at (base_upd (hcl_heap s) a f) (hcl_head s ! v) = hoh_at (hcl_heap s) (hcl_head s ! v)"
      if "v < length (hcl_head s)" for v
      using hoh_base_upd [of "hcl_heap s" a o1 f "hcl_head s ! v"] dg [OF that] u(4) o1 by simp
    show ?thesis using hcl_heap_change [OF u(1), of "base_upd (hcl_heap s) a f"] ok k by (simp add: hcl_slinger_def)
  qed
  show "hcl_inv (sl_alloc hcl_slinger s a h) \<and> hcl_index (sl_alloc hcl_slinger s a h) = hcl_index s \<and>
      sl_oh hcl_slinger (sl_alloc hcl_slinger s a h) = (sl_oh hcl_slinger s)(a \<mapsto> h)"
    if u: "hcl_inv s" "sl_oh hcl_slinger s a = None" "oh_refcnt h = 1"
  proof -
    have "a \<notin> set hp" if hp: "hp \<in> set (hcl_head s)" for hp
    proof -
      obtain v where "v < length (hcl_head s)" "hp = hcl_head s ! v" using hp by (auto simp: in_set_conv_nth)
      then show ?thesis using hcl_invD(3) [OF u(1), of v] u(2) by (auto simp: hoh_ok_def hcl_slinger_def base_def)
    qed
    then show ?thesis
      using hcl_outside [OF u(1)] by (simp add: hcl_slinger_def objhead.defs) (metis objhead.surjective old.unit.exhaust)
  qed
  have fr: "hcl_inv (sl_free hcl_slinger s a) \<and> hcl_index (sl_free hcl_slinger s a) = hcl_index s \<and>
      sl_oh hcl_slinger (sl_free hcl_slinger s a) = (sl_oh hcl_slinger s)(a := None)"
    if "hcl_inv s" "\<forall>hp \<in> set (hcl_head s). a \<notin> set hp" for s a
    using hcl_outside [OF that] by (simp add: hcl_slinger_def)
  show "hcl_inv (sl_free hcl_slinger s a) \<and> hcl_index (sl_free hcl_slinger s a) = hcl_index s \<and>
      sl_oh hcl_slinger (sl_free hcl_slinger s a) = (sl_oh hcl_slinger s)(a := None)" if "hcl_inv s" "hcl_spare s a"
    using fr [OF that(1)] that(2) by (simp add: hcl_spare_def)
  show "hcl_inv (sl_free hcl_slinger s' x) \<and> hcl_index (sl_free hcl_slinger s' x) = hcl_index s' \<and>
      sl_oh hcl_slinger (sl_free hcl_slinger s' x) = (sl_oh hcl_slinger s')(x := None)"
    if "hcl_inv s" "hcl_index s d = Some x" "hcl_ref s x = 1" "hcl_deref s x = Some (False, s')"
  proof -
    have "hcl_inv s'" "hcl_ref s' x = 0" using hcl.deref_last [OF that(1-3)] that(4) by auto
    then show ?thesis using fr [of s' x] hcl.index_key [of s'] hcl_member [of s' x] by force
  qed
  show "\<exists>s'. sl_tick hcl_slinger s = Some s' \<and> hcl_inv s' \<and> hcl_index s' = hcl_index s \<and>
      (\<forall>a. hcl_ref s a > 0 \<longrightarrow> sl_oh hcl_slinger s' a = sl_oh hcl_slinger s a)" if "hcl_inv s"
    using that by (simp add: hcl_slinger_def)
qed (simp_all)

section \<open>The crit-bit tree\<close>

text \<open>Tree operations change only the inner nodes kept in the object heads.\<close>

lemma oh_update_base: "oh_update a f r = Some r' \<Longrightarrow> (\<And>x. objhead.truncate (f x) = objhead.truncate x) \<Longrightarrow> base (hcb_heap r') = base (hcb_heap r)"
  by (auto simp: oh_update_def base_def fun_eq_iff)

lemma hwrite_base: "hwrite r l p = Some r' \<Longrightarrow> base (hcb_heap r') = base (hcb_heap r)"
  by (cases l) (auto intro: oh_update_base)

lemma hcb_insert_base:
  assumes "hcb_insert r noh lk = Some (x, r')"
  shows "base (hcb_heap r') = base (hcb_heap r)"
proof (cases "origo r = HNull")
  case True
  then show ?thesis using assms by (auto simp: hcb_insert_def bind_eq_Some_conv Let_def split: if_splits)
next
  case False
  then obtain o1 p pp n where w: "hcb_heap r noh = Some o1" "hcb_walk r (oh_digest o1) Origo (cmps r) = Some (p, pp, n)"
    using assms by (auto simp: hcb_insert_def bind_eq_Some_conv Let_def)
  show ?thesis
  proof (cases pp)
    case (HNode b)
    show ?thesis
      using assms w False HNode
      by (auto simp: hcb_insert_def bind_eq_Some_conv Let_def dest!: oh_update_base hwrite_base split: if_splits)
        (metis hcb_root.ext_inject hcb_root.surjective hcb_root.update_convs(3))
  qed (use assms w False in \<open>auto simp: hcb_insert_def bind_eq_Some_conv Let_def\<close>)
qed

lemma hcb_delete_loop_base:
  assumes "hcb_delete_loop r noh d p = Some r'"
  shows "base (hcb_heap r') = base (hcb_heap r)"
proof (induct r noh d p r' rule: hcb_delete_loop.raw_induct)
  case (1 loop r noh d p r')
  obtain pp where pp: "hread r p = Some pp" using 1(2) by (auto simp: bind_eq_Some_conv)
  show ?case
  proof (cases pp)
    case (HY a)
    then obtain oy s where s: "hcb_heap r a = Some oy" "y_side d (oh_y oy) = Some s"
      using 1(2) pp by (auto simp: bind_eq_Some_conv)
    show ?thesis
    proof (cases "y_leaf (oh_y oy) s = HNode noh")
      case True
      then show ?thesis
        using 1(2) pp HY s by (auto simp: bind_eq_Some_conv dest!: oh_update_base hwrite_base)
    next
      case False
      then have "loop (r\<lparr>cmps := cmps r + 1\<rparr>) noh d (LeafOf a s) = Some r'" using 1(2) pp HY s by simp
      from 1(1) [OF this] show ?thesis by simp
    qed
  qed (use 1(2) pp in auto)
qed (rule assms)


lemma hcb_delete_base: "hcb_delete r a = Some r' \<Longrightarrow> base (hcb_heap r') = base (hcb_heap r)"
  using hcb_delete_loop_base by (auto simp: hcb_delete_def bind_eq_Some_conv split: if_splits)

lemma keep_refcnt:
  "h x = Some o1 \<Longrightarrow> map_option (\<lambda>h. (oh_digest h, oh_lists h)) (base (h(x \<mapsto> o1\<lparr>oh_refcnt := n\<rparr>)) a) =
     map_option (\<lambda>h. (oh_digest h, oh_lists h)) (base h a)"
  by (simp add: base_def oh_lists_def)

lemma hcb_lookup_locked_base:
  assumes "hcb_lookup_locked s noh = Some (x, s')"
  shows "map_option (\<lambda>h. (oh_digest h, oh_lists h)) (base (hcb_heap (hcb_tree s')) a) =
         map_option (\<lambda>h. (oh_digest h, oh_lists h)) (base (hcb_heap (hcb_tree s)) a)"
proof -
  obtain m o1 where m: "hcb_insert (hcb_tree s) noh True = Some (Some x, m)" "hcb_heap m x = Some o1"
    using assms by (auto simp: hcb_lookup_locked_def bind_eq_Some_conv Let_def split: if_splits)
  then have "hcb_heap (hcb_tree s') = hcb_heap m \<or>
      hcb_heap (hcb_tree s') = (hcb_heap m)(x \<mapsto> o1\<lparr>oh_refcnt := oh_refcnt o1 + 1\<rparr>)"
    using assms by (auto simp: hcb_lookup_locked_def bind_eq_Some_conv Let_def split: if_splits)
  then show ?thesis
    using keep_refcnt [of "hcb_heap m" x o1 "oh_refcnt o1 + 1" a] m(2) hcb_insert_base [OF m(1)] by auto
qed

lemma hcb_lookup_base:
  assumes "hcb_lookup s noh = Some (x, s')"
  shows "map_option (\<lambda>h. (oh_digest h, oh_lists h)) (base (hcb_heap (hcb_tree s')) a) =
         map_option (\<lambda>h. (oh_digest h, oh_lists h)) (base (hcb_heap (hcb_tree s)) a)"
proof -
  obtain r m where m: "hcb_insert (hcb_tree s) noh False = Some (r, m)"
    using assms by (auto simp: hcb_lookup_def bind_eq_Some_conv)
  note b = hcb_insert_base [OF m]
  show ?thesis
  proof (cases r)
    case None
    then have "hcb_lookup_locked (s\<lparr>hcb_tree := m\<rparr>) noh = Some (x, s')" using assms m by (simp add: hcb_lookup_def)
    from hcb_lookup_locked_base [OF this] show ?thesis using b by simp
  next
    case (Some y)
    then obtain o1 where o1: "hcb_heap m y = Some o1" using assms m by (auto simp: hcb_lookup_def bind_eq_Some_conv Let_def split: if_splits)
    show ?thesis
    proof (cases "oh_refcnt o1 = 0")
      case True
      then have "hcb_lookup_locked (s\<lparr>hcb_tree := m\<rparr>) noh = Some (x, s')"
        using assms m Some o1 by (simp add: hcb_lookup_def Let_def split: if_splits)
      from hcb_lookup_locked_base [OF this] show ?thesis using b by simp
    next
      case False
      then have s': "hcb_heap (hcb_tree s') = (hcb_heap m)(y \<mapsto> o1\<lparr>oh_refcnt := oh_refcnt o1 + 1\<rparr>)"
        using assms m Some o1 by (auto simp: hcb_lookup_def Let_def split: if_splits)
      show ?thesis unfolding s' using keep_refcnt [of "hcb_heap m" y o1, OF o1] b by simp
    qed
  qed
qed

lemma hcb_deref_base:
  assumes "hcb_deref s x = Some (r, s')"
  shows "map_option oh_lists (base (hcb_heap (hcb_tree s')) a) = map_option oh_lists (base (hcb_heap (hcb_tree s)) a) \<and>
         (a \<noteq> x \<longrightarrow> base (hcb_heap (hcb_tree s')) a = base (hcb_heap (hcb_tree s)) a) \<and> r"
proof -
  obtain o1 where o1: "hcb_heap (hcb_tree s) x = Some o1" using assms by (auto simp: hcb_deref_def bind_eq_Some_conv)
  show ?thesis
  proof (cases "oh_refcnt o1 = 1")
    case True
    then obtain m o2 where m: "hcb_delete (hcb_tree s) x = Some m" "hcb_heap m x = Some o2"
      using assms o1 by (auto simp: hcb_deref_def bind_eq_Some_conv)
    then have s': "hcb_heap (hcb_tree s') =
        (hcb_heap m)(x \<mapsto> o2\<lparr>oh_digest := (oh_digest o2)[0 := 0], oh_refcnt := oh_refcnt o2 - 1\<rparr>)" "r"
      using assms o1 True by (auto simp: hcb_deref_def Let_def split: if_splits)
    have "objhead.truncate o2 = objhead.truncate o1"
      using fun_cong [OF hcb_delete_base [OF m(1)], of x] o1 m(2) by (simp add: base_def)
    then have "oh_lists (objhead.truncate o2) = oh_lists (objhead.truncate o1)" by simp
    then show ?thesis
      using s' m(2) fun_cong [OF hcb_delete_base [OF m(1)], of a] o1 by (auto simp: base_def oh_lists_def)
  next
    case False
    then show ?thesis using assms o1 by (auto simp: hcb_deref_def base_def oh_lists_def split: if_splits)
  qed
qed

lemma hcb_clean_base:
  assumes "hcb_clean s as = Some s'" "oh_ref (hcb_heap (hcb_tree s)) a > 0"
  shows "hcb_heap (hcb_tree s') a = hcb_heap (hcb_tree s) a"
  using assms
proof (induction as arbitrary: s)
  case (Cons b as)
  obtain o1 where o1: "hcb_heap (hcb_tree s) b = Some o1" "oh_refcnt o1 = 0"
    using Cons.prems(1) by (auto simp: bind_eq_Some_conv split: if_splits)
  have n: "a \<noteq> b" using o1 Cons.prems(2) by auto
  show ?case
  proof (cases "y_leaf0 (oh_y o1) \<noteq> HNull \<or> y_leaf1 (oh_y o1) \<noteq> HNull")
    case True
    then show ?thesis using Cons o1 by simp
  next
    case False
    then obtain s1 where "hcb_clean s1 as = Some s'" "hcb_heap (hcb_tree s1) a = hcb_heap (hcb_tree s) a"
      using Cons.prems(1) o1 n
      by (auto simp: Let_def bind_eq_Some_conv hcb_DeleteObjHead_def set_oh_def split: if_splits)
    then show ?thesis using Cons.IH [of s1] Cons.prems(2) by (simp add: oh_ref_def)
  qed
qed simp


lemma on_base_y [simp]: "oh_y (on_base f h) = oh_y h"
  by (metis hcb_objhead.select_convs(1) hcb_objhead.surjective objhead.ext_inject objhead.surjective on_base_simps(5))

lemma hcb_upd_live:
  assumes rep: "hcb_rep s to" and o1: "hcb_heap (hcb_tree s) a = Some o1" "oh_refcnt o1 > 0"
    and o2: "oh_y o2 = oh_y o1" "oh_refcnt o2 = oh_refcnt o1" "a \<in> set (tleaves to) \<Longrightarrow> oh_digest o2 = oh_digest o1"
  shows "hcb_rep (set_oh s a o2) to" "hcb_index (set_oh s a o2) = hcb_index s"
proof -
  have rt: "rep_tree (hcb_tree s) to" using rep by (simp add: hcb_rep_def)
  have rt': "rep_tree (hcb_tree (set_oh s a o2)) to"
    unfolding set_oh_simps using rep_tree_upd [OF rt o1(1) o2(1,3)] by simp
  show "hcb_rep (set_oh s a o2) to"
    using rep rt' o1 o2(2) by (auto simp: hcb_rep_def rep_cool_def)
  show "hcb_index (set_oh s a o2) = hcb_index s"
    by (rule ext, rule hcb_index_eqI [OF rt rt']) (use o1(1) o2(3) in \<open>auto simp: Kh_def oh_key_def\<close>)
qed

lemma hcb_alloc_fresh:
  assumes rep: "hcb_rep s to" and a: "hcb_heap (hcb_tree s) a = None"
  shows "hcb_rep (set_oh s a (fresh_oh d)) to" "hcb_index (set_oh s a (fresh_oh d)) = hcb_index s"
proof -
  have rt: "rep_tree (hcb_tree s) to" using rep by (simp add: hcb_rep_def)
  have rt': "rep_tree (hcb_tree (set_oh s a (fresh_oh d))) to" using rep_tree_alloc [OF rt a] by simp
  have n: "a \<notin> set (tleaves to)" using rt a by (auto simp: rep_tree_def)
  show "hcb_rep (set_oh s a (fresh_oh d)) to"
    using rep rt' a by (auto simp: hcb_rep_def rep_cool_def fresh_oh_def)
  show "hcb_index (set_oh s a (fresh_oh d)) = hcb_index s"
    by (rule ext, rule hcb_index_eqI [OF rt rt']) (use n in \<open>auto simp: Kh_def\<close>)
qed

lemma hcb_free_spare:
  assumes rep: "hcb_rep s to" and sp: "hcb_spare s a"
  defines "s' \<equiv> s\<lparr>hcb_tree := (hcb_tree s)\<lparr>hcb_heap := (hcb_heap (hcb_tree s))(a := None)\<rparr>\<rparr>"
  shows "hcb_rep s' to" "hcb_index s' = hcb_index s"
proof -
  have rt: "rep_tree (hcb_tree s) to" using rep by (simp add: hcb_rep_def)
  obtain o1 where o1: "hcb_heap (hcb_tree s) a = Some o1" "a \<notin> set (tleaves to)" "a \<notin> set (laylow s)" "a \<notin> set (towners to)"
    using hcb_spare_rep [OF rep sp] by metis
  have rt': "rep_tree (hcb_tree s') to" using rep_tree_free [OF rt o1(2,4)] by (simp add: s'_def)
  show "hcb_rep s' to"
    using rep rt' o1 by (auto simp: hcb_rep_def rep_cool_def s'_def oh_ref_def)
  show "hcb_index s' = hcb_index s"
    by (rule ext, rule hcb_index_eqI [OF rt rt']) (use o1 in \<open>auto simp: Kh_def oh_key_def s'_def\<close>)
qed

lemma hcb_slinger_ops: "sl_lookup hcb_slinger = hcb_lookup" "sl_deref hcb_slinger = hcb_deref"
  by (simp_all add: hcb_slinger_def)

interpretation hcb_tbl: hash_table hcb_slinger hcb_inv hcb_spare hcb_idle hcb_index hcb_ref hcb_key
proof (intro hash_table.intro hash_table_axioms.intro, unfold hcb_slinger_ops, rule hcb.hash_slinger_axioms)
  fix s :: hcb and a x d r s' f h noh m
  show "hcb_ref s = oh_ref (sl_oh hcb_slinger s)" "hcb_key s = oh_key (sl_oh hcb_slinger s)"
    by (simp_all add: hcb_ref_def hcb_key_def Kh_def hcb_slinger_def base_ref base_key)
  show "hcb_spare s m \<longleftrightarrow> (\<exists>h. sl_oh hcb_slinger s m = Some h \<and> oh_refcnt h = 1 \<and> length (oh_digest h) = DIGEST_LEN) \<and>
      (\<forall>d. hcb_index s d \<noteq> Some m)" if "hcb_inv s"
    using hcb.spare_out [OF that, of m]
    by (auto simp: hcb_spare_def hcb_slinger_def base_def split: option.splits)
  show "hcb_idle s a" if "sl_oh hcb_slinger s a = Some h" "oh_lists h = ([], [])"
    using that by (auto simp: hcb_idle_def hcb_slinger_def base_def oh_lists_def)
  show "map_option (\<lambda>h. (oh_digest h, oh_lists h)) (sl_oh hcb_slinger s' a) =
      map_option (\<lambda>h. (oh_digest h, oh_lists h)) (sl_oh hcb_slinger s a)" if "hcb_lookup s noh = Some (x, s')"
    using hcb_lookup_base [OF that] by (simp add: hcb_slinger_def)
  show "map_option oh_lists (sl_oh hcb_slinger s' a) = map_option oh_lists (sl_oh hcb_slinger s a) \<and>
      (a \<noteq> x \<longrightarrow> sl_oh hcb_slinger s' a = sl_oh hcb_slinger s a)" if "hcb_deref s x = Some (r, s')"
    using hcb_deref_base [OF that, of a] by (simp add: hcb_slinger_def)
  show "hcb_inv (sl_free hcb_slinger s' x) \<and> hcb_index (sl_free hcb_slinger s' x) = hcb_index s' \<and>
      sl_oh hcb_slinger (sl_free hcb_slinger s' x) = (sl_oh hcb_slinger s')(x := None)"
    if "hcb_inv s" "hcb_index s d = Some x" "hcb_ref s x = 1" "hcb_deref s x = Some (False, s')"
    using hcb_deref_base [OF that(4)] by simp
  show "sl_oh hcb_slinger (sl_upd hcb_slinger s a f) = (case sl_oh hcb_slinger s a of None \<Rightarrow> sl_oh hcb_slinger s
      | Some h \<Rightarrow> (sl_oh hcb_slinger s)(a \<mapsto> f h))"
    by (simp add: hcb_slinger_def base_base_upd split: option.splits)
  show "hcb_inv (sl_upd hcb_slinger s a f) \<and> hcb_index (sl_upd hcb_slinger s a f) = hcb_index s"
    if u: "hcb_inv s" "sl_oh hcb_slinger s a = Some h" "oh_refcnt h > 0" "oh_refcnt (f h) = oh_refcnt h"
      "oh_digest (f h) = oh_digest h \<or> hcb_spare s a"
  proof -
    obtain to where rep: "hcb_rep s to" using u(1) by (auto simp: hcb_inv_def)
    obtain o1 where o1: "hcb_heap (hcb_tree s) a = Some o1" "h = objhead.truncate o1"
      using u(2) by (auto simp: hcb_slinger_def base_def)
    have "oh_digest (on_base f o1) = oh_digest o1" if "a \<in> set (tleaves to)"
      using u(5) o1(2) that hcb_spare_rep [OF rep, of a] by auto
    then have "hcb_rep (set_oh s a (on_base f o1)) to" "hcb_index (set_oh s a (on_base f o1)) = hcb_index s"
      using hcb_upd_live [OF rep o1(1), of "on_base f o1"] u(3,4) o1(2) by simp_all
    moreover have "sl_upd hcb_slinger s a f = set_oh s a (on_base f o1)"
      using o1(1) by (simp add: hcb_slinger_def base_upd_def set_oh_def)
    ultimately show ?thesis by (auto simp: hcb_inv_def)
  qed
  show "hcb_inv (sl_alloc hcb_slinger s a h) \<and> hcb_index (sl_alloc hcb_slinger s a h) = hcb_index s \<and>
      sl_oh hcb_slinger (sl_alloc hcb_slinger s a h) = (sl_oh hcb_slinger s)(a \<mapsto> h)"
    if u: "hcb_inv s" "sl_oh hcb_slinger s a = None" "oh_refcnt h = 1"
  proof -
    obtain to where rep: "hcb_rep s to" using u(1) by (auto simp: hcb_inv_def)
    have a: "hcb_heap (hcb_tree s) a = None" using u(2) by (simp add: hcb_slinger_def base_def)
    let ?h = "objhead.extend h (hcb_objhead.fields y_zero)" and ?s = "set_oh s a (fresh_oh [])"
    have "a \<notin> set (tleaves to)" using rep a by (auto simp: hcb_rep_def rep_tree_def)
    then have "hcb_rep (set_oh ?s a ?h) to" "hcb_index (set_oh ?s a ?h) = hcb_index ?s"
      using hcb_upd_live [OF hcb_alloc_fresh(1) [OF rep a, of "[]"], of a "fresh_oh []" ?h] u(3)
      by (auto simp: fresh_oh_def objhead.defs hcb_objhead.defs)
    moreover have "set_oh ?s a ?h = set_oh s a ?h" by (simp add: set_oh_def)
    moreover have "objhead.truncate ?h = h" by (simp add: objhead.defs)
    ultimately show ?thesis
      using hcb_alloc_fresh(2) [OF rep a] by (auto simp: hcb_slinger_def hcb_inv_def)
  qed
  show "hcb_inv (sl_free hcb_slinger s a) \<and> hcb_index (sl_free hcb_slinger s a) = hcb_index s \<and>
      sl_oh hcb_slinger (sl_free hcb_slinger s a) = (sl_oh hcb_slinger s)(a := None)" if u: "hcb_inv s" "hcb_spare s a"
  proof -
    obtain to where rep: "hcb_rep s to" using u(1) by (auto simp: hcb_inv_def)
    show ?thesis using hcb_free_spare [OF rep u(2)] by (auto simp: hcb_slinger_def hcb_inv_def)
  qed
  show "\<exists>s'. sl_tick hcb_slinger s = Some s' \<and> hcb_inv s' \<and> hcb_index s' = hcb_index s \<and>
      (\<forall>a. hcb_ref s a > 0 \<longrightarrow> sl_oh hcb_slinger s' a = sl_oh hcb_slinger s a)" if i: "hcb_inv s"
  proof -
    obtain to where rep: "hcb_rep s to" using i by (auto simp: hcb_inv_def)
    then have dl: "distinct (laylow s)" by (simp add: hcb_rep_def rep_cool_def)
    obtain s' where "hcb_clean s (laylow s) = Some s'" "hcb_rep s' to" "hcb_index s' = hcb_index s"
      using hcb_clean_inv [OF rep dl] by auto
    then show ?thesis
      using hcb_clean_base [of s "laylow s" s'] by (auto simp: hcb_slinger_def hcb_cleaner_def hcb_inv_def hcb_ref_def base_def)
  qed
qed
end
