(* ===== verification/Hash_Core.thy ===== *)
theory Hash_Core
  imports Hash_Table Ban_Props Vary
begin

text \<open>
  \<open>bin/varnishd/cache_hash.c\<close>: the cache proper.  Object heads (one for each digest, kept by a hash
  implementation), the object cores that hang from them, the objects, their reference counts, and the
  sessions that wait for a busy object.

  The hash implementation is the argument \<open>S\<close> (\<open>hash\<close> in the C code).  Object cores and sessions are
  named by their addresses, and an object by the address of its object core, as in the theory of bans:
  \<open>hsh_objs st oc\<close> and \<open>ban_objs (hsh_bans st) oc\<close> are the two halves of \<open>oc->obj\<close>.  A thread's critical
  sections under \<open>oh->mtx\<close>, the lock of the hash and that of the bans follow each other within an operation;
  an operation is modelled as a whole, and a sequence of operations as their interleaving.

  Arguments stand for what the operations get from elsewhere: the address of new memory, \<open>VBE_Healthy\<close>,
  the outcome of \<open>WRK_Queue\<close>, and the object which \<open>SMP_Fixup\<close> finds in a silo.  Calls into the storage and
  into the ESI code are recorded in \<open>hsh_calls\<close>.  Logging and accounting are left out.
\<close>

section \<open>State\<close>

record objcore =
  oc_refcnt :: int
  oc_objhead :: "addr option"
  oc_timer_when :: real
  oc_onlru :: bool
  oc_busy :: bool
  oc_pass :: bool
  oc_persistent :: bool
  oc_lrudontmove :: bool
  oc_smp_seg :: bool
  oc_ban :: "nat option"

text \<open>The fields of \<open>struct object\<close> that are not in \<open>ban_obj\<close>.\<close>

record object =
  o_grace :: "real option"
  o_vary :: "string option"
  o_hits :: int
  o_entered :: "real option"
  o_last_lru :: real
  o_store :: "addr list"
  o_objstore :: "addr option"
  o_esidata :: bool

record worker =
  w_nobjcore :: "addr option"
  w_nobjhead :: "addr option"

record sess =
  sp_wrk :: "nat option"
  sp_esis :: nat
  sp_http :: http
  sp_digest :: digest
  sp_t_req :: real
  sp_grace :: "real option"
  sp_objhead :: "addr option"

record params =
  default_grace :: real
  rush_exponent :: nat
  diag_magic :: bool

datatype call = Call_stv_object addr | Call_STV_free addr | Call_free addr | Call_SMP_FreeObj addr | Call_ESI_Destroy addr

record ('s, 're) hsh =
  hsh_tbl :: 's
  hsh_ocs :: "addr \<Rightarrow> objcore option"
  hsh_objs :: "addr \<Rightarrow> object option"
  hsh_bans :: "'re banst"
  hsh_wrk :: "nat \<Rightarrow> worker"
  hsh_sess :: "addr \<Rightarrow> sess option"
  hsh_was :: "digest list"
  hsh_calls :: "call list"
  st_object :: int
  st_objectcore :: int
  st_objecthead :: int
  st_vampire :: int
  client_drop_late :: nat

definition HSH_Grace :: "params \<Rightarrow> real option \<Rightarrow> real" where
  "HSH_Grace P g = (case g of None \<Rightarrow> default_grace P | Some g \<Rightarrow> g)"

text \<open>\<open>hook s\<close>: the stevedore of the storage \<open>s\<close> has an \<open>object\<close> function.\<close>

definition HSH_Object :: "(addr \<Rightarrow> bool) \<Rightarrow> addr \<Rightarrow> ('s, 're, 'm) hsh_scheme \<Rightarrow> ('s, 're, 'm) hsh_scheme option" where
  "HSH_Object hook oc st = do {
     ob \<leftarrow> hsh_objs st oc;
     s \<leftarrow> o_objstore ob;
     c \<leftarrow> hsh_ocs st oc;
     chk (oc_busy c);
     Some (if hook s then st\<lparr>hsh_calls := hsh_calls st @ [Call_stv_object oc]\<rparr> else st) }"

section \<open>Spare object cores and object heads\<close>

definition new_oc :: objcore where
  "new_oc = \<lparr>oc_refcnt = 0, oc_objhead = None, oc_timer_when = 0, oc_onlru = False, oc_busy = True, oc_pass = False,
     oc_persistent = False, oc_lrudontmove = False, oc_smp_seg = False, oc_ban = None\<rparr>"

definition new_oh :: objhead where
  "new_oh = \<lparr>oh_refcnt = 1, oh_digest = replicate DIGEST_LEN 0, oh_objcs = [], oh_waitinglist = []\<rparr>"

definition prealloc_oc :: "nat \<Rightarrow> addr \<Rightarrow> ('s, 're, 'm) hsh_scheme \<Rightarrow> ('s, 're, 'm) hsh_scheme" where
  "prealloc_oc w a st = (if w_nobjcore (hsh_wrk st w) \<noteq> None then st
     else st\<lparr>hsh_ocs := (hsh_ocs st)(a \<mapsto> new_oc), st_objectcore := st_objectcore st + 1,
             hsh_wrk := (hsh_wrk st)(w := (hsh_wrk st w)\<lparr>w_nobjcore := Some a\<rparr>)\<rparr>)"

definition prealloc_oh :: "'s slinger \<Rightarrow> nat \<Rightarrow> addr \<Rightarrow> ('s, 're, 'm) hsh_scheme \<Rightarrow> ('s, 're, 'm) hsh_scheme" where
  "prealloc_oh S w b st = (if w_nobjhead (hsh_wrk st w) \<noteq> None then st
     else st\<lparr>hsh_tbl := sl_alloc S (hsh_tbl st) b new_oh, st_objecthead := st_objecthead st + 1,
             hsh_wrk := (hsh_wrk st)(w := (hsh_wrk st w)\<lparr>w_nobjhead := Some b\<rparr>)\<rparr>)"

definition HSH_Prealloc :: "'s slinger \<Rightarrow> nat \<Rightarrow> addr \<Rightarrow> addr \<Rightarrow> ('s, 're, 'm) hsh_scheme \<Rightarrow> ('s, 're, 'm) hsh_scheme" where
  "HSH_Prealloc S w a b st = prealloc_oh S w b (prealloc_oc w a st)"

definition HSH_Cleanup :: "'s slinger \<Rightarrow> nat \<Rightarrow> ('s, 're, 'm) hsh_scheme \<Rightarrow> ('s, 're, 'm) hsh_scheme" where
  "HSH_Cleanup S w st = (
     let st = (case w_nobjcore (hsh_wrk st w) of None \<Rightarrow> st
       | Some a \<Rightarrow> st\<lparr>hsh_ocs := (hsh_ocs st)(a := None), st_objectcore := st_objectcore st - 1,
                      hsh_wrk := (hsh_wrk st)(w := (hsh_wrk st w)\<lparr>w_nobjcore := None\<rparr>)\<rparr>)
     in case w_nobjhead (hsh_wrk st w) of None \<Rightarrow> st
       | Some b \<Rightarrow> st\<lparr>hsh_tbl := sl_free S (hsh_tbl st) b, st_objecthead := st_objecthead st - 1,
                      hsh_wrk := (hsh_wrk st)(w := (hsh_wrk st w)\<lparr>w_nobjhead := None\<rparr>)\<rparr>)"

definition HSH_DeleteObjHead :: "'s slinger \<Rightarrow> addr \<Rightarrow> ('s, 're, 'm) hsh_scheme \<Rightarrow> ('s, 're, 'm) hsh_scheme option" where
  "HSH_DeleteObjHead S oh st = do {
     h \<leftarrow> sl_oh S (hsh_tbl st) oh;
     chk (oh_refcnt h = 0);
     chk (oh_objcs h = []);
     Some (st\<lparr>st_objecthead := st_objecthead st - 1, hsh_tbl := sl_free S (hsh_tbl st) oh\<rparr>) }"

definition HSH_Freestore :: "object \<Rightarrow> ('s, 're, 'm) hsh_scheme \<Rightarrow> ('s, 're, 'm) hsh_scheme" where
  "HSH_Freestore ob st = st\<lparr>hsh_calls := hsh_calls st @ map Call_STV_free (o_store ob)\<rparr>"

text \<open>The digest is that of the strings that \<open>vcl_hash\<close> adds, each with a \<open>#\<close> behind it.\<close>

definition HSH_AddString :: "string \<Rightarrow> string option \<Rightarrow> string" where
  "HSH_AddString ctx str = ctx @ (case str of None \<Rightarrow> [] | Some s \<Rightarrow> s) @ ''#''"

section \<open>The debugging translation of digests\<close>

definition HSH_NMAGIC :: nat where "HSH_NMAGIC = 9"

definition magic_now :: "digest list" where
  "magic_now = map (\<lambda>c. replicate 31 0 @ [c]) [0, 1, 2, 0x40, 0x80] @
     map (\<lambda>c. c # replicate 31 0) [1, 2, 0x80, 0x40]"

definition hsh_testmagic :: "digest list \<Rightarrow> digest \<Rightarrow> (digest \<times> digest list) option" where
  "hsh_testmagic was d = (
     let i = length (takeWhile (\<lambda>x. x \<noteq> d) was);
         was = (if i = length was \<and> i < HSH_NMAGIC then was @ [d] else was)
     in if i = length was then Some (d, was)
        else do { chk (i < HSH_NMAGIC); Some (magic_now ! i, was) })"

definition test_digest :: "params \<Rightarrow> 's slinger \<Rightarrow> addr \<Rightarrow> ('s, 're, 'm) hsh_scheme \<Rightarrow> ('s, 're, 'm) hsh_scheme option" where
  "test_digest P S noh st = (if \<not> diag_magic P then Some st else do {
     h \<leftarrow> sl_oh S (hsh_tbl st) noh;
     (d, was) \<leftarrow> hsh_testmagic (hsh_was st) (oh_digest h);
     Some (st\<lparr>hsh_tbl := sl_upd S (hsh_tbl st) noh (\<lambda>h. h\<lparr>oh_digest := d\<rparr>), hsh_was := was\<rparr>) })"

section \<open>Object cores on object heads\<close>

definition upd_oc :: "addr \<Rightarrow> (objcore \<Rightarrow> objcore) \<Rightarrow> ('s, 're, 'm) hsh_scheme \<Rightarrow> ('s, 're, 'm) hsh_scheme" where
  "upd_oc a f st = st\<lparr>hsh_ocs := (hsh_ocs st)(a := map_option f (hsh_ocs st a))\<rparr>"

definition upd_objcs :: "'s slinger \<Rightarrow> addr \<Rightarrow> (addr list \<Rightarrow> addr list) \<Rightarrow> ('s, 're, 'm) hsh_scheme \<Rightarrow> ('s, 're, 'm) hsh_scheme" where
  "upd_objcs S oh f st = st\<lparr>hsh_tbl := sl_upd S (hsh_tbl st) oh (\<lambda>h. h\<lparr>oh_objcs := f (oh_objcs h)\<rparr>)\<rparr>"

definition upd_waiting :: "'s slinger \<Rightarrow> addr \<Rightarrow> (addr list \<Rightarrow> addr list) \<Rightarrow> ('s, 're, 'm) hsh_scheme \<Rightarrow> ('s, 're, 'm) hsh_scheme" where
  "upd_waiting S oh f st = st\<lparr>hsh_tbl := sl_upd S (hsh_tbl st) oh (\<lambda>h. h\<lparr>oh_waitinglist := f (oh_waitinglist h)\<rparr>)\<rparr>"

definition upd_sess :: "addr \<Rightarrow> (sess \<Rightarrow> sess) \<Rightarrow> ('s, 're, 'm) hsh_scheme \<Rightarrow> ('s, 're, 'm) hsh_scheme" where
  "upd_sess a f st = st\<lparr>hsh_sess := (hsh_sess st)(a := map_option f (hsh_sess st a))\<rparr>"

text \<open>\<open>SMP_Fixup\<close> of \<open>storage_persistent.c\<close>: the object core gets its object from the silo.\<close>

definition SMP_Fixup :: "(addr \<Rightarrow> object \<times> ban_obj) \<Rightarrow> addr \<Rightarrow> ('s, 're, 'm) hsh_scheme \<Rightarrow> ('s, 're, 'm) hsh_scheme option" where
  "SMP_Fixup silo oc st = do {
     c \<leftarrow> hsh_ocs st oc;
     chk (oc_smp_seg c);
     chk (oc_persistent c);
     let st = upd_oc oc (\<lambda>c. c\<lparr>oc_persistent := False\<rparr>) st;
     let bo = (snd (silo oc))\<lparr>o_ban := oc_ban c\<rparr>;
     Some (st\<lparr>hsh_objs := (hsh_objs st)(oc \<mapsto> fst (silo oc)),
              hsh_bans := (hsh_bans st)\<lparr>ban_objs := (ban_objs (hsh_bans st))(oc \<mapsto> bo)\<rparr>,
              st_object := st_object st + 1, st_vampire := st_vampire st - 1\<rparr>) }"

definition HSH_Insert :: "params \<Rightarrow> 's slinger \<Rightarrow> addr \<Rightarrow> addr \<Rightarrow> addr \<Rightarrow> ('s, 're, 'm) hsh_scheme \<Rightarrow> (addr \<times> ('s, 're, 'm) hsh_scheme) option" where
  "HSH_Insert P S spa a b st = do {
     sp \<leftarrow> hsh_sess st spa;
     w \<leftarrow> sp_wrk sp;
     let st = HSH_Prealloc S w a b st;
     noh \<leftarrow> w_nobjhead (hsh_wrk st w);
     st \<leftarrow> test_digest P S noh st;
     chk (sp_objhead sp = None);
     (oh, t) \<leftarrow> sl_lookup S (hsh_tbl st) noh;
     let st = st\<lparr>hsh_tbl := t\<rparr>;
     let st = (if oh = noh then st\<lparr>hsh_wrk := (hsh_wrk st)(w := (hsh_wrk st w)\<lparr>w_nobjhead := None\<rparr>)\<rparr> else st);
     h \<leftarrow> sl_oh S (hsh_tbl st) oh;
     chk (oh_refcnt h > 0);
     oc \<leftarrow> w_nobjcore (hsh_wrk st w);
     let st = st\<lparr>hsh_wrk := (hsh_wrk st)(w := (hsh_wrk st w)\<lparr>w_nobjcore := None\<rparr>)\<rparr>;
     c \<leftarrow> hsh_ocs st oc;
     chk (\<not> oc_busy c);
     let st = upd_objcs S oh (\<lambda>ocs. ocs @ [oc]) (upd_oc oc (\<lambda>c. c\<lparr>oc_refcnt := 1, oc_objhead := Some oh\<rparr>) st);
     Some (oc, st\<lparr>st_vampire := st_vampire st + 1\<rparr>) }"

section \<open>Lookup\<close>

text \<open>
  The loop over the object cores of an object head: the object core to use, if the loop ends early, the
  last busy one and the last one in grace.
\<close>

fun lookup_scan :: "('re, 'v) vre_scheme \<Rightarrow> params \<Rightarrow> 's slinger \<Rightarrow> (addr \<Rightarrow> object \<times> ban_obj) \<Rightarrow> sess \<Rightarrow> addr \<Rightarrow>
    addr list \<Rightarrow> addr option \<Rightarrow> addr option \<Rightarrow> ('s, 're, 'm) hsh_scheme \<Rightarrow>
    (addr option \<times> addr option \<times> addr option \<times> ('s, 're, 'm) hsh_scheme) option" where
  "lookup_scan vre P S silo sp oh [] busy grace st = Some (None, busy, grace, st)"
| "lookup_scan vre P S silo sp oh (oc # ocs) busy grace st = do {
     h \<leftarrow> sl_oh S (hsh_tbl st) oh;
     chk (oh_refcnt h > 1);
     c \<leftarrow> hsh_ocs st oc;
     chk (oc_objhead c = Some oh);
     st \<leftarrow> (if oc_persistent c then SMP_Fixup silo oc st else Some st);
     if oc_busy c then lookup_scan vre P S silo sp oh ocs (Some oc) grace st
     else do {
       ob \<leftarrow> hsh_objs st oc;
       bo \<leftarrow> ban_objs (hsh_bans st) oc;
       if \<not> o_cacheable bo then lookup_scan vre P S silo sp oh ocs busy grace st
       else if o_ttl bo = 0 then lookup_scan vre P S silo sp oh ocs busy grace st
       else do {
         (banned, bans) \<leftarrow> BAN_CheckObject vre oc (sp_http sp) (hsh_bans st);
         let st = st\<lparr>hsh_bans := bans\<rparr>;
         if banned then lookup_scan vre P S silo sp oh ocs busy grace st
         else do {
           m \<leftarrow> (case o_vary ob of None \<Rightarrow> Some True | Some v \<Rightarrow> VRY_Match (sp_http sp) v);
           if \<not> m then lookup_scan vre P S silo sp oh ocs busy grace st
           else do {
             bo \<leftarrow> ban_objs (hsh_bans st) oc;
             if o_ttl bo \<ge> sp_t_req sp then Some (Some oc, busy, grace, st)
             else if o_ttl bo + HSH_Grace P (o_grace ob) \<ge> sp_t_req sp
             then lookup_scan vre P S silo sp oh ocs busy (Some oc) st
             else lookup_scan vre P S silo sp oh ocs busy grace st } } } } }"

text \<open>An object in grace, when there is nothing better and somebody fetches already or nobody can.\<close>

definition lookup_grace :: "params \<Rightarrow> sess \<Rightarrow> bool \<Rightarrow> addr option \<Rightarrow> addr option \<Rightarrow> addr option \<Rightarrow> ('s, 're, 'm) hsh_scheme \<Rightarrow>
    addr option option" where
  "lookup_grace P sp healthy oc busy grace st = (case grace of
     Some g \<Rightarrow> (if oc = None \<and> (busy \<noteq> None \<or> \<not> healthy) then do {
         bo \<leftarrow> ban_objs (hsh_bans st) g;
         Some (if o_ttl bo + HSH_Grace P (sp_grace sp) \<ge> sp_t_req sp then Some g else None) }
       else Some oc)
   | None \<Rightarrow> Some oc)"

text \<open>The three ways to end: an object, the waiting list, a new busy object core.\<close>

definition INT_MAX :: int where "INT_MAX = 2147483647"

definition lookup_hit_oc :: "'s slinger \<Rightarrow> addr \<Rightarrow> addr \<Rightarrow> ('s, 're, 'm) hsh_scheme \<Rightarrow> ('s, 're, 'm) hsh_scheme option" where
  "lookup_hit_oc S oh oc st = do {
     c \<leftarrow> hsh_ocs st oc;
     ob \<leftarrow> hsh_objs st oc;
     chk (oc_objhead c = Some oh);
     let st = upd_oc oc (\<lambda>c. c\<lparr>oc_refcnt := oc_refcnt c + 1\<rparr>) st;
     let st = (if o_hits ob < INT_MAX then st\<lparr>hsh_objs := (hsh_objs st)(oc \<mapsto> ob\<lparr>o_hits := o_hits ob + 1\<rparr>)\<rparr> else st);
     h \<leftarrow> sl_oh S (hsh_tbl st) oh;
     chk (oh_refcnt h > 1);
     (r, t) \<leftarrow> sl_deref S (hsh_tbl st) oh;
     chk r;
     Some (st\<lparr>hsh_tbl := t\<rparr>) }"

definition lookup_wait :: "'s slinger \<Rightarrow> addr \<Rightarrow> addr \<Rightarrow> sess \<Rightarrow> ('s, 're, 'm) hsh_scheme \<Rightarrow> ('s, 're, 'm) hsh_scheme" where
  "lookup_wait S oh spa sp st = (
     let st = (if sp_esis sp = 0 then upd_waiting S oh (\<lambda>sps. sps @ [spa]) st else st)
     in upd_sess spa (\<lambda>sp. sp\<lparr>sp_objhead := Some oh, sp_wrk := None\<rparr>) st)"

definition lookup_new :: "'s slinger \<Rightarrow> nat \<Rightarrow> addr \<Rightarrow> ('s, 're, 'm) hsh_scheme \<Rightarrow> (addr \<times> ('s, 're, 'm) hsh_scheme) option" where
  "lookup_new S w oh st = do {
     oc \<leftarrow> w_nobjcore (hsh_wrk st w);
     let st = st\<lparr>hsh_wrk := (hsh_wrk st)(w := (hsh_wrk st w)\<lparr>w_nobjcore := None\<rparr>)\<rparr>;
     c \<leftarrow> hsh_ocs st oc;
     chk (oc_busy c);
     Some (oc, upd_objcs S oh (\<lambda>ocs. ocs @ [oc]) (upd_oc oc (\<lambda>c. c\<lparr>oc_refcnt := 1, oc_objhead := Some oh\<rparr>) st)) }"

text \<open>The object head: the one a session brings from the waiting list, or the one of the digest.\<close>

definition lookup_head :: "params \<Rightarrow> 's slinger \<Rightarrow> nat \<Rightarrow> addr \<Rightarrow> sess \<Rightarrow> ('s, 're, 'm) hsh_scheme \<Rightarrow> (addr \<times> ('s, 're, 'm) hsh_scheme) option" where
  "lookup_head P S w spa sp st = do {
     noh \<leftarrow> w_nobjhead (hsh_wrk st w);
     let st = st\<lparr>hsh_tbl := sl_upd S (hsh_tbl st) noh (\<lambda>h. h\<lparr>oh_digest := sp_digest sp\<rparr>)\<rparr>;
     st \<leftarrow> test_digest P S noh st;
     (case sp_objhead sp of
        Some oh \<Rightarrow> Some (oh, upd_sess spa (\<lambda>sp. sp\<lparr>sp_objhead := None\<rparr>) st)
      | None \<Rightarrow> do {
          (oh, t) \<leftarrow> sl_lookup S (hsh_tbl st) noh;
          let st = st\<lparr>hsh_tbl := t\<rparr>;
          Some (oh, if oh = noh then st\<lparr>hsh_wrk := (hsh_wrk st)(w := (hsh_wrk st w)\<lparr>w_nobjhead := None\<rparr>)\<rparr> else st) }) }"

text \<open>From the object head on, with the list of its object cores.\<close>

definition lookup_cores :: "('re, 'v) vre_scheme \<Rightarrow> params \<Rightarrow> 's slinger \<Rightarrow> (addr \<Rightarrow> object \<times> ban_obj) \<Rightarrow> bool \<Rightarrow> nat \<Rightarrow>
    addr \<Rightarrow> sess \<Rightarrow> addr \<Rightarrow> addr list \<Rightarrow> ('s, 're, 'm) hsh_scheme \<Rightarrow> ((addr \<times> addr) option \<times> ('s, 're, 'm) hsh_scheme) option" where
  "lookup_cores vre P S silo healthy w spa sp oh ocs st = do {
     (oc, busy, grace, st) \<leftarrow> lookup_scan vre P S silo sp oh ocs None None st;
     oc \<leftarrow> lookup_grace P sp healthy oc busy grace st;
     (case oc of
        Some oc \<Rightarrow> do { st \<leftarrow> lookup_hit_oc S oh oc st; Some (Some (oc, oh), st) }
      | None \<Rightarrow>
          if busy \<noteq> None then Some (None, lookup_wait S oh spa sp st)
          else do { (oc, st) \<leftarrow> lookup_new S w oh st; Some (Some (oc, oh), st) }) }"

definition HSH_Lookup :: "('re, 'v) vre_scheme \<Rightarrow> params \<Rightarrow> 's slinger \<Rightarrow> (addr \<Rightarrow> object \<times> ban_obj) \<Rightarrow> (addr \<Rightarrow> bool) \<Rightarrow>
    addr \<Rightarrow> addr \<Rightarrow> addr \<Rightarrow> ('s, 're, 'm) hsh_scheme \<Rightarrow> ((addr \<times> addr) option \<times> ('s, 're, 'm) hsh_scheme) option" where
  "HSH_Lookup vre P S silo healthy spa a b st = do {
     sp \<leftarrow> hsh_sess st spa;
     w \<leftarrow> sp_wrk sp;
     (oh, st) \<leftarrow> lookup_head P S w spa sp (HSH_Prealloc S w a b st);
     h \<leftarrow> sl_oh S (hsh_tbl st) oh;
     chk (oh_refcnt h > 0);
     lookup_cores vre P S silo (healthy oh) w spa sp oh (oh_objcs h) st }"

section \<open>Waking waiting sessions\<close>

text \<open>\<open>queue sp\<close>: \<open>WRK_QueueSession\<close> finds room for the session; otherwise it deletes the session.\<close>

fun hsh_rush :: "'s slinger \<Rightarrow> (addr \<Rightarrow> bool) \<Rightarrow> nat \<Rightarrow> addr \<Rightarrow> ('s, 're, 'm) hsh_scheme \<Rightarrow> ('s, 're, 'm) hsh_scheme option" where
  "hsh_rush S queue 0 oh st = Some st"
| "hsh_rush S queue (Suc n) oh st = do {
     h \<leftarrow> sl_oh S (hsh_tbl st) oh;
     (case oh_waitinglist h of
        [] \<Rightarrow> Some st
      | spa # _ \<Rightarrow> do {
          sp \<leftarrow> hsh_sess st spa;
          chk (sp_wrk sp = None);
          let st = upd_waiting S oh (remove1 spa) st;
          if queue spa then hsh_rush S queue n oh st
          else Some (st\<lparr>hsh_sess := (hsh_sess st)(spa := None), client_drop_late := client_drop_late st + 1\<rparr>) }) }"

section \<open>References\<close>

definition HSH_Ref :: "'s slinger \<Rightarrow> addr \<Rightarrow> ('s, 're, 'm) hsh_scheme \<Rightarrow> ('s, 're, 'm) hsh_scheme option" where
  "HSH_Ref S oc st = do {
     c \<leftarrow> hsh_ocs st oc;
     oh \<leftarrow> oc_objhead c;
     _ \<leftarrow> sl_oh S (hsh_tbl st) oh;
     chk (oc_refcnt c > 0);
     Some (upd_oc oc (\<lambda>c. c\<lparr>oc_refcnt := oc_refcnt c + 1\<rparr>) st) }"

definition drop_head :: "'s slinger \<Rightarrow> addr \<Rightarrow> ('s, 're, 'm) hsh_scheme \<Rightarrow> ('s, 're, 'm) hsh_scheme option" where
  "drop_head S oh st = do {
     h \<leftarrow> sl_oh S (hsh_tbl st) oh;
     chk (oh_refcnt h > 0);
     (r, t) \<leftarrow> sl_deref S (hsh_tbl st) oh;
     let st = st\<lparr>hsh_tbl := t\<rparr>;
     if r then Some st else HSH_DeleteObjHead S oh st }"

text \<open>The memory of an object: to the silo, or its storage and then the object itself.\<close>

definition free_object :: "addr \<Rightarrow> bool \<Rightarrow> object \<Rightarrow> ('s, 're, 'm) hsh_scheme \<Rightarrow> ('s, 're, 'm) hsh_scheme" where
  "free_object oc smp ob st = (
     let st = (if o_esidata ob then st\<lparr>hsh_calls := hsh_calls st @ [Call_ESI_Destroy oc]\<rparr> else st);
         st = (if smp then st\<lparr>hsh_calls := hsh_calls st @ [Call_SMP_FreeObj oc]\<rparr>
               else let st = HSH_Freestore ob st in
                 st\<lparr>hsh_calls := hsh_calls st @ [case o_objstore ob of Some s \<Rightarrow> Call_STV_free s | None \<Rightarrow> Call_free oc]\<rparr>)
     in st\<lparr>st_object := st_object st - 1\<rparr>)"

definition HSH_Deref :: "params \<Rightarrow> 's slinger \<Rightarrow> (addr \<Rightarrow> bool) \<Rightarrow> addr \<Rightarrow> ('s, 're, 'm) hsh_scheme \<Rightarrow> ('s, 're, 'm) hsh_scheme option" where
  "HSH_Deref P S queue oc st = do {
     c \<leftarrow> hsh_ocs st oc;
     oh \<leftarrow> oc_objhead c;
     h \<leftarrow> sl_oh S (hsh_tbl st) oh;
     chk (oh_refcnt h > 0);
     chk (oc_refcnt c > 0);
     let r = oc_refcnt c - 1;
     let st = upd_oc oc (\<lambda>c. c\<lparr>oc_refcnt := r\<rparr>) st;
     let st = (if r = 0 then upd_objcs S oh (remove1 oc) st else st);
     st \<leftarrow> hsh_rush S queue (rush_exponent P) oh st;
     if r \<noteq> 0 then Some st
     else do {
       ob \<leftarrow> hsh_objs st oc;
       bans \<leftarrow> BAN_DestroyObj oc (hsh_bans st);
       bo \<leftarrow> ban_objs bans oc;
       chk (o_ban bo = None);
       let st = free_object oc (oc_smp_seg c) ob st;
       let st = st\<lparr>hsh_bans := bans\<lparr>ban_objs := (ban_objs bans)(oc := None)\<rparr>, hsh_objs := (hsh_objs st)(oc := None),
                   hsh_ocs := (hsh_ocs st)(oc := None), st_objectcore := st_objectcore st - 1\<rparr>;
       drop_head S oh st } }"

text \<open>An object without an object core (pass, errors) has only its own memory.\<close>

definition HSH_Deref_anon :: "addr \<Rightarrow> object \<Rightarrow> ('s, 're, 'm) hsh_scheme \<Rightarrow> ('s, 're, 'm) hsh_scheme" where
  "HSH_Deref_anon o1 ob st = free_object o1 False ob st"

definition HSH_Unbusy :: "params \<Rightarrow> 's slinger \<Rightarrow> (addr \<Rightarrow> bool) \<Rightarrow> addr \<Rightarrow> ('s, 're, 'm) hsh_scheme \<Rightarrow> ('s, 're, 'm) hsh_scheme option" where
  "HSH_Unbusy P S queue oc st = do {
     ob \<leftarrow> hsh_objs st oc;
     bo \<leftarrow> ban_objs (hsh_bans st) oc;
     c \<leftarrow> hsh_ocs st oc;
     oh \<leftarrow> oc_objhead c;
     h \<leftarrow> sl_oh S (hsh_tbl st) oh;
     chk (oc_busy c);
     chk (o_ban bo \<noteq> None);
     chk (oc_refcnt c > 0);
     chk (oh_refcnt h > 0);
     hsh_rush S queue (rush_exponent P) oh (upd_oc oc (\<lambda>c. c\<lparr>oc_busy := False\<rparr>) st) }"

definition HSH_Drop :: "params \<Rightarrow> 's slinger \<Rightarrow> (addr \<Rightarrow> bool) \<Rightarrow> addr \<Rightarrow> ('s, 're, 'm) hsh_scheme \<Rightarrow> ('s, 're, 'm) hsh_scheme option" where
  "HSH_Drop P S queue oc st = do {
     c \<leftarrow> hsh_ocs st oc;
     chk (oc_refcnt c > 0);
     chk (oc_busy c);
     bo \<leftarrow> ban_objs (hsh_bans st) oc;
     let st = st\<lparr>hsh_bans := (hsh_bans st)\<lparr>ban_objs := (ban_objs (hsh_bans st))(oc \<mapsto> bo\<lparr>o_ttl := 0, o_cacheable := False\<rparr>)\<rparr>\<rparr>;
     st \<leftarrow> HSH_Unbusy P S queue oc st;
     HSH_Deref P S queue oc st }"

definition HSH_DerefObjCore :: "params \<Rightarrow> 's slinger \<Rightarrow> (addr \<Rightarrow> bool) \<Rightarrow> addr \<Rightarrow> addr \<Rightarrow> ('s, 're, 'm) hsh_scheme \<Rightarrow> ('s, 're, 'm) hsh_scheme option" where
  "HSH_DerefObjCore P S queue oh oc st = do {
     c \<leftarrow> hsh_ocs st oc;
     chk (oc_objhead c = Some oh);
     _ \<leftarrow> sl_oh S (hsh_tbl st) oh;
     let st = upd_objcs S oh (remove1 oc) st;
     st \<leftarrow> (if oc_busy c then hsh_rush S queue (rush_exponent P) oh st else Some st);
     drop_head S oh (st\<lparr>hsh_ocs := (hsh_ocs st)(oc := None), st_objectcore := st_objectcore st - 1\<rparr>) }"

definition HSH_FindBan :: "'s slinger \<Rightarrow> (addr \<Rightarrow> object \<times> ban_obj) \<Rightarrow> addr \<Rightarrow> ('s, 're, 'm) hsh_scheme \<Rightarrow>
    (addr option \<times> ('s, 're, 'm) hsh_scheme) option" where
  "HSH_FindBan S silo oc st = do {
     c \<leftarrow> hsh_ocs st oc;
     oh \<leftarrow> oc_objhead c;
     h \<leftarrow> sl_oh S (hsh_tbl st) oh;
     if oc \<in> set (oh_objcs h) then do {
       st \<leftarrow> (if oc_persistent c then SMP_Fixup silo oc st else Some st);
       Some (Some oc, upd_oc oc (\<lambda>c. c\<lparr>oc_refcnt := oc_refcnt c + 1\<rparr>) st) }
     else Some (None, st) }"

text \<open>What \<open>cnt_fetch\<close> of \<open>cache_center.c\<close> does to the busy object core when it has made the object.\<close>

definition link_object :: "addr \<Rightarrow> object \<Rightarrow> ban_obj \<Rightarrow> ('s, 're, 'm) hsh_scheme \<Rightarrow> ('s, 're, 'm) hsh_scheme option" where
  "link_object oc ob bo st = do {
     let bans = (hsh_bans st)\<lparr>ban_objs := (ban_objs (hsh_bans st))(oc \<mapsto> bo)\<rparr>;
     bans \<leftarrow> BAN_NewObj oc bans;
     Some (st\<lparr>hsh_objs := (hsh_objs st)(oc \<mapsto> ob), hsh_bans := bans, st_object := st_object st + 1\<rparr>) }"

end
