(* ===== verification/Hash_Inv.thy ===== *)
theory Hash_Inv
  imports Hash_Core
begin

text \<open>
  The invariant of \<open>cache_hash.c\<close> and that the operations keep it, for every hash implementation that
  meets the contract \<open>hash_table\<close>.

  \<open>x\<close> names the object head on which the running operation holds a reference of its own, if any.  The
  heart of the invariant is \<open>head_ok\<close>: the reference count of an object head is the number of its object
  cores and of the sessions that hold it, plus the operation's own; it can only be larger after a session
  that could not be queued was deleted, together with the reference it had.
\<close>

section \<open>The invariant\<close>

definition heads :: "('s \<Rightarrow> digest \<Rightarrow> addr option) \<Rightarrow> 's \<Rightarrow> addr set" where
  "heads index t = {oh. \<exists>d. index t d = Some oh}"

definition head_of :: "('s, 're, 'm) hsh_scheme \<Rightarrow> addr \<Rightarrow> addr option" where
  "head_of st oc = Option.bind (hsh_ocs st oc) oc_objhead"

definition waits_at :: "('s, 're, 'm) hsh_scheme \<Rightarrow> addr \<Rightarrow> addr option" where
  "waits_at st spa = Option.bind (hsh_sess st spa) sp_objhead"

definition holders :: "addr option \<Rightarrow> ('s, 're, 'm) hsh_scheme \<Rightarrow> addr \<Rightarrow> objhead \<Rightarrow> int" where
  "holders x st oh h = int (length (oh_objcs h) + card {spa. waits_at st spa = Some oh} + (if x = Some oh then 1 else 0))"

definition head_at :: "addr option \<Rightarrow> ('s, 're, 'm) hsh_scheme \<Rightarrow> addr \<Rightarrow> objhead \<Rightarrow> bool" where
  "head_at x st oh h \<longleftrightarrow> distinct (oh_objcs h) \<and> set (oh_objcs h) = {oc. head_of st oc = Some oh} \<and>
     distinct (oh_waitinglist h) \<and>
     (\<forall>spa \<in> set (oh_waitinglist h). \<exists>sp. hsh_sess st spa = Some sp \<and> sp_objhead sp = Some oh \<and> sp_wrk sp = None) \<and>
     holders x st oh h \<le> oh_refcnt h \<and> (client_drop_late st = 0 \<longrightarrow> oh_refcnt h = holders x st oh h)"

definition head_ok :: "'s slinger \<Rightarrow> addr option \<Rightarrow> ('s, 're, 'm) hsh_scheme \<Rightarrow> addr \<Rightarrow> bool" where
  "head_ok S x st oh \<longleftrightarrow> (\<exists>h. sl_oh S (hsh_tbl st) oh = Some h \<and> head_at x st oh h)"

definition heads_ok :: "'s slinger \<Rightarrow> ('s \<Rightarrow> bool) \<Rightarrow> ('s \<Rightarrow> digest \<Rightarrow> addr option) \<Rightarrow> addr option \<Rightarrow> ('s, 're, 'm) hsh_scheme \<Rightarrow> bool" where
  "heads_ok S tok index x st \<longleftrightarrow> tok (hsh_tbl st) \<and>
     (\<forall>oh \<in> heads index (hsh_tbl st). head_ok S x st oh) \<and>
     (\<forall>oc oh. head_of st oc = Some oh \<longrightarrow> oh \<in> heads index (hsh_tbl st)) \<and>
     (\<forall>spa oh. waits_at st spa = Some oh \<longrightarrow> oh \<in> heads index (hsh_tbl st)) \<and>
     (\<forall>oh. x = Some oh \<longrightarrow> oh \<in> heads index (hsh_tbl st)) \<and>
     finite {spa. waits_at st spa \<noteq> None}"

definition spare_oh :: "'s slinger \<Rightarrow> ('s \<Rightarrow> digest \<Rightarrow> addr option) \<Rightarrow> 's \<Rightarrow> addr \<Rightarrow> bool" where
  "spare_oh S index t a \<longleftrightarrow> a \<notin> heads index t \<and>
     (\<exists>h. sl_oh S t a = Some h \<and> oh_refcnt h = 1 \<and> length (oh_digest h) = DIGEST_LEN \<and> oh_lists h = ([], []))"

definition wrk_ok :: "'s slinger \<Rightarrow> ('s \<Rightarrow> digest \<Rightarrow> addr option) \<Rightarrow> ('s, 're, 'm) hsh_scheme \<Rightarrow> bool" where
  "wrk_ok S index st \<longleftrightarrow>
     (\<forall>w a. w_nobjhead (hsh_wrk st w) = Some a \<longrightarrow> spare_oh S index (hsh_tbl st) a) \<and>
     (\<forall>w w' a. w_nobjhead (hsh_wrk st w) = Some a \<longrightarrow> w_nobjhead (hsh_wrk st w') = Some a \<longrightarrow> w = w') \<and>
     (\<forall>w a. w_nobjcore (hsh_wrk st w) = Some a \<longrightarrow> hsh_ocs st a = Some new_oc) \<and>
     (\<forall>w w' a. w_nobjcore (hsh_wrk st w) = Some a \<longrightarrow> w_nobjcore (hsh_wrk st w') = Some a \<longrightarrow> w = w')"

text \<open>
  An object core on an object head is referenced; before it has its object it is busy and only its fetch
  refers to it; and the object of a busy object core refers to a ban.
\<close>

definition core_ok :: "object option \<Rightarrow> ban_obj option \<Rightarrow> objcore \<Rightarrow> bool" where
  "core_ok ob bo c \<longleftrightarrow> \<not> oc_persistent c \<and> (oc_objhead c \<noteq> None \<longrightarrow> oc_refcnt c > 0) \<and> (oc_objhead c = None \<longrightarrow> oc_busy c) \<and>
     (\<not> oc_busy c \<longrightarrow> ob \<noteq> None) \<and> (oc_objhead c \<noteq> None \<longrightarrow> ob = None \<longrightarrow> oc_refcnt c = 1) \<and>
     (oc_busy c \<longrightarrow> (\<forall>b. bo = Some b \<longrightarrow> o_ban b \<noteq> None))"

definition cores_ok :: "('s, 're, 'm) hsh_scheme \<Rightarrow> bool" where
  "cores_ok st \<longleftrightarrow> (\<forall>oc c. hsh_ocs st oc = Some c \<longrightarrow> core_ok (hsh_objs st oc) (ban_objs (hsh_bans st) oc) c)"

definition objs_ok :: "('s, 're, 'm) hsh_scheme \<Rightarrow> bool" where
  "objs_ok st \<longleftrightarrow> ban_inv (hsh_bans st) \<and>
     (\<forall>oc. hsh_objs st oc = None \<longleftrightarrow> ban_objs (hsh_bans st) oc = None) \<and>
     (\<forall>oc. hsh_objs st oc \<noteq> None \<longrightarrow> head_of st oc \<noteq> None) \<and>
     (\<forall>oc bo. ban_objs (hsh_bans st) oc = Some bo \<longrightarrow> o_cacheable bo \<longrightarrow> o_ban bo \<noteq> None) \<and>
     (\<forall>oc ob v req. hsh_objs st oc = Some ob \<longrightarrow> o_vary ob = Some v \<longrightarrow> VRY_Match req v \<noteq> None)"

definition misc_ok :: "('s, 're, 'm) hsh_scheme \<Rightarrow> bool" where
  "misc_ok st \<longleftrightarrow> length (hsh_was st) \<le> HSH_NMAGIC \<and>
     (\<forall>spa sp. hsh_sess st spa = Some sp \<longrightarrow> length (sp_digest sp) = DIGEST_LEN)"

definition hsh_inv :: "'s slinger \<Rightarrow> ('s \<Rightarrow> bool) \<Rightarrow> ('s \<Rightarrow> digest \<Rightarrow> addr option) \<Rightarrow> addr option \<Rightarrow> ('s, 're, 'm) hsh_scheme \<Rightarrow> bool" where
  "hsh_inv S tok index x st \<longleftrightarrow> heads_ok S tok index x st \<and> wrk_ok S index st \<and> cores_ok st \<and> objs_ok st \<and> misc_ok st"

lemmas hsh_upds = upd_oc_def upd_objcs_def upd_waiting_def upd_sess_def

lemma heads_okD:
  assumes "heads_ok S tok index x st" "oh \<in> heads index (hsh_tbl st)"
  obtains h where "sl_oh S (hsh_tbl st) oh = Some h" "head_at x st oh h"
  using assms by (auto simp: heads_ok_def head_ok_def)

text \<open>A change that concerns one object head: only that one has to be looked at.\<close>

lemma heads_ok_change:
  assumes old: "heads_ok S tok index x st"
    and tok: "tok (hsh_tbl st')"
    and ix: "\<And>o1. o1 \<noteq> oh \<Longrightarrow> o1 \<in> heads index (hsh_tbl st') \<longleftrightarrow> o1 \<in> heads index (hsh_tbl st)"
    and mem: "\<And>o1. o1 \<noteq> oh \<Longrightarrow> o1 \<in> heads index (hsh_tbl st) \<Longrightarrow> sl_oh S (hsh_tbl st') o1 = sl_oh S (hsh_tbl st) o1"
    and ocs: "\<And>oc o1. o1 \<noteq> oh \<Longrightarrow> head_of st' oc = Some o1 \<longleftrightarrow> head_of st oc = Some o1"
    and ses: "\<And>spa o1. o1 \<noteq> oh \<Longrightarrow> waits_at st spa = Some o1 \<Longrightarrow> hsh_sess st' spa = hsh_sess st spa"
    and ses': "\<And>spa o1. o1 \<noteq> oh \<Longrightarrow> waits_at st' spa = Some o1 \<Longrightarrow> waits_at st spa = Some o1"
    and x': "\<And>o1. o1 \<noteq> oh \<Longrightarrow> x' = Some o1 \<longleftrightarrow> x = Some o1"
    and k: "client_drop_late st' = 0 \<Longrightarrow> client_drop_late st = 0"
    and here: "if oh \<in> heads index (hsh_tbl st') then head_ok S x' st' oh
      else (\<forall>oc. head_of st' oc \<noteq> Some oh) \<and> (\<forall>spa. waits_at st' spa \<noteq> Some oh) \<and> x' \<noteq> Some oh"
    and fin: "finite {spa. waits_at st' spa \<noteq> None}"
  shows "heads_ok S tok index x' st'"
proof -
  have w: "waits_at st' spa = Some o1 \<longleftrightarrow> waits_at st spa = Some o1" if "o1 \<noteq> oh" for spa o1
    using ses [OF that, of spa] ses' [OF that, of spa] by (auto simp: waits_at_def)
  have "head_ok S x' st' o1" if o1: "o1 \<noteq> oh" "o1 \<in> heads index (hsh_tbl st')" for o1
  proof -
    have i: "o1 \<in> heads index (hsh_tbl st)" using o1 ix by simp
    obtain h where h: "sl_oh S (hsh_tbl st) o1 = Some h" "head_at x st o1 h" by (rule heads_okD [OF old i])
    have "holders x' st' o1 h = holders x st o1 h"
      using w [OF o1(1)] x' [OF o1(1)] by (simp add: holders_def)
    moreover have "\<exists>sp. hsh_sess st' spa = Some sp \<and> sp_objhead sp = Some o1 \<and> sp_wrk sp = None"
      if "spa \<in> set (oh_waitinglist h)" for spa
      using h(2) that ses [OF o1(1), of spa] by (auto simp: waits_at_def head_at_def)
    ultimately have "head_at x' st' o1 h"
      using h(2) ocs [OF o1(1)] k by (simp add: head_at_def)
    then show ?thesis using h(1) mem [OF o1(1) i] by (simp add: head_ok_def)
  qed
  moreover have "oh \<in> heads index (hsh_tbl st') \<Longrightarrow> head_ok S x' st' oh" using here by simp
  ultimately have "\<forall>o1 \<in> heads index (hsh_tbl st'). head_ok S x' st' o1" by metis
  moreover have "o1 \<in> heads index (hsh_tbl st')" if "head_of st' oc = Some o1" for oc o1
    using that here ocs [of o1 oc] ix [of o1] old by (cases "o1 = oh") (auto simp: heads_ok_def split: if_splits)
  moreover have "o1 \<in> heads index (hsh_tbl st')" if "waits_at st' spa = Some o1" for spa o1
    using that here w [of o1 spa] ix [of o1] old by (cases "o1 = oh") (auto simp: heads_ok_def split: if_splits)
  moreover have "o1 \<in> heads index (hsh_tbl st')" if "x' = Some o1" for o1
    using that here x' [of o1] ix [of o1] old by (cases "o1 = oh") (auto simp: heads_ok_def split: if_splits)
  ultimately show ?thesis using tok fin unfolding heads_ok_def by blast
qed

text \<open>Changes that leave the memory, the index and the sessions' holdings as they are.\<close>

lemma heads_ok_same:
  assumes "heads_ok S tok index x st" "tok (hsh_tbl st')" "heads index (hsh_tbl st') = heads index (hsh_tbl st)"
    "\<And>oh. oh \<in> heads index (hsh_tbl st) \<Longrightarrow> sl_oh S (hsh_tbl st') oh = sl_oh S (hsh_tbl st) oh"
    "hsh_sess st' = hsh_sess st" "client_drop_late st' = client_drop_late st" "head_of st' = head_of st"
  shows "heads_ok S tok index x st'"
proof -
  have "waits_at st' = waits_at st" using assms(5) by (simp add: waits_at_def fun_eq_iff)
  then show ?thesis using assms by (simp add: heads_ok_def head_ok_def head_at_def holders_def)
qed

lemma objs_ok_same:
  assumes "objs_ok st" "hsh_objs st' = hsh_objs st" "hsh_bans st' = hsh_bans st" "head_of st' = head_of st"
  shows "objs_ok st'"
  using assms(1) unfolding objs_ok_def assms(2-4) .

lemma objs_okD: "objs_ok st \<Longrightarrow> hsh_objs st oc = None \<longleftrightarrow> ban_objs (hsh_bans st) oc = None"
  unfolding objs_ok_def by blast

lemma objs_ok_vary: "objs_ok st \<Longrightarrow> hsh_objs st oc = Some ob \<Longrightarrow> o_vary ob = Some v \<Longrightarrow> \<exists>m. VRY_Match req v = Some m"
  unfolding objs_ok_def by (metis option.exhaust)

lemma objs_ok_bans:
  assumes ok: "objs_ok st" and B: "ban_inv B" "ban_objs B = (ban_objs (hsh_bans st))(oc \<mapsto> bo)"
    and oc: "hsh_objs st oc \<noteq> None" "o_cacheable bo \<Longrightarrow> o_ban bo \<noteq> None"
  shows "objs_ok (st\<lparr>hsh_bans := B\<rparr>)"
proof -
  have h: "head_of (st\<lparr>hsh_bans := B\<rparr>) = head_of st" "hsh_bans (st\<lparr>hsh_bans := B\<rparr>) = B" "hsh_objs (st\<lparr>hsh_bans := B\<rparr>) = hsh_objs st"
    by (simp_all add: head_of_def fun_eq_iff)
  have "hsh_objs st a = None \<longleftrightarrow> ban_objs B a = None" for a
    unfolding B(2) using objs_okD [OF ok, of a] oc(1) by (cases "a = oc") simp_all
  moreover have "ban_objs B a = Some b \<Longrightarrow> o_cacheable b \<Longrightarrow> o_ban b \<noteq> None" for a b
    unfolding B(2) using ok oc(2) by (cases "a = oc") (auto simp: objs_ok_def)
  ultimately show ?thesis using ok B(1) unfolding objs_ok_def h by blast
qed

text \<open>What waking sessions of one object head leaves alone.\<close>

definition rushed :: "'s slinger \<Rightarrow> ('s \<Rightarrow> digest \<Rightarrow> addr option) \<Rightarrow> addr \<Rightarrow> ('s, 're, 'm) hsh_scheme \<Rightarrow> ('s, 're, 'm) hsh_scheme \<Rightarrow> bool" where
  "rushed S index oh st st' \<longleftrightarrow> (\<exists>t ss k. st' = st\<lparr>hsh_tbl := t, hsh_sess := ss, client_drop_late := k\<rparr>) \<and>
     index (hsh_tbl st') = index (hsh_tbl st) \<and>
     (\<forall>a. a \<noteq> oh \<longrightarrow> sl_oh S (hsh_tbl st') a = sl_oh S (hsh_tbl st) a) \<and>
     (\<forall>spa sp. hsh_sess st' spa = Some sp \<longrightarrow> hsh_sess st spa = Some sp)"

lemma rushed_refl [simp]: "rushed S index oh st st"
  by (auto simp: rushed_def intro!: exI [of _ "hsh_tbl st"] exI [of _ "hsh_sess st"] exI [of _ "client_drop_late st"])

lemma rushed_trans: "rushed S index oh a b \<Longrightarrow> rushed S index oh b c \<Longrightarrow> rushed S index oh a c"
  by (fastforce simp: rushed_def)

lemma heads_cong: "index t' = index t \<Longrightarrow> heads index t' = heads index t"
  by (simp add: heads_def)

lemma rushed_fields:
  assumes "rushed S index oh st st'"
  shows "hsh_ocs st' = hsh_ocs st" "hsh_objs st' = hsh_objs st" "hsh_bans st' = hsh_bans st" "hsh_wrk st' = hsh_wrk st"
    "hsh_was st' = hsh_was st" "head_of st' = head_of st" "heads index (hsh_tbl st') = heads index (hsh_tbl st)"
  using assms by (auto simp: rushed_def head_of_def heads_def fun_eq_iff)

lemma rushed_rest:
  assumes r: "rushed S index oh st st'" and oh: "oh \<in> heads index (hsh_tbl st)"
  shows "wrk_ok S index st \<Longrightarrow> wrk_ok S index st'" "cores_ok st \<Longrightarrow> cores_ok st'" "objs_ok st \<Longrightarrow> objs_ok st'"
    "misc_ok st \<Longrightarrow> misc_ok st'"
proof -
  note f = rushed_fields [OF r]
  have "spare_oh S index (hsh_tbl st') a" if "spare_oh S index (hsh_tbl st) a" for a
    using that r oh f(7) by (auto simp: spare_oh_def rushed_def)
  then show "wrk_ok S index st \<Longrightarrow> wrk_ok S index st'" unfolding wrk_ok_def f by blast
  show "cores_ok st \<Longrightarrow> cores_ok st'" by (simp add: cores_ok_def f)
  show "objs_ok st \<Longrightarrow> objs_ok st'" unfolding objs_ok_def f .
  show "misc_ok st \<Longrightarrow> misc_ok st'" using r unfolding misc_ok_def f rushed_def by metis
qed

section \<open>The loop of a lookup\<close>

text \<open>
  An object core can be used for a request: not busy, cacheable, of a non-zero time to live, not banned, and
  stored for the request's values of the headers in \<open>Vary\<close>.  It is live or in grace at the time of the request.
\<close>

definition usable :: "('re, 'v) vre_scheme \<Rightarrow> sess \<Rightarrow> ('s, 're, 'm) hsh_scheme \<Rightarrow> addr \<Rightarrow> bool" where
  "usable vre sp st oc \<longleftrightarrow> (case (hsh_ocs st oc, hsh_objs st oc, ban_objs (hsh_bans st) oc) of
     (Some c, Some ob, Some bo) \<Rightarrow> \<not> oc_busy c \<and> o_cacheable bo \<and> o_ttl bo \<noteq> 0 \<and>
       \<not> verdict vre (hsh_bans st) oc (sp_http sp) \<and>
       (case o_vary ob of None \<Rightarrow> True | Some v \<Rightarrow> VRY_Match (sp_http sp) v = Some True)
   | _ \<Rightarrow> False)"

definition obj_ttl :: "('s, 're, 'm) hsh_scheme \<Rightarrow> addr \<Rightarrow> real" where
  "obj_ttl st oc = (case ban_objs (hsh_bans st) oc of None \<Rightarrow> 0 | Some bo \<Rightarrow> o_ttl bo)"

definition obj_grace :: "params \<Rightarrow> ('s, 're, 'm) hsh_scheme \<Rightarrow> addr \<Rightarrow> real" where
  "obj_grace P st oc = HSH_Grace P (case hsh_objs st oc of None \<Rightarrow> None | Some ob \<Rightarrow> o_grace ob)"

definition live :: "('re, 'v) vre_scheme \<Rightarrow> sess \<Rightarrow> ('s, 're, 'm) hsh_scheme \<Rightarrow> addr \<Rightarrow> bool" where
  "live vre sp st oc \<longleftrightarrow> usable vre sp st oc \<and> sp_t_req sp \<le> obj_ttl st oc"

definition in_grace :: "('re, 'v) vre_scheme \<Rightarrow> params \<Rightarrow> sess \<Rightarrow> ('s, 're, 'm) hsh_scheme \<Rightarrow> addr \<Rightarrow> bool" where
  "in_grace vre P sp st oc \<longleftrightarrow> usable vre sp st oc \<and> obj_ttl st oc < sp_t_req sp \<and>
     sp_t_req sp \<le> obj_ttl st oc + obj_grace P st oc"

definition is_busy :: "('s, 're, 'm) hsh_scheme \<Rightarrow> addr \<Rightarrow> bool" where
  "is_busy st oc \<longleftrightarrow> (case hsh_ocs st oc of None \<Rightarrow> False | Some c \<Rightarrow> oc_busy c)"

definition last_such :: "('a \<Rightarrow> bool) \<Rightarrow> 'a list \<Rightarrow> 'a option \<Rightarrow> 'a option" where
  "last_such p xs d = fold (\<lambda>x r. if p x then Some x else r) xs d"

lemma last_such_simps [simp]:
  "last_such p [] d = d" "last_such p (x # xs) d = last_such p xs (if p x then Some x else d)"
  by (simp_all add: last_such_def)

lemma last_such_cong: "(\<And>x. x \<in> set xs \<Longrightarrow> p x = q x) \<Longrightarrow> last_such p xs d = last_such q xs d"
  by (induction xs arbitrary: d) simp_all

lemma last_such_None: "last_such p xs d = None \<longleftrightarrow> d = None \<and> (\<forall>x \<in> set xs. \<not> p x)"
  by (induction xs arbitrary: d) auto

lemma last_such_Some: "last_such p xs None = Some x \<Longrightarrow> x \<in> set xs \<and> p x"
proof -
  have "last_such p xs d = Some x \<Longrightarrow> d = Some x \<or> x \<in> set xs \<and> p x" for d
    by (induction xs arbitrary: d) (fastforce split: if_splits)+
  then show "last_such p xs None = Some x \<Longrightarrow> x \<in> set xs \<and> p x" by blast
qed

text \<open>What checking objects against the bans does to the state.\<close>

definition scanned :: "('re, 'v) vre_scheme \<Rightarrow> sess \<Rightarrow> addr set \<Rightarrow> ('s, 're, 'm) hsh_scheme \<Rightarrow> ('s, 're, 'm) hsh_scheme \<Rightarrow> bool" where
  "scanned vre sp xs st st' \<longleftrightarrow> (\<exists>B. st' = st\<lparr>hsh_bans := B\<rparr>) \<and> objs_ok st' \<and>
     skel (ban_head (hsh_bans st')) = skel (ban_head (hsh_bans st)) \<and>
     (\<forall>oc. oc \<notin> xs \<longrightarrow> ban_objs (hsh_bans st') oc = ban_objs (hsh_bans st) oc) \<and>
     (\<forall>oc. is_busy st oc \<longrightarrow> ban_objs (hsh_bans st') oc = ban_objs (hsh_bans st) oc) \<and>
     (\<forall>oc. usable vre sp st oc \<longrightarrow> obj_ttl st' oc = obj_ttl st oc \<and> ban_objs (hsh_bans st') oc \<noteq> None)"

lemma scanned_cores: "scanned vre sp xs st st' \<Longrightarrow> cores_ok st \<Longrightarrow> cores_ok st'"
  by (fastforce simp: scanned_def cores_ok_def core_ok_def is_busy_def)

lemma usable_scanned:
  assumes "scanned vre sp xs st st'" "oc \<notin> xs"
  shows "usable vre sp st' oc = usable vre sp st oc" "obj_ttl st' oc = obj_ttl st oc" "obj_grace P st' oc = obj_grace P st oc"
    "is_busy st' oc = is_busy st oc" "live vre sp st' oc = live vre sp st oc" "in_grace vre P sp st' oc = in_grace vre P sp st oc"
proof -
  have f: "hsh_ocs st' = hsh_ocs st" "hsh_objs st' = hsh_objs st"
    "ban_objs (hsh_bans st') oc = ban_objs (hsh_bans st) oc" "skel (ban_head (hsh_bans st')) = skel (ban_head (hsh_bans st))"
    using assms by (auto simp: scanned_def)
  have v: "verdict vre (hsh_bans st') oc r = verdict vre (hsh_bans st) oc r" for r
    by (rule verdict_cong) (use f in simp_all)
  show u: "usable vre sp st' oc = usable vre sp st oc" unfolding usable_def f v ..
  show t: "obj_ttl st' oc = obj_ttl st oc" "obj_grace P st' oc = obj_grace P st oc" "is_busy st' oc = is_busy st oc"
    by (simp_all add: obj_ttl_def obj_grace_def is_busy_def f)
  show "live vre sp st' oc = live vre sp st oc" "in_grace vre P sp st' oc = in_grace vre P sp st oc"
    by (simp_all add: live_def in_grace_def u t)
qed

lemma scanned_trans:
  assumes "scanned vre sp {oc} st st'" "scanned vre sp xs st' st''" "oc \<notin> xs"
  shows "scanned vre sp (insert oc xs) st st''"
proof -
  have "obj_ttl st'' a = obj_ttl st a \<and> ban_objs (hsh_bans st'') a \<noteq> None" if "usable vre sp st a" for a
  proof (cases "a = oc")
    case True
    then have "ban_objs (hsh_bans st'') a = ban_objs (hsh_bans st') a" using assms(2,3) by (simp add: scanned_def)
    then show ?thesis using assms(1) that by (simp add: scanned_def obj_ttl_def)
  next
    case False
    then have "usable vre sp st' a" "obj_ttl st' a = obj_ttl st a" using usable_scanned [OF assms(1)] that by auto
    then show ?thesis using assms(2) by (simp add: scanned_def)
  qed
  moreover have "is_busy st' a = is_busy st a" for a using assms(1) by (auto simp: scanned_def is_busy_def)
  ultimately show ?thesis using assms(1,2) by (auto simp: scanned_def)
qed

lemma scanned_refl: "objs_ok st \<Longrightarrow> scanned vre sp xs st st"
  by (auto simp: scanned_def usable_def intro!: exI [of _ "hsh_bans st"] split: option.splits)

lemma check_object_ok:
  assumes "ban_inv B" "ban_objs B oc = Some bo" "o_ban bo \<noteq> None"
  shows "\<exists>B' bo'. BAN_CheckObject vre oc req B = Some (verdict vre B oc req, B') \<and> ban_inv B' \<and>
    skel (ban_head B') = skel (ban_head B) \<and> ban_objs B' = (ban_objs B)(oc \<mapsto> bo') \<and>
    (if verdict vre B oc req then o_ban bo' = None \<and> o_ttl bo' = 0 \<and> \<not> o_cacheable bo'
     else o_ban bo' \<noteq> None \<and> o_ttl bo' = o_ttl bo \<and> o_cacheable bo' = o_cacheable bo)"
proof -
  obtain a where a: "o_ban bo = Some a" using assms(3) by blast
  let ?w = "if verdict vre B oc req then Banned else Not_banned"
  have "ban_walk vre (ban_head B) a (o_http bo) req True = Some ?w"
    using ban_walk_hits [OF ban_inv_attached(1) [OF assms(1,2) a] ban_inv_wf [OF assms(1)]] verdict_attached [OF assms(2) a] by metis
  from ban_check_object_walk [OF assms(1,2) a this] obtain r B' bo' where
    c: "ban_check_object vre oc req True B = Some (r, B')" "ban_inv B'" "r = (?w = Banned)"
      "skel (ban_head B') = skel (ban_head B)" "\<forall>oc'. oc' \<noteq> oc \<longrightarrow> ban_objs B' oc' = ban_objs B oc'"
      "ban_objs B' oc = Some bo'" "o_ban bo' = (case ?w of Banned \<Rightarrow> None | Not_banned \<Rightarrow> ban_start B | Needs_request \<Rightarrow> Some a)"
      "?w = Banned \<longrightarrow> o_ttl bo' = 0 \<and> \<not> o_cacheable bo'" by blast
  have "o_ttl bo' = o_ttl bo \<and> o_cacheable bo' = o_cacheable bo" if "\<not> verdict vre B oc req"
    using c(1,3,6) assms(2) that by (auto simp: ban_check_object_def bind_eq_Some_conv Let_def split: if_splits)
  moreover have "ban_objs B' = (ban_objs B)(oc \<mapsto> bo')" using c(5,6) by auto
  moreover have "ban_start B \<noteq> None" using ban_inv_start [OF assms(1)] by (metis option.distinct(1))
  moreover have "BAN_CheckObject vre oc req B = Some (verdict vre B oc req, B')" using c(1,3) by (simp add: BAN_CheckObject_def)
  ultimately show ?thesis using c(2,4,7,8) by auto
qed

lemma scan_one:
  assumes ok: "objs_ok st" and ob: "hsh_ocs st oc = Some c" "\<not> oc_busy c" "hsh_objs st oc = Some ob"
      "ban_objs (hsh_bans st) oc = Some bo" "o_cacheable bo" "o_ttl bo \<noteq> 0"
  shows "\<exists>B bo'. BAN_CheckObject vre oc (sp_http sp) (hsh_bans st) = Some (verdict vre (hsh_bans st) oc (sp_http sp), B) \<and>
    scanned vre sp {oc} st (st\<lparr>hsh_bans := B\<rparr>) \<and> ban_objs B oc = Some bo' \<and>
    (\<not> verdict vre (hsh_bans st) oc (sp_http sp) \<longrightarrow> o_ttl bo' = o_ttl bo)"
proof -
  let ?v = "verdict vre (hsh_bans st) oc (sp_http sp)"
  have o: "ban_inv (hsh_bans st)" "o_ban bo \<noteq> None" using ok ob(4,5) by (auto simp: objs_ok_def)
  obtain B bo' where B: "BAN_CheckObject vre oc (sp_http sp) (hsh_bans st) = Some (?v, B)" "ban_inv B"
    "skel (ban_head B) = skel (ban_head (hsh_bans st))" "ban_objs B = (ban_objs (hsh_bans st))(oc \<mapsto> bo')"
    "if ?v then o_ban bo' = None \<and> o_ttl bo' = 0 \<and> \<not> o_cacheable bo'
     else o_ban bo' \<noteq> None \<and> o_ttl bo' = o_ttl bo \<and> o_cacheable bo' = o_cacheable bo"
    using check_object_ok [OF o(1) ob(4) o(2)] by blast
  let ?st = "st\<lparr>hsh_bans := B\<rparr>"
  have "objs_ok ?st"
    by (rule objs_ok_bans [OF ok B(2,4)]) (use ob(3) B(5) in \<open>auto split: if_splits\<close>)
  moreover have "obj_ttl ?st a = obj_ttl st a \<and> ban_objs B a \<noteq> None" if "usable vre sp st a" for a
    using that B(4,5) ob(4) by (auto simp: usable_def obj_ttl_def split: option.splits)
  moreover have "\<not> is_busy st oc" using ob(1,2) by (simp add: is_busy_def)
  ultimately have "scanned vre sp {oc} st ?st" using B(3,4) unfolding scanned_def by auto
  then show ?thesis using B by auto
qed

text \<open>
  The loop ends at the first live object core; before it, it remembers the last busy one and the last one
  in grace.
\<close>

lemma lookup_scan_spec:
  assumes "objs_ok st" "cores_ok st" "sl_oh S (hsh_tbl st) oh = Some h" "ocs \<noteq> [] \<Longrightarrow> 1 < oh_refcnt h" "distinct ocs"
    "\<forall>oc \<in> set ocs. head_of st oc = Some oh"
  shows "\<exists>st'. lookup_scan vre P S silo sp oh ocs busy grace st = Some (find (live vre sp st) ocs,
      last_such (is_busy st) (takeWhile (\<lambda>oc. \<not> live vre sp st oc) ocs) busy,
      last_such (in_grace vre P sp st) (takeWhile (\<lambda>oc. \<not> live vre sp st oc) ocs) grace, st') \<and>
    scanned vre sp (set ocs) st st'"
  using assms
proof (induction ocs arbitrary: st busy grace)
  case Nil
  then show ?case by (simp add: scanned_refl)
next
  case (Cons oc ocs)
  let ?u = "usable vre sp st oc" and ?rest = "\<lambda>p. takeWhile (\<lambda>oc. \<not> live vre sp p oc) ocs"
  obtain c where c: "hsh_ocs st oc = Some c" "oc_objhead c = Some oh" "\<not> oc_persistent c" "\<not> oc_busy c \<longrightarrow> hsh_objs st oc \<noteq> None"
    using Cons.prems(2,6) by (auto simp: head_of_def cores_ok_def core_ok_def bind_eq_Some_conv)
  have go: "\<exists>st''. lookup_scan vre P S silo sp oh ocs b g st' = Some (find (live vre sp st) ocs,
      last_such (is_busy st) (?rest st) b, last_such (in_grace vre P sp st) (?rest st) g, st'') \<and>
      scanned vre sp (set (oc # ocs)) st st''" if s: "scanned vre sp {oc} st st'" for st' b g
  proof -
    have k: "objs_ok st'" "cores_ok st'" "hsh_tbl st' = hsh_tbl st" "head_of st' = head_of st"
      using s scanned_cores [OF s Cons.prems(2)] by (auto simp: scanned_def head_of_def fun_eq_iff)
    obtain st'' where st'': "lookup_scan vre P S silo sp oh ocs b g st' = Some (find (live vre sp st') ocs,
        last_such (is_busy st') (?rest st') b, last_such (in_grace vre P sp st') (?rest st') g, st'')"
      "scanned vre sp (set ocs) st' st''"
      using Cons.IH [of st' b g] Cons.prems(3-6) k by auto
    have e: "x \<in> set ocs \<Longrightarrow> x \<notin> {oc}" for x using Cons.prems(5) by auto
    note us = usable_scanned [OF s e]
    have "find (live vre sp st') ocs = find (live vre sp st) ocs" by (rule find_cong) (simp_all add: us)
    moreover have t: "?rest st' = ?rest st" by (rule takeWhile_cong) (simp_all add: us)
    moreover have "last_such (is_busy st') (?rest st) b = last_such (is_busy st) (?rest st) b"
      "last_such (in_grace vre P sp st') (?rest st) g = last_such (in_grace vre P sp st) (?rest st) g"
      by (rule last_such_cong; use us in \<open>auto dest: set_takeWhileD\<close>)+
    ultimately show ?thesis
      using st'' scanned_trans [OF s st''(2)] Cons.prems(5) by auto
  qed
  have stay: "scanned vre sp {oc} st st" by (rule scanned_refl [OF Cons.prems(1)])
  show ?case
  proof (cases "oc_busy c")
    case True
    then have n: "\<not> live vre sp st oc" "is_busy st oc" "\<not> in_grace vre P sp st oc"
      using c(1) by (auto simp: live_def in_grace_def usable_def is_busy_def split: option.splits)
    then show ?thesis using go [OF stay, of "Some oc" grace] Cons.prems(3,4) c True by simp
  next
    case False
    then have nb: "\<not> is_busy st oc" using c(1) by (simp add: is_busy_def)
    obtain ob bo where ob: "hsh_objs st oc = Some ob" "ban_objs (hsh_bans st) oc = Some bo"
      using c(4) False objs_okD [OF Cons.prems(1), of oc] by auto
    show ?thesis
    proof (cases "o_cacheable bo \<and> o_ttl bo \<noteq> 0")
      case no: False
      then have "\<not> live vre sp st oc" "\<not> in_grace vre P sp st oc"
        using c(1) ob by (auto simp: live_def in_grace_def usable_def)
      then show ?thesis using go [OF stay, of busy grace] nb no Cons.prems(3,4) c False ob by (auto split: if_splits)
    next
      case yes: True
      obtain B bo' where B: "BAN_CheckObject vre oc (sp_http sp) (hsh_bans st) = Some (verdict vre (hsh_bans st) oc (sp_http sp), B)"
        "scanned vre sp {oc} st (st\<lparr>hsh_bans := B\<rparr>)" "ban_objs B oc = Some bo'"
        "\<not> verdict vre (hsh_bans st) oc (sp_http sp) \<longrightarrow> o_ttl bo' = o_ttl bo"
        using scan_one [OF Cons.prems(1) c(1) False ob] yes by blast
      obtain m where m: "(case o_vary ob of None \<Rightarrow> Some True | Some v \<Rightarrow> VRY_Match (sp_http sp) v) = Some m"
        using objs_ok_vary [OF Cons.prems(1) ob(1)] by (cases "o_vary ob") auto
      have u: "?u \<longleftrightarrow> \<not> verdict vre (hsh_bans st) oc (sp_http sp) \<and> m"
        using c(1) ob yes False m by (auto simp: usable_def split: option.splits)
      have tt: "obj_ttl st oc = o_ttl bo" "obj_grace P st oc = HSH_Grace P (o_grace ob)" using ob by (simp_all add: obj_ttl_def obj_grace_def)
      note step = Cons.prems(3,4) c(1-3) False ob yes B(1,3,4) m
      consider "\<not> ?u" | "live vre sp st oc" | "?u" "\<not> live vre sp st oc" by (auto simp: live_def)
      then show ?thesis
      proof cases
        case 1
        then have "\<not> live vre sp st oc" "\<not> in_grace vre P sp st oc" by (auto simp: live_def in_grace_def)
        then show ?thesis using 1 u go [OF B(2), of busy grace] nb step by (cases "verdict vre (hsh_bans st) oc (sp_http sp)") auto
      next
        case 2
        then have "?u" "sp_t_req sp \<le> o_ttl bo" using tt by (auto simp: live_def)
        moreover have "scanned vre sp (set (oc # ocs)) st (st\<lparr>hsh_bans := B\<rparr>)"
          using B(2) by (auto simp: scanned_def)
        ultimately show ?thesis using 2 u step by auto
      next
        case 3
        then have "\<not> sp_t_req sp \<le> o_ttl bo" "in_grace vre P sp st oc \<longleftrightarrow> sp_t_req sp \<le> o_ttl bo + HSH_Grace P (o_grace ob)"
          using tt by (auto simp: live_def in_grace_def)
        then show ?thesis using 3 u go [OF B(2)] nb step by auto
      qed
    qed
  qed
qed

section \<open>The operations, for a hash that meets the contract\<close>

context hash_table
begin

lemma upd_head:
  assumes "inv t" "oh \<in> heads index t" "sl_oh S t oh = Some h" "oh_refcnt (f h) = oh_refcnt h" "oh_digest (f h) = oh_digest h"
  shows "inv (sl_upd S t oh f)" "index (sl_upd S t oh f) = index t" "sl_oh S (sl_upd S t oh f) = (sl_oh S t)(oh \<mapsto> f h)"
proof -
  have "oh_refcnt h > 0" using assms(1-3) indexed_oh by (fastforce simp: heads_def)
  then show "inv (sl_upd S t oh f)" "index (sl_upd S t oh f) = index t" "sl_oh S (sl_upd S t oh f) = (sl_oh S t)(oh \<mapsto> f h)"
    using upd_live [OF assms(1,3), of f] upd_oh [of t oh f] assms(3-5) by simp_all
qed

lemma take_waiting:
  assumes ok: "heads_ok S inv index x st" and oh: "oh \<in> heads index (hsh_tbl st)"
    and h: "sl_oh S (hsh_tbl st) oh = Some h" "oh_waitinglist h = spa # ws"
  shows "heads_ok S inv index x (upd_waiting S oh (remove1 spa) st)" "rushed S index oh st (upd_waiting S oh (remove1 spa) st)"
    "\<exists>sp. hsh_sess st spa = Some sp \<and> sp_objhead sp = Some oh \<and> sp_wrk sp = None" "spa \<notin> set ws"
    "sl_oh S (hsh_tbl (upd_waiting S oh (remove1 spa) st)) oh = Some (h\<lparr>oh_waitinglist := ws\<rparr>)"
proof -
  let ?st = "upd_waiting S oh (remove1 spa) st"
  have i: "inv (hsh_tbl st)" using ok by (simp add: heads_ok_def)
  let ?f = "\<lambda>h. h\<lparr>oh_waitinglist := remove1 spa (oh_waitinglist h)\<rparr>"
  note u = upd_head [OF i oh h(1), of ?f, simplified]
  have t: "hsh_tbl ?st = sl_upd S (hsh_tbl st) oh ?f" "head_of ?st = head_of st" "waits_at ?st = waits_at st"
    "hsh_sess ?st = hsh_sess st" "client_drop_late ?st = client_drop_late st"
    by (simp_all add: upd_waiting_def head_of_def waits_at_def fun_eq_iff)
  have at: "head_at x st oh h" using heads_okD [OF ok oh] h(1) by (metis option.inject)
  show m: "sl_oh S (hsh_tbl ?st) oh = Some (h\<lparr>oh_waitinglist := ws\<rparr>)" using t(1) u(3) h(2) by simp
  show "\<exists>sp. hsh_sess st spa = Some sp \<and> sp_objhead sp = Some oh \<and> sp_wrk sp = None" "spa \<notin> set ws"
    using at h(2) by (auto simp: head_at_def)
  have "head_ok S x ?st oh"
    unfolding head_ok_def using at h(2) m t by (auto simp: head_at_def holders_def)
  then show "heads_ok S inv index x ?st"
    by (intro heads_ok_change [OF ok, where oh = oh])
      (use u t i ok heads_cong [where index = index, OF u(2)] in \<open>auto simp: heads_ok_def waits_at_def\<close>)
  show "rushed S index oh st ?st"
    using u t(1) by (auto simp: rushed_def upd_waiting_def intro!: exI [of _ "hsh_sess st"] exI [of _ "client_drop_late st"])
qed

lemma drop_waiting:
  assumes ok: "heads_ok S inv index x st" and oh: "oh \<in> heads index (hsh_tbl st)"
    and h: "sl_oh S (hsh_tbl st) oh = Some h" "spa \<notin> set (oh_waitinglist h)"
    and sp: "hsh_sess st spa = Some sp" "sp_objhead sp = Some oh"
  defines "st' \<equiv> st\<lparr>hsh_sess := (hsh_sess st)(spa := None), client_drop_late := client_drop_late st + 1\<rparr>"
  shows "heads_ok S inv index x st'" "rushed S index oh st st'"
proof -
  have at: "head_at x st oh h" using heads_okD [OF ok oh] h(1) by (metis option.inject)
  have w: "waits_at st' = (waits_at st)(spa := None)" "head_of st' = head_of st"
    by (auto simp: st'_def waits_at_def head_of_def fun_eq_iff)
  have fin: "finite {spa. waits_at st spa \<noteq> None}" using ok by (simp add: heads_ok_def)
  have "{s. waits_at st' s = Some oh} \<subseteq> {s. waits_at st s = Some oh}" using w(1) by auto
  then have "card {s. waits_at st' s = Some oh} \<le> card {s. waits_at st s = Some oh}"
    by (intro card_mono) (auto intro: finite_subset [OF _ fin])
  then have "holders x st' oh h \<le> oh_refcnt h" using at by (simp add: holders_def head_at_def)
  then have "head_ok S x st' oh"
    unfolding head_ok_def using at h w(2) by (auto simp: st'_def head_at_def)
  moreover have "finite {spa. waits_at st' spa \<noteq> None}" by (rule finite_subset [OF _ fin]) (auto simp: w)
  moreover have "waits_at st spa = Some oh" using sp by (simp add: waits_at_def)
  ultimately show "heads_ok S inv index x st'"
    by (intro heads_ok_change [OF ok, where oh = oh])
      (use ok w in \<open>auto simp: heads_ok_def st'_def split: if_splits\<close>)
  show "rushed S index oh st st'"
    by (auto simp: rushed_def st'_def intro!: exI [of _ "hsh_tbl st"] exI [of _ "(hsh_sess st)(spa := None)"]
        exI [of _ "client_drop_late st + 1"])
qed

lemma rush_ok:
  assumes "heads_ok S inv index x st" "oh \<in> heads index (hsh_tbl st)"
  shows "\<exists>st'. hsh_rush S queue n oh st = Some st' \<and> heads_ok S inv index x st' \<and> rushed S index oh st st'"
  using assms
proof (induction n arbitrary: st)
  case 0
  then show ?case by simp
next
  case (Suc n)
  obtain h where h: "sl_oh S (hsh_tbl st) oh = Some h" by (rule heads_okD [OF Suc.prems])
  show ?case
  proof (cases "oh_waitinglist h")
    case Nil
    then show ?thesis using h Suc.prems by simp
  next
    case (Cons spa ws)
    let ?st = "upd_waiting S oh (remove1 spa) st"
    note tk = take_waiting [OF Suc.prems h Cons]
    obtain sp where sp: "hsh_sess st spa = Some sp" "sp_objhead sp = Some oh" "sp_wrk sp = None" using tk(3) by blast
    have oh': "oh \<in> heads index (hsh_tbl ?st)" using Suc.prems(2) rushed_fields(7) [OF tk(2)] by simp
    show ?thesis
    proof (cases "queue spa")
      case True
      obtain st' where "hsh_rush S queue n oh ?st = Some st'" "heads_ok S inv index x st'" "rushed S index oh ?st st'"
        using Suc.IH [OF tk(1) oh'] by blast
      then show ?thesis using True h Cons sp rushed_trans [OF tk(2)] by (auto simp: Let_def)
    next
      case False
      have "hsh_sess ?st spa = Some sp" using sp(1) by (simp add: upd_waiting_def)
      from drop_waiting [OF tk(1) oh' tk(5) _ this sp(2)] tk(4)
      show ?thesis using False h Cons sp rushed_trans [OF tk(2)] by (auto simp: Let_def)
    qed
  qed
qed


text \<open>Giving the operation's own reference back: not the last one, and the last one.\<close>

lemma deref_held:
  assumes ok: "heads_ok S inv index (Some oh) st" and h: "sl_oh S (hsh_tbl st) oh = Some h" "oh_refcnt h > 1"
  shows "\<exists>t. sl_deref S (hsh_tbl st) oh = Some (True, t) \<and> heads_ok S inv index None (st\<lparr>hsh_tbl := t\<rparr>) \<and>
    index t = index (hsh_tbl st) \<and> (\<forall>a. a \<noteq> oh \<longrightarrow> sl_oh S t a = sl_oh S (hsh_tbl st) a)"
proof -
  have i: "inv (hsh_tbl st)" and oh: "oh \<in> heads index (hsh_tbl st)" using ok by (auto simp: heads_ok_def)
  then obtain d where d: "index (hsh_tbl st) d = Some oh" by (auto simp: heads_def)
  obtain t h' where t: "sl_deref S (hsh_tbl st) oh = Some (True, t)" "inv t" "index t = index (hsh_tbl st)"
    "sl_oh S t = (sl_oh S (hsh_tbl st))(oh \<mapsto> h')" "oh_lists h' = oh_lists h" "oh_refcnt h' = oh_refcnt h - 1"
    using deref_more_oh [OF i d h] by blast
  have at: "head_at (Some oh) st oh h" using heads_okD [OF ok oh] h(1) by (metis option.inject)
  have w: "waits_at (st\<lparr>hsh_tbl := t\<rparr>) = waits_at st" "head_of (st\<lparr>hsh_tbl := t\<rparr>) = head_of st"
    by (simp_all add: waits_at_def head_of_def fun_eq_iff)
  have "head_ok S None (st\<lparr>hsh_tbl := t\<rparr>) oh"
    unfolding head_ok_def using at t(4-6) w by (auto simp: head_at_def holders_def oh_lists_def)
  then have "heads_ok S inv index None (st\<lparr>hsh_tbl := t\<rparr>)"
    by (intro heads_ok_change [OF ok, where oh = oh])
      (use t(2-4) w ok heads_cong [where index = index, OF t(3)] in \<open>auto simp: heads_ok_def waits_at_def\<close>)
  then show ?thesis using t by auto
qed

lemma head_unindexed:
  assumes "inv t" "index t d = Some oh" "index t' = (index t)(d := None)"
  shows "heads index t' = heads index t - {oh}"
proof (rule set_eqI)
  fix o1
  have "index t d' = Some oh \<Longrightarrow> d' = d" for d' using index_key [OF assms(1), of d' oh] index_key [OF assms(1,2)] by simp
  then have "(\<exists>d'. index t' d' = Some o1) \<longleftrightarrow> (\<exists>d'. index t d' = Some o1) \<and> o1 \<noteq> oh"
    unfolding assms(3) fun_upd_apply using assms(2) by (metis option.distinct(1) option.inject)
  then show "o1 \<in> heads index t' \<longleftrightarrow> o1 \<in> heads index t - {oh}" by (simp add: heads_def)
qed

lemma drop_head_last:
  assumes ok: "heads_ok S inv index (Some oh) st" and h: "sl_oh S (hsh_tbl st) oh = Some h" "oh_refcnt h = 1"
  shows "\<exists>t n. drop_head S oh st = Some (st\<lparr>hsh_tbl := t, st_objecthead := n\<rparr>) \<and>
    heads_ok S inv index None (st\<lparr>hsh_tbl := t, st_objecthead := n\<rparr>) \<and>
    heads index t = heads index (hsh_tbl st) - {oh} \<and> (\<forall>a. a \<noteq> oh \<longrightarrow> sl_oh S t a = sl_oh S (hsh_tbl st) a)"
proof -
  have i: "inv (hsh_tbl st)" and oh: "oh \<in> heads index (hsh_tbl st)" using ok by (auto simp: heads_ok_def)
  then obtain d where d: "index (hsh_tbl st) d = Some oh" by (auto simp: heads_def)
  have at: "head_at (Some oh) st oh h" using heads_okD [OF ok oh] h(1) by (metis option.inject)
  have "finite {spa. waits_at st spa = Some oh}"
    using ok by (auto simp: heads_ok_def intro: finite_subset [of _ "{spa. waits_at st spa \<noteq> None}"])
  moreover have "holders (Some oh) st oh h \<le> 1" using at h(2) by (simp add: head_at_def)
  then have "int (length (oh_objcs h)) + int (card {spa. waits_at st spa = Some oh}) \<le> 0" by (simp add: holders_def)
  then have "length (oh_objcs h) = 0 \<and> card {spa. waits_at st spa = Some oh} = 0" by linarith
  ultimately have no: "oh_objcs h = []" "\<forall>spa. waits_at st spa \<noteq> Some oh" by auto
  have "waits_at st spa = Some oh" if "spa \<in> set (oh_waitinglist h)" for spa
    using at that by (auto simp: head_at_def waits_at_def)
  then have "set (oh_waitinglist h) = {}" using no(2) by (metis equals0I)
  moreover have "set (oh_objcs h) = {oc. head_of st oc = Some oh}" using at by (simp add: head_at_def)
  ultimately have ow: "oh_waitinglist h = []" "\<forall>oc. head_of st oc \<noteq> Some oh" using no(1) by auto
  have r: "refcnt (hsh_tbl st) oh = 1" using h by (simp add: refcnt_oh)
  have "idle (hsh_tbl st) oh" using idleI [OF h(1)] no(1) ow(1) by (simp add: oh_lists_def)
  then obtain b t where t: "sl_deref S (hsh_tbl st) oh = Some (b, t)" "inv t" "index t = (index (hsh_tbl st))(d := None)"
    "refcnt t = (refcnt (hsh_tbl st))(oh := 0)"
    using deref_last [OF i d r] by blast
  note fr = deref_frame [OF t(1)]
  obtain h' where h': "sl_oh S t oh = Some h'" "oh_objcs h' = []"
    using fr [of oh] h(1) no(1) ow(1) by (auto simp: oh_lists_def)
  have rc: "oh_refcnt h' = 0" using fun_cong [OF t(4), of oh] h'(1) by (simp add: refcnt_oh)
  define t' where "t' = (if b then t else sl_free S t oh)"
  define n where "n = (if b then st_objecthead st else st_objecthead st - 1)"
  have run: "drop_head S oh st = Some (st\<lparr>hsh_tbl := t', st_objecthead := n\<rparr>)"
    using h t(1) h' rc by (simp add: drop_head_def HSH_DeleteObjHead_def t'_def n_def)
  have t': "inv t'" "index t' = (index (hsh_tbl st))(d := None)" "\<forall>a. a \<noteq> oh \<longrightarrow> sl_oh S t' a = sl_oh S (hsh_tbl st) a"
    using t fr deref_dead [OF i d r, of t] by (auto simp: t'_def)
  note hd = head_unindexed [OF i d t'(2)]
  let ?st = "st\<lparr>hsh_tbl := t', st_objecthead := n\<rparr>"
  have w: "waits_at ?st = waits_at st" "head_of ?st = head_of st"
    by (simp_all add: waits_at_def head_of_def fun_eq_iff)
  have "heads_ok S inv index None ?st"
    by (intro heads_ok_change [OF ok, where oh = oh])
      (use t' hd w ok no ow in \<open>auto simp: heads_ok_def waits_at_def\<close>)
  then show ?thesis using run hd t'(3) by blast
qed

lemma drop_head_ok:
  assumes ok: "heads_ok S inv index (Some oh) st"
  shows "\<exists>t n. drop_head S oh st = Some (st\<lparr>hsh_tbl := t, st_objecthead := n\<rparr>) \<and>
    heads_ok S inv index None (st\<lparr>hsh_tbl := t, st_objecthead := n\<rparr>) \<and>
    heads index t \<subseteq> heads index (hsh_tbl st) \<and> (\<forall>a. a \<noteq> oh \<longrightarrow> sl_oh S t a = sl_oh S (hsh_tbl st) a)"
proof -
  have oh: "oh \<in> heads index (hsh_tbl st)" using ok by (auto simp: heads_ok_def)
  obtain h where h: "sl_oh S (hsh_tbl st) oh = Some h" "head_at (Some oh) st oh h" by (rule heads_okD [OF ok oh])
  then have "oh_refcnt h \<ge> 1" by (auto simp: head_at_def holders_def)
  then consider "oh_refcnt h = 1" | "oh_refcnt h > 1" by linarith
  then show ?thesis
  proof cases
    case 1
    then show ?thesis using drop_head_last [OF ok h(1)] by blast
  next
    case 2
    obtain t where t: "sl_deref S (hsh_tbl st) oh = Some (True, t)" "heads_ok S inv index None (st\<lparr>hsh_tbl := t\<rparr>)"
      "index t = index (hsh_tbl st)" "\<forall>a. a \<noteq> oh \<longrightarrow> sl_oh S t a = sl_oh S (hsh_tbl st) a"
      using deref_held [OF ok h(1) 2] by blast
    then have "drop_head S oh st = Some (st\<lparr>hsh_tbl := t, st_objecthead := st_objecthead st\<rparr>)"
      using h(1) 2 by (simp add: drop_head_def)
    moreover have "heads index t = heads index (hsh_tbl st)" by (rule heads_cong) (rule t(3))
    ultimately show ?thesis using t(2,4) by (intro exI [of _ t] exI [of _ "st_objecthead st"]) auto
  qed
qed


lemma heads_ok_facts:
  assumes "heads_ok S inv index x st" "sl_oh S (hsh_tbl st) oh = Some h" "oh \<in> heads index (hsh_tbl st)"
  shows "inv (hsh_tbl st)" "head_at x st oh h" "finite {spa. waits_at st spa = Some oh}"
  using assms heads_okD [OF assms(1,3)]
  by (auto simp: heads_ok_def intro: finite_subset [of _ "{spa. waits_at st spa \<noteq> None}"])

text \<open>An object core leaves an object head: its reference becomes the operation's.\<close>

lemma remove_core:
  assumes ok: "heads_ok S inv index None st" and oc: "head_of st oc = Some oh"
    and st': "hsh_tbl st' = sl_upd S (hsh_tbl st) oh (\<lambda>h. h\<lparr>oh_objcs := remove1 oc (oh_objcs h)\<rparr>)"
      "head_of st' = (head_of st)(oc := None)" "hsh_sess st' = hsh_sess st" "client_drop_late st' = client_drop_late st"
  shows "heads_ok S inv index (Some oh) st'" "index (hsh_tbl st') = index (hsh_tbl st)"
    "\<And>a. a \<noteq> oh \<Longrightarrow> sl_oh S (hsh_tbl st') a = sl_oh S (hsh_tbl st) a"
proof -
  have oh: "oh \<in> heads index (hsh_tbl st)" using ok oc by (auto simp: heads_ok_def)
  obtain h where h: "sl_oh S (hsh_tbl st) oh = Some h" by (rule heads_okD [OF ok oh])
  note f = heads_ok_facts [OF ok h oh]
  note u = upd_head [OF f(1) oh h, of "\<lambda>h. h\<lparr>oh_objcs := remove1 oc (oh_objcs h)\<rparr>", simplified]
  show "index (hsh_tbl st') = index (hsh_tbl st)" "\<And>a. a \<noteq> oh \<Longrightarrow> sl_oh S (hsh_tbl st') a = sl_oh S (hsh_tbl st) a"
    using u st'(1) by simp_all
  have w: "waits_at st' = waits_at st" using st'(3) by (simp add: waits_at_def fun_eq_iff)
  have m: "oc \<in> set (oh_objcs h)" using f(2) oc by (simp add: head_at_def)
  then have "int (length (remove1 oc (oh_objcs h))) = int (length (oh_objcs h)) - 1"
    using length_pos_if_in_set [OF m] by (simp add: length_remove1 of_nat_diff Suc_le_eq)
  then have "holders (Some oh) st' oh (h\<lparr>oh_objcs := remove1 oc (oh_objcs h)\<rparr>) = holders None st oh h"
    by (simp add: holders_def w)
  then have "head_ok S (Some oh) st' oh"
    unfolding head_ok_def using f(2) u(3) st' by (auto simp: head_at_def)
  then show "heads_ok S inv index (Some oh) st'"
    by (intro heads_ok_change [OF ok, where oh = oh])
      (use u st' w ok oc oh heads_cong [where index = index, OF u(2)] in \<open>auto simp: heads_ok_def\<close>)
qed

text \<open>A new object core takes the operation's reference over.\<close>

lemma add_core:
  assumes ok: "heads_ok S inv index (Some oh) st" and oc: "head_of st oc = None"
    and st': "hsh_tbl st' = sl_upd S (hsh_tbl st) oh (\<lambda>h. h\<lparr>oh_objcs := oh_objcs h @ [oc]\<rparr>)"
      "head_of st' = (head_of st)(oc \<mapsto> oh)" "hsh_sess st' = hsh_sess st" "client_drop_late st' = client_drop_late st"
  shows "heads_ok S inv index None st'" "index (hsh_tbl st') = index (hsh_tbl st)"
    "\<And>a. a \<noteq> oh \<Longrightarrow> sl_oh S (hsh_tbl st') a = sl_oh S (hsh_tbl st) a"
proof -
  have oh: "oh \<in> heads index (hsh_tbl st)" using ok by (auto simp: heads_ok_def)
  obtain h where h: "sl_oh S (hsh_tbl st) oh = Some h" by (rule heads_okD [OF ok oh])
  note f = heads_ok_facts [OF ok h oh]
  note u = upd_head [OF f(1) oh h, of "\<lambda>h. h\<lparr>oh_objcs := oh_objcs h @ [oc]\<rparr>", simplified]
  show "index (hsh_tbl st') = index (hsh_tbl st)" "\<And>a. a \<noteq> oh \<Longrightarrow> sl_oh S (hsh_tbl st') a = sl_oh S (hsh_tbl st) a"
    using u st'(1) by simp_all
  have w: "waits_at st' = waits_at st" using st'(3) by (simp add: waits_at_def fun_eq_iff)
  have m: "oc \<notin> set (oh_objcs h)" using f(2) oc by (simp add: head_at_def)
  have "holders None st' oh (h\<lparr>oh_objcs := oh_objcs h @ [oc]\<rparr>) = holders (Some oh) st oh h"
    by (simp add: holders_def w)
  then have "head_ok S None st' oh"
    unfolding head_ok_def using f(2) m u(3) st' oc by (auto simp: head_at_def)
  then show "heads_ok S inv index None st'"
    by (intro heads_ok_change [OF ok, where oh = oh])
      (use u st' w ok oc oh heads_cong [where index = index, OF u(2)] in \<open>auto simp: heads_ok_def\<close>)
qed

text \<open>A session goes to the waiting list with the operation's reference, and comes back with it.\<close>

lemma lookup_wait_ok:
  assumes ok: "heads_ok S inv index (Some oh) st" and sp: "hsh_sess st spa = Some sp" "sp_objhead sp = None"
  shows "heads_ok S inv index None (lookup_wait S oh spa sp st)" "index (hsh_tbl (lookup_wait S oh spa sp st)) = index (hsh_tbl st)"
    "\<And>a. a \<noteq> oh \<Longrightarrow> sl_oh S (hsh_tbl (lookup_wait S oh spa sp st)) a = sl_oh S (hsh_tbl st) a"
proof -
  let ?st = "lookup_wait S oh spa sp st"
  have oh: "oh \<in> heads index (hsh_tbl st)" using ok by (auto simp: heads_ok_def)
  obtain h where h: "sl_oh S (hsh_tbl st) oh = Some h" by (rule heads_okD [OF ok oh])
  note f = heads_ok_facts [OF ok h oh]
  define ws where "ws = (if sp_esis sp = 0 then oh_waitinglist h @ [spa] else oh_waitinglist h)"
  have u: "inv (hsh_tbl ?st)" "index (hsh_tbl ?st) = index (hsh_tbl st)"
    "sl_oh S (hsh_tbl ?st) = (sl_oh S (hsh_tbl st))(oh \<mapsto> h\<lparr>oh_waitinglist := ws\<rparr>)"
    using upd_head [OF f(1) oh h, of "\<lambda>h. h\<lparr>oh_waitinglist := oh_waitinglist h @ [spa]\<rparr>"] f(1) h
    by (auto simp: lookup_wait_def upd_waiting_def upd_sess_def ws_def)
  then show "index (hsh_tbl ?st) = index (hsh_tbl st)" "\<And>a. a \<noteq> oh \<Longrightarrow> sl_oh S (hsh_tbl ?st) a = sl_oh S (hsh_tbl st) a"
    by simp_all
  have s: "hsh_sess ?st = (hsh_sess st)(spa \<mapsto> sp\<lparr>sp_objhead := Some oh, sp_wrk := None\<rparr>)" "head_of ?st = head_of st"
    "client_drop_late ?st = client_drop_late st"
    using sp(1) by (auto simp: lookup_wait_def upd_waiting_def upd_sess_def head_of_def fun_eq_iff)
  have w0: "waits_at st spa = None" using sp by (simp add: waits_at_def)
  have w: "waits_at ?st = (waits_at st)(spa \<mapsto> oh)" using s(1) by (auto simp: waits_at_def fun_eq_iff)
  have n: "spa \<notin> set (oh_waitinglist h)" using f(2) w0 by (auto simp: head_at_def waits_at_def)
  have "{a. waits_at ?st a = Some oh} = insert spa {a. waits_at st a = Some oh}" using w by auto
  then have "holders None ?st oh (h\<lparr>oh_waitinglist := ws\<rparr>) = holders (Some oh) st oh h"
    using f(3) w0 by (simp add: holders_def)
  then have "head_ok S None ?st oh"
    unfolding head_ok_def using f(2) n u(3) s by (auto simp: head_at_def ws_def)
  moreover have "{a. waits_at ?st a \<noteq> None} = insert spa {a. waits_at st a \<noteq> None}" using w by auto
  then have "finite {a. waits_at ?st a \<noteq> None}" using ok by (simp add: heads_ok_def)
  moreover have "hsh_sess ?st a = hsh_sess st a" if "waits_at st a = Some o1" for a o1
    using that s(1) w0 by (cases "a = spa") simp_all
  ultimately show "heads_ok S inv index None ?st"
    by (intro heads_ok_change [OF ok, where oh = oh])
      (use u s w ok oh heads_cong [where index = index, OF u(2)] in \<open>auto simp: heads_ok_def split: if_splits\<close>)
qed

lemma take_session:
  assumes ok: "heads_ok S inv index None st" and sp: "hsh_sess st spa = Some sp" "sp_objhead sp = Some oh" "sp_wrk sp \<noteq> None"
  shows "heads_ok S inv index (Some oh) (upd_sess spa (\<lambda>sp. sp\<lparr>sp_objhead := None\<rparr>) st)"
proof -
  let ?st = "upd_sess spa (\<lambda>sp. sp\<lparr>sp_objhead := None\<rparr>) st"
  have w0: "waits_at st spa = Some oh" using sp by (simp add: waits_at_def)
  then have oh: "oh \<in> heads index (hsh_tbl st)" using ok by (auto simp: heads_ok_def)
  obtain h where h: "sl_oh S (hsh_tbl st) oh = Some h" by (rule heads_okD [OF ok oh])
  note f = heads_ok_facts [OF ok h oh]
  have s: "hsh_sess ?st = (hsh_sess st)(spa \<mapsto> sp\<lparr>sp_objhead := None\<rparr>)" "head_of ?st = head_of st"
    "client_drop_late ?st = client_drop_late st" "hsh_tbl ?st = hsh_tbl st"
    using sp(1) by (auto simp: upd_sess_def head_of_def fun_eq_iff)
  have w: "waits_at ?st = (waits_at st)(spa := None)" using s(1) by (auto simp: waits_at_def fun_eq_iff)
  have n: "spa \<notin> set (oh_waitinglist h)" using f(2) sp by (auto simp: head_at_def)
  have "{a. waits_at st a = Some oh} = insert spa {a. waits_at ?st a = Some oh}" using w w0 by auto
  moreover have "finite {a. waits_at ?st a = Some oh}" using f(3) w by (auto intro: finite_subset [rotated])
  ultimately have "holders (Some oh) ?st oh h = holders None st oh h"
    using w by (simp add: holders_def)
  then have "head_ok S (Some oh) ?st oh"
    unfolding head_ok_def using f(2) n s h by (auto simp: head_at_def)
  moreover have "finite {a. waits_at ?st a \<noteq> None}"
    using ok w by (auto simp: heads_ok_def intro: finite_subset [rotated])
  moreover have "hsh_sess ?st a = hsh_sess st a" if "waits_at st a = Some o1" "o1 \<noteq> oh" for a o1
    using that s(1) w0 by (cases "a = spa") simp_all
  ultimately show ?thesis
    by (intro heads_ok_change [OF ok, where oh = oh])
      (use s w ok oh in \<open>auto simp: heads_ok_def split: if_splits\<close>)
qed


text \<open>Looking the digest of a spare object head up: the operation gets a reference.\<close>

lemma spare_oh_spare: "inv t \<Longrightarrow> spare_oh S index t a \<Longrightarrow> spare t a"
  by (auto simp: spare_iff spare_oh_def heads_def)

lemma head_in_mem: "inv t \<Longrightarrow> oh \<in> heads index t \<Longrightarrow> \<exists>h. sl_oh S t oh = Some h \<and> oh_refcnt h > 0"
  using indexed_oh by (auto simp: heads_def)

lemma lookup_ref:
  assumes ok: "heads_ok S inv index None st" and sp: "spare_oh S index (hsh_tbl st) noh"
  shows "\<exists>oh t. sl_lookup S (hsh_tbl st) noh = Some (oh, t) \<and> heads_ok S inv index (Some oh) (st\<lparr>hsh_tbl := t\<rparr>) \<and>
    index t (key (hsh_tbl st) noh) = Some oh \<and>
    heads index t = (if oh = noh then insert noh (heads index (hsh_tbl st)) else heads index (hsh_tbl st)) \<and>
    (\<forall>a. a \<noteq> oh \<longrightarrow> sl_oh S t a = sl_oh S (hsh_tbl st) a)"
proof -
  let ?t = "hsh_tbl st" and ?d = "key (hsh_tbl st) noh"
  have i: "inv ?t" using ok by (simp add: heads_ok_def)
  note s = spare_oh_spare [OF i sp]
  obtain hn where hn: "sl_oh S ?t noh = Some hn" "oh_refcnt hn = 1" "oh_lists hn = ([], [])" "noh \<notin> heads index ?t"
    using sp by (auto simp: spare_oh_def)
  show ?thesis
  proof (cases "index ?t ?d")
    case None
    obtain t where t: "sl_lookup S ?t noh = Some (noh, t)" "inv t" "index t = (index ?t)(?d \<mapsto> noh)" "sl_oh S t = sl_oh S ?t"
      using lookup_miss_oh [OF i s None] by blast
    have hd: "heads index t = insert noh (heads index ?t)" using t(3) None by (auto simp: heads_def) (metis option.distinct(1))
    let ?st = "st\<lparr>hsh_tbl := t\<rparr>"
    have w: "waits_at ?st = waits_at st" "head_of ?st = head_of st" by (simp_all add: waits_at_def head_of_def fun_eq_iff)
    have no: "waits_at st spa \<noteq> Some noh" "head_of st oc \<noteq> Some noh" for spa oc
      using ok hn(4) by (auto simp: heads_ok_def)
    have "head_at (Some noh) ?st noh hn"
      using hn no w by (simp add: head_at_def holders_def oh_lists_def)
    then have "heads_ok S inv index (Some noh) ?st"
      by (intro heads_ok_change [OF ok, where oh = noh])
        (use t w ok hn hd in \<open>auto simp: heads_ok_def waits_at_def head_ok_def\<close>)
    then show ?thesis using t hd by auto
  next
    case (Some oh)
    obtain t h where t: "sl_lookup S ?t noh = Some (oh, t)" "inv t" "index t = index ?t" "sl_oh S ?t oh = Some h"
      "sl_oh S t = (sl_oh S ?t)(oh \<mapsto> h\<lparr>oh_refcnt := oh_refcnt h + 1\<rparr>)"
      using lookup_hit_oh [OF i s Some] by blast
    have oh: "oh \<in> heads index ?t" using Some by (auto simp: heads_def)
    have hd: "heads index t = heads index ?t" by (rule heads_cong) (rule t(3))
    let ?st = "st\<lparr>hsh_tbl := t\<rparr>"
    have w: "waits_at ?st = waits_at st" "head_of ?st = head_of st" by (simp_all add: waits_at_def head_of_def fun_eq_iff)
    have "head_at (Some oh) ?st oh (h\<lparr>oh_refcnt := oh_refcnt h + 1\<rparr>)"
      using heads_ok_facts(2) [OF ok t(4) oh] w by (simp add: head_at_def holders_def)
    then have "heads_ok S inv index (Some oh) ?st"
      by (intro heads_ok_change [OF ok, where oh = oh])
        (use t w ok hd oh in \<open>auto simp: heads_ok_def waits_at_def head_ok_def\<close>)
    then show ?thesis using t hd oh hn(4) Some by auto
  qed
qed

lemma prealloc_oc_ok:
  assumes inv: "hsh_inv S inv index None st" and fresh: "hsh_ocs st a = None"
  shows "hsh_inv S inv index None (prealloc_oc w a st)" "head_of (prealloc_oc w a st) = head_of st"
proof -
  let ?s1 = "prealloc_oc w a st"
  have p: "heads_ok S inv index None st" "wrk_ok S index st" "cores_ok st" "objs_ok st" "misc_ok st"
    using inv by (auto simp: hsh_inv_def)
  show h1: "head_of ?s1 = head_of st" using fresh(1) by (auto simp: prealloc_oc_def head_of_def new_oc_def fun_eq_iff)
  show "hsh_inv S inv index None ?s1"
  proof (cases "w_nobjcore (hsh_wrk st w)")
    case (Some c)
    then have "?s1 = st" by (simp add: prealloc_oc_def)
    then show ?thesis using inv by simp
  next
    case None
    have "heads_ok S inv index None ?s1"
      by (rule heads_ok_same [OF p(1)]) (use p(1) h1 in \<open>auto simp: prealloc_oc_def heads_ok_def\<close>)
    moreover have "wrk_ok S index ?s1"
      using p(2) fresh(1) None by (auto simp: wrk_ok_def prealloc_oc_def)
    moreover have "head_of st a = None" using fresh by (simp add: head_of_def)
    then have "hsh_objs st a = None" using p(4) unfolding objs_ok_def by blast
    then have "ban_objs (hsh_bans st) a = None" using objs_okD [OF p(4), of a] by simp
    then have "cores_ok ?s1" using p(3) None by (auto simp: cores_ok_def core_ok_def prealloc_oc_def new_oc_def)
    moreover have "objs_ok ?s1"
      by (rule objs_ok_same [OF p(4) _ _ h1]) (simp_all add: prealloc_oc_def)
    moreover have "misc_ok ?s1" using p(5) None by (simp add: misc_ok_def prealloc_oc_def)
    ultimately show ?thesis by (simp add: hsh_inv_def)
  qed
qed

lemma prealloc_oh_ok:
  assumes inv: "hsh_inv S inv index None st" and fresh: "sl_oh S (hsh_tbl st) b = None"
  shows "hsh_inv S inv index None (prealloc_oh S w b st)"
    "heads index (hsh_tbl (prealloc_oh S w b st)) = heads index (hsh_tbl st)"
    "oh \<in> heads index (hsh_tbl st) \<Longrightarrow> sl_oh S (hsh_tbl (prealloc_oh S w b st)) oh = sl_oh S (hsh_tbl st) oh"
proof -
  let ?s1 = "prealloc_oh S w b st"
  have p: "heads_ok S inv index None st" "wrk_ok S index st" "cores_ok st" "objs_ok st" "misc_ok st"
    using inv by (auto simp: hsh_inv_def)
  have i: "inv (hsh_tbl st)" using p(1) by (simp add: heads_ok_def)
  have nh: "b \<notin> heads index (hsh_tbl st)" using head_in_mem [OF i] fresh by fastforce
  let ?t = "sl_alloc S (hsh_tbl st) b new_oh"
  have t: "inv ?t" "index ?t = index (hsh_tbl st)" "sl_oh S ?t = (sl_oh S (hsh_tbl st))(b \<mapsto> new_oh)"
    using alloc_new [OF i fresh, of new_oh] by (simp_all add: new_oh_def)
  have hd: "heads index ?t = heads index (hsh_tbl st)" by (rule heads_cong) (rule t(2))
  show "heads index (hsh_tbl ?s1) = heads index (hsh_tbl st)" using hd by (simp add: prealloc_oh_def)
  show "oh \<in> heads index (hsh_tbl st) \<Longrightarrow> sl_oh S (hsh_tbl ?s1) oh = sl_oh S (hsh_tbl st) oh"
    using t(3) nh by (auto simp: prealloc_oh_def)
  show "hsh_inv S inv index None ?s1"
  proof (cases "w_nobjhead (hsh_wrk st w)")
    case (Some c)
    then have "?s1 = st" by (simp add: prealloc_oh_def)
    then show ?thesis using inv by simp
  next
    case None
    have h1: "head_of ?s1 = head_of st" by (simp add: prealloc_oh_def head_of_def fun_eq_iff)
    have hk: "heads_ok S inv index None ?s1"
      by (rule heads_ok_same [OF p(1)]) (use p(1) h1 t hd nh None in \<open>auto simp: prealloc_oh_def heads_ok_def\<close>)
    have sp: "spare_oh S index ?t a" if "spare_oh S index (hsh_tbl st) a \<or> a = b" for a
      using that t(3) hd nh fresh by (auto simp: spare_oh_def new_oh_def oh_lists_def)
    have "w_nobjhead (hsh_wrk st w') \<noteq> Some b" for w'
      using p(2) fresh unfolding wrk_ok_def spare_oh_def by force
    then have "wrk_ok S index ?s1"
      using p(2) None sp by (auto simp: wrk_ok_def prealloc_oh_def)
    note hk this
    moreover have "cores_ok ?s1" using p(3) None by (auto simp: cores_ok_def prealloc_oh_def)
    moreover have "objs_ok ?s1"
      by (rule objs_ok_same [OF p(4) _ _ h1]) (simp_all add: prealloc_oh_def)
    moreover have "misc_ok ?s1" using p(5) None by (simp add: misc_ok_def prealloc_oh_def)
    ultimately show ?thesis by (simp add: hsh_inv_def)
  qed
qed

lemma prealloc_ok:
  fixes w :: nat
  assumes "hsh_inv S inv index None st" "hsh_ocs st a = None" "sl_oh S (hsh_tbl st) b = None"
  defines "st' \<equiv> HSH_Prealloc S w a b st"
  shows "hsh_inv S inv index None st'" "w_nobjcore (hsh_wrk st' w) \<noteq> None" "w_nobjhead (hsh_wrk st' w) \<noteq> None"
    "heads index (hsh_tbl st') = heads index (hsh_tbl st)" "hsh_sess st' = hsh_sess st" "hsh_bans st' = hsh_bans st"
    "hsh_objs st' = hsh_objs st" "head_of st' = head_of st"
    "oh \<in> heads index (hsh_tbl st) \<Longrightarrow> sl_oh S (hsh_tbl st') oh = sl_oh S (hsh_tbl st) oh"
proof -
  let ?s1 = "prealloc_oc w a st"
  have t: "hsh_tbl ?s1 = hsh_tbl st" by (simp add: prealloc_oc_def)
  note oc = prealloc_oc_ok [OF assms(1,2), of w]
  note p = prealloc_oh_ok [OF oc(1), where b = b and w = w, unfolded t, OF assms(3), folded HSH_Prealloc_def, folded st'_def]
  show "hsh_inv S inv index None st'" by (rule p(1))
  show "heads index (hsh_tbl st') = heads index (hsh_tbl st)" by (rule p(2))
  show "oh \<in> heads index (hsh_tbl st) \<Longrightarrow> sl_oh S (hsh_tbl st') oh = sl_oh S (hsh_tbl st) oh" by (rule p(3))
  show "w_nobjcore (hsh_wrk st' w) \<noteq> None" "w_nobjhead (hsh_wrk st' w) \<noteq> None" "hsh_sess st' = hsh_sess st"
    "hsh_bans st' = hsh_bans st" "hsh_objs st' = hsh_objs st"
    by (simp_all add: st'_def HSH_Prealloc_def prealloc_oc_def prealloc_oh_def)
  show "head_of st' = head_of st"
    using oc(2) by (simp add: st'_def HSH_Prealloc_def prealloc_oh_def head_of_def fun_eq_iff)
qed

end

end
