(* ===== verification/Hash_Ops.thy ===== *)
theory Hash_Ops
  imports Hash_Inv
begin

text \<open>
  Every operation of \<open>cache_hash.c\<close> keeps the invariant \<open>hsh_inv\<close> and fails no assertion, for every hash
  implementation that meets the contract \<open>hash_table\<close>; and what a lookup returns.
\<close>

section \<open>Parts of the invariant\<close>

lemma hsh_invD:
  assumes "hsh_inv S tok index x st"
  shows "heads_ok S tok index x st" "wrk_ok S index st" "cores_ok st" "objs_ok st" "misc_ok st"
  using assms by (simp_all add: hsh_inv_def)

lemma hsh_invI:
  "heads_ok S tok index x st \<Longrightarrow> wrk_ok S index st \<Longrightarrow> cores_ok st \<Longrightarrow> objs_ok st \<Longrightarrow> misc_ok st \<Longrightarrow> hsh_inv S tok index x st"
  by (simp add: hsh_inv_def)

lemma spare_keep:
  assumes "spare_oh S index t a" "heads index t' \<subseteq> heads index t" "oh \<in> heads index t"
    "\<And>a. a \<noteq> oh \<Longrightarrow> sl_oh S t' a = sl_oh S t a"
  shows "spare_oh S index t' a"
proof -
  have "a \<noteq> oh" using assms(1,3) by (auto simp: spare_oh_def)
  then show ?thesis using assms(1,2) assms(4) [of a] by (auto simp: spare_oh_def)
qed

lemma wrk_okD:
  assumes "wrk_ok S index st"
  shows "w_nobjhead (hsh_wrk st w) = Some a \<Longrightarrow> spare_oh S index (hsh_tbl st) a"
    "w_nobjcore (hsh_wrk st w) = Some a \<Longrightarrow> hsh_ocs st a = Some new_oc"
    "w_nobjcore (hsh_wrk st w) = Some a \<Longrightarrow> w_nobjcore (hsh_wrk st w') = Some a \<Longrightarrow> w' = w"
    "w_nobjhead (hsh_wrk st w) = Some a \<Longrightarrow> w_nobjhead (hsh_wrk st w') = Some a \<Longrightarrow> w' = w"
  using assms unfolding wrk_ok_def by metis+

lemma wrk_ok_mono:
  assumes "wrk_ok S index st" "\<And>w a. w_nobjhead (hsh_wrk st' w) = Some a \<Longrightarrow> w_nobjhead (hsh_wrk st w) = Some a"
    "\<And>w a. w_nobjcore (hsh_wrk st' w) = Some a \<Longrightarrow> w_nobjcore (hsh_wrk st w) = Some a"
    "\<And>w a. w_nobjhead (hsh_wrk st' w) = Some a \<Longrightarrow> spare_oh S index (hsh_tbl st) a \<Longrightarrow> spare_oh S index (hsh_tbl st') a"
    "\<And>w a. w_nobjcore (hsh_wrk st' w) = Some a \<Longrightarrow> hsh_ocs st a = Some new_oc \<Longrightarrow> hsh_ocs st' a = Some new_oc"
  shows "wrk_ok S index st'"
proof -
  note d = wrk_okD [OF assms(1)]
  have "spare_oh S index (hsh_tbl st') a" if "w_nobjhead (hsh_wrk st' w) = Some a" for w a
    using that assms(2,4) d(1) by blast
  moreover have "hsh_ocs st' a = Some new_oc" if "w_nobjcore (hsh_wrk st' w) = Some a" for w a
    using that assms(3,5) d(2) by blast
  moreover have "w = w'" if "w_nobjhead (hsh_wrk st' w) = Some a" "w_nobjhead (hsh_wrk st' w') = Some a" for w w' a
    using that assms(2) d(4) by blast
  moreover have "w = w'" if "w_nobjcore (hsh_wrk st' w) = Some a" "w_nobjcore (hsh_wrk st' w') = Some a" for w w' a
    using that assms(3) d(3) by blast
  ultimately show ?thesis unfolding wrk_ok_def by blast
qed

lemma cores_okD: "cores_ok st \<Longrightarrow> hsh_ocs st oc = Some c \<Longrightarrow> core_ok (hsh_objs st oc) (ban_objs (hsh_bans st) oc) c"
  unfolding cores_ok_def by blast

lemma objs_ok_heads:
  assumes "objs_ok st" "hsh_objs st' = hsh_objs st" "hsh_bans st' = hsh_bans st"
    "\<And>oc. hsh_objs st oc \<noteq> None \<Longrightarrow> head_of st oc \<noteq> None \<Longrightarrow> head_of st' oc \<noteq> None"
  shows "objs_ok st'"
  using assms(1,4) unfolding objs_ok_def assms(2,3) by blast

text \<open>The table changes outside the spare object heads.\<close>

lemma hsh_inv_tbl:
  assumes old: "hsh_inv S tok index x st" and new: "heads_ok S tok index x' (st\<lparr>hsh_tbl := t\<rparr>)"
    and hd: "heads index t \<subseteq> heads index (hsh_tbl st)"
    and mem: "\<And>a. a \<notin> heads index (hsh_tbl st) \<Longrightarrow> sl_oh S t a = sl_oh S (hsh_tbl st) a"
  shows "hsh_inv S tok index x' (st\<lparr>hsh_tbl := t\<rparr>)"
proof (rule hsh_invI [OF new])
  note p = hsh_invD [OF old]
  show "wrk_ok S index (st\<lparr>hsh_tbl := t\<rparr>)"
    by (rule wrk_ok_mono [OF p(2)]) (use hd mem in \<open>auto simp: spare_oh_def\<close>)
  have h: "head_of (st\<lparr>hsh_tbl := t\<rparr>) = head_of st" by (simp add: head_of_def fun_eq_iff)
  show "cores_ok (st\<lparr>hsh_tbl := t\<rparr>)" using p(3) by (simp add: cores_ok_def)
  show "objs_ok (st\<lparr>hsh_tbl := t\<rparr>)" by (rule objs_ok_same [OF p(4) _ _ h]) simp_all
  show "misc_ok (st\<lparr>hsh_tbl := t\<rparr>)" using p(5) by (simp add: misc_ok_def)
qed

text \<open>An object core on an object head changes, and stays there.\<close>

lemma hsh_inv_core:
  assumes old: "hsh_inv S tok index x st" and oc: "hsh_ocs st oc = Some c" "oc_objhead c = Some oh"
    and new: "oc_objhead c' = Some oh" "core_ok (hsh_objs st oc) (ban_objs (hsh_bans st) oc) c'"
  defines "st' \<equiv> st\<lparr>hsh_ocs := (hsh_ocs st)(oc \<mapsto> c')\<rparr>"
  shows "hsh_inv S tok index x st'" "head_of st' = head_of st"
proof -
  note p = hsh_invD [OF old]
  show h: "head_of st' = head_of st" using oc new(1) by (auto simp: st'_def head_of_def fun_eq_iff)
  show "hsh_inv S tok index x st'"
  proof (rule hsh_invI)
    show "heads_ok S tok index x st'"
      by (rule heads_ok_same [OF p(1)]) (use p(1) h in \<open>auto simp: st'_def heads_ok_def\<close>)
    have "c \<noteq> new_oc" using oc(2) by (auto simp: new_oc_def)
    then show "wrk_ok S index st'"
      by (intro wrk_ok_mono [OF p(2)]) (use oc(1) in \<open>auto simp: st'_def\<close>)
    show "cores_ok st'" using p(3) new by (auto simp: st'_def cores_ok_def)
    show "objs_ok st'" by (rule objs_ok_same [OF p(4) _ _ h]) (simp_all add: st'_def)
    show "misc_ok st'" using p(5) by (simp add: st'_def misc_ok_def)
  qed
qed

text \<open>Fields the invariant does not speak of.\<close>

lemma objs_ok_more:
  assumes ok: "objs_ok st" and f: "hsh_bans st' = hsh_bans st" "head_of st' = head_of st" "hsh_objs st' = (hsh_objs st)(oc \<mapsto> ob')"
    and ob: "hsh_objs st oc = Some ob" "o_vary ob' = o_vary ob"
  shows "objs_ok st'"
proof -
  have "hsh_objs st' a = None \<longleftrightarrow> hsh_objs st a = None" for a using f(3) ob(1) by simp
  moreover have "\<exists>m. VRY_Match req v = Some m" if "hsh_objs st' a = Some b" "o_vary b = Some v" for a b v req
    using that objs_ok_vary [OF ok, of a _ v req] f(3) ob by (cases "a = oc") auto
  ultimately show ?thesis using ok unfolding objs_ok_def f(1,2) by (metis option.distinct(1))
qed

lemma hsh_inv_obj:
  assumes old: "hsh_inv S tok index x st" and ob: "hsh_objs st oc = Some ob" "o_vary ob' = o_vary ob"
  shows "hsh_inv S tok index x (st\<lparr>hsh_objs := (hsh_objs st)(oc \<mapsto> ob')\<rparr>)"
proof -
  let ?st = "st\<lparr>hsh_objs := (hsh_objs st)(oc \<mapsto> ob')\<rparr>"
  note p = hsh_invD [OF old]
  have h: "head_of ?st = head_of st" by (simp add: head_of_def fun_eq_iff)
  have "heads_ok S tok index x ?st" by (rule heads_ok_same [OF p(1)]) (use p(1) h in \<open>auto simp: heads_ok_def\<close>)
  moreover have "wrk_ok S index ?st" by (rule wrk_ok_mono [OF p(2)]) auto
  moreover have "cores_ok ?st" using p(3) ob(1) by (auto simp: cores_ok_def core_ok_def)
  moreover have "objs_ok ?st" by (rule objs_ok_more [OF p(4) _ h _ ob]) simp_all
  moreover have "misc_ok ?st" using p(5) by (simp add: misc_ok_def)
  ultimately show ?thesis by (rule hsh_invI)
qed

lemma hsh_inv_bans:
  assumes old: "hsh_inv S tok index x st" and "objs_ok (st\<lparr>hsh_bans := B\<rparr>)" "cores_ok (st\<lparr>hsh_bans := B\<rparr>)"
  shows "hsh_inv S tok index x (st\<lparr>hsh_bans := B\<rparr>)"
proof -
  let ?st = "st\<lparr>hsh_bans := B\<rparr>"
  note p = hsh_invD [OF old]
  have h: "head_of ?st = head_of st" by (simp add: head_of_def fun_eq_iff)
  have "heads_ok S tok index x ?st" by (rule heads_ok_same [OF p(1)]) (use p(1) h in \<open>auto simp: heads_ok_def\<close>)
  moreover have "wrk_ok S index ?st" by (rule wrk_ok_mono [OF p(2)]) auto
  moreover have "misc_ok ?st" using p(5) by (simp add: misc_ok_def)
  ultimately show ?thesis using assms(2,3) by (intro hsh_invI)
qed

section \<open>The translation of digests\<close>

lemma hsh_testmagic_ok:
  assumes "length was \<le> HSH_NMAGIC" "length d = DIGEST_LEN"
  shows "\<exists>d' was'. hsh_testmagic was d = Some (d', was') \<and> length was' \<le> HSH_NMAGIC \<and> length d' = DIGEST_LEN"
proof -
  let ?i = "length (takeWhile (\<lambda>x. x \<noteq> d) was)"
  have i: "?i \<le> length was" by (rule length_takeWhile_le)
  have "length (magic_now ! j) = DIGEST_LEN" if "j < HSH_NMAGIC" for j
  proof -
    have "magic_now ! j \<in> set magic_now" using that by (intro nth_mem) (simp add: magic_now_def HSH_NMAGIC_def)
    then show ?thesis by (auto simp: magic_now_def DIGEST_LEN_def)
  qed
  then show ?thesis using assms i by (auto simp: hsh_testmagic_def Let_def)
qed

section \<open>Lookup\<close>

definition ref_of :: "('s, 're, 'm) hsh_scheme \<Rightarrow> addr \<Rightarrow> int" where
  "ref_of st oc = (case hsh_ocs st oc of None \<Rightarrow> 0 | Some c \<Rightarrow> if oc_objhead c = None then 0 else oc_refcnt c)"

text \<open>What a lookup among the object cores of an object head comes to.\<close>

datatype outcome = Hit addr | Wait | Miss

definition lookup_outcome :: "('re, 'v) vre_scheme \<Rightarrow> params \<Rightarrow> sess \<Rightarrow> bool \<Rightarrow> ('s, 're, 'm) hsh_scheme \<Rightarrow> addr list \<Rightarrow> outcome" where
  "lookup_outcome vre P sp healthy st ocs = (
     let busy = list_ex (is_busy st) ocs; other = (if busy then Wait else Miss)
     in case find (live vre sp st) ocs of
          Some oc \<Rightarrow> Hit oc
        | None \<Rightarrow> (case last_such (in_grace vre P sp st) ocs None of
            Some g \<Rightarrow> if (busy \<or> \<not> healthy) \<and> sp_t_req sp \<le> obj_ttl st g + HSH_Grace P (sp_grace sp) then Hit g else other
          | None \<Rightarrow> other))"

lemma lookup_outcome_cong:
  assumes "\<And>oc. oc \<in> set ocs \<Longrightarrow> hsh_ocs st' oc = hsh_ocs st oc" "hsh_objs st' = hsh_objs st" "hsh_bans st' = hsh_bans st"
  shows "lookup_outcome vre P sp healthy st' ocs = lookup_outcome vre P sp healthy st ocs"
proof -
  have u: "usable vre sp st' oc = usable vre sp st oc" "is_busy st' oc = is_busy st oc" if "oc \<in> set ocs" for oc
    unfolding usable_def is_busy_def assms(1) [OF that] assms(2,3) by (rule refl)+
  have t: "obj_ttl st' = obj_ttl st" "obj_grace P st' = obj_grace P st" using assms by (simp_all add: obj_ttl_def obj_grace_def fun_eq_iff)
  have e1: "find (live vre sp st') ocs = find (live vre sp st) ocs" by (rule find_cong) (simp_all add: live_def u t)
  have e2: "last_such (in_grace vre P sp st') ocs None = last_such (in_grace vre P sp st) ocs None"
    by (rule last_such_cong) (simp_all add: in_grace_def u t)
  have e3: "list_ex (is_busy st') ocs = list_ex (is_busy st) ocs" using u by (simp add: list_ex_iff)
  show ?thesis unfolding lookup_outcome_def t e1 e2 e3 ..
qed

text \<open>The object cores on the object head of a digest, and on that of a session; and the end of a lookup.\<close>

definition cores_at :: "'s slinger \<Rightarrow> ('s \<Rightarrow> digest \<Rightarrow> addr option) \<Rightarrow> ('s, 're, 'm) hsh_scheme \<Rightarrow> addr \<Rightarrow> addr list" where
  "cores_at S index st oh = (if oh \<in> heads index (hsh_tbl st) then case sl_oh S (hsh_tbl st) oh of None \<Rightarrow> [] | Some h \<Rightarrow> oh_objcs h else [])"

definition sess_cores :: "'s slinger \<Rightarrow> ('s \<Rightarrow> digest \<Rightarrow> addr option) \<Rightarrow> ('s, 're, 'm) hsh_scheme \<Rightarrow> sess \<Rightarrow> addr list" where
  "sess_cores S index st sp = (case sp_objhead sp of Some oh \<Rightarrow> cores_at S index st oh
     | None \<Rightarrow> (case index (hsh_tbl st) (sp_digest sp) of None \<Rightarrow> [] | Some oh \<Rightarrow> cores_at S index st oh))"

definition lookup_ends :: "outcome \<Rightarrow> addr \<Rightarrow> addr \<Rightarrow> ('s, 're, 'm) hsh_scheme \<Rightarrow> (addr \<times> addr) option \<Rightarrow> ('s, 're, 'm) hsh_scheme \<Rightarrow> bool" where
  "lookup_ends out oh spa st r st' \<longleftrightarrow> (case out of
     Hit oc \<Rightarrow> r = Some (oc, oh) \<and> head_of st oc = Some oh \<and> ref_of st' = (ref_of st)(oc := ref_of st oc + 1) \<and> waits_at st' spa = None
   | Wait \<Rightarrow> r = None \<and> ref_of st' = ref_of st \<and> waits_at st' spa = Some oh
   | Miss \<Rightarrow> (\<exists>oc. r = Some (oc, oh) \<and> ref_of st oc = 0 \<and> ref_of st' = (ref_of st)(oc := 1) \<and> is_busy st' oc \<and>
       head_of st' oc = Some oh \<and> hsh_objs st' oc = None \<and> waits_at st' spa = None))"

lemma ref_of_upd: "hsh_ocs st' = (hsh_ocs st)(oc := co) \<Longrightarrow>
  ref_of st' = (ref_of st)(oc := case co of None \<Rightarrow> 0 | Some c \<Rightarrow> if oc_objhead c = None then 0 else oc_refcnt c)"
  by (auto simp: ref_of_def fun_eq_iff)

lemma ref_of_same: "hsh_ocs st' = hsh_ocs st \<Longrightarrow> ref_of st' = ref_of st"
  by (auto simp: ref_of_def fun_eq_iff)

context hash_table
begin

lemma spare_digest:
  assumes inv: "hsh_inv S inv index None st" and w: "w_nobjhead (hsh_wrk st w) = Some noh" and d: "length d = DIGEST_LEN"
    and was: "length was \<le> HSH_NMAGIC"
  defines "st' \<equiv> st\<lparr>hsh_tbl := sl_upd S (hsh_tbl st) noh (\<lambda>h. h\<lparr>oh_digest := d\<rparr>), hsh_was := was\<rparr>"
  shows "hsh_inv S inv index None st'" "index (hsh_tbl st') = index (hsh_tbl st)" "key (hsh_tbl st') noh = d"
    "\<And>a. a \<noteq> noh \<Longrightarrow> sl_oh S (hsh_tbl st') a = sl_oh S (hsh_tbl st) a" "noh \<notin> heads index (hsh_tbl st)"
    "\<exists>h. sl_oh S (hsh_tbl st') noh = Some h \<and> length (oh_digest h) = DIGEST_LEN"
proof -
  note p = hsh_invD [OF inv]
  have i: "inv (hsh_tbl st)" using p(1) by (simp add: heads_ok_def)
  note sp = wrk_okD(1) [OF p(2) w]
  obtain h where h: "sl_oh S (hsh_tbl st) noh = Some h" "oh_refcnt h = 1" "oh_lists h = ([], [])" "noh \<notin> heads index (hsh_tbl st)"
    using sp by (auto simp: spare_oh_def)
  have t: "inv (hsh_tbl st')" "index (hsh_tbl st') = index (hsh_tbl st)"
    using upd_live [OF i h(1), of "\<lambda>h. h\<lparr>oh_digest := d\<rparr>"] h(2) spare_oh_spare [OF i sp] by (simp_all add: st'_def)
  have m: "sl_oh S (hsh_tbl st') = (sl_oh S (hsh_tbl st))(noh \<mapsto> h\<lparr>oh_digest := d\<rparr>)" by (simp add: st'_def upd_oh h(1))
  have hd: "heads index (hsh_tbl st') = heads index (hsh_tbl st)" by (rule heads_cong) (rule t(2))
  show "index (hsh_tbl st') = index (hsh_tbl st)" "noh \<notin> heads index (hsh_tbl st)" by (rule t(2), rule h(4))
  show "\<And>a. a \<noteq> noh \<Longrightarrow> sl_oh S (hsh_tbl st') a = sl_oh S (hsh_tbl st) a" using m by simp
  show "key (hsh_tbl st') noh = d" "\<exists>h. sl_oh S (hsh_tbl st') noh = Some h \<and> length (oh_digest h) = DIGEST_LEN"
    using m d by (simp_all add: key_oh)
  have ho: "head_of st' = head_of st" by (simp add: st'_def head_of_def fun_eq_iff)
  show "hsh_inv S inv index None st'"
  proof (rule hsh_invI)
    show "heads_ok S inv index None st'"
      by (rule heads_ok_same [OF p(1) t(1) hd]) (use m h(4) ho in \<open>auto simp: st'_def\<close>)
    show "wrk_ok S index st'"
      by (rule wrk_ok_mono [OF p(2)]) (use m hd h d in \<open>auto simp: st'_def spare_oh_def oh_lists_def\<close>)
    show "cores_ok st'" using p(3) by (simp add: cores_ok_def st'_def)
    show "objs_ok st'" by (rule objs_ok_same [OF p(4) _ _ ho]) (simp_all add: st'_def)
    show "misc_ok st'" using p(5) was by (simp add: misc_ok_def st'_def)
  qed
qed

text \<open>The digest goes into the spare object head; with \<open>diag_magic\<close>, a translation of it.\<close>

lemma put_digest:
  assumes inv: "hsh_inv S inv index None st" and w: "w_nobjhead (hsh_wrk st w) = Some noh" and d: "length d = DIGEST_LEN"
  shows "\<exists>st'. test_digest P S noh (st\<lparr>hsh_tbl := sl_upd S (hsh_tbl st) noh (\<lambda>h. h\<lparr>oh_digest := d\<rparr>)\<rparr>) = Some st' \<and>
    hsh_inv S inv index None st' \<and> (\<exists>t was. st' = st\<lparr>hsh_tbl := t, hsh_was := was\<rparr>) \<and>
    index (hsh_tbl st') = index (hsh_tbl st) \<and> (\<not> diag_magic P \<longrightarrow> key (hsh_tbl st') noh = d) \<and> noh \<notin> heads index (hsh_tbl st) \<and>
    (\<forall>a. a \<noteq> noh \<longrightarrow> sl_oh S (hsh_tbl st') a = sl_oh S (hsh_tbl st) a)"
proof -
  let ?t = "sl_upd S (hsh_tbl st) noh (\<lambda>h. h\<lparr>oh_digest := d\<rparr>)"
  have was: "length (hsh_was st) \<le> HSH_NMAGIC" using inv by (simp add: hsh_inv_def misc_ok_def)
  have e: "st\<lparr>hsh_tbl := ?t, hsh_was := hsh_was st\<rparr> = st\<lparr>hsh_tbl := ?t\<rparr>" by simp
  note s = spare_digest [OF inv w d was, unfolded e]
  show ?thesis
  proof (cases "diag_magic P")
    case False
    then show ?thesis using s by (auto simp: test_digest_def intro!: exI [of _ ?t] exI [of _ "hsh_was st"])
  next
    case True
    obtain h where h: "sl_oh S ?t noh = Some h" "length (oh_digest h) = DIGEST_LEN" using s(6) by auto
    obtain d' was' where m: "hsh_testmagic (hsh_was st) (oh_digest h) = Some (d', was')" "length was' \<le> HSH_NMAGIC" "length d' = DIGEST_LEN"
      using hsh_testmagic_ok [OF was h(2)] by blast
    have w': "w_nobjhead (hsh_wrk (st\<lparr>hsh_tbl := ?t\<rparr>) w) = Some noh" using w by simp
    note s' = spare_digest [OF s(1) w' m(3,2)]
    show ?thesis using True h m(1) s(2,4,5) s' by (simp add: test_digest_def) blast
  qed
qed


text \<open>The session gets its object head, with a reference of the operation's.\<close>

lemma found_head_ok:
  assumes inv: "hsh_inv S inv index None st" and w: "w_nobjhead (hsh_wrk st w) = Some noh"
  shows "\<exists>oh t. sl_lookup S (hsh_tbl st) noh = Some (oh, t) \<and> index t (key (hsh_tbl st) noh) = Some oh \<and>
    hsh_inv S inv index (Some oh) (if oh = noh then st\<lparr>hsh_tbl := t, hsh_wrk := (hsh_wrk st)(w := (hsh_wrk st w)\<lparr>w_nobjhead := None\<rparr>)\<rparr>
      else st\<lparr>hsh_tbl := t\<rparr>) \<and>
    cores_at S index (st\<lparr>hsh_tbl := t\<rparr>) oh = (case index (hsh_tbl st) (key (hsh_tbl st) noh) of None \<Rightarrow> [] | Some oh' \<Rightarrow> cores_at S index st oh') \<and>
    (case index (hsh_tbl st) (key (hsh_tbl st) noh) of None \<Rightarrow> True | Some oh' \<Rightarrow> oh' = oh)"
proof -
  note p = hsh_invD [OF inv]
  note sp = wrk_okD(1) [OF p(2) w]
  have i: "inv (hsh_tbl st)" using p(1) by (simp add: heads_ok_def)
  obtain oh t where t: "sl_lookup S (hsh_tbl st) noh = Some (oh, t)" "heads_ok S inv index (Some oh) (st\<lparr>hsh_tbl := t\<rparr>)"
    "index t (key (hsh_tbl st) noh) = Some oh"
    "heads index t = (if oh = noh then insert noh (heads index (hsh_tbl st)) else heads index (hsh_tbl st))"
    "\<forall>a. a \<noteq> oh \<longrightarrow> sl_oh S t a = sl_oh S (hsh_tbl st) a"
    using lookup_ref [OF p(1) sp] by blast
  have n: "noh \<notin> heads index (hsh_tbl st)" using sp by (simp add: spare_oh_def)
  let ?st = "if oh = noh then st\<lparr>hsh_tbl := t, hsh_wrk := (hsh_wrk st)(w := (hsh_wrk st w)\<lparr>w_nobjhead := None\<rparr>)\<rparr> else st\<lparr>hsh_tbl := t\<rparr>"
  have f: "hsh_tbl ?st = t" "head_of ?st = head_of st" "hsh_sess ?st = hsh_sess st" "client_drop_late ?st = client_drop_late st"
    "hsh_ocs ?st = hsh_ocs st" "hsh_objs ?st = hsh_objs st" "hsh_bans ?st = hsh_bans st" "hsh_was ?st = hsh_was st"
    by (simp_all add: head_of_def fun_eq_iff)
  have "hsh_inv S inv index (Some oh) ?st"
  proof (rule hsh_invI)
    show "heads_ok S inv index (Some oh) ?st"
      by (rule heads_ok_same [OF t(2)]) (use t(2) f in \<open>auto simp: heads_ok_def head_of_def\<close>)
    have keep: "spare_oh S index t a" if "spare_oh S index (hsh_tbl st) a" "oh = noh \<longrightarrow> a \<noteq> noh" for a
    proof -
      have "oh \<in> heads index t" using t(3) by (auto simp: heads_def)
      then have "a \<noteq> oh" using that t(4) by (auto simp: spare_oh_def split: if_splits)
      then show ?thesis using that t(4,5) by (auto simp: spare_oh_def)
    qed
    have out: "oh = noh \<longrightarrow> a \<noteq> noh" if "w_nobjhead (hsh_wrk ?st w') = Some a" for w' a
      using wrk_okD(4) [OF p(2) w, of w'] that by (auto split: if_splits)
    show "wrk_ok S index ?st"
    proof (rule wrk_ok_mono [OF p(2)])
      fix w' a
      show "w_nobjhead (hsh_wrk ?st w') = Some a \<Longrightarrow> w_nobjhead (hsh_wrk st w') = Some a"
        "w_nobjcore (hsh_wrk ?st w') = Some a \<Longrightarrow> w_nobjcore (hsh_wrk st w') = Some a"
        by (auto split: if_splits)
      show "w_nobjhead (hsh_wrk ?st w') = Some a \<Longrightarrow> spare_oh S index (hsh_tbl st) a \<Longrightarrow> spare_oh S index (hsh_tbl ?st) a"
        unfolding f using keep out by blast
    qed (simp add: f)
    show "cores_ok ?st" using p(3) by (simp add: cores_ok_def)
    show "objs_ok ?st" by (rule objs_ok_same [OF p(4)]) (use f in auto)
    show "misc_ok ?st" using p(5) by (simp add: misc_ok_def)
  qed
  moreover have "cores_at S index (st\<lparr>hsh_tbl := t\<rparr>) oh = (case index (hsh_tbl st) (key (hsh_tbl st) noh) of None \<Rightarrow> [] | Some oh' \<Rightarrow> cores_at S index st oh') \<and>
      (case index (hsh_tbl st) (key (hsh_tbl st) noh) of None \<Rightarrow> True | Some oh' \<Rightarrow> oh' = oh)"
  proof (cases "index (hsh_tbl st) (key (hsh_tbl st) noh)")
    case None
    obtain t' where t': "sl_lookup S (hsh_tbl st) noh = Some (noh, t')" "sl_oh S t' = sl_oh S (hsh_tbl st)"
      using lookup_miss_oh [OF i spare_oh_spare [OF i sp] None] by blast
    then show ?thesis using t(1) None sp by (auto simp: cores_at_def spare_oh_def oh_lists_def)
  next
    case (Some oh')
    obtain t' h where t': "sl_lookup S (hsh_tbl st) noh = Some (oh', t')" "index t' = index (hsh_tbl st)" "sl_oh S (hsh_tbl st) oh' = Some h"
        "sl_oh S t' = (sl_oh S (hsh_tbl st))(oh' \<mapsto> h\<lparr>oh_refcnt := oh_refcnt h + 1\<rparr>)"
      using lookup_hit_oh [OF i spare_oh_spare [OF i sp] Some] by blast
    moreover have "heads index t' = heads index (hsh_tbl st)" by (rule heads_cong) (rule t'(2))
    ultimately show ?thesis using t(1) Some by (auto simp: cores_at_def)
  qed
  ultimately show ?thesis using t(1,3) by blast
qed

lemma cores_at_cong:
  assumes "index (hsh_tbl st') = index (hsh_tbl st)" "\<And>a. a \<in> heads index (hsh_tbl st) \<Longrightarrow> sl_oh S (hsh_tbl st') a = sl_oh S (hsh_tbl st) a"
  shows "cores_at S index st' oh = cores_at S index st oh"
proof -
  have h: "heads index (hsh_tbl st') = heads index (hsh_tbl st)" by (rule heads_cong) (rule assms(1))
  show ?thesis
  proof (cases "oh \<in> heads index (hsh_tbl st)")
    case True
    then show ?thesis using assms(2) by (simp add: cores_at_def h)
  next
    case False
    then show ?thesis by (simp add: cores_at_def h split: option.splits)
  qed
qed

lemma own_head_ok:
  assumes inv: "hsh_inv S inv index None st" and sp: "hsh_sess st spa = Some sp" "sp_wrk sp \<noteq> None" "sp_objhead sp = Some oh"
  defines "st' \<equiv> upd_sess spa (\<lambda>sp. sp\<lparr>sp_objhead := None\<rparr>) st"
  shows "hsh_inv S inv index (Some oh) st'" "hsh_sess st' = (hsh_sess st)(spa \<mapsto> sp\<lparr>sp_objhead := None\<rparr>)"
proof -
  note p = hsh_invD [OF inv]
  have h: "head_of st' = head_of st" by (simp add: st'_def upd_sess_def head_of_def fun_eq_iff)
  show s: "hsh_sess st' = (hsh_sess st)(spa \<mapsto> sp\<lparr>sp_objhead := None\<rparr>)" using sp(1) by (simp add: st'_def upd_sess_def)
  show "hsh_inv S inv index (Some oh) st'"
  proof (rule hsh_invI)
    show "heads_ok S inv index (Some oh) st'" unfolding st'_def by (rule take_session [OF p(1) sp(1,3,2)])
    show "wrk_ok S index st'" by (rule wrk_ok_mono [OF p(2)]) (auto simp: st'_def upd_sess_def)
    show "cores_ok st'" using p(3) by (simp add: cores_ok_def st'_def upd_sess_def)
    show "objs_ok st'" by (rule objs_ok_same [OF p(4) _ _ h]) (simp_all add: st'_def upd_sess_def)
    show "misc_ok st'" using p(5) sp(1) s by (auto simp: misc_ok_def st'_def upd_sess_def)
  qed
qed

lemma lookup_head_ok:
  assumes inv: "hsh_inv S inv index None st" and sp: "hsh_sess st spa = Some sp" "sp_wrk sp = Some w"
    and w: "w_nobjhead (hsh_wrk st w) \<noteq> None"
  shows "\<exists>oh st'. lookup_head P S w spa sp st = Some (oh, st') \<and> hsh_inv S inv index (Some oh) st' \<and>
    hsh_ocs st' = hsh_ocs st \<and> hsh_objs st' = hsh_objs st \<and> hsh_bans st' = hsh_bans st \<and>
    hsh_sess st' = (hsh_sess st)(spa \<mapsto> sp\<lparr>sp_objhead := None\<rparr>) \<and>
    (\<forall>w'. w_nobjcore (hsh_wrk st' w') = w_nobjcore (hsh_wrk st w')) \<and>
    (\<not> diag_magic P \<longrightarrow> cores_at S index st' oh = sess_cores S index st sp) \<and>
    (case sp_objhead sp of Some oh' \<Rightarrow> oh = oh' | None \<Rightarrow> \<not> diag_magic P \<longrightarrow> index (hsh_tbl st') (sp_digest sp) = Some oh)"
proof -
  obtain noh where noh: "w_nobjhead (hsh_wrk st w) = Some noh" using w by blast
  have d: "length (sp_digest sp) = DIGEST_LEN" using inv sp(1) by (auto simp: hsh_inv_def misc_ok_def)
  obtain st1 t was where st1: "test_digest P S noh (st\<lparr>hsh_tbl := sl_upd S (hsh_tbl st) noh (\<lambda>h. h\<lparr>oh_digest := sp_digest sp\<rparr>)\<rparr>) = Some st1"
    "hsh_inv S inv index None st1" "st1 = st\<lparr>hsh_tbl := t, hsh_was := was\<rparr>" "index (hsh_tbl st1) = index (hsh_tbl st)"
    "\<not> diag_magic P \<longrightarrow> key (hsh_tbl st1) noh = sp_digest sp" "noh \<notin> heads index (hsh_tbl st)"
    "\<forall>a. a \<noteq> noh \<longrightarrow> sl_oh S (hsh_tbl st1) a = sl_oh S (hsh_tbl st) a"
    using put_digest [OF inv noh d, of P] by blast
  have c: "cores_at S index st1 oh = cores_at S index st oh" for oh by (rule cores_at_cong [OF st1(4)]) (use st1(6,7) in metis)
  show ?thesis
  proof (cases "sp_objhead sp")
    case (Some oh)
    have "hsh_sess st1 spa = Some sp" "sp_wrk sp \<noteq> None" using st1(3) sp by simp_all
    note o = own_head_ok [OF st1(2) this Some]
    let ?st' = "upd_sess spa (\<lambda>sp. sp\<lparr>sp_objhead := None\<rparr>) st1"
    have "lookup_head P S w spa sp st = Some (oh, ?st')" using noh st1(1) Some by (simp add: lookup_head_def)
    moreover have "cores_at S index ?st' oh = cores_at S index st1 oh" by (simp add: cores_at_def upd_sess_def)
    then have "cores_at S index ?st' oh = cores_at S index st oh" using c by simp
    moreover have "hsh_ocs ?st' = hsh_ocs st" "hsh_objs ?st' = hsh_objs st" "hsh_bans ?st' = hsh_bans st" "hsh_wrk ?st' = hsh_wrk st"
      using st1(3) by (simp_all add: upd_sess_def)
    ultimately show ?thesis using o st1(3) Some by (auto simp: sess_cores_def)
  next
    case None
    have n: "w_nobjhead (hsh_wrk st1 w) = Some noh" using st1(3) noh by simp
    obtain oh t' where f: "sl_lookup S (hsh_tbl st1) noh = Some (oh, t')" "index t' (key (hsh_tbl st1) noh) = Some oh"
      "hsh_inv S inv index (Some oh) (if oh = noh then st1\<lparr>hsh_tbl := t', hsh_wrk := (hsh_wrk st1)(w := (hsh_wrk st1 w)\<lparr>w_nobjhead := None\<rparr>)\<rparr>
        else st1\<lparr>hsh_tbl := t'\<rparr>)"
      "cores_at S index (st1\<lparr>hsh_tbl := t'\<rparr>) oh = (case index (hsh_tbl st1) (key (hsh_tbl st1) noh) of None \<Rightarrow> [] | Some oh' \<Rightarrow> cores_at S index st1 oh')"
      using found_head_ok [OF st1(2) n] by blast
    let ?st' = "if oh = noh then st1\<lparr>hsh_tbl := t', hsh_wrk := (hsh_wrk st1)(w := (hsh_wrk st1 w)\<lparr>w_nobjhead := None\<rparr>)\<rparr>
        else st1\<lparr>hsh_tbl := t'\<rparr>"
    have "lookup_head P S w spa sp st = Some (oh, ?st')" using noh st1(1) None f(1) by (simp add: lookup_head_def)
    moreover have "cores_at S index ?st' oh = cores_at S index (st1\<lparr>hsh_tbl := t'\<rparr>) oh" by (simp add: cores_at_def)
    then have "\<not> diag_magic P \<longrightarrow> cores_at S index ?st' oh = sess_cores S index st sp"
      using None st1(4,5) f(4) c by (auto simp: sess_cores_def split: option.splits)
    moreover have "hsh_ocs ?st' = hsh_ocs st" "hsh_objs ?st' = hsh_objs st" "hsh_bans ?st' = hsh_bans st"
      "\<forall>w'. w_nobjcore (hsh_wrk ?st' w') = w_nobjcore (hsh_wrk st w')" "hsh_sess ?st' = (hsh_sess st)(spa \<mapsto> sp\<lparr>sp_objhead := None\<rparr>)"
      using st1(3) None sp(1) by auto
    moreover have "\<not> diag_magic P \<longrightarrow> index (hsh_tbl ?st') (sp_digest sp) = Some oh" using f(2) st1(5) by auto
    ultimately show ?thesis using f(3) None by auto
  qed
qed

lemma held_head:
  assumes "heads_ok S inv index (Some oh) st"
  obtains h where "oh \<in> heads index (hsh_tbl st)" "sl_oh S (hsh_tbl st) oh = Some h" "head_at (Some oh) st oh h"
    "cores_at S index st oh = oh_objcs h" "oh_refcnt h > 0" "oh_objcs h = [] \<or> oh_refcnt h > 1"
proof -
  have oh: "oh \<in> heads index (hsh_tbl st)" using assms by (auto simp: heads_ok_def)
  obtain h where h: "sl_oh S (hsh_tbl st) oh = Some h" "head_at (Some oh) st oh h" by (rule heads_okD [OF assms oh])
  then have "holders (Some oh) st oh h \<le> oh_refcnt h" by (simp add: head_at_def)
  then have "int (length (oh_objcs h)) + 1 \<le> oh_refcnt h" by (simp add: holders_def)
  moreover have "oh_objcs h = [] \<or> int (length (oh_objcs h)) \<ge> 1" by (cases "oh_objcs h") simp_all
  ultimately have "oh_refcnt h > 0" "oh_objcs h = [] \<or> oh_refcnt h > 1" by linarith+
  moreover have "cores_at S index st oh = oh_objcs h" using oh h(1) by (simp add: cores_at_def)
  ultimately show ?thesis using that [OF oh h] by blast
qed

lemma lookup_hit_ok:
  assumes inv: "hsh_inv S inv index (Some oh) st" and oc: "head_of st oc = Some oh" "hsh_objs st oc \<noteq> None"
  shows "\<exists>st'. lookup_hit_oc S oh oc st = Some st' \<and> hsh_inv S inv index None st' \<and>
    ref_of st' = (ref_of st)(oc := ref_of st oc + 1) \<and> hsh_bans st' = hsh_bans st \<and> hsh_sess st' = hsh_sess st \<and> head_of st' = head_of st \<and>
    index (hsh_tbl st') = index (hsh_tbl st)"
proof -
  obtain c ob where c: "hsh_ocs st oc = Some c" "oc_objhead c = Some oh" "hsh_objs st oc = Some ob"
    using oc by (auto simp: head_of_def bind_eq_Some_conv)
  let ?c = "c\<lparr>oc_refcnt := oc_refcnt c + 1\<rparr>"
  define st1 where "st1 = st\<lparr>hsh_ocs := (hsh_ocs st)(oc \<mapsto> ?c)\<rparr>"
  define st2 where "st2 = (if o_hits ob < INT_MAX then st1\<lparr>hsh_objs := (hsh_objs st1)(oc \<mapsto> ob\<lparr>o_hits := o_hits ob + 1\<rparr>)\<rparr> else st1)"
  note co = cores_okD [OF hsh_invD(3) [OF inv] c(1)]
  have i1: "hsh_inv S inv index (Some oh) st1" "head_of st1 = head_of st"
    unfolding st1_def by (rule hsh_inv_core [OF inv c(1,2)]; use c co in \<open>auto simp: core_ok_def\<close>)+
  have "hsh_objs st1 oc = Some ob" using c(3) by (simp add: st1_def)
  from hsh_inv_obj [OF i1(1) this, of "ob\<lparr>o_hits := o_hits ob + 1\<rparr>"]
  have i2: "hsh_inv S inv index (Some oh) st2" using i1(1) by (simp add: st2_def)
  have f: "hsh_ocs st2 = (hsh_ocs st)(oc \<mapsto> ?c)" "hsh_bans st2 = hsh_bans st" "hsh_sess st2 = hsh_sess st" "hsh_tbl st2 = hsh_tbl st"
    "head_of st2 = head_of st"
    using i1(2) by (auto simp: st2_def st1_def head_of_def fun_eq_iff)
  obtain h where h: "oh \<in> heads index (hsh_tbl st2)" "sl_oh S (hsh_tbl st2) oh = Some h" "head_at (Some oh) st2 oh h"
    "oh_objcs h = [] \<or> oh_refcnt h > 1"
    by (rule held_head [OF hsh_invD(1) [OF i2]])
  have "oc \<in> set (oh_objcs h)" using h(3) oc(1) f(5) by (simp add: head_at_def)
  then have r: "oh_refcnt h > 1" using h(4) by force
  obtain t where t: "sl_deref S (hsh_tbl st2) oh = Some (True, t)" "heads_ok S inv index None (st2\<lparr>hsh_tbl := t\<rparr>)"
    "index t = index (hsh_tbl st2)" "\<forall>a. a \<noteq> oh \<longrightarrow> sl_oh S t a = sl_oh S (hsh_tbl st2) a"
    using deref_held [OF hsh_invD(1) [OF i2] h(2) r] by blast
  have i3: "hsh_inv S inv index None (st2\<lparr>hsh_tbl := t\<rparr>)"
    by (rule hsh_inv_tbl [OF i2 t(2)]) (use t(4) h(1) heads_cong [where index = index, OF t(3)] in auto)
  have run: "lookup_hit_oc S oh oc st = Some (st2\<lparr>hsh_tbl := t\<rparr>)"
    using c h(2) r t(1) by (simp add: lookup_hit_oc_def upd_oc_def st2_def st1_def split: if_splits)
  have "ref_of (st2\<lparr>hsh_tbl := t\<rparr>) = (ref_of st)(oc := ref_of st oc + 1)"
    using ref_of_upd [of "st2\<lparr>hsh_tbl := t\<rparr>" st oc "Some ?c"] f(1) c(1,2) by (simp add: ref_of_def)
  moreover have "head_of (st2\<lparr>hsh_tbl := t\<rparr>) = head_of st" using f(5) by (simp add: head_of_def fun_eq_iff)
  ultimately show ?thesis using run i3 f t(3) by simp
qed

lemma wait_ok:
  assumes inv: "hsh_inv S inv index (Some oh) st" and sp: "hsh_sess st spa = Some sp" "sp_objhead sp = None"
  shows "hsh_inv S inv index None (lookup_wait S oh spa sp st)"
proof -
  let ?st = "lookup_wait S oh spa sp st"
  note p = hsh_invD [OF inv]
  note k = lookup_wait_ok [OF p(1) sp]
  have oh: "oh \<in> heads index (hsh_tbl st)" using p(1) by (auto simp: heads_ok_def)
  have hd: "heads index (hsh_tbl ?st) = heads index (hsh_tbl st)" by (rule heads_cong) (rule k(2))
  have f: "hsh_ocs ?st = hsh_ocs st" "hsh_objs ?st = hsh_objs st" "hsh_bans ?st = hsh_bans st" "hsh_wrk ?st = hsh_wrk st"
    "head_of ?st = head_of st" "hsh_was ?st = hsh_was st" "hsh_sess ?st = (hsh_sess st)(spa \<mapsto> sp\<lparr>sp_objhead := Some oh, sp_wrk := None\<rparr>)"
    using sp(1) by (simp_all add: lookup_wait_def upd_waiting_def upd_sess_def head_of_def fun_eq_iff)
  show ?thesis
  proof (rule hsh_invI [OF k(1)])
    have "spare_oh S index (hsh_tbl st) a \<Longrightarrow> spare_oh S index (hsh_tbl ?st) a" for a
      by (rule spare_keep [OF _ _ oh]) (use k(3) hd in auto)
    then show "wrk_ok S index ?st" by (intro wrk_ok_mono [OF p(2)]) (simp_all add: f)
    show "cores_ok ?st" using p(3) by (simp add: cores_ok_def f)
    show "objs_ok ?st" by (rule objs_ok_same [OF p(4)]) (simp_all add: f)
    show "misc_ok ?st" using p(5) sp(1) by (auto simp: misc_ok_def f)
  qed
qed

lemma new_core_ok:
  assumes inv: "hsh_inv S inv index (Some oh) st" and w: "w_nobjcore (hsh_wrk st w) = Some oc"
  shows "\<exists>st'. lookup_new S w oh st = Some (oc, st') \<and> hsh_inv S inv index None st' \<and>
    ref_of st' = (ref_of st)(oc := 1) \<and> ref_of st oc = 0 \<and> hsh_bans st' = hsh_bans st \<and> hsh_sess st' = hsh_sess st \<and>
    hsh_objs st' = hsh_objs st \<and> hsh_objs st' oc = None \<and> head_of st' = (head_of st)(oc \<mapsto> oh) \<and> is_busy st' oc \<and>
    index (hsh_tbl st') = index (hsh_tbl st)"
proof -
  note p = hsh_invD [OF inv]
  note c = wrk_okD(2) [OF p(2) w]
  have ho: "head_of st oc = None" using c by (simp add: head_of_def new_oc_def)
  then have no: "hsh_objs st oc = None" using p(4) unfolding objs_ok_def by blast
  let ?c = "new_oc\<lparr>oc_refcnt := 1, oc_objhead := Some oh\<rparr>"
  let ?f = "\<lambda>h. h\<lparr>oh_objcs := oh_objcs h @ [oc]\<rparr>"
  let ?st = "st\<lparr>hsh_wrk := (hsh_wrk st)(w := (hsh_wrk st w)\<lparr>w_nobjcore := None\<rparr>), hsh_ocs := (hsh_ocs st)(oc \<mapsto> ?c),
    hsh_tbl := sl_upd S (hsh_tbl st) oh ?f\<rparr>"
  have run: "lookup_new S w oh st = Some (oc, ?st)"
    using w c by (simp add: lookup_new_def upd_objcs_def upd_oc_def new_oc_def)
  have h': "head_of ?st = (head_of st)(oc \<mapsto> oh)" by (auto simp: head_of_def fun_eq_iff)
  note a = add_core [OF p(1) ho, of ?st, simplified, OF h']
  have oh: "oh \<in> heads index (hsh_tbl st)" using p(1) by (auto simp: heads_ok_def)
  have hd: "heads index (sl_upd S (hsh_tbl st) oh ?f) = heads index (hsh_tbl st)" by (rule heads_cong) (rule a(2))
  have "hsh_inv S inv index None ?st"
  proof (rule hsh_invI)
    show "heads_ok S inv index None ?st" by (rule a(1))
    show "wrk_ok S index ?st"
    proof (rule wrk_ok_mono [OF p(2)])
      fix w' a
      show "w_nobjhead (hsh_wrk ?st w') = Some a \<Longrightarrow> w_nobjhead (hsh_wrk st w') = Some a"
        "w_nobjcore (hsh_wrk ?st w') = Some a \<Longrightarrow> w_nobjcore (hsh_wrk st w') = Some a" by (auto split: if_splits)
      show "spare_oh S index (hsh_tbl st) a \<Longrightarrow> spare_oh S index (hsh_tbl ?st) a"
        by (rule spare_keep [OF _ _ oh]) (use a(3) hd in auto)
      show "w_nobjcore (hsh_wrk ?st w') = Some a \<Longrightarrow> hsh_ocs st a = Some new_oc \<Longrightarrow> hsh_ocs ?st a = Some new_oc"
        using wrk_okD(3) [OF p(2) w, of w'] by (auto split: if_splits)
    qed
    show "cores_ok ?st"
      using p(3) no objs_okD [OF p(4), of oc] by (auto simp: cores_ok_def core_ok_def new_oc_def)
    show "objs_ok ?st" by (rule objs_ok_heads [OF p(4)]) (use h' in auto)
    show "misc_ok ?st" using p(5) by (simp add: misc_ok_def)
  qed
  moreover have "ref_of ?st = (ref_of st)(oc := 1)" by (auto simp: ref_of_def fun_eq_iff)
  moreover have "ref_of st oc = 0" using c by (simp add: ref_of_def new_oc_def)
  moreover have "is_busy ?st oc" by (simp add: is_busy_def new_oc_def)
  ultimately show ?thesis using run h' no a(2) by simp
qed

lemma lookup_cores_ok:
  assumes inv: "hsh_inv S inv index (Some oh) st" and sp: "hsh_sess st spa = Some (sp\<lparr>sp_objhead := None\<rparr>)"
    and w: "w_nobjcore (hsh_wrk st w) \<noteq> None" and h: "sl_oh S (hsh_tbl st) oh = Some h"
  shows "\<exists>r st'. lookup_cores vre P S silo b w spa sp oh (oh_objcs h) st = Some (r, st') \<and>
    hsh_inv S inv index None st' \<and> lookup_ends (lookup_outcome vre P sp b st (oh_objcs h)) oh spa st r st' \<and>
    index (hsh_tbl st') = index (hsh_tbl st)"
proof -
  note p = hsh_invD [OF inv]
  let ?ocs = "oh_objcs h"
  obtain h' where h': "sl_oh S (hsh_tbl st) oh = Some h'" "head_at (Some oh) st oh h'" "oh_objcs h' = [] \<or> oh_refcnt h' > 1"
    by (rule held_head [OF p(1)])
  then have at: "head_at (Some oh) st oh h" "?ocs = [] \<or> oh_refcnt h > 1" using h by simp_all
  have d: "distinct ?ocs" "set ?ocs = {oc. head_of st oc = Some oh}" using at(1) by (simp_all add: head_at_def)
  let ?pre = "takeWhile (\<lambda>oc. \<not> live vre sp st oc) ?ocs"
  let ?found = "find (live vre sp st) ?ocs" and ?busy = "last_such (is_busy st) ?pre None" and ?grace = "last_such (in_grace vre P sp st) ?pre None"
  obtain st1 where scan: "lookup_scan vre P S silo sp oh ?ocs None None st = Some (?found, ?busy, ?grace, st1)"
    "scanned vre sp (set ?ocs) st st1"
    using lookup_scan_spec [OF p(4,3) h, of ?ocs vre P silo sp None None] at d by auto
  obtain B where B: "st1 = st\<lparr>hsh_bans := B\<rparr>" using scan(2) by (auto simp: scanned_def)
  have i1: "hsh_inv S inv index (Some oh) st1" unfolding B by (rule hsh_inv_bans [OF inv]) (use scan(2) scanned_cores [OF scan(2) p(3)] B in \<open>simp_all add: scanned_def\<close>)
  have f: "head_of st1 = head_of st" "ref_of st1 = ref_of st" "hsh_objs st1 = hsh_objs st" "hsh_sess st1 = hsh_sess st" "hsh_wrk st1 = hsh_wrk st"
    "hsh_tbl st1 = hsh_tbl st"
    by (simp_all add: B head_of_def ref_of_def fun_eq_iff)
  have wsp: "waits_at st1 spa = None" using sp f(4) by (simp add: waits_at_def)
  have hit: "\<exists>st'. lookup_hit_oc S oh oc st1 = Some st' \<and> hsh_inv S inv index None st' \<and> lookup_ends (Hit oc) oh spa st (Some (oc, oh)) st' \<and>
      index (hsh_tbl st') = index (hsh_tbl st)"
    if "usable vre sp st oc" "oc \<in> set ?ocs" for oc
  proof -
    have o: "head_of st1 oc = Some oh" using that(2) d(2) f(1) by simp
    have "hsh_objs st1 oc \<noteq> None" using that(1) f(3) by (auto simp: usable_def split: option.splits)
    from lookup_hit_ok [OF i1 o this] show ?thesis using f wsp o by (fastforce simp: lookup_ends_def waits_at_def)
  qed
  show ?thesis
  proof (cases ?found)
    case (Some oc)
    then have "live vre sp st oc" "oc \<in> set ?ocs" by (auto simp: find_Some_iff)
    then obtain st' where "lookup_hit_oc S oh oc st1 = Some st'" "hsh_inv S inv index None st'" "lookup_ends (Hit oc) oh spa st (Some (oc, oh)) st'"
      "index (hsh_tbl st') = index (hsh_tbl st)"
      using hit [of oc] by (auto simp: live_def)
    then show ?thesis using scan(1) Some by (simp add: lookup_cores_def lookup_grace_def lookup_outcome_def split: option.splits)
  next
    case None
    then have pre: "?pre = ?ocs" by (simp add: takeWhile_eq_all_conv find_None_iff)
    let ?bu = "last_such (is_busy st) ?ocs None" and ?gr = "last_such (in_grace vre P sp st) ?ocs None"
    have scan1: "lookup_scan vre P S silo sp oh ?ocs None None st = Some (None, ?bu, ?gr, st1)" using scan(1) None pre by simp
    have bz: "?bu \<noteq> None \<longleftrightarrow> list_ex (is_busy st) ?ocs" unfolding last_such_None by (auto simp: list_ex_iff)
    let ?cond = "\<lambda>g. (?bu \<noteq> None \<or> \<not> b) \<and> sp_t_req sp \<le> obj_ttl st g + HSH_Grace P (sp_grace sp)"
    have gr: "lookup_grace P sp b None ?bu ?gr st1 =
        Some (case ?gr of None \<Rightarrow> None | Some g \<Rightarrow> if ?cond g then Some g else None)"
    proof (cases ?gr)
      case (Some g)
      then have u: "usable vre sp st g" using last_such_Some [of "in_grace vre P sp st" ?ocs g] by (simp add: in_grace_def)
      then obtain bo where bo: "ban_objs (hsh_bans st1) g = Some bo" "o_ttl bo = obj_ttl st g"
        using scan(2) by (auto simp: scanned_def obj_ttl_def)
      then show ?thesis using Some by (auto simp: lookup_grace_def)
    qed (simp add: lookup_grace_def)
    show ?thesis
    proof (cases "\<exists>g. ?gr = Some g \<and> ?cond g")
      case True
      then obtain g where g: "?gr = Some g" "?cond g" by blast
      have "g \<in> set ?ocs" "usable vre sp st g"
        using last_such_Some [of "in_grace vre P sp st" ?ocs g] g(1) by (auto simp: in_grace_def)
      from hit [OF this(2,1)] obtain st' where "lookup_hit_oc S oh g st1 = Some st'" "hsh_inv S inv index None st'"
        "lookup_ends (Hit g) oh spa st (Some (g, oh)) st'" "index (hsh_tbl st') = index (hsh_tbl st)" by blast
      moreover have "lookup_outcome vre P sp b st ?ocs = Hit g" using None g bz by (simp add: lookup_outcome_def)
      ultimately show ?thesis using scan1 gr g by (simp add: lookup_cores_def)
    next
      case False
      then have gn: "(case ?gr of None \<Rightarrow> None | Some g \<Rightarrow> if ?cond g then Some g else None) = None" by (auto split: option.splits)
      have out: "lookup_outcome vre P sp b st ?ocs = (if ?bu \<noteq> None then Wait else Miss)"
        using None False bz by (auto simp: lookup_outcome_def split: option.splits)
      show ?thesis
      proof (cases "?bu = None")
        case True
        obtain oc where "w_nobjcore (hsh_wrk st1 w) = Some oc" using w f(5) by auto
        from new_core_ok [OF i1 this] show ?thesis
          using scan1 gr gn out True f wsp by (fastforce simp: lookup_ends_def lookup_cores_def waits_at_def)
      next
        case bu: False
        have sp1: "hsh_sess st1 spa = Some (sp\<lparr>sp_objhead := None\<rparr>)" using sp f(4) by simp
        have "lookup_wait S oh spa (sp\<lparr>sp_objhead := None\<rparr>) st1 = lookup_wait S oh spa sp st1" by (simp add: lookup_wait_def)
        then have "hsh_inv S inv index None (lookup_wait S oh spa sp st1)" using wait_ok [OF i1 sp1] by simp
        moreover have "waits_at (lookup_wait S oh spa sp st1) spa = Some oh" "ref_of (lookup_wait S oh spa sp st1) = ref_of st"
          using sp1 f(2) by (auto simp: lookup_wait_def waits_at_def upd_waiting_def upd_sess_def ref_of_def fun_eq_iff)
        moreover have "index (hsh_tbl (lookup_wait S oh spa (sp\<lparr>sp_objhead := None\<rparr>) st1)) = index (hsh_tbl st1)"
          by (rule lookup_wait_ok(2) [OF hsh_invD(1) [OF i1] sp1]) simp
        then have "index (hsh_tbl (lookup_wait S oh spa sp st1)) = index (hsh_tbl st)" using f(6) by (simp add: lookup_wait_def)
        ultimately show ?thesis using scan1 gr gn out bu by (simp add: lookup_ends_def lookup_cores_def)
      qed
    qed
  qed
qed

lemma prealloc_ref: "hsh_ocs st a = None \<Longrightarrow> ref_of (HSH_Prealloc S w a b st) = ref_of st"
    "oc \<noteq> a \<Longrightarrow> hsh_ocs (HSH_Prealloc S w a b st) oc = hsh_ocs st oc"
  by (auto simp: HSH_Prealloc_def prealloc_oh_def prealloc_oc_def ref_of_def new_oc_def fun_eq_iff)

lemma prealloc_index:
  assumes "inv (hsh_tbl st)" "sl_oh S (hsh_tbl st) b = None"
  shows "index (hsh_tbl (HSH_Prealloc S w a b st)) = index (hsh_tbl st)"
  using alloc_new [OF assms, of new_oh] by (simp add: HSH_Prealloc_def prealloc_oh_def prealloc_oc_def new_oh_def)

lemma HSH_Lookup_ok:
  assumes inv: "hsh_inv S inv index None st" and sp: "hsh_sess st spa = Some sp" "sp_wrk sp = Some w"
    and fresh: "hsh_ocs st a = None" "sl_oh S (hsh_tbl st) b = None"
  shows "\<exists>oh r st' out. HSH_Lookup vre P S silo healthy spa a b st = Some (r, st') \<and> hsh_inv S inv index None st' \<and>
    lookup_ends out oh spa st r st' \<and>
    (\<not> diag_magic P \<longrightarrow> out = lookup_outcome vre P sp (healthy oh) st (sess_cores S index st sp)) \<and>
    (case sp_objhead sp of Some oh' \<Rightarrow> oh = oh' | None \<Rightarrow> \<not> diag_magic P \<longrightarrow> index (hsh_tbl st') (sp_digest sp) = Some oh)"
proof -
  define st1 where "st1 = HSH_Prealloc S w a b st"
  note pr = prealloc_ok [where w = w, OF inv fresh, folded st1_def]
  have i: "inv (hsh_tbl st)" using inv by (simp add: hsh_inv_def heads_ok_def)
  have ix: "index (hsh_tbl st1) = index (hsh_tbl st)" unfolding st1_def by (rule prealloc_index [OF i fresh(2)])
  have s1: "hsh_sess st1 spa = Some sp" using pr(5) sp(1) by simp
  have r1: "ref_of st1 = ref_of st" unfolding st1_def by (rule prealloc_ref(1) [OF fresh(1)])
  obtain oh st2 where h: "lookup_head P S w spa sp st1 = Some (oh, st2)" "hsh_inv S inv index (Some oh) st2"
    "hsh_ocs st2 = hsh_ocs st1" "hsh_objs st2 = hsh_objs st1" "hsh_bans st2 = hsh_bans st1"
    "hsh_sess st2 = (hsh_sess st1)(spa \<mapsto> sp\<lparr>sp_objhead := None\<rparr>)"
    "\<forall>w'. w_nobjcore (hsh_wrk st2 w') = w_nobjcore (hsh_wrk st1 w')"
    "\<not> diag_magic P \<longrightarrow> cores_at S index st2 oh = sess_cores S index st1 sp"
    "case sp_objhead sp of Some oh' \<Rightarrow> oh = oh' | None \<Rightarrow> \<not> diag_magic P \<longrightarrow> index (hsh_tbl st2) (sp_digest sp) = Some oh"
    using lookup_head_ok [OF pr(1) s1 sp(2) pr(3), of P] by blast
  obtain hh where hh: "sl_oh S (hsh_tbl st2) oh = Some hh" "head_at (Some oh) st2 oh hh" "cores_at S index st2 oh = oh_objcs hh" "oh_refcnt hh > 0"
    by (rule held_head [OF hsh_invD(1) [OF h(2)]])
  have n2: "w_nobjcore (hsh_wrk st2 w) \<noteq> None" using pr(2) h(7) by simp
  have s2: "hsh_sess st2 spa = Some (sp\<lparr>sp_objhead := None\<rparr>)" using h(6) by simp
  obtain r st' where e: "HSH_Lookup vre P S silo healthy spa a b st = Some (r, st')" "hsh_inv S inv index None st'"
    "lookup_ends (lookup_outcome vre P sp (healthy oh) st2 (oh_objcs hh)) oh spa st2 r st'" "index (hsh_tbl st') = index (hsh_tbl st2)"
    using lookup_cores_ok [OF h(2) s2 n2 hh(1), where vre = vre and P = P and silo = silo and b = "healthy oh"] sp h(1) hh(1,4)
    by (auto simp: HSH_Lookup_def st1_def [symmetric])
  have "head_of st2 = head_of st1" using h(3) by (simp add: head_of_def fun_eq_iff)
  then have ho: "head_of st2 = head_of st" using pr(8) by simp
  have "head_of st a = None" using fresh(1) by (simp add: head_of_def)
  then have "a \<notin> set (oh_objcs hh)" using hh(2) ho by (simp add: head_at_def)
  then have oc: "oc \<in> set (oh_objcs hh) \<Longrightarrow> hsh_ocs st2 oc = hsh_ocs st oc" for oc
    using h(3) prealloc_ref(2) [of oc a] by (auto simp: st1_def)
  have "lookup_outcome vre P sp (healthy oh) st2 (oh_objcs hh) = lookup_outcome vre P sp (healthy oh) st (oh_objcs hh)"
    by (rule lookup_outcome_cong [OF oc]) (use h(4,5) pr(6,7) in simp_all)
  moreover have "cores_at S index st1 o1 = cores_at S index st o1" for o1 by (rule cores_at_cong [OF ix pr(9)])
  then have "sess_cores S index st1 sp = sess_cores S index st sp" unfolding sess_cores_def ix by presburger
  ultimately have out: "\<not> diag_magic P \<longrightarrow> lookup_outcome vre P sp (healthy oh) st2 (oh_objcs hh) = lookup_outcome vre P sp (healthy oh) st (sess_cores S index st sp)"
    using h(8) hh(3) by auto
  have rr: "ref_of st2 = ref_of st" using r1 ref_of_same [OF h(3)] by simp
  have "lookup_ends (lookup_outcome vre P sp (healthy oh) st2 (oh_objcs hh)) oh spa st r st'"
    using e(3) unfolding lookup_ends_def ho rr .
  moreover have "case sp_objhead sp of Some oh' \<Rightarrow> oh = oh' | None \<Rightarrow> \<not> diag_magic P \<longrightarrow> index (hsh_tbl st') (sp_digest sp) = Some oh"
    using h(9) e(4) by (simp split: option.splits)
  ultimately show ?thesis using e(1,2) out by blast
qed

end

end
