(* ===== verification/Hash_Refs.thy ===== *)
theory Hash_Refs
  imports Hash_Ops
begin

text \<open>
  The operations that give references back, make an object or end a fetch keep the invariant of
  \<open>cache_hash.c\<close>, for every hash implementation that meets the contract \<open>hash_table\<close>.
\<close>

section \<open>Waking sessions commutes with changes elsewhere\<close>

definition elsewhere where
  "elsewhere ocs objs bans calls n m st =
     st\<lparr>hsh_ocs := ocs, hsh_objs := objs, hsh_bans := bans, hsh_calls := calls, st_object := n, st_objectcore := m\<rparr>"

lemma elsewhere_simps [simp]:
  "hsh_tbl (elsewhere ocs objs bans calls n m st) = hsh_tbl st" "hsh_sess (elsewhere ocs objs bans calls n m st) = hsh_sess st"
  "hsh_wrk (elsewhere ocs objs bans calls n m st) = hsh_wrk st" "hsh_was (elsewhere ocs objs bans calls n m st) = hsh_was st"
  "client_drop_late (elsewhere ocs objs bans calls n m st) = client_drop_late st"
  "hsh_ocs (elsewhere ocs objs bans calls n m st) = ocs" "hsh_objs (elsewhere ocs objs bans calls n m st) = objs"
  "hsh_bans (elsewhere ocs objs bans calls n m st) = bans"
  by (simp_all add: elsewhere_def)

lemma rush_elsewhere:
  "hsh_rush S queue k oh (elsewhere ocs objs bans calls n m st) =
   map_option (elsewhere ocs objs bans calls n m) (hsh_rush S queue k oh st)"
proof (induction k arbitrary: st)
  case (Suc k)
  let ?e = "elsewhere ocs objs bans calls n m"
  have u: "upd_waiting S oh f (?e st) = ?e (upd_waiting S oh f st)" for f by (simp add: elsewhere_def upd_waiting_def)
  have d: "(?e s)\<lparr>hsh_sess := ss, client_drop_late := j\<rparr> = ?e (s\<lparr>hsh_sess := ss, client_drop_late := j\<rparr>)" for s ss j
    by (simp add: elsewhere_def)
  show ?case
  proof (cases "sl_oh S (hsh_tbl st) oh")
    case (Some h)
    show ?thesis
    proof (cases "oh_waitinglist h")
      case (Cons spa ws)
      then show ?thesis
        using Some by (cases "hsh_sess st spa") (auto simp: chk_def Let_def Suc.IH u d)
    qed (use Some in simp)
  qed simp
qed simp

lemma rush_same:
  assumes "hsh_rush S queue k oh st = Some st'"
  shows "hsh_ocs st' = hsh_ocs st" "hsh_objs st' = hsh_objs st" "hsh_bans st' = hsh_bans st" "hsh_calls st' = hsh_calls st"
    "st_object st' = st_object st" "st_objectcore st' = st_objectcore st"
proof -
  let ?e = "elsewhere (hsh_ocs st) (hsh_objs st) (hsh_bans st) (hsh_calls st) (st_object st) (st_objectcore st)"
  have "?e st = st" by (simp add: elsewhere_def)
  then have "Some st' = Some (?e st')" using rush_elsewhere [of S queue k oh "hsh_ocs st" "hsh_objs st" "hsh_bans st" "hsh_calls st" "st_object st" "st_objectcore st" st] assms by simp
  then have e: "st' = ?e st'" by simp
  show "hsh_ocs st' = hsh_ocs st" "hsh_objs st' = hsh_objs st" "hsh_bans st' = hsh_bans st" "hsh_calls st' = hsh_calls st"
    "st_object st' = st_object st" "st_objectcore st' = st_objectcore st"
    by (subst e, simp add: elsewhere_def)+
qed

definition free_calls :: "addr \<Rightarrow> bool \<Rightarrow> object \<Rightarrow> call list" where
  "free_calls oc smp ob = (if o_esidata ob then [Call_ESI_Destroy oc] else []) @
     (if smp then [Call_SMP_FreeObj oc]
      else map Call_STV_free (o_store ob) @ [case o_objstore ob of Some s \<Rightarrow> Call_STV_free s | None \<Rightarrow> Call_free oc])"

lemma free_object_eq:
  "free_object oc smp ob st = st\<lparr>hsh_calls := hsh_calls st @ free_calls oc smp ob, st_object := st_object st - 1\<rparr>"
  by (simp add: free_object_def free_calls_def HSH_Freestore_def Let_def)

lemma ban_inv_forget:
  assumes "ban_inv B" "ban_objs B oc = Some bo" "o_ban bo = None"
  shows "ban_inv (B\<lparr>ban_objs := (ban_objs B)(oc := None)\<rparr>)"
proof -
  have "attached ((ban_objs B)(oc := None)) x = attached (ban_objs B) x" for x using assms(2,3) by (auto simp: attached_def)
  then show ?thesis using assms(1) by (simp add: ban_inv_def ban_good_def)
qed

lemma objs_ok_head: "objs_ok st \<Longrightarrow> hsh_objs st oc \<noteq> None \<Longrightarrow> head_of st oc \<noteq> None"
  unfolding objs_ok_def by blast

lemma objs_ok_new_bans:
  assumes "objs_ok st" "ban_inv B" "ban_objs B = ban_objs (hsh_bans st)"
  shows "objs_ok (st\<lparr>hsh_bans := B\<rparr>)"
proof -
  have f: "head_of (st\<lparr>hsh_bans := B\<rparr>) = head_of st" "hsh_bans (st\<lparr>hsh_bans := B\<rparr>) = B" "hsh_objs (st\<lparr>hsh_bans := B\<rparr>) = hsh_objs st"
    by (simp_all add: head_of_def fun_eq_iff)
  show ?thesis using assms(1,2) unfolding objs_ok_def f assms(3) by blast
qed

lemma cores_ok_bans:
  assumes ok: "cores_ok st" and B: "ban_objs B = (ban_objs (hsh_bans st))(oc \<mapsto> bo)" and nb: "\<not> is_busy st oc"
  shows "cores_ok (st\<lparr>hsh_bans := B\<rparr>)"
  unfolding cores_ok_def
proof (intro allI impI)
  fix a c
  assume "hsh_ocs (st\<lparr>hsh_bans := B\<rparr>) a = Some c"
  then have c: "hsh_ocs st a = Some c" by simp
  note k = cores_okD [OF ok c]
  show "core_ok (hsh_objs (st\<lparr>hsh_bans := B\<rparr>) a) (ban_objs (hsh_bans (st\<lparr>hsh_bans := B\<rparr>)) a) c"
  proof (cases "a = oc")
    case True
    then have "\<not> oc_busy c" using nb c by (simp add: is_busy_def)
    then show ?thesis using k by (simp add: core_ok_def)
  qed (use k B in simp)
qed

section \<open>The ban lurker\<close>

text \<open>One turn of \<open>ban_lurker\<close>, with the reference it takes by \<open>HSH_FindBan\<close>.\<close>

definition lurker_victim :: "'re banst \<Rightarrow> addr option" where
  "lurker_victim B = (let (a, b) = last (ban_head B) in
     if Some a = ban_start B then None else (case b_objcore b of [] \<Rightarrow> None | oc # _ \<Rightarrow> Some oc))"

definition ban_lurker :: "('re, 'v) vre_scheme \<Rightarrow> params \<Rightarrow> 's slinger \<Rightarrow> (addr \<Rightarrow> bool) \<Rightarrow> (addr \<Rightarrow> object \<times> ban_obj) \<Rightarrow> http \<Rightarrow>
    ('s, 're, 'm) hsh_scheme \<Rightarrow> ('s, 're, 'm) hsh_scheme option" where
  "ban_lurker vre P S queue silo req st = do {
     (bf, bans) \<leftarrow> BAN_CheckLast (hsh_bans st);
     let st = st\<lparr>hsh_bans := bans\<rparr>;
     (case bf of
        Some b \<Rightarrow> do { BAN_Free b; Some st }
      | None \<Rightarrow> (case lurker_victim bans of
          None \<Rightarrow> Some st
        | Some oc \<Rightarrow> do {
            (r, st) \<leftarrow> HSH_FindBan S silo oc st;
            (case r of
               None \<Rightarrow> Some st
             | Some oc \<Rightarrow> do {
                 c \<leftarrow> hsh_ocs st oc;
                 chk (\<not> oc_persistent c);
                 _ \<leftarrow> hsh_objs st oc;
                 (i, bans) \<leftarrow> ban_check_object vre oc req False (hsh_bans st);
                 HSH_Deref P S queue oc (st\<lparr>hsh_bans := bans\<rparr>) }) })) }"

lemma lurk_object_ok:
  assumes "ban_inv B" "ban_objs B oc = Some bo" "o_ban bo \<noteq> None"
  shows "\<exists>r B' bo'. ban_check_object vre oc req False B = Some (r, B') \<and> ban_inv B' \<and> ban_objs B' = (ban_objs B)(oc \<mapsto> bo') \<and>
    (o_cacheable bo' \<longrightarrow> o_ban bo' \<noteq> None)"
proof -
  obtain a where a: "o_ban bo = Some a" using assms(3) by blast
  obtain w where w: "ban_walk vre (ban_head B) a (o_http bo) req False = Some w"
    using ban_walk_lurker [OF ban_inv_attached(1) [OF assms(1,2) a] ban_inv_wf [OF assms(1)]] by metis
  from ban_check_object_walk [OF assms(1,2) a w] obtain r B' bo' where
    c: "ban_check_object vre oc req False B = Some (r, B')" "ban_inv B'"
      "\<forall>oc'. oc' \<noteq> oc \<longrightarrow> ban_objs B' oc' = ban_objs B oc'" "ban_objs B' oc = Some bo'"
      "o_ban bo' = (case w of Banned \<Rightarrow> None | Not_banned \<Rightarrow> ban_start B | Needs_request \<Rightarrow> Some a)"
      "w = Banned \<longrightarrow> o_ttl bo' = 0 \<and> \<not> o_cacheable bo'" by blast
  have "ban_start B \<noteq> None" using ban_inv_start [OF assms(1)] by (metis option.distinct(1))
  then have "o_cacheable bo' \<longrightarrow> o_ban bo' \<noteq> None" using c(5,6) by (cases w) auto
  moreover have "ban_objs B' = (ban_objs B)(oc \<mapsto> bo')" using c(3,4) by auto
  ultimately show ?thesis using c(1,2) by blast
qed

lemma lurker_victim_attached:
  assumes "ban_inv B" "lurker_victim B = Some oc"
  obtains bo where "ban_objs B oc = Some bo" "o_ban bo \<noteq> None"
proof -
  obtain a b where ab: "last (ban_head B) = (a, b)" by (cases "last (ban_head B)")
  then have "(a, b) \<in> set (ban_head B)" using assms(1) by (metis ban_inv_def last_in_set)
  then have "set (b_objcore b) = attached (ban_objs B) a" using assms(1) by (fastforce simp: ban_inv_def ban_good_def)
  moreover have "oc \<in> set (b_objcore b)" using assms(2) ab by (auto simp: lurker_victim_def split: if_splits list.splits)
  ultimately show ?thesis using that by (auto simp: attached_def)
qed

context hash_table
begin

text \<open>Waking sessions, giving the object head back, taking an object core away.\<close>

lemma rush_inv:
  assumes inv: "hsh_inv S inv index x st" and oh: "oh \<in> heads index (hsh_tbl st)"
  shows "\<exists>st'. hsh_rush S queue n oh st = Some st' \<and> hsh_inv S inv index x st' \<and> heads index (hsh_tbl st') = heads index (hsh_tbl st)"
proof -
  note p = hsh_invD [OF inv]
  obtain st' where st': "hsh_rush S queue n oh st = Some st'" "heads_ok S inv index x st'" "rushed S index oh st st'"
    using rush_ok [OF p(1) oh] by blast
  then show ?thesis
    using rushed_rest [OF st'(3) oh] p rushed_fields(7) [OF st'(3)] by (blast intro: hsh_invI)
qed

lemma drop_held:
  assumes inv: "hsh_inv S inv index (Some oh) st"
  shows "\<exists>t n. drop_head S oh st = Some (st\<lparr>hsh_tbl := t, st_objecthead := n\<rparr>) \<and>
    hsh_inv S inv index None (st\<lparr>hsh_tbl := t, st_objecthead := n\<rparr>)"
proof -
  note p = hsh_invD [OF inv]
  have oh: "oh \<in> heads index (hsh_tbl st)" using p(1) by (auto simp: heads_ok_def)
  obtain t n where t: "drop_head S oh st = Some (st\<lparr>hsh_tbl := t, st_objecthead := n\<rparr>)"
    "heads_ok S inv index None (st\<lparr>hsh_tbl := t, st_objecthead := n\<rparr>)"
    "heads index t \<subseteq> heads index (hsh_tbl st)" "\<forall>a. a \<noteq> oh \<longrightarrow> sl_oh S t a = sl_oh S (hsh_tbl st) a"
    using drop_head_ok [OF p(1)] by blast
  let ?st = "st\<lparr>hsh_tbl := t, st_objecthead := n\<rparr>"
  have f: "head_of ?st = head_of st" by (simp add: head_of_def fun_eq_iff)
  have "spare_oh S index (hsh_tbl st) a \<Longrightarrow> spare_oh S index t a" for a
    by (rule spare_keep [OF _ t(3) oh]) (use t(4) in auto)
  then have "wrk_ok S index ?st" by (intro wrk_ok_mono [OF p(2)]) simp_all
  moreover have "cores_ok ?st" using p(3) by (simp add: cores_ok_def)
  moreover have "objs_ok ?st" by (rule objs_ok_same [OF p(4) _ _ f]) simp_all
  moreover have "misc_ok ?st" using p(5) by (simp add: misc_ok_def)
  ultimately show ?thesis using t(1,2) by (blast intro: hsh_invI)
qed

lemma forget_core:
  assumes inv: "hsh_inv S inv index None st" and oc: "head_of st oc = Some oh"
    and tbl: "hsh_tbl z = sl_upd S (hsh_tbl st) oh (\<lambda>h. h\<lparr>oh_objcs := remove1 oc (oh_objcs h)\<rparr>)"
    and f: "hsh_ocs z = (hsh_ocs st)(oc := None)" "hsh_sess z = hsh_sess st" "hsh_wrk z = hsh_wrk st" "hsh_was z = hsh_was st"
      "client_drop_late z = client_drop_late st"
    and objs: "objs_ok z" "\<And>a. a \<noteq> oc \<Longrightarrow> hsh_objs z a = hsh_objs st a"
      "\<And>a. a \<noteq> oc \<Longrightarrow> ban_objs (hsh_bans z) a = ban_objs (hsh_bans st) a"
  shows "hsh_inv S inv index (Some oh) z" "oh \<in> heads index (hsh_tbl z)"
proof -
  note p = hsh_invD [OF inv]
  have ho: "head_of z = (head_of st)(oc := None)" using f(1) by (auto simp: head_of_def fun_eq_iff)
  note r = remove_core [OF p(1) oc tbl ho f(2,5)]
  have oh: "oh \<in> heads index (hsh_tbl st)" using p(1) oc by (auto simp: heads_ok_def)
  have hd: "heads index (hsh_tbl z) = heads index (hsh_tbl st)" by (rule heads_cong) (rule r(2))
  show "oh \<in> heads index (hsh_tbl z)" using oh hd by simp
  show "hsh_inv S inv index (Some oh) z"
  proof (rule hsh_invI [OF r(1) _ _ objs(1)])
    have "spare_oh S index (hsh_tbl st) a \<Longrightarrow> spare_oh S index (hsh_tbl z) a" for a
      by (rule spare_keep [OF _ _ oh]) (use r(3) hd in auto)
    moreover have "hsh_ocs st oc \<noteq> Some new_oc" using oc by (auto simp: head_of_def new_oc_def)
    ultimately show "wrk_ok S index z" by (intro wrk_ok_mono [OF p(2)]) (use f in auto)
    show "cores_ok z" using p(3) f(1) objs(2,3) by (simp add: cores_ok_def)
    show "misc_ok z" using p(5) f by (simp add: misc_ok_def)
  qed
qed

section \<open>References to object cores\<close>

lemma core_head:
  assumes "hsh_inv S inv index x st" "head_of st oc = Some oh"
  obtains h where "oh \<in> heads index (hsh_tbl st)" "sl_oh S (hsh_tbl st) oh = Some h" "oh_refcnt h > 0"
proof -
  have i: "inv (hsh_tbl st)" and oh: "oh \<in> heads index (hsh_tbl st)"
    using hsh_invD(1) [OF assms(1)] assms(2) unfolding heads_ok_def by blast+
  show ?thesis using head_in_mem [OF i oh] that oh by blast
qed

lemma HSH_Ref_ok:
  assumes inv: "hsh_inv S inv index None st" and oc: "hsh_objs st oc \<noteq> None"
  shows "\<exists>st'. HSH_Ref S oc st = Some st' \<and> hsh_inv S inv index None st' \<and> ref_of st' = (ref_of st)(oc := ref_of st oc + 1)"
proof -
  note p = hsh_invD [OF inv]
  obtain c oh where c: "hsh_ocs st oc = Some c" "oc_objhead c = Some oh"
    using objs_ok_head [OF p(4), of oc] oc by (auto simp: head_of_def bind_eq_Some_conv)
  have ho: "head_of st oc = Some oh" using c by (simp add: head_of_def)
  obtain h where h: "sl_oh S (hsh_tbl st) oh = Some h" by (rule core_head [OF inv ho])
  note k = cores_okD [OF p(3) c(1)]
  let ?c = "c\<lparr>oc_refcnt := oc_refcnt c + 1\<rparr>"
  let ?st = "st\<lparr>hsh_ocs := (hsh_ocs st)(oc \<mapsto> ?c)\<rparr>"
  have "hsh_inv S inv index None ?st"
    by (rule hsh_inv_core [OF inv c]) (use c k oc in \<open>auto simp: core_ok_def\<close>)
  moreover have "HSH_Ref S oc st = Some ?st" using c h k by (simp add: HSH_Ref_def upd_oc_def core_ok_def)
  moreover have "ref_of ?st = (ref_of st)(oc := ref_of st oc + 1)" using c by (auto simp: ref_of_def fun_eq_iff)
  ultimately show ?thesis by blast
qed

lemma deref_more_ok:
  assumes inv: "hsh_inv S inv index None st" and oc: "hsh_objs st oc \<noteq> None" and r: "ref_of st oc > 1"
  shows "\<exists>st'. HSH_Deref P S queue oc st = Some st' \<and> hsh_inv S inv index None st' \<and>
    ref_of st' = (ref_of st)(oc := ref_of st oc - 1) \<and> hsh_objs st' = hsh_objs st"
proof -
  note p = hsh_invD [OF inv]
  obtain c oh where c: "hsh_ocs st oc = Some c" "oc_objhead c = Some oh" "oc_refcnt c > 1"
    using r by (auto simp: ref_of_def split: option.splits if_splits)
  have ho: "head_of st oc = Some oh" using c by (simp add: head_of_def)
  obtain h where oh: "oh \<in> heads index (hsh_tbl st)" and h: "sl_oh S (hsh_tbl st) oh = Some h" "oh_refcnt h > 0"
    by (rule core_head [OF inv ho])
  note k = cores_okD [OF p(3) c(1)]
  let ?c = "c\<lparr>oc_refcnt := oc_refcnt c - 1\<rparr>"
  let ?st = "st\<lparr>hsh_ocs := (hsh_ocs st)(oc \<mapsto> ?c)\<rparr>"
  have i: "hsh_inv S inv index None ?st"
    by (rule hsh_inv_core [OF inv c(1,2)]) (use c k oc in \<open>auto simp: core_ok_def\<close>)
  obtain st' where st': "hsh_rush S queue (rush_exponent P) oh ?st = Some st'" "hsh_inv S inv index None st'"
    using rush_inv [OF i, of oh queue "rush_exponent P"] oh by auto
  have "HSH_Deref P S queue oc st = Some st'"
    using c h st'(1) by (simp add: HSH_Deref_def upd_oc_def Let_def)
  moreover have "ref_of st' = (ref_of st)(oc := ref_of st oc - 1)"
    using rush_same(1) [OF st'(1)] c by (auto simp: ref_of_def fun_eq_iff)
  ultimately show ?thesis using st'(2) rush_same(2) [OF st'(1)] by simp
qed

text \<open>The last reference: the object leaves the bans and its memory is freed, then the object head goes.\<close>

lemma deref_last_ok:
  assumes inv: "hsh_inv S inv index None st" and oc: "hsh_objs st oc = Some ob" and r: "ref_of st oc = 1"
    and smp: "hsh_ocs st oc = Some c"
  shows "\<exists>st'. HSH_Deref P S queue oc st = Some st' \<and> hsh_inv S inv index None st' \<and>
    ref_of st' = (ref_of st)(oc := 0) \<and> hsh_ocs st' = (hsh_ocs st)(oc := None) \<and> hsh_objs st' = (hsh_objs st)(oc := None) \<and>
    hsh_calls st' = hsh_calls st @ free_calls oc (oc_smp_seg c) ob"
proof -
  note p = hsh_invD [OF inv]
  obtain oh where c: "oc_objhead c = Some oh" "oc_refcnt c = 1" using r smp by (auto simp: ref_of_def split: if_splits)
  have ho: "head_of st oc = Some oh" using smp c by (simp add: head_of_def)
  obtain h where oh: "oh \<in> heads index (hsh_tbl st)" and h: "sl_oh S (hsh_tbl st) oh = Some h" "oh_refcnt h > 0"
    by (rule core_head [OF inv ho])
  have bi: "ban_inv (hsh_bans st)" using p(4) by (simp add: objs_ok_def)
  obtain bo where bo: "ban_objs (hsh_bans st) oc = Some bo" using objs_okD [OF p(4), of oc] oc by auto
  obtain B where B: "BAN_DestroyObj oc (hsh_bans st) = Some B" "ban_inv B"
    "ban_objs B = (ban_objs (hsh_bans st))(oc \<mapsto> bo\<lparr>o_ban := None\<rparr>)"
    using BAN_DestroyObj_ok [OF bi bo] by blast
  let ?B = "B\<lparr>ban_objs := (ban_objs B)(oc := None)\<rparr>"
  let ?e = "elsewhere ((hsh_ocs st)(oc := None)) ((hsh_objs st)(oc := None)) ?B (hsh_calls st @ free_calls oc (oc_smp_seg c) ob)
    (st_object st - 1) (st_objectcore st - 1)"
  let ?s1 = "upd_objcs S oh (remove1 oc) (upd_oc oc (\<lambda>c. c\<lparr>oc_refcnt := 0\<rparr>) st)"
  have hz: "head_of (?e ?s1) = (head_of st)(oc := None)" by (auto simp: head_of_def fun_eq_iff)
  have "ban_inv ?B" by (rule ban_inv_forget [OF B(2), of oc "bo\<lparr>o_ban := None\<rparr>"]) (simp_all add: B(3))
  then have "objs_ok (?e ?s1)"
    using p(4) hz unfolding objs_ok_def by (simp add: B(3))
  then have z: "hsh_inv S inv index (Some oh) (?e ?s1)" "oh \<in> heads index (hsh_tbl (?e ?s1))"
    using forget_core [OF inv ho, of "?e ?s1"] by (simp_all add: upd_objcs_def upd_oc_def B(3))
  obtain z' where z': "hsh_rush S queue (rush_exponent P) oh (?e ?s1) = Some z'" "hsh_inv S inv index (Some oh) z'"
    using rush_inv [OF z] by blast
  then obtain s2 where s2: "hsh_rush S queue (rush_exponent P) oh ?s1 = Some s2" "z' = ?e s2"
    unfolding rush_elsewhere map_option_eq_Some by metis
  note f = rush_same [OF s2(1)]
  obtain t n where t: "drop_head S oh z' = Some (z'\<lparr>hsh_tbl := t, st_objecthead := n\<rparr>)" "hsh_inv S inv index None (z'\<lparr>hsh_tbl := t, st_objecthead := n\<rparr>)"
    using drop_held [OF z'(2)] by blast
  have "z' = (free_object oc (oc_smp_seg c) ob s2)\<lparr>hsh_bans := ?B, hsh_objs := (hsh_objs s2)(oc := None), hsh_ocs := (hsh_ocs s2)(oc := None),
      st_objectcore := st_objectcore s2 - 1\<rparr>"
    unfolding s2(2) using f by (simp add: free_object_eq elsewhere_def upd_objcs_def upd_oc_def)
  then have run: "HSH_Deref P S queue oc st = Some (z'\<lparr>hsh_tbl := t, st_objecthead := n\<rparr>)"
    using smp c h s2(1) f(1-3) oc B(1,3) t(1) by (simp add: HSH_Deref_def Let_def upd_oc_def upd_objcs_def free_object_eq)
  have "hsh_ocs z' = (hsh_ocs st)(oc := None)" "hsh_objs z' = (hsh_objs st)(oc := None)"
    "hsh_calls z' = hsh_calls st @ free_calls oc (oc_smp_seg c) ob" by (simp_all add: s2(2)) (simp add: elsewhere_def)
  then show ?thesis using run t(2) by (auto simp: ref_of_def fun_eq_iff)
qed

lemma HSH_Deref_ok:
  assumes inv: "hsh_inv S inv index None st" and oc: "hsh_objs st oc \<noteq> None"
  shows "\<exists>st'. HSH_Deref P S queue oc st = Some st' \<and> hsh_inv S inv index None st' \<and> ref_of st oc > 0 \<and>
    ref_of st' = (ref_of st)(oc := ref_of st oc - 1)"
proof -
  note p = hsh_invD [OF inv]
  obtain c oh where c: "hsh_ocs st oc = Some c" "oc_objhead c = Some oh"
    using objs_ok_head [OF p(4), of oc] oc by (auto simp: head_of_def bind_eq_Some_conv)
  then have "ref_of st oc > 0" using cores_okD [OF p(3) c(1)] by (simp add: ref_of_def core_ok_def)
  then consider "ref_of st oc = 1" | "ref_of st oc > 1" by linarith
  then show ?thesis
  proof cases
    case 1
    obtain ob where "hsh_objs st oc = Some ob" using oc by blast
    from deref_last_ok [OF inv this 1 c(1)] show ?thesis using 1 by fastforce
  next
    case 2
    then show ?thesis using deref_more_ok [OF inv oc 2, of P queue] by auto
  qed
qed

text \<open>A fetch that gives up before it has an object.\<close>

lemma HSH_DerefObjCore_ok:
  assumes inv: "hsh_inv S inv index None st" and oc: "head_of st oc = Some oh" "hsh_objs st oc = None"
  shows "\<exists>st'. HSH_DerefObjCore P S queue oh oc st = Some st' \<and> hsh_inv S inv index None st' \<and> ref_of st oc = 1 \<and>
    ref_of st' = (ref_of st)(oc := 0)"
proof -
  note p = hsh_invD [OF inv]
  obtain c where c: "hsh_ocs st oc = Some c" "oc_objhead c = Some oh" using oc(1) by (auto simp: head_of_def bind_eq_Some_conv)
  note k = cores_okD [OF p(3) c(1)]
  have b: "oc_busy c" "oc_refcnt c = 1" using k oc(2) c(2) by (auto simp: core_ok_def)
  obtain h where oh: "oh \<in> heads index (hsh_tbl st)" and h: "sl_oh S (hsh_tbl st) oh = Some h" by (rule core_head [OF inv oc(1)])
  let ?s1 = "upd_objcs S oh (remove1 oc) st"
  let ?e = "elsewhere ((hsh_ocs st)(oc := None)) (hsh_objs st) (hsh_bans st) (hsh_calls st) (st_object st) (st_objectcore st - 1)"
  have hz: "head_of (?e ?s1) = (head_of st)(oc := None)" by (auto simp: head_of_def fun_eq_iff)
  have "objs_ok (?e ?s1)" by (rule objs_ok_heads [OF p(4)]) (use hz oc in auto)
  then have z: "hsh_inv S inv index (Some oh) (?e ?s1)" "oh \<in> heads index (hsh_tbl (?e ?s1))"
    using forget_core [OF inv oc(1), of "?e ?s1"] by (simp_all add: upd_objcs_def)
  obtain z' where z': "hsh_rush S queue (rush_exponent P) oh (?e ?s1) = Some z'" "hsh_inv S inv index (Some oh) z'"
    using rush_inv [OF z] by blast
  then obtain s2 where s2: "hsh_rush S queue (rush_exponent P) oh ?s1 = Some s2" "z' = ?e s2"
    unfolding rush_elsewhere map_option_eq_Some by metis
  note f = rush_same [OF s2(1)]
  obtain t n where t: "drop_head S oh z' = Some (z'\<lparr>hsh_tbl := t, st_objecthead := n\<rparr>)" "hsh_inv S inv index None (z'\<lparr>hsh_tbl := t, st_objecthead := n\<rparr>)"
    using drop_held [OF z'(2)] by blast
  have "z' = s2\<lparr>hsh_ocs := (hsh_ocs s2)(oc := None), st_objectcore := st_objectcore s2 - 1\<rparr>"
    unfolding s2(2) using f by (simp add: elsewhere_def upd_objcs_def)
  then have "HSH_DerefObjCore P S queue oh oc st = Some (z'\<lparr>hsh_tbl := t, st_objecthead := n\<rparr>)"
    using c b h s2(1) t(1) by (simp add: HSH_DerefObjCore_def Let_def)
  moreover have "hsh_ocs z' = (hsh_ocs st)(oc := None)" by (simp add: s2(2))
  ultimately show ?thesis using t(2) c b by (auto simp: ref_of_def fun_eq_iff)
qed

lemma HSH_Unbusy_ok:
  assumes inv: "hsh_inv S inv index None st" and oc: "hsh_objs st oc \<noteq> None" "is_busy st oc"
  shows "\<exists>st'. HSH_Unbusy P S queue oc st = Some st' \<and> hsh_inv S inv index None st' \<and> ref_of st' = ref_of st \<and>
    hsh_objs st' = hsh_objs st \<and> \<not> is_busy st' oc"
proof -
  note p = hsh_invD [OF inv]
  obtain c oh where c: "hsh_ocs st oc = Some c" "oc_objhead c = Some oh"
    using objs_ok_head [OF p(4), of oc] oc by (auto simp: head_of_def bind_eq_Some_conv)
  have ho: "head_of st oc = Some oh" using c by (simp add: head_of_def)
  note k = cores_okD [OF p(3) c(1)]
  obtain ob bo where ob: "hsh_objs st oc = Some ob" "ban_objs (hsh_bans st) oc = Some bo" using oc(1) objs_okD [OF p(4), of oc] by auto
  have b: "oc_busy c" using oc(2) c(1) by (simp add: is_busy_def)
  obtain h where oh: "oh \<in> heads index (hsh_tbl st)" and h: "sl_oh S (hsh_tbl st) oh = Some h" "oh_refcnt h > 0" by (rule core_head [OF inv ho])
  let ?c = "c\<lparr>oc_busy := False\<rparr>"
  let ?st = "st\<lparr>hsh_ocs := (hsh_ocs st)(oc \<mapsto> ?c)\<rparr>"
  have i: "hsh_inv S inv index None ?st"
    by (rule hsh_inv_core [OF inv c]) (use c k oc in \<open>auto simp: core_ok_def\<close>)
  obtain st' where st': "hsh_rush S queue (rush_exponent P) oh ?st = Some st'" "hsh_inv S inv index None st'"
    using rush_inv [OF i, of oh queue "rush_exponent P"] oh by auto
  have "HSH_Unbusy P S queue oc st = Some st'"
    using c h st'(1) ob b k by (simp add: HSH_Unbusy_def upd_oc_def core_ok_def)
  moreover have "ref_of st' = ref_of st" "\<not> is_busy st' oc"
    using rush_same(1) [OF st'(1)] c by (auto simp: ref_of_def is_busy_def fun_eq_iff)
  ultimately show ?thesis using st'(2) rush_same(2) [OF st'(1)] by simp
qed

lemma ban_inv_obj:
  assumes "ban_inv B" "ban_objs B oc = Some bo" "o_ban bo' = o_ban bo"
  shows "ban_inv (B\<lparr>ban_objs := (ban_objs B)(oc \<mapsto> bo')\<rparr>)"
proof -
  have "attached ((ban_objs B)(oc \<mapsto> bo')) x = attached (ban_objs B) x" for x
    by (rule attached_upd_same) (use assms(2,3) in simp_all)
  then show ?thesis using assms(1) by (simp add: ban_inv_def ban_good_def)
qed

lemma HSH_Drop_ok:
  assumes inv: "hsh_inv S inv index None st" and oc: "hsh_objs st oc \<noteq> None" "is_busy st oc"
  shows "\<exists>st'. HSH_Drop P S queue oc st = Some st' \<and> hsh_inv S inv index None st' \<and> ref_of st oc > 0 \<and>
    ref_of st' = (ref_of st)(oc := ref_of st oc - 1)"
proof -
  note p = hsh_invD [OF inv]
  obtain c oh where c: "hsh_ocs st oc = Some c" "oc_objhead c = Some oh"
    using objs_ok_head [OF p(4), of oc] oc by (auto simp: head_of_def bind_eq_Some_conv)
  note k = cores_okD [OF p(3) c(1)]
  have b: "oc_busy c" using oc(2) c(1) by (simp add: is_busy_def)
  obtain bo where bo: "ban_objs (hsh_bans st) oc = Some bo" using oc(1) objs_okD [OF p(4), of oc] by auto
  let ?bo = "bo\<lparr>o_ttl := 0, o_cacheable := False\<rparr>"
  let ?B = "(hsh_bans st)\<lparr>ban_objs := (ban_objs (hsh_bans st))(oc \<mapsto> ?bo)\<rparr>"
  let ?st = "st\<lparr>hsh_bans := ?B\<rparr>"
  have "ban_inv (hsh_bans st)" using p(4) by (simp add: objs_ok_def)
  then have B: "ban_inv ?B" by (rule ban_inv_obj [OF _ bo]) simp
  have o: "objs_ok ?st" by (rule objs_ok_bans [OF p(4) B, of oc ?bo]) (use oc in simp_all)
  have "cores_ok ?st" using p(3) k bo c(1) by (auto simp: cores_ok_def core_ok_def)
  then have i: "hsh_inv S inv index None ?st" by (rule hsh_inv_bans [OF inv o])
  obtain st1 where st1: "HSH_Unbusy P S queue oc ?st = Some st1" "hsh_inv S inv index None st1" "ref_of st1 = ref_of ?st" "hsh_objs st1 = hsh_objs ?st"
    using HSH_Unbusy_ok [OF i, of oc P queue] oc by (auto simp: is_busy_def)
  have r: "ref_of ?st = ref_of st" by (rule ref_of_same) simp
  obtain st2 where "HSH_Deref P S queue oc st1 = Some st2" "hsh_inv S inv index None st2" "ref_of st1 oc > 0" "ref_of st2 = (ref_of st1)(oc := ref_of st1 oc - 1)"
    using HSH_Deref_ok [OF st1(2), of oc P queue] oc(1) st1(4) by auto
  then show ?thesis using st1(1,3) r c b k bo by (simp add: HSH_Drop_def core_ok_def)
qed

section \<open>Fetches, the lurker and the surroundings\<close>

lemma link_object_ok:
  assumes inv: "hsh_inv S inv index None st" and oc: "head_of st oc \<noteq> None" "hsh_objs st oc = None"
    and new: "o_ban bo = None" "\<And>v req. o_vary ob = Some v \<Longrightarrow> \<exists>m. VRY_Match req v = Some m"
  shows "\<exists>st'. link_object oc ob bo st = Some st' \<and> hsh_inv S inv index None st' \<and> ref_of st' = ref_of st \<and>
    hsh_objs st' = (hsh_objs st)(oc \<mapsto> ob)"
proof -
  note p = hsh_invD [OF inv]
  have nb: "ban_objs (hsh_bans st) oc = None" using objs_okD [OF p(4), of oc] oc(2) by simp
  let ?B = "(hsh_bans st)\<lparr>ban_objs := (ban_objs (hsh_bans st))(oc \<mapsto> bo)\<rparr>"
  have "ban_inv ?B" using p(4) attached_alloc [OF nb new(1)] by (simp add: objs_ok_def ban_inv_def ban_good_def)
  from BAN_NewObj_ok [OF this, of oc bo] obtain a t B where B: "BAN_NewObj oc ?B = Some B" "ban_inv B"
    "ban_objs B = (ban_objs (hsh_bans st))(oc \<mapsto> bo\<lparr>o_ban := Some a, o_ban_t := t\<rparr>)"
    using new(1) by auto
  let ?st = "st\<lparr>hsh_objs := (hsh_objs st)(oc \<mapsto> ob), hsh_bans := B, st_object := st_object st + 1\<rparr>"
  have run: "link_object oc ob bo st = Some ?st" using B(1) by (simp add: link_object_def)
  have h: "head_of ?st = head_of st" by (simp add: head_of_def fun_eq_iff)
  have "heads_ok S inv index None ?st" by (rule heads_ok_same [OF p(1)]) (use p(1) h in \<open>auto simp: heads_ok_def\<close>)
  moreover have "wrk_ok S index ?st" by (rule wrk_ok_mono [OF p(2)]) auto
  moreover have "cores_ok ?st" using p(3) B(3) by (auto simp: cores_ok_def core_ok_def)
  moreover have "objs_ok ?st"
  proof -
    have "hsh_objs ?st a = None \<longleftrightarrow> ban_objs B a = None" for a using objs_okD [OF p(4), of a] B(3) by simp
    moreover have "ban_objs B a = Some b \<Longrightarrow> o_cacheable b \<Longrightarrow> o_ban b \<noteq> None" for a b
      using p(4) B(3) by (cases "a = oc") (auto simp: objs_ok_def)
    moreover have "hsh_objs ?st a = Some b \<Longrightarrow> o_vary b = Some v \<Longrightarrow> VRY_Match req v \<noteq> None" for a b v req
      using objs_ok_vary [OF p(4), of a b v req] new(2) [of v req] by (cases "a = oc") auto
    moreover have "hsh_objs ?st a \<noteq> None \<Longrightarrow> head_of st a \<noteq> None" for a
      using objs_ok_head [OF p(4), of a] oc(1) by (cases "a = oc") simp_all
    ultimately show ?thesis using B(2) h unfolding objs_ok_def by simp
  qed
  moreover have "misc_ok ?st" using p(5) by (simp add: misc_ok_def)
  ultimately have "hsh_inv S inv index None ?st" by (rule hsh_invI)
  moreover have "ref_of ?st = ref_of st" by (rule ref_of_same) simp
  ultimately show ?thesis using run by simp
qed

lemma ban_lurker_ok:
  assumes inv: "hsh_inv S inv index None st" and calm: "\<And>oc. lurker_victim (hsh_bans st) = Some oc \<Longrightarrow> \<not> is_busy st oc"
  shows "\<exists>st'. ban_lurker vre P S queue silo req st = Some st' \<and> hsh_inv S inv index None st' \<and> ref_of st' = ref_of st"
proof -
  note p = hsh_invD [OF inv]
  have bi: "ban_inv (hsh_bans st)" using p(4) by (simp add: objs_ok_def)
  obtain bf B where B: "BAN_CheckLast (hsh_bans st) = Some (bf, B)" "ban_inv B" "ban_objs B = ban_objs (hsh_bans st)"
    "\<forall>b. bf = Some b \<longrightarrow> BAN_Free b = Some ()"
    using BAN_CheckLast_ok [OF bi, of vre] by blast
  let ?s1 = "st\<lparr>hsh_bans := B\<rparr>"
  have "objs_ok ?s1" by (rule objs_ok_new_bans [OF p(4) B(2,3)])
  then have i1: "hsh_inv S inv index None ?s1" by (rule hsh_inv_bans [OF inv]) (use p(3) in \<open>simp add: cores_ok_def B(3)\<close>)
  note p1 = hsh_invD [OF i1]
  have r1: "ref_of ?s1 = ref_of st" by (rule ref_of_same) simp
  consider b where "bf = Some b" | "bf = None" "lurker_victim B = None" | oc where "bf = None" "lurker_victim B = Some oc" by (cases bf; cases "lurker_victim B") auto
  then show ?thesis
  proof cases
    case 1
    then show ?thesis using B(1,4) i1 r1 by (simp add: ban_lurker_def)
  next
    case 2
    then show ?thesis using B(1) i1 r1 by (simp add: ban_lurker_def)
  next
    case 3
    have "B = hsh_bans st" using B(1) 3(1) by (auto simp: BAN_CheckLast_def Let_def split: if_splits prod.splits list.splits)
    then have nb: "\<not> is_busy st oc" using calm 3(2) by simp
    obtain bo where bo: "ban_objs B oc = Some bo" "o_ban bo \<noteq> None" by (rule lurker_victim_attached [OF B(2) 3(2)])
    then have ob: "hsh_objs ?s1 oc \<noteq> None" using objs_okD [OF p1(4), of oc] by simp
    obtain c oh where c: "hsh_ocs st oc = Some c" "oc_objhead c = Some oh"
      using objs_ok_head [OF p1(4) ob] by (auto simp: head_of_def bind_eq_Some_conv)
    have ho: "head_of ?s1 oc = Some oh" using c by (simp add: head_of_def)
    obtain h where h: "oh \<in> heads index (hsh_tbl ?s1)" "sl_oh S (hsh_tbl ?s1) oh = Some h" by (rule core_head [OF i1 ho])
    have at: "oc \<in> set (oh_objcs h)" using heads_ok_facts(2) [OF p1(1) h(2,1)] ho by (simp add: head_at_def)
    note k = cores_okD [OF p1(3), of oc c, simplified, OF c(1)]
    let ?c = "c\<lparr>oc_refcnt := oc_refcnt c + 1\<rparr>" and ?s2 = "upd_oc oc (\<lambda>c. c\<lparr>oc_refcnt := oc_refcnt c + 1\<rparr>) ?s1"
    have s2: "?s2 = ?s1\<lparr>hsh_ocs := (hsh_ocs ?s1)(oc \<mapsto> ?c)\<rparr>" using c by (simp add: upd_oc_def)
    have i2: "hsh_inv S inv index None ?s2"
      unfolding s2 by (rule hsh_inv_core [OF i1, of oc c oh]) (use c k ob in \<open>auto simp: core_ok_def\<close>)
    note p2 = hsh_invD [OF i2]
    have find: "HSH_FindBan S silo oc ?s1 = Some (Some oc, ?s2)" using c h(2) at k by (simp add: HSH_FindBan_def core_ok_def)
    obtain i B' bo' where B': "ban_check_object vre oc req False B = Some (i, B')" "ban_inv B'" "ban_objs B' = (ban_objs B)(oc \<mapsto> bo')"
      "o_cacheable bo' \<longrightarrow> o_ban bo' \<noteq> None" using lurk_object_ok [OF B(2) bo] by blast
    let ?s3 = "?s2\<lparr>hsh_bans := B'\<rparr>"
    have b2: "hsh_bans ?s2 = B" "hsh_objs ?s2 = hsh_objs st" "hsh_ocs ?s2 = (hsh_ocs st)(oc \<mapsto> ?c)" using c by (simp_all add: upd_oc_def)
    have o3: "objs_ok ?s3" by (rule objs_ok_bans [OF p2(4) B'(2), of oc bo']) (use B'(3,4) b2 ob in simp_all)
    have "cores_ok ?s3" by (rule cores_ok_bans [OF p2(3), of B' oc bo']) (use B'(3) b2 nb c(1) in \<open>simp_all add: is_busy_def\<close>)
    then have i3: "hsh_inv S inv index None ?s3" by (rule hsh_inv_bans [OF i2 o3])
    have ob3: "hsh_objs ?s3 oc \<noteq> None" using ob b2 by simp
    have r3: "ref_of ?s3 = (ref_of st)(oc := ref_of st oc + 1)" using b2 c by (auto simp: ref_of_def fun_eq_iff)
    obtain st' where st': "HSH_Deref P S queue oc ?s3 = Some st'" "hsh_inv S inv index None st'" "ref_of st' = (ref_of ?s3)(oc := ref_of ?s3 oc - 1)"
      using HSH_Deref_ok [OF i3 ob3, of P queue] by blast
    have "ref_of st' = ref_of st" using st'(3) r3 by auto
    moreover have "ban_lurker vre P S queue silo req st = Some st'"
      using B(1) 3 find b2 k B'(1) st'(1) ob by (auto simp: ban_lurker_def core_ok_def)
    ultimately show ?thesis using st'(2) by blast
  qed
qed

lemma HSH_Cleanup_ok:
  assumes inv: "hsh_inv S inv index None st"
  shows "hsh_inv S inv index None (HSH_Cleanup S w st) \<and> ref_of (HSH_Cleanup S w st) = ref_of st"
proof -
  note p = hsh_invD [OF inv]
  define st1 where "st1 = (case w_nobjcore (hsh_wrk st w) of None \<Rightarrow> st
    | Some a \<Rightarrow> st\<lparr>hsh_ocs := (hsh_ocs st)(a := None), st_objectcore := st_objectcore st - 1, hsh_wrk := (hsh_wrk st)(w := (hsh_wrk st w)\<lparr>w_nobjcore := None\<rparr>)\<rparr>)"
  have 1: "hsh_inv S inv index None st1 \<and> ref_of st1 = ref_of st \<and> hsh_tbl st1 = hsh_tbl st"
  proof (cases "w_nobjcore (hsh_wrk st w)")
    case (Some a)
    note c = wrk_okD(2) [OF p(2) Some]
    have h: "head_of st1 = head_of st" using c Some by (auto simp: st1_def head_of_def new_oc_def fun_eq_iff)
    have "heads_ok S inv index None st1" by (rule heads_ok_same [OF p(1)]) (use p(1) h Some in \<open>auto simp: st1_def heads_ok_def\<close>)
    moreover have "wrk_ok S index st1"
    proof (rule wrk_ok_mono [OF p(2)])
      fix w' b
      show "w_nobjhead (hsh_wrk st1 w') = Some b \<Longrightarrow> w_nobjhead (hsh_wrk st w') = Some b"
        "w_nobjcore (hsh_wrk st1 w') = Some b \<Longrightarrow> w_nobjcore (hsh_wrk st w') = Some b"
        using Some by (auto simp: st1_def split: if_splits)
      show "spare_oh S index (hsh_tbl st) b \<Longrightarrow> spare_oh S index (hsh_tbl st1) b" using Some by (simp add: st1_def)
      assume b: "w_nobjcore (hsh_wrk st1 w') = Some b"
      then have "b \<noteq> a" using wrk_okD(3) [OF p(2) Some, of w'] Some by (auto simp: st1_def split: if_splits)
      then show "hsh_ocs st b = Some new_oc \<Longrightarrow> hsh_ocs st1 b = Some new_oc" using Some by (simp add: st1_def)
    qed
    moreover have "cores_ok st1" using p(3) Some by (auto simp: st1_def cores_ok_def)
    moreover have "objs_ok st1" by (rule objs_ok_same [OF p(4) _ _ h]) (simp_all add: st1_def Some)
    moreover have "misc_ok st1" using p(5) Some by (simp add: st1_def misc_ok_def)
    moreover have "ref_of st1 = ref_of st" using c Some by (auto simp: st1_def ref_of_def new_oc_def fun_eq_iff)
    ultimately show ?thesis using Some by (simp add: hsh_inv_def st1_def)
  qed (use inv in \<open>simp add: st1_def\<close>)
  show ?thesis
  proof (cases "w_nobjhead (hsh_wrk st1 w)")
    case None
    then have "HSH_Cleanup S w st = st1" by (simp add: HSH_Cleanup_def st1_def Let_def)
    then show ?thesis using 1 by simp
  next
    case (Some b)
    let ?st = "st1\<lparr>hsh_tbl := sl_free S (hsh_tbl st1) b, st_objecthead := st_objecthead st1 - 1, hsh_wrk := (hsh_wrk st1)(w := (hsh_wrk st1 w)\<lparr>w_nobjhead := None\<rparr>)\<rparr>"
    have e: "HSH_Cleanup S w st = ?st" using Some by (simp add: HSH_Cleanup_def st1_def Let_def)
    have p1: "hsh_inv S inv index None st1" using 1 by simp
    note q = hsh_invD [OF p1]
    note sp = wrk_okD(1) [OF q(2) Some]
    have i: "inv (hsh_tbl st1)" using q(1) by (simp add: heads_ok_def)
    note f = free_spare [OF i spare_oh_spare [OF i sp]]
    have hd: "heads index (sl_free S (hsh_tbl st1) b) = heads index (hsh_tbl st1)" by (rule heads_cong) (use f in simp)
    have nb: "b \<notin> heads index (hsh_tbl st1)" using sp by (simp add: spare_oh_def)
    have h: "head_of ?st = head_of st1" by (simp add: head_of_def fun_eq_iff)
    have "heads_ok S inv index None ?st" by (rule heads_ok_same [OF q(1)]) (use f hd nb h in auto)
    moreover have "wrk_ok S index ?st"
    proof (rule wrk_ok_mono [OF q(2)])
      fix w' a
      show "w_nobjhead (hsh_wrk ?st w') = Some a \<Longrightarrow> w_nobjhead (hsh_wrk st1 w') = Some a"
        "w_nobjcore (hsh_wrk ?st w') = Some a \<Longrightarrow> w_nobjcore (hsh_wrk st1 w') = Some a" by (auto split: if_splits)
      assume a: "w_nobjhead (hsh_wrk ?st w') = Some a"
      then have "a \<noteq> b" using wrk_okD(4) [OF q(2) Some, of w'] by (auto split: if_splits)
      then show "spare_oh S index (hsh_tbl st1) a \<Longrightarrow> spare_oh S index (hsh_tbl ?st) a" using f hd by (simp add: spare_oh_def)
    qed simp
    moreover have "cores_ok ?st" using q(3) by (simp add: cores_ok_def)
    moreover have "objs_ok ?st" by (rule objs_ok_same [OF q(4) _ _ h]) simp_all
    moreover have "misc_ok ?st" using q(5) by (simp add: misc_ok_def)
    moreover have "ref_of ?st = ref_of st1" by (rule ref_of_same) simp
    ultimately show ?thesis unfolding e using 1 by (simp add: hsh_inv_def)
  qed
qed

lemma tick_ok:
  assumes inv: "hsh_inv S inv index None st"
  shows "\<exists>t. sl_tick S (hsh_tbl st) = Some t \<and> hsh_inv S inv index None (st\<lparr>hsh_tbl := t\<rparr>) \<and> ref_of (st\<lparr>hsh_tbl := t\<rparr>) = ref_of st"
proof -
  note p = hsh_invD [OF inv]
  have i: "inv (hsh_tbl st)" using p(1) by (simp add: heads_ok_def)
  obtain t where t: "sl_tick S (hsh_tbl st) = Some t" "inv t" "index t = index (hsh_tbl st)"
    "\<forall>a. refcnt (hsh_tbl st) a > 0 \<longrightarrow> sl_oh S t a = sl_oh S (hsh_tbl st) a" using tick_live [OF i] by blast
  let ?st = "st\<lparr>hsh_tbl := t\<rparr>"
  have m: "sl_oh S t a = sl_oh S (hsh_tbl st) a" if "sl_oh S (hsh_tbl st) a = Some h" "oh_refcnt h > 0" for a h
    using t(4) that by (simp add: refcnt_oh)
  have hd: "heads index t = heads index (hsh_tbl st)" by (rule heads_cong) (rule t(3))
  have h: "head_of ?st = head_of st" by (simp add: head_of_def fun_eq_iff)
  have mh: "oh \<in> heads index (hsh_tbl st) \<Longrightarrow> sl_oh S t oh = sl_oh S (hsh_tbl st) oh" for oh
    using head_in_mem [OF i] m by metis
  have "heads_ok S inv index None ?st"
    by (rule heads_ok_same [OF p(1)]) (use t(2) hd h mh in auto)
  moreover have "spare_oh S index (hsh_tbl st) a \<Longrightarrow> spare_oh S index t a" for a
    using m [of a] hd by (auto simp: spare_oh_def)
  then have "wrk_ok S index ?st" by (intro wrk_ok_mono [OF p(2)]) simp_all
  moreover have "cores_ok ?st" using p(3) by (simp add: cores_ok_def)
  moreover have "objs_ok ?st" by (rule objs_ok_same [OF p(4) _ _ h]) simp_all
  moreover have "misc_ok ?st" using p(5) by (simp add: misc_ok_def)
  moreover have "ref_of ?st = ref_of st" by (rule ref_of_same) simp
  ultimately show ?thesis using t(1) by (auto simp: hsh_inv_def)
qed

text \<open>A session that holds no object head comes, goes, or has a new request; one that was woken gets a worker.\<close>

lemma new_sess_ok:
  assumes inv: "hsh_inv S inv index None st" and no: "waits_at st spa = None"
    and so: "case so of None \<Rightarrow> True | Some sp \<Rightarrow> sp_objhead sp = None \<and> length (sp_digest sp) = DIGEST_LEN"
  shows "hsh_inv S inv index None (st\<lparr>hsh_sess := (hsh_sess st)(spa := so)\<rparr>)"
    "ref_of (st\<lparr>hsh_sess := (hsh_sess st)(spa := so)\<rparr>) = ref_of st"
proof -
  note p = hsh_invD [OF inv]
  let ?st = "st\<lparr>hsh_sess := (hsh_sess st)(spa := so)\<rparr>"
  have h: "head_of ?st = head_of st" by (simp add: head_of_def fun_eq_iff)
  have w: "waits_at ?st = waits_at st" using no so by (auto simp: waits_at_def fun_eq_iff split: option.splits)
  have "head_at x ?st oh hh = head_at x st oh hh" if "\<And>a. a \<in> set (oh_waitinglist hh) \<Longrightarrow> a \<noteq> spa" for x oh hh
    using that h w by (auto simp: head_at_def holders_def)
  moreover have "a \<noteq> spa" if "head_at None st oh hh" "a \<in> set (oh_waitinglist hh)" for oh hh a
    using that no by (auto simp: head_at_def waits_at_def)
  ultimately have "head_ok S None st oh \<Longrightarrow> head_ok S None ?st oh" for oh by (auto simp: head_ok_def)
  then have "heads_ok S inv index None ?st" using p(1) h w by (simp add: heads_ok_def)
  moreover have "wrk_ok S index ?st" by (rule wrk_ok_mono [OF p(2)]) auto
  moreover have "cores_ok ?st" using p(3) by (simp add: cores_ok_def)
  moreover have "objs_ok ?st" by (rule objs_ok_same [OF p(4) _ _ h]) simp_all
  moreover have "misc_ok ?st" using p(5) so by (auto simp: misc_ok_def split: option.splits)
  ultimately show "hsh_inv S inv index None ?st" by (rule hsh_invI)
  show "ref_of ?st = ref_of st" by (rule ref_of_same) simp
qed

lemma wake_ok:
  assumes inv: "hsh_inv S inv index None st" and sp: "hsh_sess st spa = Some sp"
    and off: "\<And>oh h. oh \<in> heads index (hsh_tbl st) \<Longrightarrow> sl_oh S (hsh_tbl st) oh = Some h \<Longrightarrow> spa \<notin> set (oh_waitinglist h)"
  shows "hsh_inv S inv index None (upd_sess spa (\<lambda>sp. sp\<lparr>sp_wrk := Some w\<rparr>) st)"
    "ref_of (upd_sess spa (\<lambda>sp. sp\<lparr>sp_wrk := Some w\<rparr>) st) = ref_of st"
proof -
  note p = hsh_invD [OF inv]
  let ?st = "upd_sess spa (\<lambda>sp. sp\<lparr>sp_wrk := Some w\<rparr>) st"
  have f: "hsh_sess ?st = (hsh_sess st)(spa \<mapsto> sp\<lparr>sp_wrk := Some w\<rparr>)" "head_of ?st = head_of st" "waits_at ?st = waits_at st"
    "hsh_tbl ?st = hsh_tbl st" "client_drop_late ?st = client_drop_late st"
    using sp by (auto simp: upd_sess_def head_of_def waits_at_def fun_eq_iff)
  have "head_at None ?st oh hh = head_at None st oh hh" if "spa \<notin> set (oh_waitinglist hh)" for oh hh
    using that f by (auto simp: head_at_def holders_def)
  then have "oh \<in> heads index (hsh_tbl st) \<Longrightarrow> head_ok S None st oh \<Longrightarrow> head_ok S None ?st oh" for oh
    using off by (auto simp: head_ok_def f)
  then have "heads_ok S inv index None ?st" using p(1) f by (simp add: heads_ok_def)
  moreover have "wrk_ok S index ?st" by (rule wrk_ok_mono [OF p(2)]) (auto simp: upd_sess_def)
  moreover have "cores_ok ?st" using p(3) by (simp add: cores_ok_def upd_sess_def)
  moreover have "objs_ok ?st" by (rule objs_ok_same [OF p(4) _ _ f(2)]) (simp_all add: upd_sess_def)
  moreover have "misc_ok ?st" using p(5) sp by (auto simp: misc_ok_def upd_sess_def)
  ultimately show "hsh_inv S inv index None ?st" by (rule hsh_invI)
  show "ref_of ?st = ref_of st" by (rule ref_of_same) (simp add: upd_sess_def)
qed

end

end
