(* ===== verification/Hash_Run.thy ===== *)
theory Hash_Run
  imports Hash_Refs Ban_Reload
begin

text \<open>
  Runs of the cache: any sequence of the operations of \<open>cache_hash.c\<close>, of bans and of turns of the background
  threads, by callers that keep to the rules.  \<open>held oc\<close> counts the references to the object core \<open>oc\<close>
  that lookups and \<open>HSH_Ref\<close> gave out and that were not given back; a caller may use an object core only while
  it holds a reference.  The theorems are stated for the crit-bit hash, the default of the program.
\<close>

section \<open>Runs\<close>

datatype 're hop =
    Op_Lookup addr addr addr "addr \<Rightarrow> bool"
  | Op_Ref addr
  | Op_Deref addr "addr \<Rightarrow> bool"
  | Op_DerefObjCore addr addr "addr \<Rightarrow> bool"
  | Op_Link addr object ban_obj
  | Op_Unbusy addr "addr \<Rightarrow> bool"
  | Op_Drop addr "addr \<Rightarrow> bool"
  | Op_Cleanup nat
  | Op_Ban nat real bool "'re ban"
  | Op_Lurk http "addr \<Rightarrow> bool"
  | Op_Sess addr "sess option"
  | Op_Wake addr nat
  | Op_Tick

fun hsh_exec :: "('re, 'v) vre_scheme \<Rightarrow> params \<Rightarrow> 's slinger \<Rightarrow> (addr \<Rightarrow> object \<times> ban_obj) \<Rightarrow> 're hop \<Rightarrow> ('s, 're) hsh \<Rightarrow>
    ((addr \<times> addr) option \<times> ('s, 're) hsh) option" where
  "hsh_exec vre P S silo (Op_Lookup spa a b healthy) st = HSH_Lookup vre P S silo healthy spa a b st"
| "hsh_exec vre P S silo (Op_Ref oc) st = map_option (Pair None) (HSH_Ref S oc st)"
| "hsh_exec vre P S silo (Op_Deref oc queue) st = map_option (Pair None) (HSH_Deref P S queue oc st)"
| "hsh_exec vre P S silo (Op_DerefObjCore oh oc queue) st = map_option (Pair None) (HSH_DerefObjCore P S queue oh oc st)"
| "hsh_exec vre P S silo (Op_Link oc ob bo) st = map_option (Pair None) (link_object oc ob bo st)"
| "hsh_exec vre P S silo (Op_Unbusy oc queue) st = map_option (Pair None) (HSH_Unbusy P S queue oc st)"
| "hsh_exec vre P S silo (Op_Drop oc queue) st = map_option (Pair None) (HSH_Drop P S queue oc st)"
| "hsh_exec vre P S silo (Op_Cleanup w) st = Some (None, HSH_Cleanup S w st)"
| "hsh_exec vre P S silo (Op_Ban a now dups b) st =
     map_option (\<lambda>B. (None, st\<lparr>hsh_bans := B\<rparr>)) (BAN_Insert a now dups b (hsh_bans st))"
| "hsh_exec vre P S silo (Op_Lurk req queue) st = map_option (Pair None) (ban_lurker vre P S queue silo req st)"
| "hsh_exec vre P S silo (Op_Sess spa so) st = Some (None, st\<lparr>hsh_sess := (hsh_sess st)(spa := so)\<rparr>)"
| "hsh_exec vre P S silo (Op_Wake spa w) st = Some (None, upd_sess spa (\<lambda>sp. sp\<lparr>sp_wrk := Some w\<rparr>) st)"
| "hsh_exec vre P S silo Op_Tick st = map_option (\<lambda>t. (None, st\<lparr>hsh_tbl := t\<rparr>)) (sl_tick S (hsh_tbl st))"

text \<open>
  What a caller may do: use memory that is free for what it allocates, and an object core it holds a reference
  to, with an object or without as the operation wants it.  The lurker must not meet a busy object.
\<close>

fun allowed :: "'s slinger \<Rightarrow> (addr \<Rightarrow> nat) \<Rightarrow> ('s, 're) hsh \<Rightarrow> 're hop \<Rightarrow> bool" where
  "allowed S held st (Op_Lookup spa a b healthy) \<longleftrightarrow>
     (\<exists>sp w. hsh_sess st spa = Some sp \<and> sp_wrk sp = Some w) \<and> hsh_ocs st a = None \<and> sl_oh S (hsh_tbl st) b = None"
| "allowed S held st (Op_Ref oc) \<longleftrightarrow> held oc > 0 \<and> hsh_objs st oc \<noteq> None"
| "allowed S held st (Op_Deref oc queue) \<longleftrightarrow> held oc > 0 \<and> hsh_objs st oc \<noteq> None"
| "allowed S held st (Op_DerefObjCore oh oc queue) \<longleftrightarrow> held oc > 0 \<and> hsh_objs st oc = None \<and> head_of st oc = Some oh"
| "allowed S held st (Op_Link oc ob bo) \<longleftrightarrow> held oc > 0 \<and> hsh_objs st oc = None \<and> o_ban bo = None \<and>
     (\<forall>v req. o_vary ob = Some v \<longrightarrow> VRY_Match req v \<noteq> None)"
| "allowed S held st (Op_Unbusy oc queue) \<longleftrightarrow> held oc > 0 \<and> hsh_objs st oc \<noteq> None \<and> is_busy st oc"
| "allowed S held st (Op_Drop oc queue) \<longleftrightarrow> held oc > 0 \<and> hsh_objs st oc \<noteq> None \<and> is_busy st oc"
| "allowed S held st (Op_Cleanup w) \<longleftrightarrow> True"
| "allowed S held st (Op_Ban a now dups b) \<longleftrightarrow> ban_fresh b \<and> a \<notin> fst ` set (ban_head (hsh_bans st)) \<and>
     (\<forall>(x, b') \<in> set (ban_head (hsh_bans st)). \<not> b_gone b' \<longrightarrow> b_test b' = ban_text b \<longrightarrow> b_tests b' = b_tests b)"
| "allowed S held st (Op_Lurk req queue) \<longleftrightarrow> (\<forall>oc. lurker_victim (hsh_bans st) = Some oc \<longrightarrow> \<not> is_busy st oc)"
| "allowed S held st (Op_Sess spa so) \<longleftrightarrow> waits_at st spa = None \<and>
     (case so of None \<Rightarrow> True | Some sp \<Rightarrow> sp_objhead sp = None \<and> length (sp_digest sp) = DIGEST_LEN)"
| "allowed S held st (Op_Wake spa w) \<longleftrightarrow> (\<exists>sp. hsh_sess st spa = Some sp) \<and>
     (\<forall>oh h. sl_oh S (hsh_tbl st) oh = Some h \<longrightarrow> spa \<notin> set (oh_waitinglist h))"
| "allowed S held st Op_Tick \<longleftrightarrow> True"

fun hold :: "'re hop \<Rightarrow> (addr \<times> addr) option \<Rightarrow> (addr \<Rightarrow> nat) \<Rightarrow> addr \<Rightarrow> nat" where
  "hold (Op_Lookup spa a b healthy) (Some (oc, oh)) held = held(oc := held oc + 1)"
| "hold (Op_Ref oc) r held = held(oc := held oc + 1)"
| "hold (Op_Deref oc queue) r held = held(oc := held oc - 1)"
| "hold (Op_DerefObjCore oh oc queue) r held = held(oc := held oc - 1)"
| "hold (Op_Drop oc queue) r held = held(oc := held oc - 1)"
| "hold op r held = held"

definition hsh_start :: "'s \<Rightarrow> 're banst \<Rightarrow> ('s, 're) hsh" where
  "hsh_start t B = \<lparr>hsh_tbl = t, hsh_ocs = Map.empty, hsh_objs = Map.empty, hsh_bans = B,
     hsh_wrk = (\<lambda>w. \<lparr>w_nobjcore = None, w_nobjhead = None\<rparr>), hsh_sess = Map.empty, hsh_was = [], hsh_calls = [],
     st_object = 0, st_objectcore = 0, st_objecthead = 0, st_vampire = 0, client_drop_late = 0\<rparr>"

inductive hsh_run :: "('re, 'v) vre_scheme \<Rightarrow> params \<Rightarrow> 's slinger \<Rightarrow> (addr \<Rightarrow> object \<times> ban_obj) \<Rightarrow> ('s, 're) hsh \<Rightarrow>
    ('s, 're) hsh \<Rightarrow> (addr \<Rightarrow> nat) \<Rightarrow> bool" for vre P S silo st0 where
  start: "hsh_run vre P S silo st0 st0 (\<lambda>oc. 0)"
| step: "hsh_run vre P S silo st0 st held \<Longrightarrow> allowed S held st op \<Longrightarrow> hsh_exec vre P S silo op st = Some (r, st') \<Longrightarrow>
    hsh_run vre P S silo st0 st' (hold op r held)"

definition refs_ok :: "('s, 're) hsh \<Rightarrow> (addr \<Rightarrow> nat) \<Rightarrow> bool" where
  "refs_ok st held \<longleftrightarrow> (\<forall>oc. ref_of st oc = int (held oc))"

lemma ban_init_ok:
  assumes "BAN_Init a now d = Some B"
  shows "ban_inv B" "ban_objs B = Map.empty"
proof -
  have "B = \<lparr>ban_head = [(a, BAN_New\<lparr>b_gone := True, b_t0 := now, b_test := Some [], b_vsb := None\<rparr>)],
      ban_start = Some a, ban_objs = Map.empty, exp_rearmed = []\<rparr>"
    using assms by (simp add: BAN_Init_def BAN_Insert_def insert_head_def BAN_New_def cstr_def)
  then show "ban_inv B" "ban_objs B = Map.empty"
    by (auto simp: ban_inv_def ban_good_def ban_wf_def attached_def BAN_New_def)
qed

context hash_table
begin

lemma hsh_start_inv:
  assumes "inv t" "\<And>d. index t d = None" "ban_inv B" "ban_objs B = Map.empty"
  shows "hsh_inv S inv index None (hsh_start t B)"
  using assms
  by (simp add: hsh_inv_def heads_ok_def heads_def head_of_def waits_at_def wrk_ok_def cores_ok_def objs_ok_def misc_ok_def hsh_start_def)

lemma ban_step_ok:
  assumes inv: "hsh_inv S inv index None st" and B: "ban_inv B" "ban_objs B = ban_objs (hsh_bans st)"
  shows "hsh_inv S inv index None (st\<lparr>hsh_bans := B\<rparr>)" "ref_of (st\<lparr>hsh_bans := B\<rparr>) = ref_of st"
proof -
  note p = hsh_invD [OF inv]
  show "hsh_inv S inv index None (st\<lparr>hsh_bans := B\<rparr>)"
    by (rule hsh_inv_bans [OF inv objs_ok_new_bans [OF p(4) B]]) (use p(3) B(2) in \<open>simp add: cores_ok_def\<close>)
  show "ref_of (st\<lparr>hsh_bans := B\<rparr>) = ref_of st" by (rule ref_of_same) simp
qed

lemma lookup_held:
  assumes "lookup_ends out oh spa st r st'" "refs_ok st held"
  shows "refs_ok st' (hold (Op_Lookup spa a b healthy) r held)"
  using assms by (cases out) (auto simp: lookup_ends_def refs_ok_def)

lemma ref_1: "refs_ok st held \<Longrightarrow> ref_of st oc = 1 \<Longrightarrow> held oc = 1"
  by (simp add: refs_ok_def)

text \<open>Every allowed operation returns, keeps the invariant and counts its references.\<close>

lemma hsh_exec_ok:
  assumes inv: "hsh_inv S inv index None st" and refs: "refs_ok st held" and ok: "allowed S held st op"
  shows "\<exists>r st'. hsh_exec vre P S silo op st = Some (r, st') \<and> hsh_inv S inv index None st' \<and> refs_ok st' (hold op r held)"
proof (cases op)
  case (Op_Lookup spa a b healthy)
  then obtain sp w where "hsh_sess st spa = Some sp" "sp_wrk sp = Some w" "hsh_ocs st a = None" "sl_oh S (hsh_tbl st) b = None"
    using ok by auto
  from HSH_Lookup_ok [OF inv this, of vre P silo healthy] show ?thesis
    unfolding Op_Lookup hsh_exec.simps using lookup_held [OF _ refs] by blast
next
  case (Op_Ref oc)
  then show ?thesis using HSH_Ref_ok [OF inv, of oc] ok refs by (fastforce simp: refs_ok_def)
next
  case (Op_Deref oc queue)
  then show ?thesis using HSH_Deref_ok [OF inv, of oc P queue] ok refs by (fastforce simp: refs_ok_def of_nat_diff)
next
  case (Op_DerefObjCore oh oc queue)
  then show ?thesis using HSH_DerefObjCore_ok [OF inv, of oc oh P queue] ok refs ref_1 [OF refs, of oc] by (fastforce simp: refs_ok_def)
next
  case (Op_Link oc ob bo)
  have "ref_of st oc > 0" using ok refs Op_Link by (simp add: refs_ok_def)
  then have "head_of st oc \<noteq> None" by (auto simp: ref_of_def head_of_def split: option.splits if_splits)
  then show ?thesis using link_object_ok [OF inv, of oc bo ob] ok refs Op_Link by (fastforce simp: refs_ok_def)
next
  case (Op_Unbusy oc queue)
  then show ?thesis using HSH_Unbusy_ok [OF inv, of oc P queue] ok refs by (fastforce simp: refs_ok_def)
next
  case (Op_Drop oc queue)
  then show ?thesis using HSH_Drop_ok [OF inv, of oc P queue] ok refs by (fastforce simp: refs_ok_def of_nat_diff)
next
  case (Op_Cleanup w)
  then show ?thesis using HSH_Cleanup_ok [OF inv, of w] refs by (simp add: refs_ok_def)
next
  case (Op_Ban a now dups b)
  have bi: "ban_inv (hsh_bans st)" using inv by (simp add: hsh_inv_def objs_ok_def)
  obtain B where "BAN_Insert a now dups b (hsh_bans st) = Some B" "ban_inv B" "ban_objs B = ban_objs (hsh_bans st)"
    using BAN_Insert_ok [OF bi, where b = b and a = a and now = now and purge_dups = dups and vre = vre and req = undefined] ok Op_Ban by auto
  then show ?thesis using ban_step_ok [OF inv, of B] refs Op_Ban by (simp add: refs_ok_def)
next
  case (Op_Lurk req queue)
  then show ?thesis using ban_lurker_ok [OF inv, of vre P queue silo req] ok refs by (fastforce simp: refs_ok_def)
next
  case (Op_Sess spa so)
  then show ?thesis using new_sess_ok [OF inv, of spa so] ok refs by (simp add: refs_ok_def)
next
  case (Op_Wake spa w)
  then obtain sp where "hsh_sess st spa = Some sp" using ok by auto
  from wake_ok [OF inv this, of w] show ?thesis using ok refs Op_Wake by (simp add: refs_ok_def)
next
  case Op_Tick
  then show ?thesis using tick_ok [OF inv] refs by (fastforce simp: refs_ok_def)
qed

lemma hsh_run_ok:
  assumes "hsh_run vre P S silo (hsh_start t B) st held" "inv t" "\<And>d. index t d = None" "ban_inv B" "ban_objs B = Map.empty"
  shows "hsh_inv S inv index None st \<and> refs_ok st held"
  using assms(1)
proof induction
  case start
  have "refs_ok (hsh_start t B) (\<lambda>oc. 0)" by (simp add: refs_ok_def ref_of_def hsh_start_def)
  then show ?case using hsh_start_inv [OF assms(2-5)] by simp
next
  case (step st held op r st')
  then show ?case using hsh_exec_ok [of st held op vre P silo] by auto
qed

end

section \<open>The cache on the crit-bit hash\<close>

abbreviation hcb_cache_start :: "'re banst \<Rightarrow> (hcb, 're) hsh" where
  "hcb_cache_start B \<equiv> hsh_start (hcb_start Map.empty 0) B"

lemma hcb_start_index: "hcb_index (hcb_start Map.empty n) d = None"
  by (simp add: hcb_index_def hcb_start_def)

lemma hcb_run_ok:
  assumes "BAN_Init a now d = Some B" "hsh_run vre P hcb_slinger silo (hcb_cache_start B) st held"
  shows "hsh_inv hcb_slinger hcb_inv hcb_index None st" "refs_ok st held"
  using hcb_tbl.hsh_run_ok [OF assms(2) hcb_start_inv hcb_start_index ban_init_ok [OF assms(1)]] by simp_all




text \<open>
  C6 (functional).  Giving the last reference back frees the object: it leaves the cache, its ban and the list of its
  object head, its storage and then its own memory are freed exactly once, in order, and nothing else is freed.
\<close>
theorem HSH_Deref_last_frees:
  assumes "BAN_Init a now d = Some B" "hsh_run vre P hcb_slinger silo (hcb_cache_start B) st held"
    "held oc = 1" "hsh_objs st oc = Some ob" "hsh_ocs st oc = Some c"
  shows "\<exists>st'. HSH_Deref P hcb_slinger queue oc st = Some st' \<and> hsh_ocs st' = (hsh_ocs st)(oc := None) \<and>
    hsh_objs st' = (hsh_objs st)(oc := None) \<and> ban_objs (hsh_bans st') oc = None \<and>
    (\<forall>oh h. sl_oh hcb_slinger (hsh_tbl st') oh = Some h \<longrightarrow> (\<exists>dg. hcb_index (hsh_tbl st') dg = Some oh) \<longrightarrow> oc \<notin> set (oh_objcs h)) \<and>
    hsh_calls st' = hsh_calls st @ (if o_esidata ob then [Call_ESI_Destroy oc] else []) @
      (if oc_smp_seg c then [Call_SMP_FreeObj oc]
       else map Call_STV_free (o_store ob) @ [case o_objstore ob of Some s \<Rightarrow> Call_STV_free s | None \<Rightarrow> Call_free oc])"
proof -
  note r = hcb_run_ok [OF assms(1,2)]
  have "ref_of st oc = 1" using r(2) assms(3) by (simp add: refs_ok_def)
  then obtain st' where st': "HSH_Deref P hcb_slinger queue oc st = Some st'" "hsh_inv hcb_slinger hcb_inv hcb_index None st'"
    "hsh_ocs st' = (hsh_ocs st)(oc := None)" "hsh_objs st' = (hsh_objs st)(oc := None)"
    "hsh_calls st' = hsh_calls st @ free_calls oc (oc_smp_seg c) ob"
    using hcb_tbl.deref_last_ok [OF r(1) assms(4) _ assms(5), of P queue] by blast
  have "ban_objs (hsh_bans st') oc = None" using objs_okD [OF hsh_invD(4) [OF st'(2)], of oc] st'(4) by simp
  moreover have "oc \<notin> set (oh_objcs h)"
    if "sl_oh hcb_slinger (hsh_tbl st') oh = Some h" "hcb_index (hsh_tbl st') dg = Some oh" for oh h dg
  proof -
    have "oh \<in> heads hcb_index (hsh_tbl st')" using that(2) by (auto simp: heads_def)
    from hcb_tbl.heads_ok_facts(2) [OF hsh_invD(1) [OF st'(2)] that(1) this]
    show ?thesis using st'(3) by (simp add: head_at_def head_of_def)
  qed
  ultimately show ?thesis using st' by (auto simp: free_calls_def)
qed

section \<open>A concrete run\<close>

text \<open>A session misses, gets an object core and links its object to it; then a ban on a header of the object is added.\<close>

definition hx_obj :: object where
  "hx_obj = \<lparr>o_grace = None, o_vary = None, o_hits = 0, o_entered = None, o_last_lru = 0, o_store = [21, 22], o_objstore = Some 23, o_esidata = False\<rparr>"

definition hx_bo :: ban_obj where
  "hx_bo = \<lparr>o_http = ex_msg, o_ban = None, o_ban_t = 0, o_ttl = 160, o_cacheable = True\<rparr>"

definition hx_silo :: "addr \<Rightarrow> object \<times> ban_obj" where
  "hx_silo = (\<lambda>_. (hx_obj, hx_bo))"

definition hx_P :: params where "hx_P = \<lparr>default_grace = 10, rush_exponent = 3, diag_magic = False\<rparr>"

definition hx_sess :: sess where
  "hx_sess = \<lparr>sp_wrk = Some 0, sp_esis = 0, sp_http = ex_msg, sp_digest = replicate 32 7, sp_t_req = 100, sp_grace = None, sp_objhead = None\<rparr>"

definition hx_bans :: "string banst" where
  "hx_bans = \<lparr>ban_head = [(1, BAN_New\<lparr>b_gone := True, b_t0 := 0, b_test := Some [], b_vsb := None\<rparr>)], ban_start = Some 1, ban_objs = Map.empty, exp_rearmed = []\<rparr>"

definition hx_st1 :: "(hcb, string) hsh" where
  "hx_st1 = (hcb_cache_start hx_bans)\<lparr>hsh_sess := [1 \<mapsto> hx_sess]\<rparr>"

lemma hx_lookup:
  "\<exists>st h. HSH_Lookup ex_vre hx_P hcb_slinger hx_silo (\<lambda>_. True) 1 5 6 hx_st1 = Some (Some (5, 6), st) \<and>
     hsh_ocs st = [5 \<mapsto> new_oc\<lparr>oc_refcnt := 1, oc_objhead := Some 6\<rparr>] \<and> hsh_objs st = Map.empty \<and> hsh_bans st = hx_bans \<and>
     sl_oh hcb_slinger (hsh_tbl st) 6 = Some h \<and> oh_objcs h = [5] \<and> oh_waitinglist h = [] \<and> oh_refcnt h = 1"
  apply (simp add: HSH_Lookup_def hx_st1_def hx_sess_def hsh_start_def HSH_Prealloc_def prealloc_oc_def prealloc_oh_def lookup_head_def test_digest_def hx_P_def)
  apply (simp add: hcb_slinger_def set_oh_def hcb_start_def new_oh_def base_upd_def hcb_lookup_def hcb_lookup_locked_def hcb_insert_def Let_def hwrite.simps oh_update_def)
  by (auto simp: lookup_cores_def lookup_grace_def lookup_new_def upd_objcs_def upd_oc_def new_oc_def base_def base_upd_def objhead.defs hcb_objhead.defs)

definition hx_test :: "string ban_test" where
  "hx_test = \<lparr>bt_func = Some Ban_cond_obj_http, bt_regexp = False, bt_not = True, bt_re = None, bt_dst = Some ''a'', bt_src = Some (H_of ''x'')\<rparr>"

definition hx_ban :: "string ban" where
  "hx_ban = BAN_New\<lparr>b_tests := [hx_test], b_vsb := Some ''obj.http.x != a''\<rparr>"

definition hx_bans3 :: "string banst" where
  "hx_bans3 = \<lparr>ban_head = [(2, hx_ban\<lparr>b_t0 := 5, b_test := Some ''obj.http.x != a'', b_vsb := None\<rparr>),
     (1, BAN_New\<lparr>b_gone := True, b_t0 := 0, b_test := Some [], b_vsb := None, b_refcount := 1, b_objcore := [5]\<rparr>)], ban_start = Some 2,
     ban_objs = [5 \<mapsto> hx_bo\<lparr>o_ban := Some 1\<rparr>], exp_rearmed = []\<rparr>"

lemma hx_link: "hsh_bans st = hx_bans \<Longrightarrow> link_object 5 hx_obj hx_bo st = Some (st\<lparr>hsh_objs := (hsh_objs st)(5 \<mapsto> hx_obj),
    hsh_bans := hx_bans3\<lparr>ban_head := tl (ban_head hx_bans3), ban_start := Some 1\<rparr>, st_object := st_object st + 1\<rparr>)"
  by (simp add: link_object_def BAN_NewObj_def hx_bans_def hx_bo_def hx_bans3_def upd_ban_def attach_def BAN_New_def)

lemma hx_fresh: "ban_fresh hx_ban" "ban_text hx_ban = Some ''obj.http.x != a''"
  by (auto simp: ban_fresh_def hx_ban_def BAN_New_def ban_wf_def test_wf_def hx_test_def ban_text_def cstr_def NUL_def src_wf_def
      intro!: exI [of _ "''x''"])

lemma hx_header: "http_GetHdr ex_msg (H_of ''x'') = Some None"
  by (simp add: http_GetHdr_def H_of_def http_findhdr_def ex_msg_def HTTP_HDR_FIRST_def)

lemma hx_match: "tests_match ex_vre [hx_test] ex_msg ex_msg = Some True"
  by (simp add: ban_cond_def ban_cond_obj_http_def ban_cond_str_def hx_test_def hx_header)

lemma hx_insert: "BAN_Insert 2 5 True hx_ban (hx_bans3\<lparr>ban_head := tl (ban_head hx_bans3), ban_start := Some 1\<rparr>) = Some hx_bans3"
  using BAN_Insert_eq [of hx_ban "''obj.http.x != a''" 2 "hx_bans3\<lparr>ban_head := tl (ban_head hx_bans3), ban_start := Some 1\<rparr>" 5 True]
  by (simp add: hx_bans3_def hx_ban_def BAN_New_def mark_dups_def cstr_def NUL_def)

lemma hx_check: "ban_check_object ex_vre 5 ex_msg False hx_bans3 = Some (True, hx_bans3\<lparr>ban_head := upd_ban 1 (detach 5) (ban_head hx_bans3),
   ban_objs := [5 \<mapsto> hx_bo\<lparr>o_ttl := 0, o_cacheable := False\<rparr>], exp_rearmed := [5]\<rparr>)"
  by (simp add: ban_check_object_def hx_bans3_def hx_bo_def hx_ban_def BAN_New_def upd_ban_def detach_def hx_match del: tests_match.simps)

lemma hx_lurk:
  assumes c: "hsh_ocs st = [5 \<mapsto> new_oc\<lparr>oc_refcnt := 1, oc_objhead := Some 6\<rparr>]" "hsh_objs st 5 = Some hx_obj" "hsh_bans st = hx_bans3"
    and h: "sl_oh hcb_slinger (hsh_tbl st) 6 = Some h" "oh_objcs h = [5]" "oh_waitinglist h = []" "oh_refcnt h = 1"
  shows "\<exists>st'. ban_lurker ex_vre hx_P hcb_slinger queue hx_silo ex_msg st = Some st' \<and> HSH_Unbusy hx_P hcb_slinger queue 5 st' = None"
proof -
  have k: "BAN_CheckLast hx_bans3 = Some (None, hx_bans3)" by (simp add: BAN_CheckLast_def hx_bans3_def)
  have v: "lurker_victim hx_bans3 = Some 5" by (simp add: lurker_victim_def hx_bans3_def)
  have f: "HSH_FindBan hcb_slinger hx_silo 5 st = Some (Some 5, upd_oc 5 (\<lambda>c. c\<lparr>oc_refcnt := oc_refcnt c + 1\<rparr>) st)"
    using c(1) h by (simp add: HSH_FindBan_def new_oc_def)
  have e: "st\<lparr>hsh_bans := hx_bans3\<rparr> = st" unfolding c(3) [symmetric] by simp
  show ?thesis
    using c h by (simp add: ban_lurker_def k v e f hx_check upd_oc_def new_oc_def HSH_Deref_def hx_P_def numeral_3_eq_3 HSH_Unbusy_def hx_bo_def)
qed

lemma hx_init: "BAN_Init 1 0 True = Some hx_bans"
  by (simp add: BAN_Init_def BAN_Insert_def insert_head_def BAN_New_def cstr_def hx_bans_def)

lemma hx_run1: "hsh_run ex_vre hx_P hcb_slinger hx_silo (hcb_cache_start hx_bans) hx_st1 (\<lambda>oc. 0)"
proof -
  have "hsh_run ex_vre hx_P hcb_slinger hx_silo (hcb_cache_start hx_bans) hx_st1 (hold (Op_Sess 1 (Some hx_sess) :: string hop) None (\<lambda>oc. 0))"
    by (rule hsh_run.step [OF hsh_run.start])
      (simp_all add: waits_at_def hsh_start_def hx_sess_def hx_st1_def DIGEST_LEN_def)
  then show ?thesis by simp
qed

lemma hx_st1_facts: "hsh_sess hx_st1 1 = Some hx_sess" "sp_wrk hx_sess = Some 0" "hsh_ocs hx_st1 5 = None"
    "sl_oh hcb_slinger (hsh_tbl hx_st1) 6 = None" "\<not> diag_magic hx_P"
  by (simp_all add: hx_st1_def hx_sess_def hsh_start_def hcb_slinger_def hcb_start_def base_def hx_P_def)

lemma hx_run2:
  obtains st h where "hsh_run ex_vre hx_P hcb_slinger hx_silo (hcb_cache_start hx_bans) st ((\<lambda>oc. 0)(5 := 1))"
    "hsh_ocs st = [5 \<mapsto> new_oc\<lparr>oc_refcnt := 1, oc_objhead := Some 6\<rparr>]" "hsh_objs st = [5 \<mapsto> hx_obj]"
    "hsh_bans st = hx_bans3\<lparr>ban_head := tl (ban_head hx_bans3), ban_start := Some 1\<rparr>"
    "sl_oh hcb_slinger (hsh_tbl st) 6 = Some h" "oh_objcs h = [5]" "oh_waitinglist h = []" "oh_refcnt h = 1"
proof -
  obtain st h where l: "HSH_Lookup ex_vre hx_P hcb_slinger hx_silo (\<lambda>_. True) 1 5 6 hx_st1 = Some (Some (5, 6), st)"
    "hsh_ocs st = [5 \<mapsto> new_oc\<lparr>oc_refcnt := 1, oc_objhead := Some 6\<rparr>]" "hsh_objs st = Map.empty" "hsh_bans st = hx_bans"
    "sl_oh hcb_slinger (hsh_tbl st) 6 = Some h" "oh_objcs h = [5]" "oh_waitinglist h = []" "oh_refcnt h = 1"
    using hx_lookup by blast
  have "hsh_run ex_vre hx_P hcb_slinger hx_silo (hcb_cache_start hx_bans) st (hold (Op_Lookup 1 5 6 (\<lambda>_. True) :: string hop) (Some (5, 6)) (\<lambda>oc. 0))"
    by (rule hsh_run.step [OF hx_run1]) (use l(1) hx_st1_facts in simp_all)
  then have r: "hsh_run ex_vre hx_P hcb_slinger hx_silo (hcb_cache_start hx_bans) st ((\<lambda>oc. 0)(5 := 1))" by simp
  have "hsh_run ex_vre hx_P hcb_slinger hx_silo (hcb_cache_start hx_bans)
      (st\<lparr>hsh_objs := (hsh_objs st)(5 \<mapsto> hx_obj), hsh_bans := hx_bans3\<lparr>ban_head := tl (ban_head hx_bans3), ban_start := Some 1\<rparr>,
         st_object := st_object st + 1\<rparr>) (hold (Op_Link 5 hx_obj hx_bo :: string hop) None ((\<lambda>oc. 0)(5 := 1)))"
    by (rule hsh_run.step [OF r]) (use l(3) hx_link [OF l(4)] in \<open>simp_all add: hx_bo_def hx_obj_def\<close>)
  then show ?thesis unfolding hold.simps by (rule that) (use l in simp_all)
qed




theorem HSH_Deref_last_frees_witness:
  "\<exists>(st :: (hcb, string) hsh) st'. HSH_Deref hx_P hcb_slinger (\<lambda>_. True) 5 st = Some st' \<and> hsh_objs st 5 = Some hx_obj \<and>
     hsh_ocs st' 5 = None \<and> hsh_calls st' = hsh_calls st @ [Call_STV_free 21, Call_STV_free 22, Call_STV_free 23]"
proof -
  obtain st where st: "hsh_run ex_vre hx_P hcb_slinger hx_silo (hcb_cache_start hx_bans) st ((\<lambda>oc. 0)(5 := 1))"
    "hsh_ocs st = [5 \<mapsto> new_oc\<lparr>oc_refcnt := 1, oc_objhead := Some 6\<rparr>]" "hsh_objs st = [5 \<mapsto> hx_obj]" by (rule hx_run2)
  have "hsh_objs st 5 = Some hx_obj" "hsh_ocs st 5 = Some (new_oc\<lparr>oc_refcnt := 1, oc_objhead := Some 6\<rparr>)" using st(2,3) by simp_all
  from HSH_Deref_last_frees [OF hx_init st(1) _ this, of "\<lambda>_. True"] st(3) show ?thesis
    by (fastforce simp: hx_obj_def new_oc_def)
qed

text \<open>
  C33 (error).  A fetch can be killed by the ban lurker.  From the start of the program, a session looks an object up, gets a busy
  object core and links its object; a ban on a header of the object is added while the body is fetched; the lurker finds
  the object on the last ban and takes its ban away.  At the end of the fetch \<open>HSH_Unbusy\<close> then fails its
  assertion that the object has a ban.
\<close>
theorem ban_lurker_breaks_fetch:
  "\<exists>st held st'. BAN_Init 1 0 True = Some hx_bans \<and>
     hsh_run ex_vre hx_P hcb_slinger hx_silo (hcb_cache_start hx_bans) st held \<and> held 5 = 1 \<and> is_busy st 5 \<and>
     hsh_objs st 5 \<noteq> None \<and> ban_lurker ex_vre hx_P hcb_slinger (\<lambda>_. True) hx_silo ex_msg st = Some st' \<and>
     HSH_Unbusy hx_P hcb_slinger (\<lambda>_. True) 5 st' = None"
proof -
  obtain st h where st: "hsh_run ex_vre hx_P hcb_slinger hx_silo (hcb_cache_start hx_bans) st ((\<lambda>oc. 0)(5 := 1))"
    "hsh_ocs st = [5 \<mapsto> new_oc\<lparr>oc_refcnt := 1, oc_objhead := Some 6\<rparr>]" "hsh_objs st = [5 \<mapsto> hx_obj]"
    "hsh_bans st = hx_bans3\<lparr>ban_head := tl (ban_head hx_bans3), ban_start := Some 1\<rparr>"
    "sl_oh hcb_slinger (hsh_tbl st) 6 = Some h" "oh_objcs h = [5]" "oh_waitinglist h = []" "oh_refcnt h = 1" by (rule hx_run2)
  let ?st = "st\<lparr>hsh_bans := hx_bans3\<rparr>"
  have "hsh_run ex_vre hx_P hcb_slinger hx_silo (hcb_cache_start hx_bans) ?st (hold (Op_Ban 2 5 True hx_ban) None ((\<lambda>oc. 0)(5 := 1)))"
    by (rule hsh_run.step [OF st(1)]) (use st(4) hx_fresh hx_insert in \<open>simp_all add: hx_bans3_def\<close>)
  moreover have "is_busy ?st 5" using st(2) by (simp add: is_busy_def new_oc_def)
  moreover obtain st' where "ban_lurker ex_vre hx_P hcb_slinger (\<lambda>_. True) hx_silo ex_msg ?st = Some st'"
    "HSH_Unbusy hx_P hcb_slinger (\<lambda>_. True) 5 st' = None"
    using hx_lurk [of ?st h "\<lambda>_. True"] st by auto
  ultimately show ?thesis using hx_init st(3) by (intro exI [of _ ?st] exI [of _ "(\<lambda>oc. 0)(5 := 1)"] exI [of _ st']) simp
qed

end
