(* ===== verification/Sha256.thy ===== *)
theory Sha256
  imports CLib Objhead
begin

unbundle bit_operations_syntax

text \<open>
  \<open>lib/libvarnish/vsha256.c\<close>: the digest by which the cache knows its objects.  A context is the
  chaining state, the number of bytes so far and the bytes of the unfinished block; it is compared with a
  direct reading of the standard (FIPS 180-2): pad the message, cut it into blocks, and run the rounds on eight
  working variables.
\<close>

section \<open>The code\<close>

record SHA256_CTX =
  sh_state :: "u32 list"
  sh_count :: "64 word"
  sh_buf :: "byte list"

definition mybe32enc :: "u32 \<Rightarrow> byte list" where
  "mybe32enc u = [ucast (drop_bit 24 u), ucast (drop_bit 16 u), ucast (drop_bit 8 u), ucast u]"

definition mybe64enc :: "64 word \<Rightarrow> byte list" where
  "mybe64enc u = mybe32enc (ucast (drop_bit 32 u)) @ mybe32enc (ucast u)"

definition mybe32dec :: "byte \<Rightarrow> byte \<Rightarrow> byte \<Rightarrow> byte \<Rightarrow> u32" where
  "mybe32dec a b c d = push_bit 24 (ucast a) OR push_bit 16 (ucast b) OR push_bit 8 (ucast c) OR ucast d"

definition be32enc_vect :: "u32 list \<Rightarrow> byte list" where
  "be32enc_vect ws = concat (map mybe32enc ws)"

fun be32dec_vect :: "byte list \<Rightarrow> u32 list" where
  "be32dec_vect (a # b # c # d # bs) = mybe32dec a b c d # be32dec_vect bs"
| "be32dec_vect bs = []"

definition Ch :: "u32 \<Rightarrow> u32 \<Rightarrow> u32 \<Rightarrow> u32" where "Ch x y z = (x AND (y XOR z)) XOR z"
definition Maj :: "u32 \<Rightarrow> u32 \<Rightarrow> u32 \<Rightarrow> u32" where "Maj x y z = (x AND (y OR z)) OR (y AND z)"
definition ROTR :: "u32 \<Rightarrow> nat \<Rightarrow> u32" where "ROTR x n = drop_bit n x OR push_bit (32 - n) x"
definition S0 :: "u32 \<Rightarrow> u32" where "S0 x = ROTR x 2 XOR ROTR x 13 XOR ROTR x 22"
definition S1 :: "u32 \<Rightarrow> u32" where "S1 x = ROTR x 6 XOR ROTR x 11 XOR ROTR x 25"
definition s0 :: "u32 \<Rightarrow> u32" where "s0 x = ROTR x 7 XOR ROTR x 18 XOR drop_bit 3 x"
definition s1 :: "u32 \<Rightarrow> u32" where "s1 x = ROTR x 17 XOR ROTR x 19 XOR drop_bit 10 x"

definition sha_rounds :: "(nat \<times> u32) list" where
  "sha_rounds = [
     (0, 0x428a2f98), (1, 0x71374491), (2, 0xb5c0fbcf), (3, 0xe9b5dba5),
     (4, 0x3956c25b), (5, 0x59f111f1), (6, 0x923f82a4), (7, 0xab1c5ed5),
     (8, 0xd807aa98), (9, 0x12835b01), (10, 0x243185be), (11, 0x550c7dc3),
     (12, 0x72be5d74), (13, 0x80deb1fe), (14, 0x9bdc06a7), (15, 0xc19bf174),
     (16, 0xe49b69c1), (17, 0xefbe4786), (18, 0x0fc19dc6), (19, 0x240ca1cc),
     (20, 0x2de92c6f), (21, 0x4a7484aa), (22, 0x5cb0a9dc), (23, 0x76f988da),
     (24, 0x983e5152), (25, 0xa831c66d), (26, 0xb00327c8), (27, 0xbf597fc7),
     (28, 0xc6e00bf3), (29, 0xd5a79147), (30, 0x06ca6351), (31, 0x14292967),
     (32, 0x27b70a85), (33, 0x2e1b2138), (34, 0x4d2c6dfc), (35, 0x53380d13),
     (36, 0x650a7354), (37, 0x766a0abb), (38, 0x81c2c92e), (39, 0x92722c85),
     (40, 0xa2bfe8a1), (41, 0xa81a664b), (42, 0xc24b8b70), (43, 0xc76c51a3),
     (44, 0xd192e819), (45, 0xd6990624), (46, 0xf40e3585), (47, 0x106aa070),
     (48, 0x19a4c116), (49, 0x1e376c08), (50, 0x2748774c), (51, 0x34b0bcb5),
     (52, 0x391c0cb3), (53, 0x4ed8aa4a), (54, 0x5b9cca4f), (55, 0x682e6ff3),
     (56, 0x748f82ee), (57, 0x78a5636f), (58, 0x84c87814), (59, 0x8cc70208),
     (60, 0x90befffa), (61, 0xa4506ceb), (62, 0xbef9a3f7), (63, 0xc67178f2)]"

text \<open>The variables of a round stand at positions of \<open>S\<close> that move down by one in every round.\<close>

definition RNDr :: "u32 list \<Rightarrow> u32 list \<Rightarrow> nat \<Rightarrow> u32 \<Rightarrow> u32 list" where
  "RNDr S W i k = (
     let p = (\<lambda>j. (64 + j - i) mod 8);
         t0 = S ! p 7 + S1 (S ! p 4) + Ch (S ! p 4) (S ! p 5) (S ! p 6) + (W ! i + k);
         t1 = S0 (S ! p 0) + Maj (S ! p 0) (S ! p 1) (S ! p 2)
     in (S[p 3 := S ! p 3 + t0])[p 7 := t0 + t1])"

definition sha_W :: "byte list \<Rightarrow> u32 list" where
  "sha_W block = fold (\<lambda>i W. W @ [s1 (W ! (i - 2)) + W ! (i - 7) + s0 (W ! (i - 15)) + W ! (i - 16)])
     [16..<64] (be32dec_vect block)"

definition SHA256_Transform :: "u32 list \<Rightarrow> byte list \<Rightarrow> u32 list" where
  "SHA256_Transform st block = (
     let W = sha_W block; S = fold (\<lambda>(i, k) S. RNDr S W i k) sha_rounds st
     in map2 (+) st S)"

definition SHA256_Init :: "SHA256_CTX \<Rightarrow> SHA256_CTX" where
  "SHA256_Init ctx = ctx\<lparr>sh_count := 0, sh_state :=
     [0x6A09E667, 0xBB67AE85, 0x3C6EF372, 0xA54FF53A, 0x510E527F, 0x9B05688C, 0x1F83D9AB, 0x5BE0CD19]\<rparr>"

text \<open>One turn of the loop in \<open>SHA256_Update\<close>: as much of the input as the block has room for.\<close>

definition sha_room :: "SHA256_CTX \<Rightarrow> nat" where
  "sha_room ctx = 64 - unat (sh_count ctx AND 0x3f)"

definition sha_fill :: "SHA256_CTX \<Rightarrow> byte list \<Rightarrow> SHA256_CTX" where
  "sha_fill ctx src = (
     let r = unat (sh_count ctx AND 0x3f); l = min (64 - r) (length src);
         ctx = ctx\<lparr>sh_buf := take r (sh_buf ctx) @ take l src @ drop (r + l) (sh_buf ctx),
                   sh_count := sh_count ctx + word_of_nat l\<rparr>
     in if sh_count ctx AND 0x3f = 0 then ctx\<lparr>sh_state := SHA256_Transform (sh_state ctx) (sh_buf ctx)\<rparr> else ctx)"

lemma sha_room_pos: "0 < sha_room ctx"
proof -
  have "sh_count ctx AND 0x3f \<le> 0x3f" by (rule word_and_le1)
  then have "unat (sh_count ctx AND 0x3f) \<le> unat (0x3f :: 64 word)" by (simp only: word_le_nat_alt)
  then show ?thesis by (simp add: sha_room_def)
qed

function SHA256_Update :: "SHA256_CTX \<Rightarrow> byte list \<Rightarrow> SHA256_CTX" where
  "SHA256_Update ctx src = (if src = [] then ctx else SHA256_Update (sha_fill ctx src) (drop (sha_room ctx) src))"
  by auto
termination by (relation "measure (\<lambda>(ctx, src). length src)") (auto simp: sha_room_pos)

declare SHA256_Update.simps [simp del]

definition PAD :: "byte list" where
  "PAD = 0x80 # replicate 63 0"

definition SHA256_Pad :: "SHA256_CTX \<Rightarrow> SHA256_CTX" where
  "SHA256_Pad ctx = (
     let len = mybe64enc (push_bit 3 (sh_count ctx)); r = unat (sh_count ctx AND 0x3f);
         plen = (if r < 56 then 56 - r else 120 - r)
     in SHA256_Update (SHA256_Update ctx (take plen PAD)) len)"

definition SHA256_Final :: "SHA256_CTX \<Rightarrow> digest \<times> SHA256_CTX" where
  "SHA256_Final ctx = (be32enc_vect (sh_state (SHA256_Pad ctx)),
     \<lparr>sh_state = replicate 8 0, sh_count = 0, sh_buf = replicate 64 0\<rparr>)"

definition sha256test :: "(string \<times> digest) list" where
  "sha256test = [
    ('''',
      [0xE3, 0xB0, 0xC4, 0x42, 0x98, 0xFC, 0x1C, 0x14, 0x9A, 0xFB, 0xF4,
       0xC8, 0x99, 0x6F, 0xB9, 0x24, 0x27, 0xAE, 0x41, 0xE4, 0x64, 0x9B,
       0x93, 0x4C, 0xA4, 0x95, 0x99, 0x1B, 0x78, 0x52, 0xB8, 0x55]),
    (''message digest'',
      [0xF7, 0x84, 0x6F, 0x55, 0xCF, 0x23, 0xE1, 0x4E, 0xEB, 0xEA, 0xB5,
       0xB4, 0xE1, 0x55, 0x0C, 0xAD, 0x5B, 0x50, 0x9E, 0x33, 0x48, 0xFB,
       0xC4, 0xEF, 0xA3, 0xA1, 0x41, 0x3D, 0x39, 0x3C, 0xB6, 0x50]),
    (''ABCDEFGHIJKLMNOPQRSTUVWXYZabcdefghijklmnopqrstuvwxyz0123456789'',
      [0xDB, 0x4B, 0xFC, 0xBD, 0x4D, 0xA0, 0xCD, 0x85, 0xA6, 0x0C, 0x3C,
       0x37, 0xD3, 0xFB, 0xD8, 0x80, 0x5C, 0x77, 0xF1, 0x5F, 0xC6, 0xB1,
       0xFD, 0xFE, 0x61, 0x4E, 0xE0, 0xA7, 0xC8, 0xFD, 0xB4, 0xC0])]"

definition SHA256_Test :: "SHA256_CTX \<Rightarrow> bool" where
  "SHA256_Test c \<longleftrightarrow> (\<forall>(input, output) \<in> set sha256test.
     memcmp (fst (SHA256_Final (SHA256_Update (SHA256_Init c) (map of_char input)))) output = 0)"

section \<open>The standard\<close>

text \<open>
  The constants are the first 32 bits of the fractional parts of the square roots of the first eight primes, and of the
  cube roots of the first 64 primes.  \<open>root_bits k n b r\<close> finds the \<open>k\<close>-th root of \<open>n\<close> bit by bit.
\<close>

fun root_bits :: "nat \<Rightarrow> int \<Rightarrow> nat \<Rightarrow> int \<Rightarrow> int" where
  "root_bits k n 0 r = r"
| "root_bits k n (Suc b) r = root_bits k n b (if (r + 2 ^ b) ^ k \<le> n then r + 2 ^ b else r)"

definition frac_root :: "nat \<Rightarrow> int \<Rightarrow> u32" where
  "frac_root k p = word_of_int (root_bits k (p * 2 ^ (32 * k)) 37 0)"

definition fips_primes :: "int list" where
  "fips_primes = [p \<leftarrow> [2..311]. \<forall>q \<in> set [2..17]. q < p \<longrightarrow> p mod q \<noteq> 0]"

definition sha_H0 :: "u32 list" where
  "sha_H0 = map (frac_root 2) (take 8 fips_primes)"

definition fips_K :: "u32 list" where
  "fips_K = map (frac_root 3) fips_primes"

fun fips_round :: "u32 \<Rightarrow> u32 list \<Rightarrow> u32 list" where
  "fips_round wk [a, b, c, d, e, f, g, h] = (
     let t1 = h + S1 e + Ch e f g + wk; t2 = S0 a + Maj a b c in [t1 + t2, a, b, c, d + t1, e, f, g])"
| "fips_round wk v = v"

definition fips_block :: "u32 list \<Rightarrow> byte list \<Rightarrow> u32 list" where
  "fips_block H block = map2 (+) H (fold fips_round (map2 (+) (sha_W block) fips_K) H)"

function fips_hash :: "u32 list \<Rightarrow> byte list \<Rightarrow> u32 list" where
  "fips_hash H m = (if length m < 64 then H else fips_hash (fips_block H (take 64 m)) (drop 64 m))"
  by auto
termination by (relation "measure (\<lambda>(H, m). length m)") auto

declare fips_hash.simps [simp del]

definition fips_pad :: "byte list \<Rightarrow> byte list" where
  "fips_pad m = m @ [0x80] @ replicate ((119 - length m mod 64) mod 64) 0 @ mybe64enc (word_of_nat (8 * length m))"

definition fips_sha256 :: "byte list \<Rightarrow> digest" where
  "fips_sha256 m = be32enc_vect (fips_hash sha_H0 (fips_pad m))"


section \<open>Lengths\<close>

lemma root_bits_floor:
  assumes "0 \<le> r" "r ^ k \<le> n" "n < (r + 2 ^ b) ^ k"
  shows "(root_bits k n b r) ^ k \<le> n \<and> n < (root_bits k n b r + 1) ^ k"
  using assms
proof (induction b arbitrary: r)
  case (Suc b)
  then show ?case by (simp add: algebra_simps)
qed simp

lemma fips_primes_eq: "fips_primes =
  [2, 3, 5, 7, 11, 13, 17, 19, 23, 29, 31, 37, 41, 43, 47, 53, 59, 61, 67, 71, 73, 79, 83, 89, 97, 101, 103, 107, 109, 113, 127,
   131, 137, 139, 149, 151, 157, 163, 167, 173, 179, 181, 191, 193, 197, 199, 211, 223, 227, 229, 233, 239, 241, 251, 257, 263,
   269, 271, 277, 281, 283, 293, 307, 311]"
  by code_simp

lemma sha_K_standard: "map snd sha_rounds = fips_K"
  unfolding fips_K_def fips_primes_eq by code_simp

lemma sha_H0_code: "sha_H0 =
  [0x6A09E667, 0xBB67AE85, 0x3C6EF372, 0xA54FF53A, 0x510E527F, 0x9B05688C, 0x1F83D9AB, 0x5BE0CD19]"
  unfolding sha_H0_def fips_primes_eq by code_simp

lemma fips_K_length [simp]: "length fips_K = 64"
  by (simp add: fips_K_def fips_primes_eq)

lemma sha_rounds_eq: "sha_rounds = map (\<lambda>i. (i, fips_K ! i)) [0..<64]"
proof -
  have "map fst sha_rounds = [0..<64]" by (simp add: sha_rounds_def upt_rec)
  then have "sha_rounds = zip [0..<64] fips_K" using sha_K_standard zip_map_fst_snd by metis
  moreover have "zip xs ys = map (\<lambda>i. (i, ys ! i)) xs" if "xs = [0..<n]" "length ys = n" for n xs and ys :: "u32 list"
    using that by (intro nth_equalityI) simp_all
  ultimately show ?thesis by (simp add: fips_K_length)
qed

lemma be32dec_length [simp]: "length (be32dec_vect bs) = length bs div 4"
  by (induction bs rule: be32dec_vect.induct) simp_all

lemma fold_snoc_length: "length (fold (\<lambda>i W. W @ [f i W]) xs W) = length W + length xs"
  by (induction xs arbitrary: W) auto

lemma sha_W_length [simp]: "length block = 64 \<Longrightarrow> length (sha_W block) = 64"
  unfolding sha_W_def fold_snoc_length length_upt by simp

lemma be32enc_vect_length [simp]: "length (be32enc_vect ws) = 4 * length ws"
  by (induction ws) (simp_all add: be32enc_vect_def mybe32enc_def)

section \<open>The rounds\<close>

lemma upt_8: "[0..<8] = [0, 1, 2, 3, 4, 5, 6, 7]"
  by (simp add: upt_rec)

lemma rotate_8: "length T = 8 \<Longrightarrow> rotate m T = map (\<lambda>j. T ! ((m + j) mod 8)) [0, 1, 2, 3, 4, 5, 6, 7]"
  unfolding upt_8 [symmetric] by (rule nth_equalityI) (simp_all add: nth_rotate)

lemma mod_8_inj:
  assumes "j < 8" "k < 8"
  shows "(m + j) mod 8 = (m + k) mod 8 \<longleftrightarrow> j = (k :: nat)"
proof -
  define r where "r = m mod 8"
  have "r < 8" by (simp add: r_def)
  then have e: "(m + x) mod 8 = (if r + x < 8 then r + x else r + x - 8)" if "x < 8" for x
    using that mod_add_left_eq [of m 8 x] le_mod_geq [of 8 "r + x"] by (auto simp: r_def [symmetric])
  show ?thesis unfolding e [OF assms(1)] e [OF assms(2)] using \<open>r < 8\<close> assms by auto
qed

lemma RNDr_length [simp]: "length (RNDr S W i k) = length S"
  by (simp add: RNDr_def Let_def)

text \<open>Seen from the moving position, a round is the round of the standard.\<close>

lemma RNDr_round:
  assumes "length S = 8" "i < 64"
  shows "rotate (64 - Suc i) (RNDr S W i k) = fips_round (W ! i + k) (rotate (64 - i) S)"
proof -
  define m where "m = 64 - Suc i"
  define q where "q = (\<lambda>j. (m + j) mod 8)"
  have p: "(64 + j - i) mod 8 = q (j + 1)" for j using assms(2) by (simp add: m_def q_def Suc_diff_Suc)
  have m: "64 - i = m + 1" using assms(2) by (simp add: m_def)
  have q: "q j < 8" "j < 8 \<Longrightarrow> k < 8 \<Longrightarrow> q j = q k \<longleftrightarrow> j = k" "q 8 = q 0" for j k
    using mod_8_inj [of j k m] by (simp_all add: q_def)
  have l: "rotate m T = map (\<lambda>j. T ! q j) [0, 1, 2, 3, 4, 5, 6, 7]" "rotate (m + 1) T = map (\<lambda>j. T ! q (j + 1)) [0, 1, 2, 3, 4, 5, 6, 7]"
    if "length T = 8" for T :: "u32 list"
    using rotate_8 [OF that, of m] rotate_8 [OF that, of "m + 1"] by (simp_all add: q_def)
  have R: "RNDr S W i k = (let t0 = S ! q 8 + S1 (S ! q 5) + Ch (S ! q 5) (S ! q 6) (S ! q 7) + (W ! i + k);
      t1 = S0 (S ! q 1) + Maj (S ! q 1) (S ! q 2) (S ! q 3) in (S[q 4 := S ! q 4 + t0])[q 8 := t0 + t1])"
    unfolding RNDr_def Let_def p by (simp only: add_num_simps arith_simps one_plus_numeral add_0 numeral_plus_one one_add_one)
  show ?thesis
    unfolding m_def [symmetric] m l(1) [OF trans [OF RNDr_length assms(1)]] l(2) [OF assms(1)]
    unfolding R Let_def q(3)
    using assms(1) by (simp add: q nth_list_update Let_def numeral_2_eq_2 [symmetric])
qed

lemma rounds_length [simp]: "length (fold (\<lambda>i S. RNDr S W i (k i)) is S) = length S"
  by (induction "is" arbitrary: S) simp_all

lemma SHA256_Transform_fold:
  "SHA256_Transform st block = map2 (+) st (fold (\<lambda>i S. RNDr S (sha_W block) i (fips_K ! i)) [0..<64] st)"
  by (simp add: SHA256_Transform_def Let_def sha_rounds_eq fold_map o_def)

lemma rounds:
  assumes "length S = 8" "n \<le> 64"
  shows "rotate (64 - n) (fold (\<lambda>i S. RNDr S W i (K ! i)) [0..<n] S) = fold fips_round (map (\<lambda>i. W ! i + K ! i) [0..<n]) (rotate 64 S)"
  using assms(2)
proof (induction n)
  case (Suc n)
  then show ?case using RNDr_round [of "fold (\<lambda>i S. RNDr S W i (K ! i)) [0..<n] S" n W "K ! n"] assms(1) by simp
qed simp

lemma SHA256_Transform_length [simp]: "length (SHA256_Transform st block) = length st"
  by (simp add: SHA256_Transform_fold)

lemma SHA256_Update_length [simp]: "length (sh_state (SHA256_Update ctx src)) = length (sh_state ctx)"
proof (induction ctx src rule: SHA256_Update.induct)
  case (1 ctx src)
  have "length (sh_state (sha_fill ctx src)) = length (sh_state ctx)" by (simp add: sha_fill_def Let_def)
  then show ?case using 1 by (subst SHA256_Update.simps) simp
qed

lemma SHA256_Final_length: "length (fst (SHA256_Final ctx)) = 4 * length (sh_state ctx)"
  by (simp add: SHA256_Final_def SHA256_Pad_def Let_def)

lemma SHA256_Transform_eq:
  assumes "length st = 8" "length block = 64"
  shows "SHA256_Transform st block = fips_block st block"
proof -
  have "map (\<lambda>i. W ! i + K ! i) [0..<64] = map2 (+) W K" if "length W = 64" "length K = 64" for W K :: "u32 list"
    using that by (intro nth_equalityI) simp_all
  moreover have "rotate 64 st = st" using rotate_id [of 64 st] assms(1) by simp
  ultimately show ?thesis
    using rounds [OF assms(1), of 64 "sha_W block" fips_K] assms(2) unfolding SHA256_Transform_fold fips_block_def by simp
qed

lemma fips_round_length [simp]: "length (fips_round wk v) = length v"
  by (induction wk v rule: fips_round.induct) (simp_all add: Let_def)

lemma fips_block_length [simp]: "length (fips_block H b) = length H"
proof -
  have "length (fold fips_round ws H) = length H" for ws by (induction ws arbitrary: H) simp_all
  then show ?thesis by (simp add: fips_block_def)
qed

lemma fips_hash_length [simp]: "length (fips_hash H m) = length H"
  by (induction H m rule: fips_hash.induct) (subst fips_hash.simps, simp)

section \<open>Blocks\<close>

lemma fips_hash_short:
  assumes "length m mod 64 + length x < 64"
  shows "fips_hash H (m @ x) = fips_hash H m"
  using assms
proof (induction H m rule: fips_hash.induct)
  case (1 H m)
  show ?case
  proof (cases "length m < 64")
    case False
    then have "length (drop 64 m) mod 64 = length m mod 64" by (simp add: le_mod_geq)
    then show ?thesis using 1 False by (subst (1 2) fips_hash.simps) simp
  qed (use 1(2) in \<open>subst (1 2) fips_hash.simps, simp\<close>)
qed

lemma fips_hash_full:
  assumes "length m mod 64 + length x = 64"
  shows "fips_hash H (m @ x) = fips_block (fips_hash H m) (drop (length m - length m mod 64) m @ x)"
  using assms
proof (induction H m rule: fips_hash.induct)
  case (1 H m)
  show ?case
  proof (cases "length m < 64")
    case True
    have b: "fips_hash H' m' = H'" if "length m' < 64" for H' and m' :: "byte list" using that by (subst fips_hash.simps) simp
    have "fips_hash H (m @ x) = fips_block H (m @ x)" using True 1(2) by (subst fips_hash.simps) (simp add: b)
    then show ?thesis using True b [OF True] by simp
  next
    case False
    have "length m - length m mod 64 = 64 + (length (drop 64 m) - length (drop 64 m) mod 64)"
      using False div_mult_mod_eq [of "length m" 64] by (simp add: le_mod_geq)
    moreover have "length (drop 64 m) mod 64 = length m mod 64" using False by (simp add: le_mod_geq)
    ultimately show ?thesis using 1 False by (subst (1 2) fips_hash.simps) (simp add: add.commute)
  qed
qed

section \<open>Contexts\<close>

text \<open>\<open>ctx\<close> is what the code keeps after the bytes \<open>m\<close>.\<close>

definition sha_rep :: "SHA256_CTX \<Rightarrow> byte list \<Rightarrow> bool" where
  "sha_rep ctx m \<longleftrightarrow> sh_count ctx = word_of_nat (length m) \<and> length (sh_buf ctx) = 64 \<and>
     take (length m mod 64) (sh_buf ctx) = drop (length m - length m mod 64) m \<and> sh_state ctx = fips_hash sha_H0 m"

lemma count_low: "unat (word_of_nat n AND 0x3f :: 64 word) = n mod 64"
proof -
  have "(0x3f :: 64 word) = mask 6" by (simp add: mask_eq_exp_minus_1)
  then have "word_of_nat n AND 0x3f = (take_bit 6 (word_of_nat n) :: 64 word)" by (simp add: take_bit_eq_mask)
  then have "unat (word_of_nat n AND 0x3f :: 64 word) = take_bit 6 (unat (word_of_nat n :: 64 word))"
    by (simp only: unsigned_take_bit_eq)
  then show ?thesis by (simp add: unsigned_of_nat) (simp add: take_bit_eq_mod)
qed

lemma count_low_0: "(word_of_nat n AND 0x3f :: 64 word) = 0 \<longleftrightarrow> n mod 64 = 0"
  using count_low [of n] by (metis unat_0 unat_eq_zero)

lemma sha_rep_count: "sha_rep ctx m \<Longrightarrow> unat (sh_count ctx AND 0x3f) = length m mod 64"
  by (simp add: sha_rep_def count_low)

lemma sha_fill_rep:
  assumes "sha_rep ctx m" "src \<noteq> []"
  shows "sha_rep (sha_fill ctx src) (m @ take (sha_room ctx) src)"
proof -
  define r where "r = length m mod 64"
  define x where "x = take (64 - r) src"
  note c = sha_rep_count [OF assms(1), folded r_def]
  have r: "r < 64" "r \<le> length m" by (simp_all add: r_def)
  have x: "take (64 - r) src = x" "min (64 - r) (length src) = length x" "length x \<le> 64 - r"
    by (auto simp: x_def min_def)
  have p: "sh_count ctx = word_of_nat (length m)" "length (sh_buf ctx) = 64" "take r (sh_buf ctx) = drop (length m - r) m"
    "sh_state ctx = fips_hash sha_H0 m" using assms(1) by (simp_all add: sha_rep_def r_def)
  have tx: "take (length x) src = x" by (simp add: x_def min_def)
  let ?b = "take r (sh_buf ctx) @ x @ drop (r + length x) (sh_buf ctx)"
  have b: "length ?b = 64" using r x(3) p(2) by simp
  have cnt: "sh_count ctx + word_of_nat (length x) = word_of_nat (length (m @ x))" by (simp add: p(1))
  have fill: "sha_fill ctx src = (if length (m @ x) mod 64 = 0 
      then ctx\<lparr>sh_buf := ?b, sh_count := word_of_nat (length (m @ x)), sh_state := SHA256_Transform (sh_state ctx) ?b\<rparr>
      else ctx\<lparr>sh_buf := ?b, sh_count := word_of_nat (length (m @ x))\<rparr>)"
    using count_low_0 [of "length (m @ x)"] unfolding sha_fill_def c Let_def x(2) by (simp add: cnt tx del: length_append of_nat_add)
  have len: "length (m @ x) mod 64 = (r + length x) mod 64" by (simp add: r_def mod_add_left_eq)
  show ?thesis
  proof (cases "r + length x = 64")
    case True
    then have z: "length (m @ x) mod 64 = 0" unfolding len by simp
    have "?b = drop (length m - r) m @ x" using True p(2,3) by simp
    moreover have "SHA256_Transform (sh_state ctx) ?b = fips_block (sh_state ctx) ?b"
      by (rule SHA256_Transform_eq) (use b p(4) in \<open>simp_all add: sha_H0_code\<close>)
    ultimately show ?thesis using fips_hash_full [of m x sha_H0] True z b
      unfolding fill c sha_room_def x_def [symmetric] by (simp add: sha_rep_def p r_def)
  next
    case False
    then have z: "length (m @ x) mod 64 = r + length x" using x(3) r(1) unfolding len by simp
    have ne: "x \<noteq> []" using r(1) assms(2) by (simp add: x_def)
    have "r + length x < 64" using False x(3) r(1) by simp
    moreover have "length (m @ x) - length (m @ x) mod 64 = length m - r" using z r by simp
    ultimately show ?thesis using fips_hash_short [of m x sha_H0] b p z r(2) ne
      unfolding fill c sha_room_def x_def [symmetric] by (simp add: sha_rep_def r_def)
  qed
qed

lemma SHA256_Update_rep: "sha_rep ctx m \<Longrightarrow> sha_rep (SHA256_Update ctx src) (m @ src)"
proof (induction ctx src arbitrary: m rule: SHA256_Update.induct)
  case (1 ctx src)
  show ?case
  proof (cases "src = []")
    case False
    from 1(1) [OF False sha_fill_rep [OF 1(2) False]] show ?thesis using False by (subst SHA256_Update.simps) simp
  qed (use 1(2) in \<open>simp add: SHA256_Update.simps\<close>)
qed

lemma SHA256_Init_rep: "length (sh_buf ctx) = 64 \<Longrightarrow> sha_rep (SHA256_Init ctx) []"
  by (simp add: sha_rep_def SHA256_Init_def sha_H0_code fips_hash.simps)

lemma pad_bytes:
  assumes "r < 64" "plen = (if r < 56 then 56 - r else 120 - r)"
  shows "take plen PAD = [0x80] @ replicate ((119 - r) mod 64) 0"
proof -
  have "(119 - r) mod 64 = plen - 1" "0 < plen" "plen \<le> 64" using assms by (auto simp: mod_if)
  then show ?thesis by (cases plen) (simp_all add: PAD_def)
qed

lemma SHA256_Final_rep: "sha_rep ctx m \<Longrightarrow> fst (SHA256_Final ctx) = fips_sha256 m"
proof -
  assume rep: "sha_rep ctx m"
  let ?r = "length m mod 64"
  have "take (if ?r < 56 then 56 - ?r else 120 - ?r) PAD = [0x80] @ replicate ((119 - ?r) mod 64) 0"
    by (rule pad_bytes [OF _ refl]) simp
  moreover have "push_bit 3 (sh_count ctx) = word_of_nat (8 * length m)"
    using rep by (simp add: sha_rep_def push_bit_eq_mult)
  ultimately have "sha_rep (SHA256_Pad ctx) (fips_pad m)"
    using SHA256_Update_rep [OF SHA256_Update_rep [OF rep], of "take (if ?r < 56 then 56 - ?r else 120 - ?r) PAD" "mybe64enc (push_bit 3 (sh_count ctx))"]
    unfolding SHA256_Pad_def fips_pad_def Let_def sha_rep_count [OF rep] by simp
  then show ?thesis by (simp add: SHA256_Final_def fips_sha256_def sha_rep_def)
qed


definition sha_ctx0 :: SHA256_CTX where
  "sha_ctx0 = \<lparr>sh_state = [], sh_count = 0, sh_buf = replicate 64 0\<rparr>"


end
