(* ===== verification/Center.thy ===== *)
theory Center
  imports Hash_Core Rfc2616 Http_Props Sha256
begin

text \<open>
  \<open>bin/varnishd/cache_center.c\<close>: the state machine that takes a session from one request to the next.

  A handler \<open>cnt_x\<close> is a program in the type \<open>prog\<close>: it ends with \<open>Ret (done, sp)\<close>, fails an assertion
  (\<open>Panic\<close>), or asks the rest of the server for something and goes on with the answer.  \<open>Do c\<close> is a call
  whose result is not used.  So a handler is a tree with a branch for every answer it may get, and a run is a path
  in it; the order of the calls is that of the code.  VCL programs are asked as well: the answer is what the
  program may set through \<open>cache_vrt.c\<close>, and what it returns.

  Left out: logging, statistics and accounting, diagnostics, and the pointers into the session's workspace.
  The two halves of a session are \<open>csess\<close> here (with the fields of its worker) and \<open>Hash_Core.sess\<close>, which
  the hash reads; \<open>sp->objhead\<close> belongs to the hash while the session waits for a busy object.
\<close>

section \<open>Sessions\<close>

datatype step = STP_WAIT | STP_FIRST | STP_RECV | STP_START | STP_PIPE | STP_PASS | STP_LOOKUP | STP_MISS | STP_HIT
  | STP_FETCH | STP_DELIVER | STP_ERROR | STP_DONE

datatype handling = VCL_RET_DELIVER | VCL_RET_ERROR | VCL_RET_FETCH | VCL_RET_HASH | VCL_RET_LOOKUP | VCL_RET_PASS
  | VCL_RET_PIPE | VCL_RET_RESTART

datatype vcl_met = VCL_MET_RECV | VCL_MET_PIPE | VCL_MET_PASS | VCL_MET_HASH | VCL_MET_MISS | VCL_MET_HIT | VCL_MET_FETCH
  | VCL_MET_DELIVER | VCL_MET_ERROR

text \<open>An object of the cache is named by its object core; an object of a pass or an error has none.\<close>

datatype objref = Obj_core addr | Obj_anon addr

record csess =
  cs_step :: step
  cs_fd :: int
  cs_xid :: u32
  cs_restarts :: int
  cs_esis :: int
  cs_disable_esi :: bool
  cs_doclose :: "string option"
  cs_http :: http
  cs_http0 :: http
  cs_digest :: digest
  cs_t_open :: "real option"
  cs_t_req :: "real option"
  cs_t_resp :: "real option"
  cs_t_end :: "real option"
  cs_grace :: "real option"
  cs_handling :: handling
  cs_sendbody :: bool
  cs_wantbody :: bool
  cs_err_code :: int
  cs_err_reason :: "string option"
  cs_director :: "nat option"
  cs_vbe :: bool
  cs_obj :: "objref option"
  cs_objcore :: "addr option"
  cs_objhead :: "addr option"
  cs_vcl :: "nat option"
  wk_vcl :: "nat option"
  wk_sha :: SHA256_CTX
  wk_bereq :: "http option"
  wk_beresp :: "http option"
  wk_beresp1 :: "http option"
  wk_resp :: bool
  wk_cacheable :: bool
  wk_age :: u32
  wk_entered :: real
  wk_ttl :: real
  wk_grace :: "real option"
  wk_do_esi :: bool
  wk_timeouts :: "real \<times> real \<times> real"

record cparams =
  session_linger :: nat
  max_restarts :: int
  lru_timeout :: real
  err_ttl :: nat
  http_slots :: nat
  cp_ttl :: ttl_params
  cp_conv :: timeconv
  wrk_ws :: ws
  wrk_http :: http
  vcl_director :: "nat \<Rightarrow> nat"

text \<open>What a VCL program leaves behind: the writable variables of \<open>vcc_obj.c\<close> and the actions.\<close>

datatype ostore = St_ttl real | St_grace "real option" | St_cacheable bool | St_vary string | St_http http | St_entered real
  | St_last_lru real | St_last_use real | St_xid u32 | St_response int | St_age u32 | St_last_modified int

record vcl_eff =
  ve_handling :: handling
  ve_http :: http
  ve_backend :: "nat option"
  ve_grace :: "real option"
  ve_esi :: "bool option"
  ve_error :: "(nat \<times> string option) option"
  ve_hash :: "string option list"
  ve_bereq :: http
  ve_timeouts :: "real \<times> real \<times> real"
  ve_beresp :: http
  ve_cacheable :: bool
  ve_ttl :: real
  ve_bgrace :: "real option"
  ve_do_esi :: bool
  ve_obj :: "ostore list"

section \<open>Programs\<close>

datatype ask = A_HTC_Complete | A_poll int | A_HTC_Rx | A_HTC_Reinit | A_rxbuf_len | A_errno | A_FetchReqBody | A_FetchBody

datatype cmd = C_close string | C_return | C_Prep | C_HTC_Init | C_Charge | C_SES_Delete | C_VCL_Rel nat | C_ws_reset | C_continue
  | C_Prealloc | C_Deref objref | C_DerefObjCore addr addr | C_Link addr addr | C_Store objref ostore | C_OC_PASS addr
  | C_Unbusy addr | C_Drop objref | C_HSH_Object addr | C_EXP_Insert addr | C_ESI_Parse objref | C_CopyHome objref
  | C_error_headers objref int string nat

datatype prog =
    Ret bool csess
  | Panic
  | Ask ask "int \<Rightarrow> prog"
  | TIM_real "real \<Rightarrow> prog"
  | Last_lru objref "real \<Rightarrow> prog"
  | EXP_Touch objref "bool \<Rightarrow> prog"
  | Request "htxt \<Rightarrow> prog"
  | VCL_Refresh "nat option" "nat \<Rightarrow> prog"
  | Next_xid "u32 \<Rightarrow> prog"
  | Vcl vcl_met csess "vcl_eff \<Rightarrow> prog"
  | Lookup csess "(addr \<times> addr \<times> bool \<times> bool) option \<Rightarrow> prog"
  | FetchHdr csess "int \<times> http \<Rightarrow> prog"
  | STV_NewObject nat real nat bool "addr \<Rightarrow> prog"
  | PipeSession csess "int \<times> real option \<Rightarrow> prog"
  | RES_BuildHttp csess "string option \<times> bool \<Rightarrow> prog"
  | RES_WriteObj csess "csess \<Rightarrow> prog"
  | Do cmd prog

definition need :: "bool \<Rightarrow> prog \<Rightarrow> prog" where
  "need b k = (if b then k else Panic)"

definition the_or_panic :: "'a option \<Rightarrow> ('a \<Rightarrow> prog) \<Rightarrow> prog" where
  "the_or_panic x k = (case x of None \<Rightarrow> Panic | Some v \<Rightarrow> k v)"

section \<open>Calls into the acceptor and into VCL\<close>

definition vca_close_session :: "string \<Rightarrow> csess \<Rightarrow> (csess \<Rightarrow> prog) \<Rightarrow> prog" where
  "vca_close_session why sp k = Do (C_close why) (k (sp\<lparr>cs_fd := - 1\<rparr>))"

definition vca_return_session :: "csess \<Rightarrow> prog \<Rightarrow> prog" where
  "vca_return_session sp k = need (cs_obj sp = None) (need (cs_vcl sp = None) (need (cs_fd sp \<ge> 0) (Do C_return k)))"

fun vcl_returns :: "vcl_met \<Rightarrow> handling list" where
  "vcl_returns VCL_MET_RECV = [VCL_RET_ERROR, VCL_RET_PASS, VCL_RET_PIPE, VCL_RET_LOOKUP]"
| "vcl_returns VCL_MET_PIPE = [VCL_RET_ERROR, VCL_RET_PIPE]"
| "vcl_returns VCL_MET_PASS = [VCL_RET_ERROR, VCL_RET_RESTART, VCL_RET_PASS]"
| "vcl_returns VCL_MET_HASH = [VCL_RET_HASH]"
| "vcl_returns VCL_MET_MISS = [VCL_RET_ERROR, VCL_RET_RESTART, VCL_RET_PASS, VCL_RET_FETCH]"
| "vcl_returns VCL_MET_HIT = [VCL_RET_ERROR, VCL_RET_RESTART, VCL_RET_PASS, VCL_RET_DELIVER]"
| "vcl_returns VCL_MET_FETCH = [VCL_RET_ERROR, VCL_RET_RESTART, VCL_RET_PASS, VCL_RET_DELIVER]"
| "vcl_returns VCL_MET_DELIVER = [VCL_RET_RESTART, VCL_RET_DELIVER]"
| "vcl_returns VCL_MET_ERROR = [VCL_RET_RESTART, VCL_RET_DELIVER]"

definition VRT_error :: "nat \<Rightarrow> string option \<Rightarrow> csess \<Rightarrow> csess option" where
  "VRT_error code reason sp = do {
     let c = (if code \<noteq> 0 then code else 503);
     r \<leftarrow> (case reason of Some r \<Rightarrow> Some r | None \<Rightarrow> http_StatusMessage c);
     Some (sp\<lparr>cs_err_code := int c, cs_err_reason := Some r\<rparr>) }"

definition VRT_l_req_backend :: "nat option \<Rightarrow> csess \<Rightarrow> csess" where
  "VRT_l_req_backend be sp = (case be of None \<Rightarrow> sp | Some d \<Rightarrow> sp\<lparr>cs_director := Some d\<rparr>)"

definition VRT_l_req_esi :: "bool option \<Rightarrow> csess \<Rightarrow> csess" where
  "VRT_l_req_esi process_esi sp = (case process_esi of None \<Rightarrow> sp
     | Some b \<Rightarrow> if cs_esis sp = 0 then sp\<lparr>cs_disable_esi := \<not> b\<rparr> else sp)"

text \<open>The strings of \<open>vcl_hash\<close>, each followed by a \<open>#\<close>, go into the digest.\<close>

definition VRT_l_req_hash :: "csess \<Rightarrow> string option list \<Rightarrow> csess" where
  "VRT_l_req_hash sp strs =
     sp\<lparr>wk_sha := fold (\<lambda>s ctx. SHA256_Update ctx (map of_char (HSH_AddString [] s))) strs (wk_sha sp)\<rparr>"

definition vcl_error :: "vcl_met \<Rightarrow> vcl_eff \<Rightarrow> csess \<Rightarrow> csess option" where
  "vcl_error m e sp = (case ve_error e of
     Some (c, r) \<Rightarrow> if VCL_RET_ERROR \<in> set (vcl_returns m) then VRT_error c r sp else Some sp
   | None \<Rightarrow> Some sp)"

definition vcl_apply :: "vcl_met \<Rightarrow> vcl_eff \<Rightarrow> csess \<Rightarrow> csess" where
  "vcl_apply m e sp = (
     let sp = sp\<lparr>cs_handling := ve_handling e, cs_http := ve_http e, cs_grace := ve_grace e\<rparr>;
         sp = VRT_l_req_backend (ve_backend e) sp;
         sp = (if m \<in> {VCL_MET_RECV, VCL_MET_FETCH, VCL_MET_DELIVER, VCL_MET_ERROR} then VRT_l_req_esi (ve_esi e) sp else sp);
         sp = (if m = VCL_MET_HASH then VRT_l_req_hash sp (ve_hash e) else sp);
         sp = (if m \<in> {VCL_MET_PIPE, VCL_MET_PASS, VCL_MET_MISS, VCL_MET_FETCH} then sp\<lparr>wk_bereq := Some (ve_bereq e)\<rparr> else sp);
         sp = (if m \<in> {VCL_MET_PASS, VCL_MET_MISS} then sp\<lparr>wk_timeouts := ve_timeouts e\<rparr> else sp)
     in if m = VCL_MET_FETCH
        then sp\<lparr>wk_beresp := Some (ve_beresp e), wk_cacheable := ve_cacheable e, wk_ttl := ve_ttl e, wk_grace := ve_bgrace e,
                wk_do_esi := ve_do_esi e\<rparr>
        else sp)"

text \<open>Stores to the object from \<open>vcl_hit\<close> and \<open>vcl_error\<close>.\<close>

fun obj_stores :: "objref option \<Rightarrow> ostore list \<Rightarrow> prog \<Rightarrow> prog" where
  "obj_stores (Some ob) (s # ss) k = Do (C_Store ob s) (obj_stores (Some ob) ss k)"
| "obj_stores ob ss k = k"

definition VCL_method :: "vcl_met \<Rightarrow> csess \<Rightarrow> (csess \<Rightarrow> prog) \<Rightarrow> prog" where
  "VCL_method m sp k = Vcl m (sp\<lparr>cs_handling := VCL_RET_DELIVER\<rparr>) (\<lambda>e.
     obj_stores (if m \<in> {VCL_MET_HIT, VCL_MET_ERROR} then cs_obj sp else None) (ve_obj e)
       (the_or_panic (vcl_error m e (vcl_apply m e sp)) (\<lambda>sp. need (cs_handling sp \<in> set (vcl_returns m)) (k sp))))"

section \<open>Handlers\<close>

definition ECONNRESET :: int where "ECONNRESET = 104"

definition wait_end :: "int \<Rightarrow> csess \<Rightarrow> prog" where
  "wait_end i sp =
     (if i = 0 then Do C_Charge (vca_return_session sp (Ret True sp))
      else if i = 1 then Ret False (sp\<lparr>cs_step := STP_START\<rparr>)
      else if i = - 2 then vca_close_session ''overflow'' sp (Ret False)
      else Ask A_rxbuf_len (\<lambda>l. Ask A_errno (\<lambda>e.
        vca_close_session (if i = - 1 \<and> l = 0 \<and> (e = 0 \<or> e = ECONNRESET) then ''EOF'' else ''error'') sp
          (\<lambda>sp. Ret False (sp\<lparr>cs_step := STP_DONE\<rparr>)))))"

definition cnt_wait :: "cparams \<Rightarrow> csess \<Rightarrow> prog" where
  "cnt_wait P sp =
     need (cs_vcl sp = None) (need (cs_obj sp = None) (need (cs_xid sp = 0)
       (Ask A_HTC_Complete (\<lambda>i.
          if i = 0 \<and> session_linger P > 0
          then Ask (A_poll (cs_fd sp)) (\<lambda>i. if i \<noteq> 0 then Ask A_HTC_Rx (\<lambda>i. wait_end i sp) else wait_end i sp)
          else wait_end i sp))))"

definition deliver_touch :: "cparams \<Rightarrow> objref \<Rightarrow> real \<Rightarrow> prog \<Rightarrow> prog" where
  "deliver_touch P ob t k = (case ob of
     Obj_anon a \<Rightarrow> k
   | Obj_core oc \<Rightarrow> Last_lru ob (\<lambda>l.
       let k = Do (C_Store ob (St_last_use t)) k
       in if t - l > lru_timeout P then EXP_Touch ob (\<lambda>moved. if moved then Do (C_Store ob (St_last_lru t)) k else k) else k))"

definition deliver_send :: "objref \<Rightarrow> csess \<Rightarrow> prog" where
  "deliver_send ob sp =
     (if cs_handling sp = VCL_RET_DELIVER
      then RES_WriteObj (sp\<lparr>cs_director := None, cs_restarts := 0\<rparr>) (\<lambda>sp.
        Do (C_Deref ob) (Ret False (sp\<lparr>cs_obj := None, wk_resp := False, cs_step := STP_DONE\<rparr>)))
      else Panic)"

definition cnt_deliver :: "cparams \<Rightarrow> csess \<Rightarrow> prog" where
  "cnt_deliver P sp =
     the_or_panic (cs_obj sp) (\<lambda>ob. need (cs_vcl sp \<noteq> None)
       (TIM_real (\<lambda>t. deliver_touch P ob t
         (RES_BuildHttp (sp\<lparr>cs_t_resp := Some t, wk_resp := True\<rparr>) (\<lambda>(doclose, wantbody).
            VCL_method VCL_MET_DELIVER (sp\<lparr>cs_t_resp := Some t, wk_resp := True, cs_doclose := doclose, cs_wantbody := wantbody\<rparr>)
              (deliver_send ob))))))"

definition done_keep :: "cparams \<Rightarrow> csess \<Rightarrow> prog" where
  "done_keep P sp = Do C_ws_reset (Ask A_HTC_Reinit (\<lambda>i.
     if i = 1 then Ret False (sp\<lparr>cs_step := STP_START\<rparr>)
     else Ask A_rxbuf_len (\<lambda>l.
       if l \<noteq> 0 \<or> session_linger P > 0 then Ret False (sp\<lparr>cs_step := STP_WAIT\<rparr>)
       else vca_return_session sp (Ret True sp))))"

definition done_close :: "csess \<Rightarrow> (csess \<Rightarrow> prog) \<Rightarrow> prog" where
  "done_close sp k = (case cs_doclose sp of
     Some why \<Rightarrow> if cs_fd sp \<ge> 0 then vca_close_session why sp k else k sp
   | None \<Rightarrow> k sp)"

definition done_vcl :: "csess \<Rightarrow> (csess \<Rightarrow> prog) \<Rightarrow> prog" where
  "done_vcl sp k = (
     if cs_vcl sp \<noteq> None \<and> cs_esis sp = 0
     then (let k = k (sp\<lparr>wk_vcl := cs_vcl sp, cs_vcl := None\<rparr>)
           in case wk_vcl sp of Some v \<Rightarrow> Do (C_VCL_Rel v) k | None \<Rightarrow> k)
     else k sp)"

definition SES_Delete :: "csess \<Rightarrow> prog \<Rightarrow> prog" where
  "SES_Delete sp k = need (cs_obj sp = None) (need (cs_vcl sp = None) (need (cs_t_end sp \<noteq> None) (Do C_SES_Delete k)))"

definition done_end :: "cparams \<Rightarrow> csess \<Rightarrow> prog" where
  "done_end P sp = Do C_Charge (if cs_fd sp < 0 then SES_Delete sp (Ret True sp) else done_keep P sp)"

definition done_times :: "real \<Rightarrow> csess \<Rightarrow> csess" where
  "done_times t sp = (
     let sp = sp\<lparr>cs_t_end := Some t\<rparr>;
         sp = (if cs_xid sp = 0 then sp\<lparr>cs_t_req := Some t, cs_t_resp := Some t\<rparr> else sp)
     in sp\<lparr>cs_xid := 0, cs_t_open := Some t, cs_t_resp := None\<rparr>)"

definition cnt_done :: "cparams \<Rightarrow> csess \<Rightarrow> prog" where
  "cnt_done P sp =
     need (cs_obj sp = None) (need (\<not> cs_vbe sp)
       (done_vcl (sp\<lparr>cs_director := None, cs_restarts := 0\<rparr>) (\<lambda>sp. TIM_real (\<lambda>t.
          if cs_esis sp > 0 then Do C_Charge (Ret True (done_times t sp))
          else done_close ((done_times t sp)\<lparr>cs_t_req := None\<rparr>) (done_end P)))))"

definition error_object :: "cparams \<Rightarrow> csess \<Rightarrow> (objref \<Rightarrow> csess \<Rightarrow> prog) \<Rightarrow> prog" where
  "error_object P sp k = (case cs_obj sp of
     Some ob \<Rightarrow> k ob sp
   | None \<Rightarrow> Do C_Prealloc (let sp = sp\<lparr>wk_cacheable := False\<rparr> in
       STV_NewObject 1024 0 (http_slots P) False (\<lambda>a. let ob = Obj_anon a in
         Do (C_Store ob (St_xid (cs_xid sp)))
           (case cs_t_req sp of Some t \<Rightarrow> Do (C_Store ob (St_entered t)) (k ob (sp\<lparr>cs_obj := Some ob\<rparr>))
            | None \<Rightarrow> k ob (sp\<lparr>cs_obj := Some ob\<rparr>)))))"

definition error_reason :: "csess \<Rightarrow> string option" where
  "error_reason sp = (case cs_err_reason sp of Some r \<Rightarrow> Some r | None \<Rightarrow> http_StatusMessage (nat (cs_err_code sp)))"

definition error_next :: "cparams \<Rightarrow> objref \<Rightarrow> csess \<Rightarrow> prog" where
  "error_next P ob sp =
     (if cs_handling sp = VCL_RET_RESTART \<and> cs_restarts sp < max_restarts P
      then Do (C_Drop ob) (Ret False (sp\<lparr>cs_obj := None, cs_director := None, cs_restarts := cs_restarts sp + 1, cs_step := STP_RECV\<rparr>))
      else let sp = (if cs_handling sp = VCL_RET_RESTART then sp\<lparr>cs_handling := VCL_RET_DELIVER\<rparr> else sp);
               sp = sp\<lparr>cs_doclose := Some ''error'', cs_wantbody := True\<rparr>
           in need (cs_handling sp = VCL_RET_DELIVER)
             (Ret False (sp\<lparr>cs_err_code := 0, cs_err_reason := None, wk_bereq := None, cs_step := STP_DELIVER\<rparr>)))"

definition error_code :: "csess \<Rightarrow> csess" where
  "error_code sp = (if cs_err_code sp < 100 \<or> cs_err_code sp > 999 then sp\<lparr>cs_err_code := 501\<rparr> else sp)"

definition error_vcl :: "cparams \<Rightarrow> objref \<Rightarrow> csess \<Rightarrow> prog" where
  "error_vcl P ob sp = the_or_panic (error_reason sp) (\<lambda>reason.
     Do (C_error_headers ob (cs_err_code sp) reason (err_ttl P)) (VCL_method VCL_MET_ERROR sp (error_next P ob)))"

definition cnt_error :: "cparams \<Rightarrow> csess \<Rightarrow> prog" where
  "cnt_error P sp = error_object P sp (\<lambda>ob sp. error_vcl P ob (error_code sp))"

text \<open>\<open>cnt_fetch\<close>, in the order of the code: giving up, \<open>drop_busy\<close> (the calls of \<open>HSH_DerefObjCore\<close>), the headers,
  the object, its fields, the end of the fetch.\<close>

definition fetch_failed :: "csess \<Rightarrow> csess" where
  "fetch_failed sp = sp\<lparr>wk_bereq := None, wk_beresp := None, wk_beresp1 := None, cs_err_code := 503, cs_step := STP_ERROR\<rparr>"

definition drop_busy :: "csess \<Rightarrow> (csess \<Rightarrow> prog) \<Rightarrow> prog" where
  "drop_busy sp k = the_or_panic (cs_objcore sp) (\<lambda>oc. the_or_panic (cs_objhead sp) (\<lambda>oh.
     Do (C_DerefObjCore oc oh) (k (sp\<lparr>cs_objcore := None, cs_objhead := None\<rparr>))))"

definition fetch_finish :: "objref \<Rightarrow> csess \<Rightarrow> prog" where
  "fetch_finish ob sp = Do (C_Store ob (St_cacheable True)) (
     let k = Ret False (sp\<lparr>wk_bereq := None, wk_beresp := None, wk_beresp1 := None, cs_step := STP_DELIVER\<rparr>) in
     if wk_cacheable sp
     then (case ob of Obj_anon a \<Rightarrow> Panic | Obj_core oc \<Rightarrow> Do (C_EXP_Insert oc) (Do (C_Unbusy oc) k))
     else k)"

definition fetch_pass :: "cparams \<Rightarrow> objref \<Rightarrow> csess \<Rightarrow> prog \<Rightarrow> prog" where
  "fetch_pass P ob sp k = (
     let dflt = real (unat (default_ttl (cp_ttl P)));
         k = (case cs_t_req sp of
                None \<Rightarrow> k
              | Some t \<Rightarrow> if wk_ttl sp - t < dflt then Do (C_Store ob (St_ttl (t + dflt))) k else k)
     in case ob of Obj_core oc \<Rightarrow> Do (C_OC_PASS oc) k | Obj_anon a \<Rightarrow> k)"

definition fetch_end :: "cparams \<Rightarrow> handling \<Rightarrow> objref \<Rightarrow> csess \<Rightarrow> prog" where
  "fetch_end P handling ob sp = (
     let sp0 = sp\<lparr>cs_obj := None, wk_bereq := None, wk_beresp := None, wk_beresp1 := None\<rparr> in
     case handling of
       VCL_RET_RESTART \<Rightarrow> Do (C_Drop ob) (Ret False (sp0\<lparr>cs_director := None, cs_restarts := cs_restarts sp + 1, cs_step := STP_RECV\<rparr>))
     | VCL_RET_PASS \<Rightarrow> fetch_pass P ob sp (fetch_finish ob sp)
     | VCL_RET_DELIVER \<Rightarrow> fetch_finish ob sp
     | VCL_RET_ERROR \<Rightarrow> Do (C_Drop ob) (Ret False (sp0\<lparr>cs_step := STP_ERROR\<rparr>))
     | _ \<Rightarrow> Panic)"

definition fetch_body :: "cparams \<Rightarrow> handling \<Rightarrow> objref \<Rightarrow> csess \<Rightarrow> prog" where
  "fetch_body P handling ob sp = Ask A_FetchBody (\<lambda>i.
     let sp = sp\<lparr>cs_vbe := False\<rparr> in
     need (cs_director sp \<noteq> None) (
     if i \<noteq> 0 then Do (C_Drop ob) (Ret False (fetch_failed (sp\<lparr>cs_obj := None\<rparr>)))
     else (let k = (if wk_do_esi sp then Do (C_ESI_Parse ob) (fetch_end P handling ob sp) else fetch_end P handling ob sp) in
       if wk_cacheable sp then (case ob of Obj_anon a \<Rightarrow> Panic | Obj_core oc \<Rightarrow> Do (C_HSH_Object oc) k) else k)))"

definition fetch_fields :: "objref \<Rightarrow> csess \<Rightarrow> prog \<Rightarrow> prog" where
  "fetch_fields ob sp k =
     Do (C_Store ob (St_xid (cs_xid sp))) (Do (C_Store ob (St_response (cs_err_code sp)))
     (Do (C_Store ob (St_cacheable (wk_cacheable sp))) (Do (C_Store ob (St_ttl (wk_ttl sp))) (Do (C_Store ob (St_grace (wk_grace sp)))
     (let k = Do (C_Store ob (St_age (wk_age sp))) (Do (C_Store ob (St_entered (wk_entered sp))) k)
      in if wk_ttl sp = 0 \<and> wk_grace sp = Some 0 then Do (C_Store ob (St_cacheable False)) k else k)))))"

definition fetch_headers :: "cparams \<Rightarrow> objref \<Rightarrow> http \<Rightarrow> nat \<Rightarrow> prog \<Rightarrow> prog" where
  "fetch_headers P ob hp nhttp k =
     the_or_panic (http_CopyResp ((http_Setup (HTTP_create nhttp))\<lparr>hp_logtag := HTTP_Obj\<rparr>) hp) (\<lambda>hp2.
     the_or_panic (http_FilterFields hp2 hp [HTTPH_A_INS]) (\<lambda>hp2. Do (C_Store ob (St_http hp2)) (Do (C_CopyHome ob)
     (the_or_panic (http_GetHdr hp (H_of ''Last-Modified'')) (\<lambda>b. case b of
        None \<Rightarrow> k | Some b \<Rightarrow> Do (C_Store ob (St_last_modified (TIM_parse (cp_conv P) b))) k)))))"

definition fetch_object :: "cparams \<Rightarrow> handling \<Rightarrow> http \<Rightarrow> string option \<Rightarrow> csess \<Rightarrow> prog" where
  "fetch_object P handling hp vary sp =
     the_or_panic (http_EstimateWS hp [HTTPH_A_INS]) (\<lambda>(l, nhttp).
     STV_NewObject (l + (case vary of Some v \<Rightarrow> length v | None \<Rightarrow> 0) + 30) (wk_ttl sp) nhttp (wk_cacheable sp) (\<lambda>a.
     let rest = (\<lambda>ob sp. let k = fetch_fields ob sp (fetch_headers P ob hp nhttp (fetch_body P handling ob sp))
                         in case vary of Some v \<Rightarrow> Do (C_Store ob (St_vary v)) k | None \<Rightarrow> k) in
     case cs_objhead sp of
       Some oh \<Rightarrow> the_or_panic (cs_objcore sp) (\<lambda>oc. Do (C_Link oc a)
         (rest (Obj_core oc) (sp\<lparr>cs_obj := Some (Obj_core oc), cs_objhead := None, cs_objcore := None\<rparr>)))
     | None \<Rightarrow> rest (Obj_anon a) (sp\<lparr>cs_obj := Some (Obj_anon a)\<rparr>)))"

definition fetch_vary :: "cparams \<Rightarrow> csess \<Rightarrow> prog" where
  "fetch_vary P sp = the_or_panic (wk_beresp sp) (\<lambda>hp.
     if wk_cacheable sp
     then need (cs_objhead sp \<noteq> None) (need (cs_objcore sp \<noteq> None)
       (the_or_panic (VRY_Create (cs_http sp) hp) (\<lambda>vary. need (vary \<noteq> Some []) (fetch_object P (cs_handling sp) hp vary sp))))
     else need (cs_objhead sp = None) (need (cs_objcore sp = None) (fetch_object P (cs_handling sp) hp None sp)))"

definition fetch_decide :: "cparams \<Rightarrow> csess \<Rightarrow> prog" where
  "fetch_decide P sp =
     (if cs_objcore sp = None then need (cs_objhead sp = None) (fetch_vary P (sp\<lparr>wk_cacheable := False\<rparr>))
      else if \<not> wk_cacheable sp \<and> cs_objhead sp \<noteq> None then drop_busy sp (fetch_vary P)
      else fetch_vary P sp)"

definition cacheable_status :: "int \<Rightarrow> bool" where
  "cacheable_status s \<longleftrightarrow> s \<in> {200, 203, 300, 301, 302, 410, 404}"

definition fetch_answer :: "cparams \<Rightarrow> http \<Rightarrow> csess \<Rightarrow> prog" where
  "fetch_answer P hp sp = the_or_panic (http_GetStatus hp) (\<lambda>st.
     TIM_real (\<lambda>t. the_or_panic (RFC2616_Ttl (cp_conv P) (cp_ttl P) (Some t) hp) (\<lambda>(ttl, age).
     VCL_method VCL_MET_FETCH
       (sp\<lparr>cs_err_code := st, wk_entered := t, wk_age := (case age of Some a \<Rightarrow> a | None \<Rightarrow> 0), wk_ttl := ttl,
           wk_cacheable := (cacheable_status st \<and> cs_objcore sp \<noteq> None), wk_do_esi := False, wk_grace := None\<rparr>)
       (fetch_decide P))))"

definition cnt_fetch :: "cparams \<Rightarrow> csess \<Rightarrow> prog" where
  "cnt_fetch P sp =
     need (cs_vcl sp \<noteq> None) (need (cs_director sp \<noteq> None) (need (\<not> cs_vbe sp) (need (cs_obj sp = None)
     (need (cs_objcore sp \<noteq> None \<longrightarrow> cs_objhead sp \<noteq> None)
     (FetchHdr (sp\<lparr>wk_beresp := Some (http_Setup (wrk_http P))\<rparr>) (\<lambda>(i, hp).
       let sp = sp\<lparr>wk_beresp := Some hp, wk_beresp1 := Some hp, cs_vbe := (i = 0)\<rparr> in
       if i = 0 then fetch_answer P hp sp
       else if cs_objcore sp \<noteq> None then drop_busy sp (\<lambda>sp. Ret False (fetch_failed sp))
       else Ret False (fetch_failed sp)))))))"

definition cnt_first :: "csess \<Rightarrow> prog" where
  "cnt_first sp = need (cs_xid sp = 0) (need (cs_restarts sp = 0)
     (Do C_Prep (Do C_HTC_Init (Ret False (sp\<lparr>cs_step := STP_WAIT\<rparr>)))))"

definition hit_next :: "objref \<Rightarrow> csess \<Rightarrow> prog" where
  "hit_next ob sp =
     (if cs_handling sp = VCL_RET_DELIVER
      then Ask A_FetchReqBody (\<lambda>_. Ret False (sp\<lparr>wk_bereq := None, cs_step := STP_DELIVER\<rparr>))
      else Do (C_Deref ob) (let sp = sp\<lparr>cs_obj := None, cs_objcore := None\<rparr> in need (cs_objhead sp = None) (
        case cs_handling sp of
          VCL_RET_PASS \<Rightarrow> Ret False (sp\<lparr>cs_step := STP_PASS\<rparr>)
        | VCL_RET_ERROR \<Rightarrow> Ret False (sp\<lparr>cs_step := STP_ERROR\<rparr>)
        | VCL_RET_RESTART \<Rightarrow> Ret False (sp\<lparr>cs_director := None, cs_restarts := cs_restarts sp + 1, cs_step := STP_RECV\<rparr>)
        | _ \<Rightarrow> Panic)))"

definition cnt_hit :: "csess \<Rightarrow> prog" where
  "cnt_hit sp = the_or_panic (cs_obj sp) (\<lambda>ob. need (cs_vcl sp \<noteq> None) (VCL_method VCL_MET_HIT sp (hit_next ob)))"

text \<open>The answer to a lookup: the object core, its object head, and its flags \<open>OC_F_BUSY\<close> and \<open>OC_F_PASS\<close>.\<close>

definition cnt_lookup :: "csess \<Rightarrow> prog" where
  "cnt_lookup sp = need (cs_vcl sp \<noteq> None) (Lookup sp (\<lambda>r. case r of
     None \<Rightarrow> Ret True sp
   | Some (oc, oh, busy, pass) \<Rightarrow>
       if busy then Ret False (sp\<lparr>cs_objhead := Some oh, cs_objcore := Some oc, cs_step := STP_MISS\<rparr>)
       else if pass then Do (C_Deref (Obj_core oc)) (Ret False (sp\<lparr>cs_obj := None, cs_objcore := None, cs_objhead := None, cs_step := STP_PASS\<rparr>))
       else Ret False (sp\<lparr>cs_obj := Some (Obj_core oc), cs_step := STP_HIT\<rparr>)))"

text \<open>A new \<open>bereq\<close>: the workspace is reset, the request is copied with some of its headers filtered out.\<close>

definition make_bereq :: "cparams \<Rightarrow> httph \<Rightarrow> csess \<Rightarrow> (csess \<Rightarrow> prog) \<Rightarrow> prog" where
  "make_bereq P how sp k =
     the_or_panic (http_FilterHeader (http_Setup (wrk_http P)) (wrk_ws P) (cs_http sp) [how] (unat (cs_xid sp)))
       (\<lambda>(hp, ws). k (sp\<lparr>wk_bereq := Some hp\<rparr>))"

definition miss_next :: "csess \<Rightarrow> prog" where
  "miss_next sp = (case cs_handling sp of
     VCL_RET_ERROR \<Rightarrow> drop_busy sp (\<lambda>sp. Ret False (sp\<lparr>cs_step := STP_ERROR\<rparr>))
   | VCL_RET_PASS \<Rightarrow> drop_busy sp (\<lambda>sp. Ret False (sp\<lparr>cs_step := STP_PASS\<rparr>))
   | VCL_RET_FETCH \<Rightarrow> Ret False (sp\<lparr>cs_step := STP_FETCH\<rparr>)
   | VCL_RET_RESTART \<Rightarrow> drop_busy sp (\<lambda>sp. Panic)
   | _ \<Rightarrow> Panic)"

definition cnt_miss :: "cparams \<Rightarrow> csess \<Rightarrow> prog" where
  "cnt_miss P sp = need (cs_vcl sp \<noteq> None) (need (cs_obj sp = None) (need (cs_objcore sp \<noteq> None) (need (cs_objhead sp \<noteq> None)
     (make_bereq P HTTPH_R_FETCH sp (\<lambda>sp. VCL_method VCL_MET_MISS (sp\<lparr>wk_timeouts := (0, 0, 0)\<rparr>) miss_next)))))"

definition pass_next :: "csess \<Rightarrow> prog" where
  "pass_next sp =
     (if cs_handling sp = VCL_RET_ERROR then Ret False (sp\<lparr>cs_step := STP_ERROR\<rparr>)
      else need (cs_handling sp = VCL_RET_PASS) (Ret False (sp\<lparr>cs_sendbody := True, cs_step := STP_FETCH\<rparr>)))"

definition cnt_pass :: "cparams \<Rightarrow> csess \<Rightarrow> prog" where
  "cnt_pass P sp = need (cs_vcl sp \<noteq> None) (need (cs_obj sp = None)
     (make_bereq P HTTPH_R_PASS sp (\<lambda>sp. VCL_method VCL_MET_PASS (sp\<lparr>wk_timeouts := (0, 0, 0)\<rparr>) pass_next)))"

definition pipe_next :: "csess \<Rightarrow> prog" where
  "pipe_next sp =
     (if cs_handling sp = VCL_RET_ERROR then Panic
      else need (cs_handling sp = VCL_RET_PIPE) (PipeSession sp (\<lambda>(fd, t).
        Ret False (sp\<lparr>cs_fd := fd, cs_t_resp := t, wk_bereq := None, cs_step := STP_DONE\<rparr>))))"

definition cnt_pipe :: "cparams \<Rightarrow> csess \<Rightarrow> prog" where
  "cnt_pipe P sp = need (cs_vcl sp \<noteq> None) (make_bereq P HTTPH_R_PIPE sp (\<lambda>sp. VCL_method VCL_MET_PIPE sp pipe_next))"

definition recv_go :: "handling \<Rightarrow> csess \<Rightarrow> prog" where
  "recv_go recv_handling sp = (case recv_handling of
     VCL_RET_LOOKUP \<Rightarrow> Ret False (sp\<lparr>cs_sendbody := False, cs_step := STP_LOOKUP\<rparr>)
   | VCL_RET_PIPE \<Rightarrow> if cs_esis sp > 0 then Panic else Ret False (sp\<lparr>cs_sendbody := False, cs_step := STP_PIPE\<rparr>)
   | VCL_RET_PASS \<Rightarrow> Ret False (sp\<lparr>cs_sendbody := False, cs_step := STP_PASS\<rparr>)
   | VCL_RET_ERROR \<Rightarrow> Ret False (sp\<lparr>cs_sendbody := False, cs_step := STP_ERROR\<rparr>)
   | _ \<Rightarrow> Panic)"

definition recv_head :: "handling \<Rightarrow> csess \<Rightarrow> prog" where
  "recv_head recv_handling sp = the_or_panic (http_GetReq (cs_http sp)) (\<lambda>r.
     if r = ''HEAD''
     then the_or_panic (http_ForceGet (cs_http sp)) (\<lambda>h. recv_go recv_handling (sp\<lparr>cs_wantbody := False, cs_http := h\<rparr>))
     else recv_go recv_handling (sp\<lparr>cs_wantbody := True\<rparr>))"

definition recv_digest :: "handling \<Rightarrow> csess \<Rightarrow> prog" where
  "recv_digest recv_handling sp = need (cs_handling sp = VCL_RET_HASH)
     (case SHA256_Final (wk_sha sp) of (d, ctx) \<Rightarrow> recv_head recv_handling (sp\<lparr>cs_digest := d, wk_sha := ctx\<rparr>))"

definition recv_next :: "cparams \<Rightarrow> csess \<Rightarrow> prog" where
  "recv_next P sp =
     (if cs_restarts sp \<ge> max_restarts P
      then Ret False (sp\<lparr>cs_err_code := (if cs_err_code sp = 0 then 503 else cs_err_code sp), cs_step := STP_ERROR\<rparr>)
      else VCL_method VCL_MET_HASH (sp\<lparr>wk_sha := SHA256_Init (wk_sha sp)\<rparr>) (recv_digest (cs_handling sp)))"

definition cnt_recv :: "cparams \<Rightarrow> csess \<Rightarrow> prog" where
  "cnt_recv P sp = the_or_panic (cs_vcl sp) (\<lambda>v. need (cs_obj sp = None) (need (cs_director sp = None)
     (VCL_method VCL_MET_RECV (sp\<lparr>cs_director := Some (vcl_director P v), cs_disable_esi := False\<rparr>) (recv_next P))))"

definition start_expect :: "csess \<Rightarrow> prog" where
  "start_expect sp = the_or_panic (http_DoConnection (cs_http sp)) (\<lambda>(doclose, hp).
     let sp = sp\<lparr>cs_doclose := doclose, cs_http := hp\<rparr> in
     the_or_panic (http_GetHdr hp (H_of ''Expect'')) (\<lambda>p. case p of
       None \<Rightarrow> Ret False (sp\<lparr>cs_step := STP_RECV\<rparr>)
     | Some p \<Rightarrow> if p \<noteq> ''100-continue'' then Ret False (sp\<lparr>cs_err_code := 417, cs_step := STP_ERROR\<rparr>)
         else Do C_continue (the_or_panic (http_Unset hp (H_of ''Expect'')) (\<lambda>hp.
           Ret False (sp\<lparr>cs_http := hp, cs_step := STP_RECV\<rparr>)))))"

definition cnt_start :: "csess \<Rightarrow> prog" where
  "cnt_start sp = need (cs_restarts sp = 0) (need (cs_obj sp = None) (need (cs_vcl sp = None)
     (TIM_real (\<lambda>t. Next_xid (\<lambda>xid. VCL_Refresh (wk_vcl sp) (\<lambda>v. Request (\<lambda>rxbuf.
       let sp = sp\<lparr>cs_t_req := Some t, cs_xid := xid, cs_vcl := Some v, wk_vcl := None\<rparr> in
       the_or_panic (http_DissectRequest (http_Setup (cs_http sp)) rxbuf) (\<lambda>(i, hp).
         let sp = sp\<lparr>cs_http := hp\<rparr> in
         if i < 0 then vca_close_session ''junk'' (sp\<lparr>cs_step := STP_DONE\<rparr>) (Ret False)
         else the_or_panic (HTTP_Copy (cs_http0 sp) hp) (\<lambda>hp0. let sp = sp\<lparr>cs_http0 := hp0\<rparr> in
           if i \<noteq> 0 then Ret False (sp\<lparr>cs_err_code := i, cs_step := STP_ERROR\<rparr>)
           else start_expect sp)))))))))"

section \<open>The dispatcher\<close>

definition cnt_step :: "cparams \<Rightarrow> csess \<Rightarrow> prog" where
  "cnt_step P sp = (case cs_step sp of
     STP_WAIT \<Rightarrow> cnt_wait P sp | STP_FIRST \<Rightarrow> cnt_first sp | STP_RECV \<Rightarrow> cnt_recv P sp | STP_START \<Rightarrow> cnt_start sp
   | STP_PIPE \<Rightarrow> cnt_pipe P sp | STP_PASS \<Rightarrow> cnt_pass P sp | STP_LOOKUP \<Rightarrow> cnt_lookup sp | STP_MISS \<Rightarrow> cnt_miss P sp
   | STP_HIT \<Rightarrow> cnt_hit sp | STP_FETCH \<Rightarrow> cnt_fetch P sp | STP_DELIVER \<Rightarrow> cnt_deliver P sp | STP_ERROR \<Rightarrow> cnt_error P sp
   | STP_DONE \<Rightarrow> cnt_done P sp)"

text \<open>\<open>CNT_Session\<close>: the steps in which a worker may take a session up.\<close>

definition entry_step :: "step \<Rightarrow> bool" where
  "entry_step s \<longleftrightarrow> s \<in> {STP_FIRST, STP_START, STP_LOOKUP, STP_RECV}"

end
