(* ===== verification/Http_Total.thy ===== *)
theory Http_Total
  imports Http_Props
begin

text \<open>
  The functions of \<open>cache_http.c\<close> that the request state machine calls return on every well-formed message, whatever its
  text, and keep it well-formed.
\<close>

section \<open>Parsing\<close>

lemma http_Setup_wf: "HTTP_HDR_FIRST \<le> hp_shd hp \<Longrightarrow> http_wf (http_Setup hp)"
  by (simp add: http_wf_def http_Setup_def)

lemma http_Setup_shd [simp]: "hp_shd (http_Setup hp) = hp_shd hp"
  by (simp add: http_Setup_def)

text \<open>What the parser keeps: the room, and the slots of the first line.\<close>

definition same_line :: "http \<Rightarrow> http \<Rightarrow> bool" where
  "same_line hp hp' \<longleftrightarrow> http_wf hp' \<and> hp_shd hp' = hp_shd hp \<and> (\<forall>n < HTTP_HDR_FIRST. hp_hd hp' ! n = hp_hd hp ! n)"

lemma same_line_refl: "http_wf hp \<Longrightarrow> same_line hp hp"
  by (simp add: same_line_def)

lemma same_line_trans: "same_line a b \<Longrightarrow> same_line b c \<Longrightarrow> same_line a c"
  by (simp add: same_line_def)

lemma dissect_loop_line:
  assumes "dissect_loop hp a b = (i, hp')" "http_wf hp"
  shows "same_line hp hp' \<and> i \<in> {0, 400}"
  using assms
proof (induction hp a b arbitrary: i hp' rule: dissect_loop.induct)
  case (1 hp a b)
  obtain b' r q where h: "hdr_end b 0 0 = (b', r, q)" by (cases "hdr_end b 0 0") auto
  define hp1 where "hp1 = (if is_cond b' then hp\<lparr>hp_conds := True\<rparr> else hp)"
  define hp2 where "hp2 = hp1\<lparr>hp_hd := (hp_hd hp1)[hp_nhd hp1 := Some (a, trim_sp (take q b'))],
    hp_filter := (hp_filter hp1)[hp_nhd hp1 := False], hp_nhd := hp_nhd hp1 + 1\<rparr>"
  have w: "same_line hp hp1" using 1(3) by (simp add: hp1_def same_line_def http_wf_def)
  consider "b = [] \<or> q = 0" | "b \<noteq> []" "q \<noteq> 0" "\<not> hp_nhd hp1 < hp_shd hp1" | "b \<noteq> []" "q \<noteq> 0" "hp_nhd hp1 < hp_shd hp1" by blast
  then show ?case
  proof cases
    case 1
    then have "(i, hp') = (0, hp)" using "1.prems"(1) h by (subst (asm) dissect_loop.simps) (cases "b = []", simp_all)
    then show ?thesis using same_line_refl [OF "1.prems"(2)] by simp
  next
    case 2
    then show ?thesis using "1.prems" h w by (auto simp: dissect_loop.simps [of hp a b] hp1_def)
  next
    case 3
    have w2: "same_line hp1 hp2" using w 3(3) by (auto simp: hp2_def same_line_def http_wf_def)
    have "dissect_loop hp2 (a + r) (drop r b') = (i, hp')"
      using "1.prems"(1) 3 h unfolding dissect_loop.simps [of hp a b] hp2_def by (simp add: hp1_def [symmetric] Let_def)
    from "1.IH" [OF 3(1) h [symmetric] refl refl 3(2) hp1_def 3(3) this [unfolded hp2_def]] w2
    show ?thesis using same_line_trans [OF same_line_trans [OF w w2]] by (auto simp: same_line_def hp2_def)
  qed
qed

lemma dissect_hdrs_line:
  assumes "http_dissect_hdrs hp a p = (i, hp')" "http_wf hp"
  shows "same_line hp hp' \<and> i \<in> {0, 400}"
proof -
  have "http_wf (hp\<lparr>hp_nhd := HTTP_HDR_FIRST, hp_conds := False\<rparr>)" using assms(2) by (auto simp: http_wf_def)
  then show ?thesis using dissect_loop_line [of "hp\<lparr>hp_nhd := HTTP_HDR_FIRST, hp_conds := False\<rparr>"] assms(1)
    by (auto simp: http_dissect_hdrs_def same_line_def split: if_splits)
qed

lemma set_hd_wf [simp]: "http_wf (set_hd hp n t) \<longleftrightarrow> http_wf hp" "hp_shd (set_hd hp n t) = hp_shd hp"
  by (simp_all add: set_hd_def http_wf_def)

lemma set_hd_nth: "n < length (hp_hd hp) \<Longrightarrow> hp_hd (set_hd hp n t) ! m = (if m = n then t else hp_hd hp ! m)"
  by (simp add: set_hd_def)

lemma splitline_line:
  assumes "http_splitline hp rx a b c = (i, hp')" "http_wf hp"
    "distinct [a, b, c]" "a < HTTP_HDR_FIRST" "b < HTTP_HDR_FIRST" "c < HTTP_HDR_FIRST"
  shows "http_wf hp' \<and> hp_shd hp' = hp_shd hp \<and> i \<in> {- 1, 0, 400} \<and>
    (i = 0 \<longrightarrow> hp_hd hp' ! a \<noteq> None \<and> hp_hd hp' ! b \<noteq> None \<and> hp_hd hp' ! c \<noteq> None)"
proof -
  have len: "HTTP_HDR_FIRST \<le> length (hp_hd hp)" using assms(2) by (simp add: http_wf_def)
  have fin: ?thesis if e: "http_dissect_hdrs (set_hd (set_hd (set_hd hp a (Some x)) b (Some y)) c (Some z)) p q = (i, hp')" for x y z p q
    using dissect_hdrs_line [OF e] assms(2-) len by (auto simp: same_line_def set_hd_nth) (simp_all add: set_hd_def)
  show ?thesis
    using assms(1,2) fin unfolding http_splitline_def
    by (auto simp: Let_def split: option.splits prod.splits if_splits)
qed

lemma http_DissectRequest_line:
  assumes "http_wf hp"
  shows "\<exists>i hp'. http_DissectRequest hp rx = Some (i, hp') \<and> http_wf hp' \<and> hp_shd hp' = hp_shd hp \<and> i \<in> {- 1, 0, 400} \<and>
    (i = 0 \<longrightarrow> hp_hd hp' ! HTTP_HDR_REQ \<noteq> None \<and> hp_hd hp' ! HTTP_HDR_URL \<noteq> None \<and> hp_hd hp' ! HTTP_HDR_PROTO \<noteq> None)"
proof -
  have w: "http_wf (hp\<lparr>hp_logtag := HTTP_Rx\<rparr>)" using assms by (simp add: http_wf_def)
  obtain i hp' where h: "http_splitline (hp\<lparr>hp_logtag := HTTP_Rx\<rparr>) rx HTTP_HDR_REQ HTTP_HDR_URL HTTP_HDR_PROTO = (i, hp')" by fastforce
  have "distinct [HTTP_HDR_REQ, HTTP_HDR_URL, HTTP_HDR_PROTO]" "HTTP_HDR_REQ < HTTP_HDR_FIRST" "HTTP_HDR_URL < HTTP_HDR_FIRST" "HTTP_HDR_PROTO < HTTP_HDR_FIRST"
    by (simp_all add: HTTP_HDR_REQ_def HTTP_HDR_URL_def HTTP_HDR_PROTO_def HTTP_HDR_FIRST_def)
  from splitline_line [OF h w this] show ?thesis
    using h by (auto simp: http_DissectRequest_def Let_def http_ProtoVer_def http_wf_def split: option.splits)
qed

section \<open>Headers\<close>

lemma http_GetHdr_H_of: "valid_name n \<Longrightarrow> http_GetHdr hp (H_of n) = Some (hdr_value hp n)"
  using http_GetHdr_value [of n hp "[]"] by simp

lemma names_valid: "valid_name ''Connection''" "valid_name ''Expect''" "valid_name ''Last-Modified''"
  by (simp_all add: valid_name_def NUL_def)

lemma conn_scan_line: "conn_scan hp p r = (c, hp') \<Longrightarrow> http_wf hp \<Longrightarrow> same_line hp hp'"
proof (induction hp p r rule: conn_scan.induct)
  case (2 hp c p ret)
  show ?case
  proof (cases "conn_token c")
    case True
    let ?u = "http_findhdr hp (length (c # takeWhile conn_token p)) (c # p)"
    let ?hp = "if ?u \<noteq> 0 then hp\<lparr>hp_filter := (hp_filter hp)[?u := True]\<rparr> else hp"
    have w: "same_line hp ?hp" using 2(4) by (simp add: same_line_def http_wf_def)
    have "\<not> \<not> conn_token c" using True by simp
    from "2.IH"(2) [OF this refl refl refl refl refl] have "same_line ?hp hp'"
      using 2(3) w True by (simp add: same_line_def Let_def)
    then show ?thesis using same_line_trans [OF w] by blast
  qed (use 2 in simp)
qed (simp add: same_line_refl)

lemma http_DoConnection_line:
  assumes "http_wf hp"
  shows "\<exists>d hp'. http_DoConnection hp = Some (d, hp') \<and> same_line hp hp'"
  using assms conn_scan_line [of hp _ False] same_line_refl [OF assms]
  by (auto simp: http_DoConnection_def http_GetHdr_H_of names_valid split: option.splits prod.splits)

lemma take_eq_nth: "take k xs = take k ys \<Longrightarrow> n < k \<Longrightarrow> xs ! n = ys ! n"
  by (metis nth_take)

lemma http_Unset_line:
  assumes "http_wf hp" "valid_name n"
  shows "\<exists>hp'. http_Unset hp (H_of n) = Some hp' \<and> same_line hp hp'"
proof -
  obtain hp' where h: "http_Unset hp (H_of n) = Some hp'" "hp_shd hp' = hp_shd hp"
     "length (hp_hd hp') = length (hp_hd hp)" "length (hp_filter hp') = length (hp_filter hp)"
     "HTTP_HDR_FIRST \<le> hp_nhd hp'" "hp_nhd hp' \<le> hp_nhd hp"
     "take (hp_nhd hp') (hp_hd hp') = take HTTP_HDR_FIRST (hp_hd hp) @ filter (stays n) (drop HTTP_HDR_FIRST (take (hp_nhd hp) (hp_hd hp)))"
    using unset_from_hd [OF assms(2), of HTTP_HDR_FIRST HTTP_HDR_FIRST "hp_nhd hp" hp] assms(1)
    by (auto simp: http_Unset_def http_wf_def)
  have "take HTTP_HDR_FIRST (take (hp_nhd hp') (hp_hd hp')) = take HTTP_HDR_FIRST (hp_hd hp)"
    unfolding h(7) using assms(1) by (simp add: http_wf_def)
  then have "take HTTP_HDR_FIRST (hp_hd hp') = take HTTP_HDR_FIRST (hp_hd hp)" using h(5) by (simp add: min_def)
  then show ?thesis using h assms(1) take_eq_nth by (fastforce simp: same_line_def http_wf_def)
qed

section \<open>Copying\<close>

lemma http_copyh_line:
  assumes "http_wf to" "hp_hd fm ! n = Some t" "n < HTTP_HDR_FIRST"
  shows "\<exists>to'. http_copyh to fm n = Some to' \<and> http_wf to' \<and> hp_shd to' = hp_shd to"
  using assms by (auto simp: http_copyh_def http_wf_def)

lemma http_SetH_line:
  assumes "http_wf to" "n < HTTP_HDR_FIRST"
  shows "\<exists>to'. http_SetH to n t = Some to' \<and> http_wf to' \<and> hp_shd to' = hp_shd to \<and> hp_hd to' = (hp_hd to)[n := Some (fst t, cstr (snd t))]"
  using assms by (auto simp: http_SetH_def http_wf_def)

lemma http_FilterFields_total:
  assumes "http_wf fm" "http_wf to"
  shows "\<exists>to'. http_FilterFields to fm how = Some to' \<and> http_wf to'"
proof -
  have w: "http_wf (to\<lparr>hp_nhd := HTTP_HDR_FIRST, hp_status := hp_status fm\<rparr>)" using assms(2) by (auto simp: http_wf_def)
  show ?thesis using filter_from_hd [OF _ w, of "[HTTP_HDR_FIRST..<hp_nhd fm]" fm how] assms(1)
    by (auto simp: http_FilterFields_def http_wf_def)
qed

lemma estimate_total:
  "\<exists>l' n'. estimate_from fm how us l n = Some (l', n') \<and> n \<le> n'"
proof (induction us arbitrary: l n)
  case (Cons u us)
  show ?case
  proof (cases "keep fm how u")
    case True
    then obtain t where "hp_hd fm ! u = Some t" by (auto simp: keep_def split: option.splits)
    then show ?thesis using Cons [of "l + Tlen t + 1" "n + 1"] True by (auto simp: kept_keep)
  qed (use Cons in \<open>simp add: kept_keep\<close>)
qed simp

lemma http_EstimateWS_total: "\<exists>l n. http_EstimateWS fm how = Some (l, n) \<and> HTTP_HDR_FIRST \<le> n"
  using estimate_total by (simp add: http_EstimateWS_def)

lemma http_CopyResp_total:
  assumes "http_wf to" "hp_hd fm ! HTTP_HDR_STATUS \<noteq> None" "hp_hd fm ! HTTP_HDR_RESPONSE \<noteq> None"
  shows "\<exists>to'. http_CopyResp to fm = Some to' \<and> http_wf to'"
proof -
  obtain s r where "hp_hd fm ! HTTP_HDR_STATUS = Some s" "hp_hd fm ! HTTP_HDR_RESPONSE = Some r" using assms by auto
  moreover have "HTTP_HDR_PROTO < HTTP_HDR_FIRST" "HTTP_HDR_STATUS < HTTP_HDR_FIRST" "HTTP_HDR_RESPONSE < HTTP_HDR_FIRST"
    by (simp_all add: HTTP_HDR_PROTO_def HTTP_HDR_STATUS_def HTTP_HDR_RESPONSE_def HTTP_HDR_FIRST_def)
  ultimately show ?thesis
    using http_SetH_line [OF assms(1), of HTTP_HDR_PROTO "(STATIC, ''HTTP/1.1'')"] http_copyh_line [of _ fm HTTP_HDR_STATUS s]
      http_copyh_line [of _ fm HTTP_HDR_RESPONSE r] by (fastforce simp: http_CopyResp_def)
qed

lemma http_PrintfHeader_total:
  assumes "ws_inv ws" "ws_r ws = None"
  shows "http_PrintfHeader to ws s \<noteq> None"
proof -
  have i: "ws_s ws < ws_e ws" "ws_s ws \<le> ws_f ws" "ws_f ws \<le> ws_e ws" "ws_e ws - ws_f ws < 2 ^ 32" "0 < ws_s ws"
    using assms(1) by (auto simp: ws_inv_simps)
  have u: "unat (word_of_nat (ws_e ws - ws_f ws) :: u32) = ws_e ws - ws_f ws" by (rule unat_u32_of_nat) (use i in simp)
  have a: "WS_Assert ws" using assms(1) by (rule ws_invD)
  obtain l ws' where r: "WS_Reserve ws 0 = Some (l, ws')" "unat l = ws_e ws - ws_f ws" "ws' = ws\<lparr>ws_r := Some (ws_e ws)\<rparr>"
    using a assms(2) i u by (simp add: WS_Reserve_def pdiff_def)
  have a': "WS_Assert ws'" using a i by (simp add: r(3) WS_Assert_def)
  have "unat (word_of_nat (length s + 1) :: u32) = length s + 1" if "length s + 1 < unat l"
    by (rule unat_u32_of_nat) (use that r(2) i in linarith)
  then show ?thesis using r a' i by (auto simp: http_PrintfHeader_def WS_Release_def Let_def)
qed

lemma http_FilterHeader_total:
  assumes "http_wf hp" "http_wf req" "ws_inv ws" "ws_r ws = None"
    "hp_hd req ! HTTP_HDR_REQ \<noteq> None" "hp_hd req ! HTTP_HDR_URL \<noteq> None" "hp_hd req ! HTTP_HDR_PROTO \<noteq> None"
  shows "http_FilterHeader hp ws req how xid \<noteq> None"
proof -
  obtain r u p where rup: "hp_hd req ! HTTP_HDR_REQ = Some r" "hp_hd req ! HTTP_HDR_URL = Some u" "hp_hd req ! HTTP_HDR_PROTO = Some p"
    using assms by auto
  have lt: "HTTP_HDR_PROTO < HTTP_HDR_FIRST" "HTTP_HDR_REQ < HTTP_HDR_FIRST" "HTTP_HDR_URL < HTTP_HDR_FIRST"
    by (simp_all add: HTTP_HDR_PROTO_def HTTP_HDR_REQ_def HTTP_HDR_URL_def HTTP_HDR_FIRST_def)
  have "http_wf (hp\<lparr>hp_logtag := HTTP_Tx\<rparr>)" using assms(1) by (simp add: http_wf_def)
  then obtain h1 where h1: "http_copyh (hp\<lparr>hp_logtag := HTTP_Tx\<rparr>) req HTTP_HDR_REQ = Some h1" "http_wf h1"
    using http_copyh_line [OF _ rup(1) lt(2)] by blast
  then obtain h2 where h2: "http_copyh h1 req HTTP_HDR_URL = Some h2" "http_wf h2"
    using http_copyh_line [OF _ rup(2) lt(3)] by blast
  then obtain h3 where h3: "(if how = [HTTPH_R_FETCH] then http_SetH h2 HTTP_HDR_PROTO (STATIC, ''HTTP/1.1'')
      else http_copyh h2 req HTTP_HDR_PROTO) = Some h3" "http_wf h3"
    using http_copyh_line [OF h2(2) rup(3) lt(1)] http_SetH_line [OF h2(2) lt(1), of "(STATIC, ''HTTP/1.1'')"]
    by (cases "how = [HTTPH_R_FETCH]") (simp_all, blast+)
  then obtain h4 where "http_FilterFields h3 req how = Some h4" "http_wf h4"
    using http_FilterFields_total [OF assms(2)] by blast
  then show ?thesis using h1(1) h2(1) h3(1) http_PrintfHeader_total [OF assms(3,4)] by (simp add: http_FilterHeader_def)
qed

lemma http_ForceGet_line:
  assumes "http_wf hp" "hp_hd hp ! HTTP_HDR_REQ \<noteq> None"
  shows "\<exists>hp'. http_ForceGet hp = Some hp' \<and> http_wf hp' \<and> hp_shd hp' = hp_shd hp \<and> (\<forall>n. hp_hd hp ! n \<noteq> None \<longrightarrow> hp_hd hp' ! n \<noteq> None)"
proof -
  have "HTTP_HDR_REQ < HTTP_HDR_FIRST" by (simp add: HTTP_HDR_REQ_def HTTP_HDR_FIRST_def)
  moreover from this have "HTTP_HDR_REQ < length (hp_hd hp)" using assms(1) by (simp add: http_wf_def)
  ultimately show ?thesis using http_SetH_line [OF assms(1), of HTTP_HDR_REQ "(STATIC, ''GET'')"] assms
    by (auto simp: http_ForceGet_def http_GetReq_def nth_list_update)
qed

lemma http_StatusMessage_total: "100 \<le> s \<Longrightarrow> s \<le> 999 \<Longrightarrow> \<exists>m. http_StatusMessage s = Some m"
  by (simp add: http_StatusMessage_def)

lemma HTTP_Copy_total:
  assumes "http_wf fm" "hp_shd to = hp_shd fm"
  shows "\<exists>to'. HTTP_Copy to fm = Some to' \<and> hp_shd to' = hp_shd to"
  using assms by (simp add: HTTP_Copy_def http_wf_def)

end
