(* ===== verification/Center_Safe.thy ===== *)
theory Center_Safe
  imports Center Http_Total
begin

text \<open>
  The request state machine obeys the rules of the cache: what a session holds, which answers the rest of the server
  may give, and that under these no handler fails an assertion.
\<close>

section \<open>What a session holds\<close>

text \<open>
  \<open>Busy oc oh\<close>: the reference to a busy object core without an object, and through it one to its object head;
  \<open>Filling oc\<close>: to a busy object core with an object; \<open>Using oc\<close>: to an object of the cache; \<open>Anon a\<close>: an object
  of its own.
\<close>

datatype own = Free | Busy addr addr | Filling addr | Using addr | Anon addr

fun shared_store :: "ostore \<Rightarrow> bool" where
  "shared_store (St_vary v) \<longleftrightarrow> False"
| "shared_store (St_entered t) \<longleftrightarrow> False"
| "shared_store s \<longleftrightarrow> True"

fun store_ok :: "ostore \<Rightarrow> bool" where
  "store_ok (St_vary v) \<longleftrightarrow> (\<forall>req. VRY_Match req v \<noteq> None)"
| "store_ok s \<longleftrightarrow> True"

definition holds :: "own \<Rightarrow> objref \<Rightarrow> bool" where
  "holds g ob \<longleftrightarrow> (case ob of Obj_core oc \<Rightarrow> g = Filling oc \<or> g = Using oc | Obj_anon a \<Rightarrow> g = Anon a)"

text \<open>The call is one that the holder may make, and what it holds after it.\<close>

fun cmd_ok :: "own \<Rightarrow> cmd \<Rightarrow> bool" where
  "cmd_ok g (C_Deref ob) \<longleftrightarrow> (case ob of Obj_core oc \<Rightarrow> g = Using oc | Obj_anon a \<Rightarrow> g = Anon a)"
| "cmd_ok g (C_DerefObjCore oc oh) \<longleftrightarrow> g = Busy oc oh"
| "cmd_ok g (C_Link oc a) \<longleftrightarrow> (\<exists>oh. g = Busy oc oh)"
| "cmd_ok g (C_Store ob s) \<longleftrightarrow> holds g ob \<and> store_ok s \<and> (shared_store s \<or> (\<forall>oc. g \<noteq> Using oc))"
| "cmd_ok g (C_OC_PASS oc) \<longleftrightarrow> g = Filling oc"
| "cmd_ok g (C_Unbusy oc) \<longleftrightarrow> g = Filling oc"
| "cmd_ok g (C_Drop ob) \<longleftrightarrow> (case ob of Obj_core oc \<Rightarrow> g = Filling oc | Obj_anon a \<Rightarrow> g = Anon a)"
| "cmd_ok g (C_HSH_Object oc) \<longleftrightarrow> g = Filling oc"
| "cmd_ok g (C_EXP_Insert oc) \<longleftrightarrow> g = Filling oc"
| "cmd_ok g (C_ESI_Parse ob) \<longleftrightarrow> holds g ob \<and> (\<forall>oc. g \<noteq> Using oc)"
| "cmd_ok g (C_CopyHome ob) \<longleftrightarrow> holds g ob \<and> (\<forall>oc. g \<noteq> Using oc)"
| "cmd_ok g (C_error_headers ob c r t) \<longleftrightarrow> holds g ob \<and> (\<forall>oc. g \<noteq> Using oc)"
| "cmd_ok g C_return \<longleftrightarrow> g = Free"
| "cmd_ok g C_SES_Delete \<longleftrightarrow> g = Free"
| "cmd_ok g c \<longleftrightarrow> True"

fun own_after :: "own \<Rightarrow> cmd \<Rightarrow> own" where
  "own_after g (C_Deref ob) = Free"
| "own_after g (C_DerefObjCore oc oh) = Free"
| "own_after g (C_Link oc a) = Filling oc"
| "own_after g (C_Unbusy oc) = Using oc"
| "own_after g (C_Drop ob) = Free"
| "own_after g c = g"

fun own_lookup :: "(addr \<times> addr \<times> bool \<times> bool) option \<Rightarrow> own" where
  "own_lookup (Some (oc, oh, busy, pass)) = (if busy then Busy oc oh else Using oc)"
| "own_lookup None = Free"

section \<open>Answers\<close>

text \<open>A request line is there, as \<open>http_DissectRequest\<close> leaves it.\<close>

definition req_line :: "http \<Rightarrow> bool" where
  "req_line h \<longleftrightarrow> hp_hd h ! HTTP_HDR_REQ \<noteq> None \<and> hp_hd h ! HTTP_HDR_URL \<noteq> None \<and> hp_hd h ! HTTP_HDR_PROTO \<noteq> None"

definition beresp_ok :: "http \<Rightarrow> http \<Rightarrow> bool" where
  "beresp_ok req h \<longleftrightarrow> http_wf h \<and> hp_hd h ! HTTP_HDR_STATUS \<noteq> None \<and> hp_hd h ! HTTP_HDR_RESPONSE \<noteq> None \<and>
     (\<exists>v. VRY_Create req h = Some v \<and> (\<forall>s. v = Some s \<longrightarrow> s \<noteq> [] \<and> store_ok (St_vary s)))"

text \<open>
  A VCL program that keeps away from what the code does not handle: \<open>restart\<close> in \<open>vcl_miss\<close>, \<open>vcl_pass\<close> and \<open>vcl_deliver\<close>,
  \<open>error\<close> in \<open>vcl_pipe\<close>, \<open>pipe\<close> for an included request, and \<open>restart\<close> in \<open>vcl_error\<close> for a request without a complete request line.
\<close>

definition vcl_careful :: "vcl_met \<Rightarrow> csess \<Rightarrow> vcl_eff \<Rightarrow> bool" where
  "vcl_careful m sp e \<longleftrightarrow>
     (m \<in> {VCL_MET_MISS, VCL_MET_PASS, VCL_MET_DELIVER} \<longrightarrow> ve_handling e \<noteq> VCL_RET_RESTART) \<and>
     (m = VCL_MET_PIPE \<longrightarrow> ve_handling e \<noteq> VCL_RET_ERROR) \<and>
     (m = VCL_MET_RECV \<longrightarrow> ve_handling e = VCL_RET_PIPE \<longrightarrow> cs_esis sp \<le> 0) \<and>
     (m = VCL_MET_ERROR \<longrightarrow> ve_handling e = VCL_RET_RESTART \<longrightarrow> req_line (ve_http e))"

definition vcl_ok :: "vcl_met \<Rightarrow> csess \<Rightarrow> vcl_eff \<Rightarrow> bool" where
  "vcl_ok m sp e \<longleftrightarrow> ve_handling e \<in> set (vcl_returns m) \<and> vcl_careful m sp e \<and>
     http_wf (ve_http e) \<and> hp_shd (ve_http e) = hp_shd (cs_http sp) \<and> (req_line (cs_http sp) \<longrightarrow> req_line (ve_http e)) \<and>
     (\<forall>c r. ve_error e = Some (c, r) \<longrightarrow> r = None \<longrightarrow> c = 0 \<or> c \<in> {100..999}) \<and>
     (\<forall>s \<in> set (ve_obj e). shared_store s) \<and> (m = VCL_MET_FETCH \<longrightarrow> beresp_ok (ve_http e) (ve_beresp e))"

fun int_ok :: "ask \<Rightarrow> int \<Rightarrow> bool" where
  "int_ok A_HTC_Complete i \<longleftrightarrow> i \<in> {0, 1}"
| "int_ok A_HTC_Rx i \<longleftrightarrow> i \<in> {- 1, 0, 1}"
| "int_ok q i \<longleftrightarrow> True"

definition hdr_ok :: "cparams \<Rightarrow> int \<times> http \<Rightarrow> bool" where
  "hdr_ok P = (\<lambda>(i, hp). i = 0 \<longrightarrow> http_GetStatus hp \<noteq> None \<and> (\<forall>t. t \<noteq> 0 \<longrightarrow> RFC2616_Ttl (cp_conv P) (cp_ttl P) (Some t) hp \<noteq> None))"

text \<open>Sending the object may run requests for its ESI includes on the same session; they leave it as it was.\<close>

definition wrote :: "csess \<Rightarrow> csess \<Rightarrow> bool" where
  "wrote sp sp' \<longleftrightarrow> cs_obj sp' = cs_obj sp \<and> cs_vcl sp' = cs_vcl sp \<and> cs_esis sp' = cs_esis sp \<and> cs_director sp' = None \<and>
     cs_restarts sp' = 0 \<and> cs_objcore sp' = None \<and> cs_objhead sp' = None \<and> \<not> cs_vbe sp' \<and>
     (cs_fd sp' = cs_fd sp \<or> cs_fd sp' = - 1) \<and> http_wf (cs_http sp') \<and> hp_shd (cs_http0 sp') = hp_shd (cs_http sp')"

primrec safe :: "cparams \<Rightarrow> (bool \<Rightarrow> csess \<Rightarrow> own \<Rightarrow> bool) \<Rightarrow> prog \<Rightarrow> own \<Rightarrow> bool" where
  "safe P Q (Ret d sp) = Q d sp"
| "safe P Q Panic = (\<lambda>g. False)"
| "safe P Q (Ask q k) = (\<lambda>g. \<forall>i. int_ok q i \<longrightarrow> safe P Q (k i) g)"
| "safe P Q (TIM_real k) = (\<lambda>g. \<forall>t. t \<noteq> 0 \<longrightarrow> safe P Q (k t) g)"
| "safe P Q (Last_lru ob k) = (\<lambda>g. holds g ob \<and> (\<forall>t. safe P Q (k t) g))"
| "safe P Q (EXP_Touch ob k) = (\<lambda>g. holds g ob \<and> (\<forall>b. safe P Q (k b) g))"
| "safe P Q (Request k) = (\<lambda>g. \<forall>t. safe P Q (k t) g)"
| "safe P Q (VCL_Refresh v k) = (\<lambda>g. \<forall>w. safe P Q (k w) g)"
| "safe P Q (Next_xid k) = (\<lambda>g. \<forall>x. safe P Q (k x) g)"
| "safe P Q (Vcl m sp k) = (\<lambda>g. \<forall>e. vcl_ok m sp e \<longrightarrow> safe P Q (k e) g)"
| "safe P Q (Lookup sp k) = (\<lambda>g. g = Free \<and> (\<forall>r. safe P Q (k r) (own_lookup r)))"
| "safe P Q (FetchHdr sp k) = (\<lambda>g. \<forall>r. hdr_ok P r \<longrightarrow> safe P Q (k r) g)"
| "safe P Q (STV_NewObject l t n cacheable k) = (\<lambda>g. (if cacheable then \<exists>oc oh. g = Busy oc oh else g = Free) \<and>
     (\<forall>a. safe P Q (k a) (if cacheable then g else Anon a)))"
| "safe P Q (PipeSession sp k) = (\<lambda>g. \<forall>fd t. fd = cs_fd sp \<or> fd = - 1 \<longrightarrow> safe P Q (k (fd, t)) g)"
| "safe P Q (RES_BuildHttp sp k) = (\<lambda>g. \<forall>d w. safe P Q (k (d, w)) g)"
| "safe P Q (RES_WriteObj sp k) = (\<lambda>g. \<forall>sp'. wrote sp sp' \<longrightarrow> safe P Q (k sp') g)"
| "safe P Q (Do c k) = (\<lambda>g. cmd_ok g c \<and> safe P Q k (own_after g c))"

lemma safe_need [simp]: "safe P Q (need b k) g \<longleftrightarrow> b \<and> safe P Q k g"
  by (simp add: need_def)

lemma safe_the [simp]: "safe P Q (the_or_panic x k) g \<longleftrightarrow> (\<exists>v. x = Some v \<and> safe P Q (k v) g)"
  by (cases x) (simp_all add: the_or_panic_def)

lemma safe_close [simp]: "safe P Q (vca_close_session why sp k) g \<longleftrightarrow> safe P Q (k (sp\<lparr>cs_fd := - 1\<rparr>)) g"
  by (simp add: vca_close_session_def)

lemma safe_return [simp]: "safe P Q (vca_return_session sp k) g \<longleftrightarrow> cs_obj sp = None \<and> cs_vcl sp = None \<and> cs_fd sp \<ge> 0 \<and> g = Free \<and> safe P Q k g"
  by (auto simp: vca_return_session_def)

lemma safe_stores:
  assumes "\<forall>s \<in> set ss. shared_store s" "\<forall>o'. ob = Some o' \<longrightarrow> holds g o'" "safe P Q k g"
  shows "safe P Q (obj_stores ob ss k) g"
  using assms
proof (induction ob ss k rule: obj_stores.induct)
  case (1 ob s ss k)
  have "store_ok s" using 1(2) by (cases s) simp_all
  then show ?case using 1 by simp
qed simp_all

text \<open>What a VCL program cannot change.\<close>

definition vcl_keeps :: "csess \<Rightarrow> csess \<Rightarrow> bool" where
  "vcl_keeps sp sp' \<longleftrightarrow> cs_step sp' = cs_step sp \<and> cs_fd sp' = cs_fd sp \<and> cs_xid sp' = cs_xid sp \<and> cs_restarts sp' = cs_restarts sp \<and>
     cs_esis sp' = cs_esis sp \<and> cs_http0 sp' = cs_http0 sp \<and> cs_t_req sp' = cs_t_req sp \<and> cs_vbe sp' = cs_vbe sp \<and> cs_obj sp' = cs_obj sp \<and>
     cs_objcore sp' = cs_objcore sp \<and> cs_objhead sp' = cs_objhead sp \<and> cs_vcl sp' = cs_vcl sp \<and> (cs_director sp \<noteq> None \<longrightarrow> cs_director sp' \<noteq> None) \<and>
     cs_digest sp' = cs_digest sp \<and> length (sh_state (wk_sha sp')) = length (sh_state (wk_sha sp))"

lemma hash_length: "length (sh_state (fold (\<lambda>s ctx. SHA256_Update ctx (f s)) ss ctx)) = length (sh_state ctx)"
  by (induction ss arbitrary: ctx) simp_all

lemma vcl_apply_keeps: "vcl_keeps sp (vcl_apply m e sp)"
  by (auto simp: vcl_keeps_def vcl_apply_def VRT_l_req_backend_def VRT_l_req_esi_def VRT_l_req_hash_def Let_def hash_length split: option.splits)

lemma vcl_apply_simps [simp]: "cs_handling (vcl_apply m e sp) = ve_handling e" "cs_http (vcl_apply m e sp) = ve_http e"
  by (auto simp: vcl_apply_def VRT_l_req_backend_def VRT_l_req_esi_def VRT_l_req_hash_def Let_def split: option.splits)

lemma vcl_apply_fetch: "wk_beresp (vcl_apply VCL_MET_FETCH e sp) = Some (ve_beresp e)"
  by (simp add: vcl_apply_def Let_def)

lemma VRT_error_keeps:
  assumes "r = None \<longrightarrow> c = 0 \<or> c \<in> {100..999}"
  shows "\<exists>c' r'. VRT_error c r sp = Some (sp\<lparr>cs_err_code := c', cs_err_reason := r'\<rparr>)"
proof -
  have "\<exists>x. (case r of Some r \<Rightarrow> Some r | None \<Rightarrow> http_StatusMessage (if c \<noteq> 0 then c else 503)) = Some x"
    using assms http_StatusMessage_total [of "if c \<noteq> 0 then c else 503"] by (auto split: option.splits)
  then show ?thesis unfolding VRT_error_def Let_def by fastforce
qed

lemma vcl_error_keeps:
  assumes "vcl_ok m sp0 e"
  shows "\<exists>c r. vcl_error m e sp = Some (sp\<lparr>cs_err_code := c, cs_err_reason := r\<rparr>)"
proof -
  have id: "\<exists>c r. Some sp = Some (sp\<lparr>cs_err_code := c, cs_err_reason := r\<rparr>)"
    by (intro exI [of _ "cs_err_code sp"] exI [of _ "cs_err_reason sp"]) simp
  show ?thesis
  proof (cases "ve_error e")
    case None
    then show ?thesis using id by (simp add: vcl_error_def)
  next
    case (Some cr)
    obtain c r where cr: "cr = (c, r)" by fastforce
    then show ?thesis using Some id VRT_error_keeps [of r c sp] assms by (simp add: vcl_error_def vcl_ok_def)
  qed
qed

lemma safe_VCL:
  assumes "\<And>o'. m \<in> {VCL_MET_HIT, VCL_MET_ERROR} \<Longrightarrow> cs_obj sp = Some o' \<Longrightarrow> holds g o'"
    and "\<And>e sp'. vcl_ok m (sp\<lparr>cs_handling := VCL_RET_DELIVER\<rparr>) e \<Longrightarrow> vcl_keeps sp sp' \<Longrightarrow> cs_handling sp' = ve_handling e \<Longrightarrow>
      cs_http sp' = ve_http e \<Longrightarrow> (m = VCL_MET_FETCH \<longrightarrow> wk_beresp sp' = Some (ve_beresp e)) \<Longrightarrow> safe P Q (k sp') g"
  shows "safe P Q (VCL_method m sp k) g"
  unfolding VCL_method_def safe.simps
proof (intro allI impI safe_stores)
  fix e assume e: "vcl_ok m (sp\<lparr>cs_handling := VCL_RET_DELIVER\<rparr>) e"
  show "\<forall>s\<in>set (ve_obj e). shared_store s" using e by (simp add: vcl_ok_def)
  have keeps: "cs_obj (vcl_apply m e sp) = cs_obj sp" using vcl_apply_keeps [of sp m e] by (simp add: vcl_keeps_def)
  obtain c r where c: "vcl_error m e (vcl_apply m e sp) = Some ((vcl_apply m e sp)\<lparr>cs_err_code := c, cs_err_reason := r\<rparr>)"
    using vcl_error_keeps [OF e] by blast
  have "vcl_keeps sp ((vcl_apply m e sp)\<lparr>cs_err_code := c, cs_err_reason := r\<rparr>)"
    using vcl_apply_keeps [of sp m e] by (simp add: vcl_keeps_def)
  moreover have "ve_handling e \<in> set (vcl_returns m)" using e by (simp add: vcl_ok_def)
  ultimately show "safe P Q (the_or_panic (vcl_error m e (vcl_apply m e sp)) (\<lambda>sp. need (cs_handling sp \<in> set (vcl_returns m)) (k sp))) g"
    using assms(2) [OF e] c by (simp add: vcl_apply_fetch)
qed (use assms(1) in \<open>auto split: if_splits\<close>)

section \<open>The invariant\<close>

definition cp_ok :: "cparams \<Rightarrow> bool" where
  "cp_ok P \<longleftrightarrow> http_wf (wrk_http P) \<and> ws_inv (wrk_ws P) \<and> ws_r (wrk_ws P) = None"

text \<open>The session holds nothing and refers to nothing.\<close>

definition idle :: "csess \<Rightarrow> own \<Rightarrow> bool" where
  "idle sp g \<longleftrightarrow> g = Free \<and> cs_obj sp = None \<and> cs_objcore sp = None \<and> cs_objhead sp = None"

definition fetching :: "csess \<Rightarrow> own \<Rightarrow> bool" where
  "fetching sp g \<longleftrightarrow> cs_obj sp = None \<and> (\<exists>oc oh. g = Busy oc oh \<and> cs_objcore sp = Some oc \<and> cs_objhead sp = Some oh)"

definition having :: "csess \<Rightarrow> own \<Rightarrow> bool" where
  "having sp g \<longleftrightarrow> cs_objcore sp = None \<and> cs_objhead sp = None \<and>
     (\<exists>oc. g = Using oc \<and> cs_obj sp = Some (Obj_core oc)) \<or>
     cs_objcore sp = None \<and> cs_objhead sp = None \<and> (\<exists>a. g = Anon a \<and> cs_obj sp = Some (Obj_anon a))"

fun step_inv :: "step \<Rightarrow> csess \<Rightarrow> own \<Rightarrow> bool" where
  "step_inv STP_FIRST sp g \<longleftrightarrow> idle sp g \<and> cs_vcl sp = None \<and> cs_xid sp = 0 \<and> cs_restarts sp = 0 \<and> cs_director sp = None \<and> cs_fd sp \<ge> 0"
| "step_inv STP_WAIT sp g \<longleftrightarrow> idle sp g \<and> cs_vcl sp = None \<and> cs_xid sp = 0 \<and> cs_restarts sp = 0 \<and> cs_director sp = None \<and> cs_fd sp \<ge> 0"
| "step_inv STP_START sp g \<longleftrightarrow> idle sp g \<and> cs_vcl sp = None \<and> cs_restarts sp = 0 \<and> cs_director sp = None"
| "step_inv STP_RECV sp g \<longleftrightarrow> idle sp g \<and> cs_vcl sp \<noteq> None \<and> cs_director sp = None \<and> req_line (cs_http sp)"
| "step_inv STP_LOOKUP sp g \<longleftrightarrow> idle sp g \<and> length (cs_digest sp) = DIGEST_LEN \<and> cs_vcl sp \<noteq> None \<and> cs_director sp \<noteq> None \<and> req_line (cs_http sp)"
| "step_inv STP_PASS sp g \<longleftrightarrow> idle sp g \<and> cs_vcl sp \<noteq> None \<and> cs_director sp \<noteq> None \<and> req_line (cs_http sp)"
| "step_inv STP_PIPE sp g \<longleftrightarrow> idle sp g \<and> cs_vcl sp \<noteq> None \<and> cs_director sp \<noteq> None \<and> req_line (cs_http sp)"
| "step_inv STP_MISS sp g \<longleftrightarrow> fetching sp g \<and> cs_vcl sp \<noteq> None \<and> cs_director sp \<noteq> None \<and> req_line (cs_http sp)"
| "step_inv STP_HIT sp g \<longleftrightarrow> having sp g \<and> (\<forall>a. g \<noteq> Anon a) \<and> cs_vcl sp \<noteq> None \<and> cs_director sp \<noteq> None \<and> req_line (cs_http sp)"
| "step_inv STP_FETCH sp g \<longleftrightarrow> (idle sp g \<or> fetching sp g) \<and> cs_vcl sp \<noteq> None \<and> cs_director sp \<noteq> None \<and> req_line (cs_http sp)"
| "step_inv STP_DELIVER sp g \<longleftrightarrow> having sp g \<and> cs_vcl sp \<noteq> None"
| "step_inv STP_ERROR sp g \<longleftrightarrow> idle sp g \<and> cs_vcl sp \<noteq> None"
| "step_inv STP_DONE sp g \<longleftrightarrow> idle sp g"

text \<open>Between requests the message of the last one is still there, or none was ever read.\<close>

definition between :: "step \<Rightarrow> bool" where
  "between s \<longleftrightarrow> s \<in> {STP_FIRST, STP_WAIT, STP_START, STP_DONE}"

definition sess_inv :: "csess \<Rightarrow> own \<Rightarrow> bool" where
  "sess_inv sp g \<longleftrightarrow> step_inv (cs_step sp) sp g \<and> \<not> cs_vbe sp \<and> cs_esis sp \<ge> 0 \<and> HTTP_HDR_FIRST \<le> hp_shd (cs_http sp) \<and>
     hp_shd (cs_http0 sp) = hp_shd (cs_http sp) \<and> (between (cs_step sp) \<or> http_wf (cs_http sp))"

lemma between_simps [simp]: "between STP_FIRST" "between STP_WAIT" "between STP_START" "between STP_DONE" "\<not> between STP_RECV"
  "\<not> between STP_LOOKUP" "\<not> between STP_PASS" "\<not> between STP_PIPE" "\<not> between STP_MISS" "\<not> between STP_HIT"
  "\<not> between STP_FETCH" "\<not> between STP_DELIVER" "\<not> between STP_ERROR"
  by (simp_all add: between_def)

lemma http_wf_room [simp]: "http_wf h \<Longrightarrow> HTTP_HDR_FIRST \<le> hp_shd h"
  by (auto simp: http_wf_def)

text \<open>After a handler: the invariant, and a session that a worker lets go holds nothing.\<close>

definition sess_post :: "bool \<Rightarrow> csess \<Rightarrow> own \<Rightarrow> bool" where
  "sess_post d sp g \<longleftrightarrow> sess_inv sp g \<and> (d \<longrightarrow> g = Free \<and> cs_step sp \<in> {STP_WAIT, STP_LOOKUP, STP_DONE})"

end
