(* ===== verification/Center_Steps.thy ===== *)
theory Center_Steps
  imports Center_Safe
begin

text \<open>Every handler keeps the invariant and fails no assertion.\<close>

lemmas inv_defs = sess_post_def sess_inv_def idle_def fetching_def having_def vcl_keeps_def

lemma vcl_okD:
  assumes "vcl_ok m sp e"
  shows "ve_handling e \<in> set (vcl_returns m)" "vcl_careful m sp e" "http_wf (ve_http e)" "hp_shd (ve_http e) = hp_shd (cs_http sp) \<and> HTTP_HDR_FIRST \<le> hp_shd (cs_http sp)"
    "req_line (cs_http sp) \<Longrightarrow> req_line (ve_http e)" "m = VCL_MET_FETCH \<Longrightarrow> beresp_ok (ve_http e) (ve_beresp e)"
  using assms by (simp_all add: vcl_ok_def) (metis http_wf_room)

lemma wait_safe:
  assumes "sess_inv sp g" "cs_step sp = STP_WAIT"
  shows "safe P sess_post (cnt_wait P sp) g"
proof -
  have "safe P sess_post (wait_end i sp) g" if "i \<in> {- 1, 0, 1}" for i
    using assms that by (auto simp: wait_end_def inv_defs)
  then show ?thesis using assms by (simp add: cnt_wait_def sess_inv_def idle_def)
qed

lemma first_safe:
  assumes "sess_inv sp g" "cs_step sp = STP_FIRST"
  shows "safe P sess_post (cnt_first sp) g"
  using assms by (simp add: cnt_first_def inv_defs)

lemma touch_safe:
  assumes "\<And>oc. ob = Obj_core oc \<Longrightarrow> g = Using oc" "safe P Q k g"
  shows "safe P Q (deliver_touch P ob t k) g"
  using assms by (cases ob) (auto simp: deliver_touch_def holds_def Let_def)

lemma having_ob:
  assumes "having sp g"
  obtains ob where "cs_obj sp = Some ob" "cmd_ok g (C_Deref ob)" "\<And>oc. ob = Obj_core oc \<Longrightarrow> g = Using oc" "holds g ob"
  using assms by (auto simp: having_def holds_def)

lemma deliver_safe:
  assumes "sess_inv sp g" "cs_step sp = STP_DELIVER"
  shows "safe P sess_post (cnt_deliver P sp) g"
proof -
  have h: "having sp g" "cs_vcl sp \<noteq> None" "cs_esis sp \<ge> 0" using assms by (simp_all add: sess_inv_def)
  obtain ob where ob: "cs_obj sp = Some ob" "cmd_ok g (C_Deref ob)" "\<And>oc. ob = Obj_core oc \<Longrightarrow> g = Using oc"
    using having_ob [OF h(1)] by metis
  have "safe P sess_post (VCL_method VCL_MET_DELIVER (sp\<lparr>cs_t_resp := Some t, wk_resp := True, cs_doclose := d, cs_wantbody := w\<rparr>)
      (deliver_send ob)) g" for t d w
  proof (rule safe_VCL)
    fix e and sp' :: csess
    assume e: "vcl_ok VCL_MET_DELIVER (sp\<lparr>cs_t_resp := Some t, wk_resp := True, cs_doclose := d, cs_wantbody := w, cs_handling := VCL_RET_DELIVER\<rparr>) e"
      and kp: "vcl_keeps (sp\<lparr>cs_t_resp := Some t, wk_resp := True, cs_doclose := d, cs_wantbody := w\<rparr>) sp'" and hd: "cs_handling sp' = ve_handling e"
    have "ve_handling e = VCL_RET_DELIVER" using vcl_okD(1,2) [OF e] by (auto simp: vcl_careful_def)
    then show "safe P sess_post (deliver_send ob sp') g" using hd kp ob(2) h(3) by (simp add: deliver_send_def inv_defs wrote_def)
  qed simp
  then show ?thesis using ob(1,3) h(2) by (simp add: cnt_deliver_def touch_safe)
qed

lemma done_times_simps [simp]:
  "cs_step (done_times t sp) = cs_step sp" "cs_obj (done_times t sp) = cs_obj sp" "cs_objcore (done_times t sp) = cs_objcore sp"
  "cs_objhead (done_times t sp) = cs_objhead sp" "cs_vcl (done_times t sp) = cs_vcl sp" "cs_fd (done_times t sp) = cs_fd sp"
  "cs_xid (done_times t sp) = 0" "cs_restarts (done_times t sp) = cs_restarts sp" "cs_director (done_times t sp) = cs_director sp"
  "cs_t_end (done_times t sp) = Some t" "cs_esis (done_times t sp) = cs_esis sp" "cs_vbe (done_times t sp) = cs_vbe sp"
  "cs_http (done_times t sp) = cs_http sp" "cs_http0 (done_times t sp) = cs_http0 sp" "cs_doclose (done_times t sp) = cs_doclose sp"
  by (simp_all add: done_times_def Let_def)

lemma done_end_safe:
  assumes "idle sp g" "cs_step sp = STP_DONE" "cs_vcl sp = None" "cs_t_end sp \<noteq> None" "cs_xid sp = 0" "cs_restarts sp = 0"
    "cs_director sp = None" "\<not> cs_vbe sp" "cs_esis sp \<ge> 0" "HTTP_HDR_FIRST \<le> hp_shd (cs_http sp)" "hp_shd (cs_http0 sp) = hp_shd (cs_http sp)"
  shows "safe P sess_post (done_end P sp) g"
  using assms by (simp add: done_end_def done_keep_def SES_Delete_def inv_defs)

lemma done_safe:
  assumes "sess_inv sp g" "cs_step sp = STP_DONE"
  shows "safe P sess_post (cnt_done P sp) g"
proof -
  have times: "safe P sess_post (if cs_esis sp' > 0 then Do C_Charge (Ret True (done_times t sp'))
      else done_close ((done_times t sp')\<lparr>cs_t_req := None\<rparr>) (done_end P)) g"
    if "idle sp' g" "cs_step sp' = STP_DONE" "cs_vcl sp' = None \<or> cs_esis sp' \<noteq> 0" "cs_esis sp' \<ge> 0" "cs_restarts sp' = 0"
      "cs_director sp' = None" "\<not> cs_vbe sp'" "HTTP_HDR_FIRST \<le> hp_shd (cs_http sp')" "hp_shd (cs_http0 sp') = hp_shd (cs_http sp')" for sp' t
    using that done_end_safe [of "(done_times t sp')\<lparr>cs_t_req := None\<rparr>" g P]
      done_end_safe [of "(done_times t sp')\<lparr>cs_t_req := None, cs_fd := - 1\<rparr>" g P]
    by (auto simp: done_close_def sess_post_def sess_inv_def idle_def split: option.splits)
  have i: "idle sp g" "\<not> cs_vbe sp" "cs_esis sp \<ge> 0" "HTTP_HDR_FIRST \<le> hp_shd (cs_http sp)" "hp_shd (cs_http0 sp) = hp_shd (cs_http sp)"
    using assms by (simp_all add: sess_inv_def)
  show ?thesis
  proof (cases "cs_vcl sp \<noteq> None \<and> cs_esis sp = 0")
    case True
    have "idle (sp\<lparr>cs_director := None, cs_restarts := 0, wk_vcl := cs_vcl sp, cs_vcl := None\<rparr>) g" using i(1) by (simp add: idle_def)
    from times [OF this] show ?thesis using True i assms(2)
      by (simp add: cnt_done_def done_vcl_def idle_def Let_def split: option.splits)
  next
    case False
    have "idle (sp\<lparr>cs_director := None, cs_restarts := 0\<rparr>) g" using i(1) by (simp add: idle_def)
    from times [OF this] show ?thesis using False i assms(2)
      by (cases "cs_vcl sp") (simp_all add: cnt_done_def done_vcl_def idle_def)
  qed
qed

lemma error_safe:
  assumes "sess_inv sp g" "cs_step sp = STP_ERROR"
  shows "safe P sess_post (cnt_error P sp) g"
proof -
  have i: "idle sp g" "\<not> cs_vbe sp" "cs_esis sp \<ge> 0" "http_wf (cs_http sp)" "hp_shd (cs_http0 sp) = hp_shd (cs_http sp)" "cs_vcl sp \<noteq> None"
    using assms by (simp_all add: sess_inv_def)
  have vcl: "safe P sess_post (error_vcl P (Obj_anon a) (error_code (sp\<lparr>wk_cacheable := False, cs_obj := Some (Obj_anon a)\<rparr>))) (Anon a)" for a
  proof -
    define s0 where "s0 = error_code (sp\<lparr>wk_cacheable := False, cs_obj := Some (Obj_anon a)\<rparr>)"
    have c: "100 \<le> cs_err_code s0" "cs_err_code s0 \<le> 999" by (auto simp: s0_def error_code_def)
    have k: "cs_obj s0 = Some (Obj_anon a)" "cs_objcore s0 = None" "cs_objhead s0 = None" "cs_vcl s0 \<noteq> None" "\<not> cs_vbe s0" "cs_esis s0 \<ge> 0"
      "hp_shd (cs_http0 s0) = hp_shd (cs_http s0)"
      using i by (simp_all add: s0_def error_code_def idle_def)
    obtain r where r: "error_reason s0 = Some r"
      using http_StatusMessage_total [of "nat (cs_err_code s0)"] c by (cases "cs_err_reason s0") (auto simp: error_reason_def nat_le_iff le_nat_iff)
    have "safe P sess_post (VCL_method VCL_MET_ERROR s0 (error_next P (Obj_anon a))) (Anon a)"
    proof (rule safe_VCL)
      fix e sp'
      assume e: "vcl_ok VCL_MET_ERROR (s0\<lparr>cs_handling := VCL_RET_DELIVER\<rparr>) e" "vcl_keeps s0 sp'" "cs_handling sp' = ve_handling e" "cs_http sp' = ve_http e"
      have "ve_handling e \<in> {VCL_RET_RESTART, VCL_RET_DELIVER}" "ve_handling e = VCL_RET_RESTART \<longrightarrow> req_line (ve_http e)"
        using vcl_okD(1,2) [OF e(1)] by (simp_all add: vcl_careful_def)
      then show "safe P sess_post (error_next P (Obj_anon a) sp') (Anon a)"
        using e(2-) k vcl_okD(3,4) [OF e(1)] by (auto simp: error_next_def inv_defs Let_def)
    qed (use k(1) in \<open>simp add: holds_def\<close>)
    then show ?thesis using r by (simp add: error_vcl_def s0_def [symmetric] holds_def)
  qed
  then show ?thesis using i(1) by (auto simp: cnt_error_def error_object_def idle_def holds_def Let_def split: option.splits)
qed

lemma hit_safe:
  assumes "sess_inv sp g" "cs_step sp = STP_HIT"
  shows "safe P sess_post (cnt_hit sp) g"
proof -
  obtain oc where g: "g = Using oc" "cs_obj sp = Some (Obj_core oc)"
    using assms by (auto simp: sess_inv_def having_def)
  have i: "cs_objcore sp = None" "cs_objhead sp = None" "cs_vcl sp \<noteq> None" "cs_director sp \<noteq> None" "req_line (cs_http sp)"
      "\<not> cs_vbe sp" "cs_esis sp \<ge> 0" "hp_shd (cs_http0 sp) = hp_shd (cs_http sp)"
    using assms by (auto simp: sess_inv_def having_def)
  have "safe P sess_post (VCL_method VCL_MET_HIT sp (hit_next (Obj_core oc))) g"
  proof (rule safe_VCL)
    fix e and sp' :: csess
    assume e: "vcl_ok VCL_MET_HIT (sp\<lparr>cs_handling := VCL_RET_DELIVER\<rparr>) e" "vcl_keeps sp sp'" "cs_handling sp' = ve_handling e" "cs_http sp' = ve_http e"
    then show "safe P sess_post (hit_next (Obj_core oc) sp') g"
      using vcl_okD(1,3,4,5) [OF e(1)] g i by (auto simp: hit_next_def inv_defs Let_def)
  qed (use g in \<open>simp add: holds_def\<close>)
  then show ?thesis using g i by (simp add: cnt_hit_def)
qed

lemma lookup_safe:
  assumes "sess_inv sp g" "cs_step sp = STP_LOOKUP"
  shows "safe P sess_post (cnt_lookup sp) g"
  using assms by (auto simp: cnt_lookup_def inv_defs split: option.splits)

lemma bereq_safe:
  assumes "cp_ok P" "http_wf (cs_http sp)" "req_line (cs_http sp)" "\<And>hp. safe P Q (k (sp\<lparr>wk_bereq := Some hp\<rparr>)) g"
  shows "safe P Q (make_bereq P how sp k) g"
proof -
  have "HTTP_HDR_FIRST \<le> hp_shd (wrk_http P)" using assms(1) by (auto simp: cp_ok_def http_wf_def)
  then have "http_FilterHeader (http_Setup (wrk_http P)) (wrk_ws P) (cs_http sp) [how] (unat (cs_xid sp)) \<noteq> None"
    using http_FilterHeader_total [OF http_Setup_wf assms(2)] assms by (simp add: cp_ok_def req_line_def)
  then show ?thesis using assms(4) by (auto simp: make_bereq_def)
qed

lemma drop_busy_safe:
  assumes "fetching sp g" "safe P Q (k (sp\<lparr>cs_objcore := None, cs_objhead := None\<rparr>)) Free"
  shows "safe P Q (drop_busy sp k) g"
  using assms by (auto simp: fetching_def drop_busy_def)

lemma miss_safe:
  assumes "cp_ok P" "sess_inv sp g" "cs_step sp = STP_MISS"
  shows "safe P sess_post (cnt_miss P sp) g"
proof -
  have i: "fetching sp g" "cs_vcl sp \<noteq> None" "cs_director sp \<noteq> None" "req_line (cs_http sp)" "http_wf (cs_http sp)"
      "\<not> cs_vbe sp" "cs_esis sp \<ge> 0" "hp_shd (cs_http0 sp) = hp_shd (cs_http sp)"
    using assms by (auto simp: sess_inv_def)
  have "safe P sess_post (VCL_method VCL_MET_MISS (sp\<lparr>wk_bereq := Some hp, wk_timeouts := (0, 0, 0)\<rparr>) miss_next) g" for hp
  proof (rule safe_VCL)
    fix e and sp' :: csess
    assume e: "vcl_ok VCL_MET_MISS (sp\<lparr>wk_bereq := Some hp, wk_timeouts := (0, 0, 0), cs_handling := VCL_RET_DELIVER\<rparr>) e"
      "vcl_keeps (sp\<lparr>wk_bereq := Some hp, wk_timeouts := (0, 0, 0)\<rparr>) sp'" "cs_handling sp' = ve_handling e" "cs_http sp' = ve_http e"
    have f: "fetching sp' g" using i(1) e(2) by (simp add: fetching_def vcl_keeps_def)
    have h: "ve_handling e \<in> {VCL_RET_ERROR, VCL_RET_PASS, VCL_RET_FETCH}" using vcl_okD(1,2) [OF e(1)] by (auto simp: vcl_careful_def)
    show "safe P sess_post (miss_next sp') g"
      using h e(2-) i(2-) f vcl_okD(3,4,5) [OF e(1)]
      by (auto simp: miss_next_def intro!: drop_busy_safe) (auto simp: inv_defs)
  qed simp
  then show ?thesis using i bereq_safe [OF assms(1) i(5,4)] by (auto simp: cnt_miss_def fetching_def)
qed

lemma pass_safe:
  assumes "cp_ok P" "sess_inv sp g" "cs_step sp = STP_PASS"
  shows "safe P sess_post (cnt_pass P sp) g"
proof -
  have i: "idle sp g" "cs_vcl sp \<noteq> None" "cs_director sp \<noteq> None" "req_line (cs_http sp)" "http_wf (cs_http sp)"
      "\<not> cs_vbe sp" "cs_esis sp \<ge> 0" "hp_shd (cs_http0 sp) = hp_shd (cs_http sp)"
    using assms by (auto simp: sess_inv_def)
  have "safe P sess_post (VCL_method VCL_MET_PASS (sp\<lparr>wk_bereq := Some hp, wk_timeouts := (0, 0, 0)\<rparr>) pass_next) g" for hp
  proof (rule safe_VCL)
    fix e and sp' :: csess
    assume e: "vcl_ok VCL_MET_PASS (sp\<lparr>wk_bereq := Some hp, wk_timeouts := (0, 0, 0), cs_handling := VCL_RET_DELIVER\<rparr>) e"
      "vcl_keeps (sp\<lparr>wk_bereq := Some hp, wk_timeouts := (0, 0, 0)\<rparr>) sp'" "cs_handling sp' = ve_handling e" "cs_http sp' = ve_http e"
    show "safe P sess_post (pass_next sp') g"
      using e(2-) i vcl_okD(1,2,3,4,5) [OF e(1)] by (auto simp: pass_next_def inv_defs vcl_careful_def)
  qed simp
  then show ?thesis using i bereq_safe [OF assms(1) i(5,4)] by (auto simp: cnt_pass_def idle_def)
qed

lemma pipe_safe:
  assumes "cp_ok P" "sess_inv sp g" "cs_step sp = STP_PIPE"
  shows "safe P sess_post (cnt_pipe P sp) g"
proof -
  have i: "idle sp g" "cs_vcl sp \<noteq> None" "req_line (cs_http sp)" "http_wf (cs_http sp)"
      "\<not> cs_vbe sp" "cs_esis sp \<ge> 0" "hp_shd (cs_http0 sp) = hp_shd (cs_http sp)"
    using assms by (auto simp: sess_inv_def)
  have "safe P sess_post (VCL_method VCL_MET_PIPE (sp\<lparr>wk_bereq := Some hp\<rparr>) pipe_next) g" for hp
  proof (rule safe_VCL)
    fix e and sp' :: csess
    assume e: "vcl_ok VCL_MET_PIPE (sp\<lparr>wk_bereq := Some hp, cs_handling := VCL_RET_DELIVER\<rparr>) e"
      "vcl_keeps (sp\<lparr>wk_bereq := Some hp\<rparr>) sp'" "cs_handling sp' = ve_handling e" "cs_http sp' = ve_http e"
    show "safe P sess_post (pipe_next sp') g"
      using e(2-) i vcl_okD(1,2,3,4) [OF e(1)] by (auto simp: pipe_next_def inv_defs vcl_careful_def)
  qed simp
  then show ?thesis using i bereq_safe [OF assms(1) i(4,3)] by (auto simp: cnt_pipe_def)
qed

lemma recv_safe:
  assumes "sess_inv sp g" "cs_step sp = STP_RECV"
  shows "safe P sess_post (cnt_recv P sp) g"
proof -
  have i: "idle sp g" "cs_vcl sp \<noteq> None" "cs_director sp = None" "req_line (cs_http sp)"
      "\<not> cs_vbe sp" "cs_esis sp \<ge> 0" "hp_shd (cs_http0 sp) = hp_shd (cs_http sp)"
    using assms by (auto simp: sess_inv_def)
  define ready where "ready = (\<lambda>s :: csess. idle s g \<and> cs_vcl s \<noteq> None \<and> cs_director s \<noteq> None \<and> req_line (cs_http s) \<and> \<not> cs_vbe s \<and>
    cs_esis s \<ge> 0 \<and> http_wf (cs_http s) \<and> hp_shd (cs_http0 s) = hp_shd (cs_http s))"
  have go: "safe P sess_post (recv_go h s) g" if "ready s" "length (cs_digest s) = DIGEST_LEN"
      "h \<in> set (vcl_returns VCL_MET_RECV)" "h = VCL_RET_PIPE \<longrightarrow> cs_esis s \<le> 0" for h s
    using that by (auto simp: recv_go_def ready_def inv_defs)
  have head: "safe P sess_post (recv_head h s) g" if s: "ready s" and l: "length (cs_digest s) = DIGEST_LEN"
      "h \<in> set (vcl_returns VCL_MET_RECV)" "h = VCL_RET_PIPE \<longrightarrow> cs_esis s \<le> 0" for h s
  proof -
    obtain f where f: "http_ForceGet (cs_http s) = Some f" "http_wf f" "hp_shd f = hp_shd (cs_http s)" "req_line f"
      using http_ForceGet_line [of "cs_http s"] s by (auto simp: ready_def req_line_def)
    have "ready (s\<lparr>cs_wantbody := False, cs_http := f\<rparr>)" "ready (s\<lparr>cs_wantbody := True\<rparr>)"
      using s f by (simp_all add: ready_def idle_def)
    moreover obtain r where "http_GetReq (cs_http s) = Some r" using s by (auto simp: ready_def req_line_def http_GetReq_def)
    ultimately show ?thesis using f(1) l by (simp add: recv_head_def go)
  qed
  have dig: "safe P sess_post (VCL_method VCL_MET_HASH (s\<lparr>wk_sha := SHA256_Init (wk_sha s)\<rparr>) (recv_digest h)) g"
    if s: "ready s" and l: "h \<in> set (vcl_returns VCL_MET_RECV)" "h = VCL_RET_PIPE \<longrightarrow> cs_esis s \<le> 0" for h s
  proof (rule safe_VCL)
    fix e and sp' :: csess
    assume e: "vcl_ok VCL_MET_HASH (s\<lparr>wk_sha := SHA256_Init (wk_sha s), cs_handling := VCL_RET_DELIVER\<rparr>) e"
      "vcl_keeps (s\<lparr>wk_sha := SHA256_Init (wk_sha s)\<rparr>) sp'" "cs_handling sp' = ve_handling e" "cs_http sp' = ve_http e"
    obtain d c where d: "SHA256_Final (wk_sha sp') = (d, c)" by fastforce
    have "length (sh_state (wk_sha sp')) = 8" using e(2) by (simp add: vcl_keeps_def SHA256_Init_def)
    then have "length d = DIGEST_LEN" using SHA256_Final_length [of "wk_sha sp'"] d by (simp add: DIGEST_LEN_def)
    moreover have "ready (sp'\<lparr>cs_digest := d, wk_sha := c\<rparr>)" "cs_esis sp' = cs_esis s"
      using s e(2,4) vcl_okD(3,4,5) [OF e(1)] by (auto simp: ready_def idle_def vcl_keeps_def)
    ultimately show "safe P sess_post (recv_digest h sp') g"
      using vcl_okD(1) [OF e(1)] e(3) d l by (simp add: recv_digest_def head)
  qed simp
  obtain v where v: "cs_vcl sp = Some v" using i(2) by auto
  have "safe P sess_post (VCL_method VCL_MET_RECV (sp\<lparr>cs_director := Some (vcl_director P v), cs_disable_esi := False\<rparr>) (recv_next P)) g"
  proof (rule safe_VCL)
    fix e and sp' :: csess
    assume e: "vcl_ok VCL_MET_RECV (sp\<lparr>cs_director := Some (vcl_director P v), cs_disable_esi := False, cs_handling := VCL_RET_DELIVER\<rparr>) e"
      "vcl_keeps (sp\<lparr>cs_director := Some (vcl_director P v), cs_disable_esi := False\<rparr>) sp'" "cs_handling sp' = ve_handling e" "cs_http sp' = ve_http e"
    have r: "ready sp'" using i e(2,4) vcl_okD(3,4,5) [OF e(1)] by (auto simp: ready_def idle_def vcl_keeps_def)
    have "cs_handling sp' = VCL_RET_PIPE \<longrightarrow> cs_esis sp' \<le> 0"
      using vcl_okD(2) [OF e(1)] e(2,3) by (auto simp: vcl_careful_def vcl_keeps_def)
    then show "safe P sess_post (recv_next P sp') g"
      using dig [OF r, of "cs_handling sp'"] r vcl_okD(1) [OF e(1)] e(3) by (auto simp: recv_next_def ready_def inv_defs)
  qed simp
  then show ?thesis using i v by (simp add: cnt_recv_def idle_def)
qed

lemma start_safe:
  assumes "sess_inv sp g" "cs_step sp = STP_START"
  shows "safe P sess_post (cnt_start sp) g"
proof -
  have i: "idle sp g" "cs_vcl sp = None" "cs_restarts sp = 0" "cs_director sp = None" "\<not> cs_vbe sp" "cs_esis sp \<ge> 0"
      "HTTP_HDR_FIRST \<le> hp_shd (cs_http sp)" "hp_shd (cs_http0 sp) = hp_shd (cs_http sp)"
    using assms by (auto simp: sess_inv_def)
  note w = http_Setup_wf [OF i(7)]
  have ex: "safe P sess_post (start_expect s) g" if s: "idle s g" "cs_vcl s \<noteq> None" "cs_director s = None" "\<not> cs_vbe s" "cs_esis s \<ge> 0"
      "http_wf (cs_http s)" "req_line (cs_http s)" "hp_shd (cs_http0 s) = hp_shd (cs_http s)" for s
  proof -
    obtain d h where h: "http_DoConnection (cs_http s) = Some (d, h)" "same_line (cs_http s) h"
      using http_DoConnection_line [OF s(6)] by blast
    have hw: "http_wf h" "req_line h" "hp_shd h = hp_shd (cs_http s)"
      using h(2) s(7) by (auto simp: same_line_def req_line_def HTTP_HDR_REQ_def HTTP_HDR_URL_def HTTP_HDR_PROTO_def HTTP_HDR_FIRST_def)
    obtain u where u: "http_Unset h (H_of ''Expect'') = Some u" "same_line h u" using http_Unset_line [OF hw(1) names_valid(2)] by blast
    have "http_wf u" "req_line u" "hp_shd u = hp_shd (cs_http s)"
      using u(2) hw by (auto simp: same_line_def req_line_def HTTP_HDR_REQ_def HTTP_HDR_URL_def HTTP_HDR_PROTO_def HTTP_HDR_FIRST_def)
    then show ?thesis using h(1) u(1) hw s
      by (simp add: start_expect_def http_GetHdr_H_of names_valid inv_defs Let_def split: option.splits)
  qed
  have "safe P sess_post (the_or_panic (http_DissectRequest (http_Setup (cs_http sp)) rx) (\<lambda>(i, hp).
         let sp = sp\<lparr>cs_t_req := Some t, cs_xid := xid, cs_vcl := Some v, wk_vcl := None, cs_http := hp\<rparr> in
         if i < 0 then vca_close_session ''junk'' (sp\<lparr>cs_step := STP_DONE\<rparr>) (Ret False)
         else the_or_panic (HTTP_Copy (cs_http0 sp) hp) (\<lambda>hp0. let sp = sp\<lparr>cs_http0 := hp0\<rparr> in
           if i \<noteq> 0 then Ret False (sp\<lparr>cs_err_code := i, cs_step := STP_ERROR\<rparr>)
           else start_expect sp))) g" for rx t xid v
  proof -
    obtain j hp where d: "http_DissectRequest (http_Setup (cs_http sp)) rx = Some (j, hp)" "http_wf hp" "hp_shd hp = hp_shd (cs_http sp)"
        "j \<in> {- 1, 0, 400}" "j = 0 \<longrightarrow> req_line hp"
      using http_DissectRequest_line [OF w, of rx] by (auto simp: req_line_def)
    obtain h0 where h0: "HTTP_Copy (cs_http0 sp) hp = Some h0" "hp_shd h0 = hp_shd hp" using HTTP_Copy_total [OF d(2), of "cs_http0 sp"] i(8) d(3) by auto
    show ?thesis using d i h0 ex by (auto simp: inv_defs Let_def)
  qed
  then show ?thesis using i by (simp add: cnt_start_def idle_def Let_def)
qed

text \<open>A fetch that has made its object.\<close>

definition made :: "objref \<Rightarrow> csess \<Rightarrow> own \<Rightarrow> bool" where
  "made ob sp g \<longleftrightarrow> cs_obj sp = Some ob \<and> cs_objcore sp = None \<and> cs_objhead sp = None \<and>
     (case ob of Obj_core oc \<Rightarrow> g = Filling oc \<and> wk_cacheable sp | Obj_anon a \<Rightarrow> g = Anon a \<and> \<not> wk_cacheable sp)"

definition in_request :: "csess \<Rightarrow> bool" where
  "in_request sp \<longleftrightarrow> cs_vcl sp \<noteq> None \<and> cs_director sp \<noteq> None \<and> req_line (cs_http sp) \<and> cs_esis sp \<ge> 0 \<and> http_wf (cs_http sp) \<and>
     hp_shd (cs_http0 sp) = hp_shd (cs_http sp)"

lemma made_holds: "made ob sp g \<Longrightarrow> holds g ob \<and> (\<forall>oc. g \<noteq> Using oc) \<and> cmd_ok g (C_Drop ob)"
  by (cases ob) (simp_all add: made_def holds_def)

lemma fetch_finish_safe:
  assumes "made ob sp g" "in_request sp" "\<not> cs_vbe sp"
  shows "safe P sess_post (fetch_finish ob sp) g"
  using assms by (cases ob) (auto simp: fetch_finish_def made_def in_request_def holds_def inv_defs)

lemma fetch_end_safe:
  assumes "made ob sp g" "in_request sp" "\<not> cs_vbe sp" "h \<in> set (vcl_returns VCL_MET_FETCH)"
  shows "safe P sess_post (fetch_end P h ob sp) g"
proof -
  have "safe P sess_post (fetch_pass P ob sp (fetch_finish ob sp)) g"
    using fetch_finish_safe [OF assms(1-3)] assms(1)
    by (cases ob) (simp_all add: fetch_pass_def made_def holds_def Let_def split: option.splits)
  moreover have "cs_objcore sp = None" "cs_objhead sp = None" using assms(1) by (simp_all add: made_def)
  ultimately show ?thesis using assms fetch_finish_safe [OF assms(1-3)] made_holds [OF assms(1)]
    by (auto simp: fetch_end_def in_request_def inv_defs)
qed

lemma fetch_body_safe:
  assumes "made ob sp g" "in_request sp" "h \<in> set (vcl_returns VCL_MET_FETCH)"
  shows "safe P sess_post (fetch_body P h ob sp) g"
proof -
  have m: "made ob (sp\<lparr>cs_vbe := False\<rparr>) g" "in_request (sp\<lparr>cs_vbe := False\<rparr>)"
    using assms by (cases ob; simp add: made_def in_request_def)+
  have e: "safe P sess_post (fetch_end P h ob (sp\<lparr>cs_vbe := False\<rparr>)) g" by (rule fetch_end_safe [OF m _ assms(3)]) simp
  have "safe P sess_post (Do (C_Drop ob) (Ret False (fetch_failed (sp\<lparr>cs_vbe := False, cs_obj := None\<rparr>)))) g"
    using assms made_holds [OF assms(1)] by (simp add: fetch_failed_def in_request_def made_def inv_defs)
  then show ?thesis using e assms made_holds [OF assms(1)]
    by (cases ob) (auto simp: fetch_body_def made_def in_request_def Let_def)
qed

lemma fetch_fields_safe:
  assumes "holds g ob" "\<forall>oc. g \<noteq> Using oc" "safe P Q k g"
  shows "safe P Q (fetch_fields ob sp k) g"
  using assms by (simp add: fetch_fields_def Let_def)

lemma fetch_headers_safe:
  assumes "holds g ob" "\<forall>oc. g \<noteq> Using oc" "safe P Q k g" "beresp_ok req hp" "HTTP_HDR_FIRST \<le> n"
  shows "safe P Q (fetch_headers P ob hp n k) g"
proof -
  have "http_wf ((http_Setup (HTTP_create n))\<lparr>hp_logtag := HTTP_Obj\<rparr>)"
    using assms(5) by (simp add: http_wf_def http_Setup_def HTTP_create_def)
  from http_CopyResp_total [OF this, of hp] obtain h1 where h1: "http_CopyResp ((http_Setup (HTTP_create n))\<lparr>hp_logtag := HTTP_Obj\<rparr>) hp = Some h1" "http_wf h1"
    using assms(4) by (auto simp: beresp_ok_def)
  obtain h2 where "http_FilterFields h1 hp [HTTPH_A_INS] = Some h2" using http_FilterFields_total [of hp h1] h1(2) assms(4) unfolding beresp_ok_def by blast
  then show ?thesis using h1 assms by (simp add: fetch_headers_def http_GetHdr_H_of names_valid split: option.splits)
qed

lemma fetch_object_safe:
  assumes "if wk_cacheable sp then fetching sp g else idle sp g \<and> vary = None" "in_request sp" "h \<in> set (vcl_returns VCL_MET_FETCH)"
    "beresp_ok req hp" "\<And>v. vary = Some v \<Longrightarrow> store_ok (St_vary v)"
  shows "safe P sess_post (fetch_object P h hp vary sp) g"
proof -
  obtain l n where n: "http_EstimateWS hp [HTTPH_A_INS] = Some (l, n)" "HTTP_HDR_FIRST \<le> n" using http_EstimateWS_total by blast
  have rest: "safe P sess_post (fetch_fields ob s (fetch_headers P ob hp n (fetch_body P h ob s))) g'"
    if "made ob s g'" "in_request s" for ob s g'
    using made_holds [OF that(1)] fetch_body_safe [OF that assms(3)]
    by (intro fetch_fields_safe fetch_headers_safe [OF _ _ _ assms(4) n(2)]) auto
  have vary: "safe P sess_post (case vary of Some v \<Rightarrow> Do (C_Store ob (St_vary v)) (fetch_fields ob s (fetch_headers P ob hp n (fetch_body P h ob s)))
      | None \<Rightarrow> fetch_fields ob s (fetch_headers P ob hp n (fetch_body P h ob s))) g'"
    if "made ob s g'" "in_request s" for ob s g'
    using rest [OF that] made_holds [OF that(1)] assms(5) by (cases vary) (auto simp del: store_ok.simps)
  show ?thesis
  proof (cases "wk_cacheable sp")
    case True
    then obtain oc oh where g: "g = Busy oc oh" "cs_objcore sp = Some oc" "cs_objhead sp = Some oh" using assms(1) by (auto simp: fetching_def)
    have "made (Obj_core oc) (sp\<lparr>cs_obj := Some (Obj_core oc), cs_objhead := None, cs_objcore := None\<rparr>) (Filling oc)"
      "in_request (sp\<lparr>cs_obj := Some (Obj_core oc), cs_objhead := None, cs_objcore := None\<rparr>)"
      using True assms(2) by (simp_all add: made_def in_request_def)
    from vary [OF this] show ?thesis using n(1) g True by (simp add: fetch_object_def Let_def)
  next
    case False
    then have g: "g = Free" "cs_objhead sp = None" "cs_objcore sp = None" using assms(1) by (auto simp: idle_def)
    have "made (Obj_anon a) (sp\<lparr>cs_obj := Some (Obj_anon a)\<rparr>) (Anon a)" "in_request (sp\<lparr>cs_obj := Some (Obj_anon a)\<rparr>)" for a
      using False assms(2) g by (simp_all add: made_def in_request_def)
    from vary [OF this] show ?thesis using n(1) g False by (simp add: fetch_object_def Let_def)
  qed
qed

lemma fetch_vary_safe:
  assumes "if wk_cacheable sp then fetching sp g else idle sp g" "in_request sp" "cs_handling sp \<in> set (vcl_returns VCL_MET_FETCH)"
    "wk_beresp sp = Some hp" "beresp_ok (cs_http sp) hp"
  shows "safe P sess_post (fetch_vary P sp) g"
proof -
  obtain v where v: "VRY_Create (cs_http sp) hp = Some v" "\<And>s. v = Some s \<Longrightarrow> s \<noteq> [] \<and> store_ok (St_vary s)"
    using assms(5) by (auto simp: beresp_ok_def)
  show ?thesis
  proof (cases "wk_cacheable sp")
    case True
    then show ?thesis using fetch_object_safe [OF _ assms(2,3,5), of g v] assms v by (auto simp: fetch_vary_def fetching_def)
  next
    case False
    then show ?thesis using fetch_object_safe [OF _ assms(2,3,5), of g None] assms by (auto simp: fetch_vary_def idle_def)
  qed
qed

lemma fetch_decide_safe:
  assumes "idle sp g \<or> fetching sp g" "in_request sp" "cs_handling sp \<in> set (vcl_returns VCL_MET_FETCH)"
    "wk_beresp sp = Some hp" "beresp_ok (cs_http sp) hp"
  shows "safe P sess_post (fetch_decide P sp) g"
proof (cases "idle sp g")
  case True
  then have "safe P sess_post (fetch_vary P (sp\<lparr>wk_cacheable := False\<rparr>)) g"
    using assms by (intro fetch_vary_safe [where hp = hp]) (simp_all add: idle_def in_request_def)
  then show ?thesis using True by (simp add: fetch_decide_def idle_def)
next
  case False
  then have f: "fetching sp g" using assms(1) by simp
  show ?thesis
  proof (cases "wk_cacheable sp")
    case True
    then show ?thesis using fetch_vary_safe [OF _ assms(2-)] f by (auto simp: fetch_decide_def fetching_def)
  next
    case False
    have "safe P sess_post (fetch_vary P (sp\<lparr>cs_objcore := None, cs_objhead := None\<rparr>)) Free"
      using assms f False by (intro fetch_vary_safe [where hp = hp]) (simp_all add: idle_def fetching_def in_request_def)
    from drop_busy_safe [where k = "fetch_vary P", OF f this] show ?thesis using f False by (auto simp: fetch_decide_def fetching_def)
  qed
qed

lemma fetch_safe:
  assumes "sess_inv sp g" "cs_step sp = STP_FETCH"
  shows "safe P sess_post (cnt_fetch P sp) g"
proof -
  have i: "idle sp g \<or> fetching sp g" "in_request sp" "\<not> cs_vbe sp" using assms by (auto simp: sess_inv_def in_request_def)
  have fail: "safe P sess_post (if cs_objcore sp \<noteq> None then drop_busy s (\<lambda>sp. Ret False (fetch_failed sp)) else Ret False (fetch_failed s)) g"
    if "s = sp\<lparr>wk_beresp := Some hp, wk_beresp1 := Some hp, cs_vbe := False\<rparr>" for s hp
  proof (cases "idle sp g")
    case True
    then show ?thesis using that i(2) by (simp add: idle_def inv_defs fetch_failed_def in_request_def)
  next
    case False
    then have f: "fetching sp g" using i(1) by simp
    then have fs: "fetching s g" using that by (simp add: fetching_def)
    have "safe P sess_post (drop_busy s (\<lambda>sp. Ret False (fetch_failed sp))) g"
      by (rule drop_busy_safe [OF fs]) (use that f i(2) in \<open>auto simp: inv_defs fetch_failed_def in_request_def\<close>)
    then show ?thesis using f by (auto simp: fetching_def)
  qed
  have answer: "safe P sess_post (fetch_answer P hp (sp\<lparr>wk_beresp := Some hp, wk_beresp1 := Some hp, cs_vbe := True\<rparr>)) g"
    if "hdr_ok P (0, hp)" for hp
  proof -
    have "safe P sess_post (VCL_method VCL_MET_FETCH (sp\<lparr>wk_beresp := Some hp, wk_beresp1 := Some hp, cs_vbe := True, cs_err_code := st,
        wk_entered := t, wk_age := age, wk_ttl := ttl, wk_cacheable := c, wk_do_esi := False, wk_grace := None\<rparr>) (fetch_decide P)) g"
      (is "safe P sess_post (VCL_method VCL_MET_FETCH ?sp _) g") for st t age ttl c
    proof (rule safe_VCL)
      fix e and sp' :: csess
      assume e: "vcl_ok VCL_MET_FETCH (?sp\<lparr>cs_handling := VCL_RET_DELIVER\<rparr>) e" "vcl_keeps ?sp sp'" "cs_handling sp' = ve_handling e"
        "cs_http sp' = ve_http e" "VCL_MET_FETCH = VCL_MET_FETCH \<longrightarrow> wk_beresp sp' = Some (ve_beresp e)"
      have "idle sp' g \<or> fetching sp' g" using i(1) e(2) by (auto simp: idle_def fetching_def vcl_keeps_def)
      moreover have "in_request sp'" using i(2) e(2,4) vcl_okD(3,4,5) [OF e(1)] by (auto simp: in_request_def vcl_keeps_def)
      ultimately show "safe P sess_post (fetch_decide P sp') g"
        using e(3-5) vcl_okD(1,6) [OF e(1)] by (intro fetch_decide_safe [where hp = "ve_beresp e"]) auto
    qed simp
    then show ?thesis using that by (auto simp: fetch_answer_def hdr_ok_def)
  qed
  have "cs_objcore sp \<noteq> None \<longrightarrow> cs_objhead sp \<noteq> None" "cs_obj sp = None" using i(1) by (auto simp: idle_def fetching_def)
  then show ?thesis using i answer fail [OF refl] by (auto simp: cnt_fetch_def in_request_def Let_def)
qed

theorem cnt_step_safe:
  assumes "cp_ok P" "sess_inv sp g"
  shows "safe P sess_post (cnt_step P sp) g"
  using wait_safe [OF assms(2)] first_safe [OF assms(2)] deliver_safe [OF assms(2)] done_safe [OF assms(2)] error_safe [OF assms(2)]
    hit_safe [OF assms(2)] lookup_safe [OF assms(2)] miss_safe [OF assms] pass_safe [OF assms] pipe_safe [OF assms] recv_safe [OF assms(2)]
    start_safe [OF assms(2)] fetch_safe [OF assms(2)]
  by (cases "cs_step sp") (simp_all add: cnt_step_def)

end
