(* ===== verification/Center_Run.thy ===== *)
theory Center_Run
  imports Center_Steps
begin

text \<open>
  Runs of a session on its worker: every answer the rest of the server may give, handler after handler.  They never fail
  an assertion, keep the session's references in order, and bring every request to its end.
\<close>

section \<open>Runs\<close>

inductive ans :: "cparams \<Rightarrow> own \<Rightarrow> prog \<Rightarrow> own \<Rightarrow> prog \<Rightarrow> bool" for P where
  "int_ok q i \<Longrightarrow> ans P g (Ask q k) g (k i)"
| "t \<noteq> 0 \<Longrightarrow> ans P g (TIM_real k) g (k t)"
| "ans P g (Last_lru ob k) g (k t)"
| "ans P g (EXP_Touch ob k) g (k b)"
| "ans P g (Request k) g (k rx)"
| "ans P g (VCL_Refresh v k) g (k w)"
| "ans P g (Next_xid k) g (k x)"
| "vcl_ok m sp e \<Longrightarrow> ans P g (Vcl m sp k) g (k e)"
| "ans P g (Lookup sp k) (own_lookup r) (k r)"
| "hdr_ok P r \<Longrightarrow> ans P g (FetchHdr sp k) g (k r)"
| "ans P g (STV_NewObject l t n cacheable k) (if cacheable then g else Anon a) (k a)"
| "fd = cs_fd sp \<or> fd = - 1 \<Longrightarrow> ans P g (PipeSession sp k) g (k (fd, t))"
| "ans P g (RES_BuildHttp sp k) g (k (d, w))"
| "wrote sp sp' \<Longrightarrow> ans P g (RES_WriteObj sp k) g (k sp')"
| "ans P g (Do c k) (own_after g c) k"

text \<open>From the first step to the moment the worker lets the session go.\<close>

inductive cnt_run :: "cparams \<Rightarrow> csess \<Rightarrow> prog \<Rightarrow> own \<Rightarrow> bool" for P sp0 where
  enter: "cnt_run P sp0 (cnt_step P sp0) Free"
| answer: "cnt_run P sp0 p g \<Longrightarrow> ans P g p g' p' \<Longrightarrow> cnt_run P sp0 p' g'"
| again: "cnt_run P sp0 (Ret False sp) g \<Longrightarrow> cnt_run P sp0 (cnt_step P sp) g"

lemma ans_safe: "ans P g p g' p' \<Longrightarrow> safe P Q p g \<Longrightarrow> safe P Q p' g'"
  by (induction rule: ans.induct) (auto simp: split: if_splits)

lemma cnt_run_safe:
  assumes "cnt_run P sp0 p g" "cp_ok P" "sess_inv sp0 Free"
  shows "safe P sess_post p g"
  using assms(1)
proof induction
  case enter
  show ?case using cnt_step_safe [OF assms(2,3)] .
next
  case (answer p g g' p')
  then show ?case using ans_safe by blast
next
  case (again sp g)
  then have "sess_inv sp g" by (simp add: sess_post_def)
  then show ?case by (rule cnt_step_safe [OF assms(2)])
qed

text \<open>The session that \<open>SES_New\<close> hands to the acceptor, with its socket.\<close>

definition new_session :: "int \<Rightarrow> http \<Rightarrow> csess \<Rightarrow> bool" where
  "new_session fd hp sp \<longleftrightarrow> cs_step sp = STP_FIRST \<and> cs_fd sp = fd \<and> cs_xid sp = 0 \<and> cs_restarts sp = 0 \<and> cs_esis sp = 0 \<and>
     cs_http sp = hp \<and> cs_http0 sp = hp \<and> cs_director sp = None \<and> \<not> cs_vbe sp \<and> cs_obj sp = None \<and> cs_objcore sp = None \<and>
     cs_objhead sp = None \<and> cs_vcl sp = None"

lemma new_session_inv: "new_session fd (HTTP_create n) sp \<Longrightarrow> fd \<ge> 0 \<Longrightarrow> HTTP_HDR_FIRST \<le> n \<Longrightarrow> sess_inv sp Free"
  by (simp add: new_session_def sess_inv_def idle_def HTTP_create_def)


text \<open>
  C5 (type).  The step of a session says what it holds: after every handler the references it owns are those its pointers name, one
  busy object core in a miss, one object in a hit or a delivery, none in all other steps; and a worker lets go only of a session that
  holds nothing, which waits for its client, for a busy object, or is done.
\<close>
theorem cnt_session_typed:
  assumes "cp_ok P" "new_session fd (HTTP_create n) sp0" "fd \<ge> 0" "HTTP_HDR_FIRST \<le> n" "cnt_run P sp0 (Ret d sp) g"
  shows "step_inv (cs_step sp) sp g \<and> (d \<longrightarrow> g = Free \<and> cs_step sp \<in> {STP_WAIT, STP_LOOKUP, STP_DONE})"
  using cnt_run_safe [OF assms(5,1) new_session_inv [OF assms(2-4)]] by (simp add: sess_post_def sess_inv_def)

section \<open>Every request ends\<close>

text \<open>The ends of a program, for any answers at all.\<close>

primrec results :: "prog \<Rightarrow> (bool \<times> csess) set" where
  "results (Ret d sp) = {(d, sp)}"
| "results Panic = {}"
| "results (Ask q k) = (\<Union>i. results (k i))"
| "results (TIM_real k) = (\<Union>t. results (k t))"
| "results (Last_lru ob k) = (\<Union>t. results (k t))"
| "results (EXP_Touch ob k) = (\<Union>b. results (k b))"
| "results (Request k) = (\<Union>t. results (k t))"
| "results (VCL_Refresh v k) = (\<Union>w. results (k w))"
| "results (Next_xid k) = (\<Union>x. results (k x))"
| "results (Vcl m sp k) = (\<Union>e. results (k e))"
| "results (Lookup sp k) = (\<Union>r. results (k r))"
| "results (FetchHdr sp k) = (\<Union>r. results (k r))"
| "results (STV_NewObject l t n cacheable k) = (\<Union>a. results (k a))"
| "results (PipeSession sp k) = (\<Union>r. results (k r))"
| "results (RES_BuildHttp sp k) = (\<Union>r. results (k r))"
| "results (RES_WriteObj sp k) = (\<Union>sp'. results (k sp'))"
| "results (Do c k) = results k"

text \<open>All ends have a property.\<close>

primrec always :: "(bool \<Rightarrow> csess \<Rightarrow> bool) \<Rightarrow> prog \<Rightarrow> bool" where
  "always Q (Ret d sp) \<longleftrightarrow> Q d sp"
| "always Q Panic \<longleftrightarrow> True"
| "always Q (Ask q k) \<longleftrightarrow> (\<forall>i. always Q (k i))"
| "always Q (TIM_real k) \<longleftrightarrow> (\<forall>t. always Q (k t))"
| "always Q (Last_lru ob k) \<longleftrightarrow> (\<forall>t. always Q (k t))"
| "always Q (EXP_Touch ob k) \<longleftrightarrow> (\<forall>b. always Q (k b))"
| "always Q (Request k) \<longleftrightarrow> (\<forall>t. always Q (k t))"
| "always Q (VCL_Refresh v k) \<longleftrightarrow> (\<forall>w. always Q (k w))"
| "always Q (Next_xid k) \<longleftrightarrow> (\<forall>x. always Q (k x))"
| "always Q (Vcl m sp k) \<longleftrightarrow> (\<forall>e. always Q (k e))"
| "always Q (Lookup sp k) \<longleftrightarrow> (\<forall>r. always Q (k r))"
| "always Q (FetchHdr sp k) \<longleftrightarrow> (\<forall>r. always Q (k r))"
| "always Q (STV_NewObject l t n cacheable k) \<longleftrightarrow> (\<forall>a. always Q (k a))"
| "always Q (PipeSession sp k) \<longleftrightarrow> (\<forall>r. always Q (k r))"
| "always Q (RES_BuildHttp sp k) \<longleftrightarrow> (\<forall>r. always Q (k r))"
| "always Q (RES_WriteObj sp k) \<longleftrightarrow> (\<forall>sp'. always Q (k sp'))"
| "always Q (Do c k) \<longleftrightarrow> always Q k"

lemma always_results: "always Q p \<longleftrightarrow> (\<forall>(d, sp) \<in> results p. Q d sp)"
  by (induction p) auto

lemma always_need [simp]: "always Q (need b k) \<longleftrightarrow> (b \<longrightarrow> always Q k)"
  by (simp add: need_def)

lemma always_the [simp]: "always Q (the_or_panic y k) \<longleftrightarrow> (\<forall>v. y = Some v \<longrightarrow> always Q (k v))"
  by (cases y) (simp_all add: the_or_panic_def)

lemma always_close [simp]: "always Q (vca_close_session why sp k) \<longleftrightarrow> always Q (k (sp\<lparr>cs_fd := - 1\<rparr>))"
  by (simp add: vca_close_session_def)

lemma always_stores [simp]: "always Q (obj_stores ob ss k) \<longleftrightarrow> always Q k"
  by (induction ob ss k rule: obj_stores.induct) simp_all

lemma vcl_error_same: "vcl_error m e sp = Some sp' \<Longrightarrow> vcl_keeps sp0 sp \<Longrightarrow> vcl_keeps sp0 sp'"
  by (auto simp: vcl_error_def VRT_error_def Let_def bind_Some_iff vcl_keeps_def split: option.splits if_splits)

lemma always_VCL:
  assumes "\<And>sp'. vcl_keeps sp sp' \<Longrightarrow> cs_handling sp' \<in> set (vcl_returns m) \<Longrightarrow> always Q (k sp')"
  shows "always Q (VCL_method m sp k)"
  using assms vcl_error_same [OF _ vcl_apply_keeps [of sp m]] by (auto simp: VCL_method_def)

lemma always_bereq:
  assumes "\<And>hp. always Q (k (sp\<lparr>wk_bereq := Some hp\<rparr>))"
  shows "always Q (make_bereq P how sp k)"
  using assms by (auto simp: make_bereq_def)

lemma always_drop:
  assumes "always Q (k (sp\<lparr>cs_objcore := None, cs_objhead := None\<rparr>))"
  shows "always Q (drop_busy sp k)"
  using assms by (auto simp: drop_busy_def)

text \<open>Handlers that a request still has before it, when it restarts as often as it may.\<close>

fun rank :: "step \<Rightarrow> nat" where
  "rank STP_START = 9" | "rank STP_RECV = 8" | "rank STP_LOOKUP = 7" | "rank STP_HIT = 6" | "rank STP_MISS = 6" | "rank STP_PASS = 5"
| "rank STP_FETCH = 4" | "rank STP_ERROR = 3" | "rank STP_DELIVER = 2" | "rank STP_PIPE = 2" | "rank s = 0"

definition weight :: "cparams \<Rightarrow> csess \<Rightarrow> nat" where
  "weight P sp = (if rank (cs_step sp) = 0 then 0 else 9 * nat (max_restarts P - cs_restarts sp) + rank (cs_step sp))"

text \<open>A request got past \<open>vcl_recv\<close> with a restart left.\<close>

definition budget :: "cparams \<Rightarrow> csess \<Rightarrow> bool" where
  "budget P sp \<longleftrightarrow> cs_step sp \<in> {STP_LOOKUP, STP_HIT, STP_MISS, STP_PASS, STP_FETCH, STP_PIPE} \<longrightarrow> cs_restarts sp < max_restarts P"

text \<open>Where a handler may go, and what it does to the count of restarts, which is \<open>r\<close> before it.\<close>

definition goes :: "step set \<Rightarrow> bool \<Rightarrow> int \<Rightarrow> bool \<Rightarrow> csess \<Rightarrow> bool" where
  "goes ss again r d sp \<longleftrightarrow> d \<or> cs_step sp \<in> ss \<and> cs_restarts sp = r \<or> again \<and> cs_step sp = STP_RECV \<and> cs_restarts sp = r + 1"

lemma goes_mono: "goes ss again r d sp \<Longrightarrow> ss \<subseteq> ss' \<Longrightarrow> again \<longrightarrow> again' \<Longrightarrow> goes ss' again' r d sp"
  by (auto simp: goes_def)

lemma always_mono: "always Q p \<Longrightarrow> (\<And>d sp. Q d sp \<Longrightarrow> Q' d sp) \<Longrightarrow> always Q' p"
  unfolding always_results by blast

lemma start_goes: "always (goes {STP_RECV, STP_ERROR, STP_DONE} False (cs_restarts sp)) (cnt_start sp)"
proof -
  have "always (goes {STP_RECV, STP_ERROR, STP_DONE} False (cs_restarts sp)) (start_expect s)" if "cs_restarts s = cs_restarts sp" for s
    using that by (auto simp: start_expect_def goes_def Let_def split: option.splits)
  then show ?thesis by (auto simp: cnt_start_def goes_def Let_def)
qed

lemma recv_go_goes: "cs_restarts sp = r \<Longrightarrow> always (goes {STP_LOOKUP, STP_PIPE, STP_PASS, STP_ERROR} False r) (recv_go h sp)"
  by (cases h) (auto simp: recv_go_def goes_def)

lemma recv_goes: "always (goes (if cs_restarts sp < max_restarts P then {STP_LOOKUP, STP_PIPE, STP_PASS, STP_ERROR} else {STP_ERROR}) False (cs_restarts sp))
  (cnt_recv P sp)"
proof -
  have "always (goes {STP_LOOKUP, STP_PIPE, STP_PASS, STP_ERROR} False r) (recv_digest h s)" if "cs_restarts s = r" for h s r
    using that by (auto simp: recv_digest_def recv_head_def recv_go_goes split: prod.splits)
  then have "always (goes (if cs_restarts s < max_restarts P then {STP_LOOKUP, STP_PIPE, STP_PASS, STP_ERROR} else {STP_ERROR}) False (cs_restarts s)) (recv_next P s)" for s
    by (auto simp: recv_next_def goes_def vcl_keeps_def intro!: always_VCL)
  then have "always (goes (if cs_restarts sp < max_restarts P then {STP_LOOKUP, STP_PIPE, STP_PASS, STP_ERROR} else {STP_ERROR}) False (cs_restarts sp)) (recv_next P s)"
    if "cs_restarts s = cs_restarts sp" for s using that by metis
  then show ?thesis by (auto simp: cnt_recv_def vcl_keeps_def intro!: always_VCL)
qed

lemma lookup_goes: "always (goes {STP_MISS, STP_PASS, STP_HIT} False (cs_restarts sp)) (cnt_lookup sp)"
  by (auto simp: cnt_lookup_def goes_def split: option.splits)

lemma hit_goes: "always (goes {STP_DELIVER, STP_PASS, STP_ERROR} True (cs_restarts sp)) (cnt_hit sp)"
  by (auto simp: cnt_hit_def hit_next_def goes_def vcl_keeps_def Let_def intro!: always_VCL)

lemma miss_goes: "always (goes {STP_ERROR, STP_PASS, STP_FETCH} False (cs_restarts sp)) (cnt_miss P sp)"
  by (auto simp: cnt_miss_def miss_next_def goes_def vcl_keeps_def intro!: always_VCL always_bereq always_drop)

lemma pass_goes: "always (goes {STP_ERROR, STP_FETCH} False (cs_restarts sp)) (cnt_pass P sp)"
  by (auto simp: cnt_pass_def pass_next_def goes_def vcl_keeps_def intro!: always_VCL always_bereq)

lemma pipe_goes: "always (\<lambda>d s. cs_step s = STP_DONE) (cnt_pipe P sp)"
  by (auto simp: cnt_pipe_def pipe_next_def intro!: always_VCL always_bereq)

lemma always_touch: "always Q k \<Longrightarrow> always Q (deliver_touch P ob t k)"
  by (cases ob) (auto simp: deliver_touch_def Let_def)

lemma deliver_goes: "always (\<lambda>d s. cs_step s = STP_DONE) (cnt_deliver P sp)"
  by (auto simp: cnt_deliver_def deliver_send_def intro!: always_VCL always_touch)

lemma error_goes: "always (goes {STP_DELIVER} (cs_restarts sp < max_restarts P) (cs_restarts sp)) (cnt_error P sp)"
proof -
  have "always (goes {STP_DELIVER} (cs_restarts s < max_restarts P) (cs_restarts s)) (error_vcl P ob s)" for ob s
    by (auto simp: error_vcl_def error_next_def goes_def vcl_keeps_def Let_def intro!: always_VCL)
  then have "always (goes {STP_DELIVER} (cs_restarts sp < max_restarts P) (cs_restarts sp)) (error_vcl P ob (error_code s))"
    if "cs_restarts s = cs_restarts sp" for ob s
    using that by (metis (no_types, lifting) error_code_def csess.update_convs(19) csess.select_convs(4) csess.surjective)
  then show ?thesis by (auto simp: cnt_error_def error_object_def Let_def split: option.splits)
qed

lemma fetch_end_goes: "cs_restarts sp = r \<Longrightarrow> always (goes {STP_DELIVER, STP_ERROR} True r) (fetch_end P h ob sp)"
proof -
  assume r: "cs_restarts sp = r"
  have f: "always (goes {STP_DELIVER, STP_ERROR} True r) (fetch_finish ob sp)"
    using r by (auto simp: fetch_finish_def goes_def Let_def split: objref.splits)
  then have "always (goes {STP_DELIVER, STP_ERROR} True r) (fetch_pass P ob sp (fetch_finish ob sp))"
    by (auto simp: fetch_pass_def Let_def split: option.splits objref.splits)
  then show ?thesis using f r by (cases h) (simp_all add: fetch_end_def goes_def)
qed

lemma fetch_body_goes: "cs_restarts sp = r \<Longrightarrow> always (goes {STP_DELIVER, STP_ERROR} True r) (fetch_body P h ob sp)"
  using fetch_end_goes [of "sp\<lparr>cs_vbe := False\<rparr>" r P h ob]
  by (cases ob) (auto simp: fetch_body_def fetch_failed_def goes_def Let_def)

lemma fetch_object_goes: "cs_restarts sp = r \<Longrightarrow> always (goes {STP_DELIVER, STP_ERROR} True r) (fetch_object P h hp vary sp)"
proof -
  assume r: "cs_restarts sp = r"
  have "always (goes {STP_DELIVER, STP_ERROR} True r) (fetch_fields ob s (fetch_headers P ob hp n (fetch_body P h ob s)))"
    if "cs_restarts s = r" for ob s n
    using fetch_body_goes [OF that] by (auto simp: fetch_fields_def fetch_headers_def Let_def split: option.splits)
  then show ?thesis using r by (auto simp: fetch_object_def Let_def split: option.splits)
qed

lemma fetch_decide_goes: "cs_restarts sp = r \<Longrightarrow> always (goes {STP_DELIVER, STP_ERROR} True r) (fetch_decide P sp)"
proof -
  have "always (goes {STP_DELIVER, STP_ERROR} True r) (fetch_vary P s)" if "cs_restarts s = r" for s
    using fetch_object_goes [OF that] by (simp add: fetch_vary_def)
  moreover assume "cs_restarts sp = r"
  ultimately show ?thesis by (auto simp: fetch_decide_def intro!: always_drop)
qed

lemma fetch_goes: "always (goes {STP_DELIVER, STP_ERROR} True (cs_restarts sp)) (cnt_fetch P sp)"
proof -
  have "always (goes {STP_DELIVER, STP_ERROR} True r) (fetch_answer P hp s)" if "cs_restarts s = r" for r hp s
    using that by (auto simp: fetch_answer_def vcl_keeps_def intro!: always_VCL fetch_decide_goes)
  then show ?thesis by (auto simp: cnt_fetch_def Let_def fetch_failed_def goes_def intro!: always_drop)
qed

text \<open>Every handler of a request brings it nearer to its end.\<close>

lemma weight_down:
  assumes "(False, s) \<in> results (cnt_step P sp)" "rank (cs_step sp) > 0" "budget P sp"
  shows "budget P s \<and> weight P s < weight P sp \<and> (rank (cs_step s) > 0 \<or> cs_step s = STP_DONE)"
proof -
  have e: "Q False s" if "always Q (cnt_step P sp)" for Q using that assms(1) unfolding always_results by auto
  show ?thesis
  proof (cases "cs_step sp")
    case STP_START
    then show ?thesis using e [of "goes {STP_RECV, STP_ERROR, STP_DONE} False (cs_restarts sp)"] start_goes [of sp]
      by (auto simp: cnt_step_def goes_def weight_def budget_def)
  next
    case STP_RECV
    then show ?thesis using e [of "goes (if cs_restarts sp < max_restarts P then {STP_LOOKUP, STP_PIPE, STP_PASS, STP_ERROR} else {STP_ERROR}) False (cs_restarts sp)"]
      recv_goes [of sp P] by (auto simp: cnt_step_def goes_def weight_def budget_def split: if_splits)
  next
    case STP_LOOKUP
    then show ?thesis using e [of "goes {STP_MISS, STP_PASS, STP_HIT} False (cs_restarts sp)"] lookup_goes [of sp] assms(3)
      by (auto simp: cnt_step_def goes_def weight_def budget_def)
  next
    case STP_HIT
    then show ?thesis using e [of "goes {STP_DELIVER, STP_PASS, STP_ERROR} True (cs_restarts sp)"] hit_goes [of sp] assms(3)
      by (auto simp: cnt_step_def goes_def weight_def budget_def)
  next
    case STP_MISS
    then show ?thesis using e [of "goes {STP_ERROR, STP_PASS, STP_FETCH} False (cs_restarts sp)"] miss_goes [of sp P] assms(3)
      by (auto simp: cnt_step_def goes_def weight_def budget_def)
  next
    case STP_PASS
    then show ?thesis using e [of "goes {STP_ERROR, STP_FETCH} False (cs_restarts sp)"] pass_goes [of sp P] assms(3)
      by (auto simp: cnt_step_def goes_def weight_def budget_def)
  next
    case STP_FETCH
    then show ?thesis using e [of "goes {STP_DELIVER, STP_ERROR} True (cs_restarts sp)"] fetch_goes [of sp P] assms(3)
      by (auto simp: cnt_step_def goes_def weight_def budget_def)
  next
    case STP_ERROR
    then show ?thesis using e [of "goes {STP_DELIVER} (cs_restarts sp < max_restarts P) (cs_restarts sp)"] error_goes [of sp P]
      by (auto simp: cnt_step_def goes_def weight_def budget_def)
  next
    case STP_DELIVER
    then show ?thesis using e [of "\<lambda>d s. cs_step s = STP_DONE"] deliver_goes [of P sp] by (auto simp: cnt_step_def weight_def budget_def)
  next
    case STP_PIPE
    then show ?thesis using e [of "\<lambda>d s. cs_step s = STP_DONE"] pipe_goes [of P sp] by (auto simp: cnt_step_def weight_def budget_def)
  qed (use assms(2) in simp_all)
qed

text \<open>
  C7 (termination).  Every request ends: whatever client, backends and VCL program answer, a request that starts with its restart counter
  at zero is done, or has left its worker to wait for a busy object, after at most \<open>9 * (max_restarts + 1)\<close> handlers.
\<close>
theorem cnt_request_ends:
  assumes "cs_step (sps 0) = STP_START" "cs_restarts (sps 0) = 0" "max_restarts P \<ge> 0"
    "\<forall>i < n. (False, sps (Suc i)) \<in> results (cnt_step P (sps i))" "\<forall>i \<le> n. cs_step (sps i) \<noteq> STP_DONE"
  shows "n \<le> 9 * (nat (max_restarts P) + 1)"
proof -
  have "weight P (sps i) + i \<le> weight P (sps 0) \<and> budget P (sps i) \<and> rank (cs_step (sps i)) > 0" if "i \<le> n" for i
    using that
  proof (induction i)
    case 0
    then show ?case using assms(1) by (simp add: budget_def)
  next
    case (Suc i)
    then have "budget P (sps (Suc i)) \<and> weight P (sps (Suc i)) < weight P (sps i) \<and> rank (cs_step (sps (Suc i))) > 0"
      using weight_down [of "sps (Suc i)" P "sps i"] assms(4,5) by fastforce
    then show ?case using Suc by simp
  qed
  from this [of n] show ?thesis using assms by (simp add: weight_def)
qed

section \<open>What VCL must not do\<close>

text \<open>
  Actions that the VCL compiler lets through (\<open>vcl_returns\<close>) and on which the handlers stop the process:
  \<open>restart\<close> in \<open>vcl_miss\<close>, \<open>vcl_pass\<close> and \<open>vcl_deliver\<close>, and \<open>error\<close> in \<open>vcl_pipe\<close>.
\<close>
theorem vcl_actions_panic:
  "VCL_RET_RESTART \<in> set (vcl_returns VCL_MET_MISS) \<and> VCL_RET_RESTART \<in> set (vcl_returns VCL_MET_PASS) \<and>
   VCL_RET_RESTART \<in> set (vcl_returns VCL_MET_DELIVER) \<and> VCL_RET_ERROR \<in> set (vcl_returns VCL_MET_PIPE) \<and>
   pass_next (sp\<lparr>cs_handling := VCL_RET_RESTART\<rparr>) = Panic \<and> deliver_send ob (sp\<lparr>cs_handling := VCL_RET_RESTART\<rparr>) = Panic \<and>
   pipe_next (sp\<lparr>cs_handling := VCL_RET_ERROR\<rparr>) = Panic \<and>
   miss_next (sp\<lparr>cs_handling := VCL_RET_RESTART, cs_objcore := Some oc, cs_objhead := Some oh\<rparr>) = Do (C_DerefObjCore oc oh) Panic"
  by (simp add: pass_next_def deliver_send_def pipe_next_def miss_next_def drop_busy_def need_def the_or_panic_def)

definition bad_rx :: htxt where
  "bad_rx = (500, ''GET '' @ [CHR 0x0D, CHR 0x0A, CHR 0x0D, CHR 0x0A])"

definition bad_http :: http where
  "bad_http = \<lparr>hp_conds = False, hp_logtag = HTTP_Rx, hp_status = 0, hp_protover = 0, hp_shd = 8,
     hp_hd = [Some (500, ''GET''), Some (504, []), None, None, None, None, None, None], hp_filter = replicate 8 False, hp_nhd = 5\<rparr>"

lemma bad_dissect: "http_DissectRequest (http_Setup (HTTP_create 8)) bad_rx = Some (400, bad_http)"
  by code_simp


section \<open>Examples\<close>

definition cx_params :: cparams where
  "cx_params = \<lparr>session_linger = 0, max_restarts = 4, lru_timeout = 2, err_ttl = 0, http_slots = 8,
     cp_ttl = \<lparr>default_ttl = 120, clock_skew = 10\<rparr>, cp_conv = (\<lambda>p f. None),
     wrk_ws = \<lparr>ws_id = ''wrk'', ws_s = 1000, ws_f = 1000, ws_r = None, ws_e = 1064, ws_overflow = 0\<rparr>,
     wrk_http = (HTTP_create 8)\<lparr>hp_nhd := 5\<rparr>, vcl_director = (\<lambda>v. v)\<rparr>"

definition cx_sess :: csess where
  "cx_sess = \<lparr>cs_step = STP_FIRST, cs_fd = 7, cs_xid = 0, cs_restarts = 0, cs_esis = 0, cs_disable_esi = False, cs_doclose = None,
     cs_http = HTTP_create 8, cs_http0 = HTTP_create 8, cs_digest = [], cs_t_open = Some 1, cs_t_req = None, cs_t_resp = None, cs_t_end = None,
     cs_grace = None, cs_handling = VCL_RET_DELIVER, cs_sendbody = False, cs_wantbody = False, cs_err_code = 0, cs_err_reason = None,
     cs_director = None, cs_vbe = False, cs_obj = None, cs_objcore = None, cs_objhead = None, cs_vcl = None, wk_vcl = None,
     wk_sha = sha_ctx0, wk_bereq = None, wk_beresp = None, wk_beresp1 = None, wk_resp = False, wk_cacheable = False, wk_age = 0,
     wk_entered = 0, wk_ttl = 0, wk_grace = None, wk_do_esi = False, wk_timeouts = (0, 0, 0)\<rparr>"

lemma cx_ok: "cp_ok cx_params" "new_session 7 (HTTP_create 8) cx_sess"
  by (simp_all add: cp_ok_def cx_params_def http_wf_def HTTP_create_def HTTP_HDR_FIRST_def ws_inv_def WS_Assert_def new_session_def cx_sess_def)

lemma cx_wait: "cnt_run cx_params cx_sess (Ret False (cx_sess\<lparr>cs_step := STP_WAIT\<rparr>)) Free"
proof -
  have "cnt_run cx_params cx_sess (Do C_Prep (Do C_HTC_Init (Ret False (cx_sess\<lparr>cs_step := STP_WAIT\<rparr>)))) Free"
    using cnt_run.enter [of cx_params cx_sess] by (simp add: cnt_step_def cnt_first_def need_def cx_sess_def)
  then have "cnt_run cx_params cx_sess (Do C_HTC_Init (Ret False (cx_sess\<lparr>cs_step := STP_WAIT\<rparr>))) Free"
    using cnt_run.answer ans.intros(15) [of cx_params Free C_Prep] by fastforce
  then show ?thesis using cnt_run.answer ans.intros(15) [of cx_params Free C_HTC_Init] by fastforce
qed


theorem cnt_session_typed_witness:
  "cp_ok cx_params \<and> new_session 7 (HTTP_create 8) cx_sess \<and> step_inv STP_WAIT (cx_sess\<lparr>cs_step := STP_WAIT\<rparr>) Free"
  using cnt_session_typed [OF cx_ok _ _ cx_wait] cx_ok by (simp add: HTTP_HDR_FIRST_def)

definition cx_start :: csess where
  "cx_start = cx_sess\<lparr>cs_step := STP_START\<rparr>"

lemma cx_start_error: "\<exists>s. (False, s) \<in> results (cnt_step cx_params cx_start) \<and> cs_step s = STP_ERROR"
proof -
  obtain h where h: "HTTP_Copy (HTTP_create 8) bad_http = Some h" by (simp add: HTTP_Copy_def bad_http_def HTTP_create_def)
  have "cs_http0 cx_start = HTTP_create 8" "cs_http cx_start = HTTP_create 8" "cs_step cx_start = STP_START" "cs_restarts cx_start = 0"
    "cs_obj cx_start = None" "cs_vcl cx_start = None" by (simp_all add: cx_start_def cx_sess_def)
  then have "(False, cx_start\<lparr>cs_t_req := Some 1, cs_xid := 1, cs_vcl := Some 1, wk_vcl := None, cs_http := bad_http, cs_http0 := h,
      cs_err_code := 400, cs_step := STP_ERROR\<rparr>) \<in> results (cnt_step cx_params cx_start)"
    using h bad_dissect
    by (simp add: cnt_step_def cnt_start_def need_def Let_def)
      (rule exI [of _ 1], rule exI [of _ 1], rule exI [of _ 1], rule exI [of _ "fst bad_rx"], rule exI [of _ "snd bad_rx"],
        simp add: the_or_panic_def)
  then show ?thesis by force
qed

theorem cnt_request_ends_witness:
  "\<exists>s. (False, s) \<in> results (cnt_step cx_params cx_start) \<and> cs_step s = STP_ERROR \<and> (1 :: nat) \<le> 45"
proof -
  obtain s where s: "(False, s) \<in> results (cnt_step cx_params cx_start)" "cs_step s = STP_ERROR" using cx_start_error by blast
  let ?sps = "\<lambda>i :: nat. if i = 0 then cx_start else s"
  have "(1 :: nat) \<le> 9 * (nat (max_restarts cx_params) + 1)"
    by (rule cnt_request_ends [of ?sps]) (use s in \<open>auto simp: cx_start_def cx_sess_def cx_params_def le_Suc_eq\<close>)
  then show ?thesis using s by (auto simp: cx_params_def)
qed


end
