(* ===== verification/Storage_File.thy ===== *)
theory Storage_File
  imports Prelude
begin

unbundle bit_operations_syntax

text \<open>
  \<open>bin/varnishd/storage_file.c\<close>: the storage that keeps objects in a mapped file.  The file is cut into ranges,
  which are in use or free; \<open>order\<close> lists them all by address, \<open>free\<close> has a list for each size of up to 31 pages and
  one for all larger ranges, and \<open>used\<close> lists the ranges in use.  The structures \<open>smf\<close> that describe
  the ranges are kept in a map from their addresses.

  Parameters: the address that \<open>malloc\<close> gives for a new structure and the address at which \<open>mmap\<close> maps a part of the
  file.  The counters \<open>n_smf\<close>, \<open>n_smf_frag\<close>, \<open>n_smf_large\<close> and \<open>sm_nreq\<close> are left out.
\<close>

type_synonym smfp = nat
type_synonym u64 = "64 word"

definition NBUCKET :: nat where "NBUCKET = 128 div 4 + 1"
definition MINPAGES :: nat where "MINPAGES = 128"
definition SSIZE_MAX :: nat where "SSIZE_MAX = 2 ^ 63 - 1"

record storage =
  st_ptr :: nat
  st_len :: u32
  st_space :: u32
  st_fd :: int
  st_where :: nat

record smf =
  sf_s :: storage
  sf_alloc :: bool
  sf_size :: nat
  sf_offset :: nat
  sf_ptr :: nat
  sf_flist :: "nat option"

record smf_sc =
  sc_fd :: int
  sc_pagesize :: u32
  sc_filesize :: nat
  sc_order :: "smfp list"
  sc_free :: "smfp list list"
  sc_used :: "smfp list"
  sc_mem :: "smfp \<Rightarrow> smf option"
  sm_nobj :: u64
  sm_balloc :: u64
  sm_bfree :: u64

abbreviation page :: "smf_sc \<Rightarrow> nat" where
  "page sc \<equiv> unat (sc_pagesize sc)"

definition set_smf :: "smfp \<Rightarrow> smf \<Rightarrow> smf_sc \<Rightarrow> smf_sc" where
  "set_smf p s sc = sc\<lparr>sc_mem := (sc_mem sc)(p \<mapsto> s)\<rparr>"

text \<open>\<open>VTAILQ_NEXT\<close>, \<open>VTAILQ_PREV\<close>, \<open>VTAILQ_INSERT_BEFORE\<close> and \<open>VTAILQ_INSERT_AFTER\<close>.\<close>

fun next_in :: "'a \<Rightarrow> 'a list \<Rightarrow> 'a option" where
  "next_in x (a # b # xs) = (if a = x then Some b else next_in x (b # xs))"
| "next_in x _ = None"

definition prev_in :: "'a \<Rightarrow> 'a list \<Rightarrow> 'a option" where
  "prev_in x xs = next_in x (rev xs)"

fun put_before :: "'a \<Rightarrow> 'a \<Rightarrow> 'a list \<Rightarrow> 'a list" where
  "put_before x n [] = []"
| "put_before x n (a # xs) = (if a = x then n # a # xs else a # put_before x n xs)"

fun put_after :: "'a \<Rightarrow> 'a \<Rightarrow> 'a list \<Rightarrow> 'a list" where
  "put_after x n [] = []"
| "put_after x n (a # xs) = (if a = x then a # n # xs else a # put_after x n xs)"

section \<open>Free lists\<close>

definition bucket :: "smf_sc \<Rightarrow> smf \<Rightarrow> nat" where
  "bucket sc s = (let b = sf_size s div page sc in if b \<ge> NBUCKET then NBUCKET - 1 else b)"

fun insfree_at :: "(smfp \<Rightarrow> smf option) \<Rightarrow> nat \<Rightarrow> nat \<Rightarrow> smfp \<Rightarrow> nat \<Rightarrow> smfp list \<Rightarrow> smfp list option" where
  "insfree_at m b ns p off [] = Some [p]"
| "insfree_at m b ns p off (q # qs) = do {
     s2 \<leftarrow> m q;
     chk (sf_size s2 \<ge> ns);
     chk (\<not> sf_alloc s2);
     chk (sf_flist s2 = Some b);
     if off < sf_offset s2 then Some (p # q # qs) else map_option (Cons q) (insfree_at m b ns p off qs) }"

definition insfree :: "smf_sc \<Rightarrow> smfp \<Rightarrow> smf_sc option" where
  "insfree sc p = do {
     s \<leftarrow> sc_mem sc p;
     chk (\<not> sf_alloc s);
     chk (sf_flist s = None);
     let b = bucket sc s;
     l \<leftarrow> insfree_at (sc_mem sc) b (b * page sc) p (sf_offset s) (sc_free sc ! b);
     Some (set_smf p (s\<lparr>sf_flist := Some b\<rparr>) (sc\<lparr>sc_free := (sc_free sc)[b := l]\<rparr>)) }"

definition remfree :: "smf_sc \<Rightarrow> smfp \<Rightarrow> smf_sc option" where
  "remfree sc p = do {
     s \<leftarrow> sc_mem sc p;
     chk (\<not> sf_alloc s);
     f \<leftarrow> sf_flist s;
     let b = bucket sc s;
     chk (f = b);
     chk (p \<in> set (sc_free sc ! b));
     Some (set_smf p (s\<lparr>sf_flist := None\<rparr>) (sc\<lparr>sc_free := (sc_free sc)[b := remove1 p (sc_free sc ! b)]\<rparr>)) }"

section \<open>Ranges\<close>

text \<open>The first of the lists from \<open>b\<close> on that is not empty; then the first range that is large enough on the last list.\<close>

fun first_smf :: "smfp list list \<Rightarrow> smfp option" where
  "first_smf [] = None"
| "first_smf (l # ls) = (case l of [] \<Rightarrow> first_smf ls | p # _ \<Rightarrow> Some p)"

fun large_smf :: "(smfp \<Rightarrow> smf option) \<Rightarrow> nat \<Rightarrow> smfp list \<Rightarrow> smfp option option" where
  "large_smf m bytes [] = Some None"
| "large_smf m bytes (p # ps) = do { s \<leftarrow> m p; if sf_size s \<ge> bytes then Some (Some p) else large_smf m bytes ps }"

definition find_smf :: "smf_sc \<Rightarrow> nat \<Rightarrow> smfp option option" where
  "find_smf sc bytes = (
     let b = bytes div page sc; b = (if b \<ge> NBUCKET then NBUCKET - 1 else b)
     in case first_smf (drop b (take (NBUCKET - 1) (sc_free sc))) of
          Some p \<Rightarrow> Some (Some p)
        | None \<Rightarrow> large_smf (sc_mem sc) bytes (sc_free sc ! (NBUCKET - 1)))"

definition alloc_smf :: "smf_sc \<Rightarrow> nat \<Rightarrow> smfp \<Rightarrow> (smfp option \<times> smf_sc) option" where
  "alloc_smf sc bytes new = do {
     chk (bytes mod page sc = 0);
     f \<leftarrow> find_smf sc bytes;
     case f of None \<Rightarrow> Some (None, sc)
     | Some p \<Rightarrow> do {
         s \<leftarrow> sc_mem sc p;
         chk (sf_size s \<ge> bytes);
         sc \<leftarrow> remfree sc p;
         s \<leftarrow> sc_mem sc p;
         if sf_size s = bytes then Some (Some p, set_smf p (s\<lparr>sf_alloc := True\<rparr>) (sc\<lparr>sc_used := sc_used sc @ [p]\<rparr>))
         else do {
           let sc = set_smf p (s\<lparr>sf_offset := sf_offset s + bytes, sf_ptr := sf_ptr s + bytes, sf_size := sf_size s - bytes\<rparr>) sc;
           let sc = set_smf new (s\<lparr>sf_size := bytes, sf_alloc := True\<rparr>) sc;
           let sc = sc\<lparr>sc_order := put_before p new (sc_order sc), sc_used := sc_used sc @ [new]\<rparr>;
           sc \<leftarrow> insfree sc p;
           Some (Some new, sc) } } }"

text \<open>Two free ranges that follow each other in memory and in the file.\<close>

definition joins :: "smf \<Rightarrow> smf \<Rightarrow> bool" where
  "joins a b \<longleftrightarrow> sf_ptr b = sf_ptr a + sf_size a \<and> sf_offset b = sf_offset a + sf_size a"

definition merge_next :: "smf_sc \<Rightarrow> smfp \<Rightarrow> smf_sc option" where
  "merge_next sc p = do {
     s \<leftarrow> sc_mem sc p;
     case next_in p (sc_order sc) of None \<Rightarrow> Some sc
     | Some q \<Rightarrow> do {
         s2 \<leftarrow> sc_mem sc q;
         if \<not> sf_alloc s2 \<and> joins s s2 then do {
           let sc = set_smf p (s\<lparr>sf_size := sf_size s + sf_size s2\<rparr>) sc;
           let sc = sc\<lparr>sc_order := remove1 q (sc_order sc)\<rparr>;
           sc \<leftarrow> remfree sc q;
           Some (sc\<lparr>sc_mem := (sc_mem sc)(q := None)\<rparr>) }
         else Some sc } }"

definition merge_prev :: "smf_sc \<Rightarrow> smfp \<Rightarrow> (smfp \<times> smf_sc) option" where
  "merge_prev sc p = do {
     s \<leftarrow> sc_mem sc p;
     case prev_in p (sc_order sc) of None \<Rightarrow> Some (p, sc)
     | Some q \<Rightarrow> do {
         s2 \<leftarrow> sc_mem sc q;
         if \<not> sf_alloc s2 \<and> joins s2 s then do {
           sc \<leftarrow> remfree sc q;
           s2 \<leftarrow> sc_mem sc q;
           let sc = set_smf q (s2\<lparr>sf_size := sf_size s2 + sf_size s\<rparr>) sc;
           Some (q, sc\<lparr>sc_order := remove1 p (sc_order sc), sc_mem := (sc_mem sc)(p := None)\<rparr>) }
         else Some (p, sc) } }"

definition free_smf :: "smf_sc \<Rightarrow> smfp \<Rightarrow> smf_sc option" where
  "free_smf sc p = do {
     s \<leftarrow> sc_mem sc p;
     chk (sf_alloc s);
     chk (sf_size s > 0);
     chk (sf_size s mod page sc = 0);
     chk (p \<in> set (sc_used sc));
     let sc = set_smf p (s\<lparr>sf_alloc := False\<rparr>) (sc\<lparr>sc_used := remove1 p (sc_used sc)\<rparr>);
     sc \<leftarrow> merge_next sc p;
     (p, sc) \<leftarrow> merge_prev sc p;
     insfree sc p }"

definition trim_smf :: "smf_sc \<Rightarrow> smfp \<Rightarrow> nat \<Rightarrow> smfp \<Rightarrow> smf_sc option" where
  "trim_smf sc p bytes new = do {
     s \<leftarrow> sc_mem sc p;
     chk (sf_alloc s);
     chk (bytes > 0);
     chk (bytes < sf_size s);
     chk (bytes mod page sc = 0);
     chk (sf_size s mod page sc = 0);
     let sc = set_smf p (s\<lparr>sf_size := bytes\<rparr>) sc;
     let sc = set_smf new (s\<lparr>sf_size := sf_size s - bytes, sf_ptr := sf_ptr s + bytes, sf_offset := sf_offset s + bytes\<rparr>) sc;
     let sc = sc\<lparr>sc_order := put_after p new (sc_order sc), sc_used := sc_used sc @ [new]\<rparr>;
     free_smf sc new }"

text \<open>Where \<open>new_smf\<close> puts a range: before the first one at a higher address.\<close>

fun put_by_ptr :: "(smfp \<Rightarrow> smf option) \<Rightarrow> nat \<Rightarrow> smfp \<Rightarrow> smfp list \<Rightarrow> smfp list option" where
  "put_by_ptr m ptr new [] = Some [new]"
| "put_by_ptr m ptr new (q # qs) = do {
     s2 \<leftarrow> m q;
     if ptr < sf_ptr s2 then Some (new # q # qs) else map_option (Cons q) (put_by_ptr m ptr new qs) }"

definition storage0 :: storage where
  "storage0 = \<lparr>st_ptr = 0, st_len = 0, st_space = 0, st_fd = 0, st_where = 0\<rparr>"

definition new_smf :: "smf_sc \<Rightarrow> nat \<Rightarrow> nat \<Rightarrow> nat \<Rightarrow> smfp \<Rightarrow> smf_sc option" where
  "new_smf sc ptr off len new = do {
     chk (len mod page sc = 0);
     let s = \<lparr>sf_s = storage0, sf_alloc = True, sf_size = len, sf_offset = off, sf_ptr = ptr, sf_flist = None\<rparr>;
     l \<leftarrow> put_by_ptr (sc_mem sc) ptr new (sc_order sc);
     free_smf (set_smf new s (sc\<lparr>sc_order := l, sc_used := new # sc_used sc\<rparr>)) new }"

section \<open>Opening the file\<close>

definition half :: "nat \<Rightarrow> nat \<Rightarrow> nat" where
  "half pg sz = (let h = min (sz div 2) SSIZE_MAX in h - h mod pg)"

lemma half_less: "0 < sz \<Longrightarrow> half pg sz < sz"
  unfolding half_def Let_def by (rule le_less_trans [OF diff_le_self]) simp

text \<open>A half of no bytes would fail the first assertion of the recursive call.\<close>

function smf_open_chunk :: "(nat \<Rightarrow> nat \<Rightarrow> nat option) \<Rightarrow> (smf_sc \<Rightarrow> smfp) \<Rightarrow> smf_sc \<Rightarrow> nat \<Rightarrow> nat \<Rightarrow> nat \<Rightarrow> nat
    \<Rightarrow> (smf_sc \<times> nat \<times> nat) option" where
  "smf_open_chunk mmap mal sc sz off fail tot = (
     if sz = 0 \<or> sz mod page sc \<noteq> 0 then None
     else if fail < page sc * MINPAGES then Some (sc, fail, tot)
     else case (if sz < fail \<and> sz < SSIZE_MAX then mmap sz off else None) of
       Some p \<Rightarrow> do { sc \<leftarrow> new_smf sc p off sz (mal sc); Some (sc, fail, tot + sz) }
     | None \<Rightarrow> let h = half (page sc) sz in
         if h = 0 then None
         else do {
           (sc, fail, tot) \<leftarrow> smf_open_chunk mmap mal sc h off (min sz fail) tot;
           smf_open_chunk mmap mal sc (sz - h) (off + h) fail tot })"
  by auto
termination by (relation "measure (\<lambda>(_, _, _, sz, _). sz)") (auto simp: half_less)

declare smf_open_chunk.simps [simp del]

text \<open>The lists as \<open>smf_init\<close> leaves them.\<close>

definition smf_init :: "int \<Rightarrow> u32 \<Rightarrow> nat \<Rightarrow> smf_sc" where
  "smf_init fd pg sz = \<lparr>sc_fd = fd, sc_pagesize = pg, sc_filesize = sz, sc_order = [], sc_free = replicate NBUCKET [],
     sc_used = [], sc_mem = (\<lambda>_. None), sm_nobj = 0, sm_balloc = 0, sm_bfree = 0\<rparr>"

text \<open>The process exits when less than \<open>MINPAGES\<close> pages could be mapped.\<close>

definition smf_open :: "(nat \<Rightarrow> nat \<Rightarrow> nat option) \<Rightarrow> (smf_sc \<Rightarrow> smfp) \<Rightarrow> nat \<Rightarrow> smf_sc \<Rightarrow> smf_sc option" where
  "smf_open mmap mal getpagesize sc = do {
     (sc, fail, tot) \<leftarrow> smf_open_chunk mmap mal sc (sc_filesize sc) 0 (2 ^ 30) 0;
     chk (tot \<ge> MINPAGES * getpagesize);
     Some (sc\<lparr>sm_bfree := sm_bfree sc + word_of_nat (sc_filesize sc)\<rparr>) }"

section \<open>The interface of a stevedore\<close>

text \<open>The mask is computed in 32 bits, as \<open>pagesize\<close> is \<open>unsigned\<close>, and then widened to the 64 bits of \<open>size_t\<close>.\<close>

definition round_page :: "u32 \<Rightarrow> u64 \<Rightarrow> u64" where
  "round_page pg sz = (sz + ucast (pg - 1)) AND ucast (NOT (pg - 1))"

definition smf_alloc :: "smf_sc \<Rightarrow> u64 \<Rightarrow> smfp \<Rightarrow> (smfp option \<times> smf_sc) option" where
  "smf_alloc sc sz new = do {
     chk (sz > 0);
     let sz = round_page (sc_pagesize sc) sz;
     (r, sc) \<leftarrow> alloc_smf sc (unat sz) new;
     case r of None \<Rightarrow> Some (None, sc)
     | Some p \<Rightarrow> do {
         s \<leftarrow> sc_mem sc p;
         let sc = sc\<lparr>sm_nobj := sm_nobj sc + 1, sm_balloc := sm_balloc sc + word_of_nat (sf_size s),
                     sm_bfree := sm_bfree sc - word_of_nat (sf_size s)\<rparr>;
         chk (sf_size s = unat sz);
         Some (Some p, set_smf p (s\<lparr>sf_s := \<lparr>st_ptr = sf_ptr s, st_len = 0, st_space = ucast sz,
           st_fd = sc_fd sc, st_where = sf_offset s\<rparr>\<rparr>) sc) } }"

definition smf_trim :: "smf_sc \<Rightarrow> smfp \<Rightarrow> u64 \<Rightarrow> smfp \<Rightarrow> smf_sc option" where
  "smf_trim sc p sz new = do {
     s \<leftarrow> sc_mem sc p;
     chk (sz > 0);
     chk (sz \<le> ucast (st_space (sf_s s)));
     chk (unat sz \<le> sf_size s);
     let sz = round_page (sc_pagesize sc) sz;
     if sf_size s > unat sz then do {
       let sc = sc\<lparr>sm_balloc := sm_balloc sc - word_of_nat (sf_size s - unat sz),
                   sm_bfree := sm_bfree sc + word_of_nat (sf_size s - unat sz)\<rparr>;
       sc \<leftarrow> trim_smf sc p (unat sz) new;
       s \<leftarrow> sc_mem sc p;
       chk (sf_size s = unat sz);
       Some (set_smf p (s\<lparr>sf_s := (sf_s s)\<lparr>st_space := ucast sz\<rparr>\<rparr>) sc) }
     else Some sc }"

definition smf_free :: "smf_sc \<Rightarrow> smfp \<Rightarrow> smf_sc option" where
  "smf_free sc p = do {
     s \<leftarrow> sc_mem sc p;
     free_smf (sc\<lparr>sm_nobj := sm_nobj sc - 1, sm_balloc := sm_balloc sc - word_of_nat (sf_size s),
                  sm_bfree := sm_bfree sc + word_of_nat (sf_size s)\<rparr>) p }"

end
