(* ===== verification/Storage_Inv.thy ===== *)
theory Storage_Inv
  imports Storage_File
begin

text \<open>
  The invariant of the file storage: the ranges tile the mapped parts of the file without overlap, the lists hold
  what they should, and no two free ranges could be one.
\<close>

section \<open>Neighbours in lists\<close>

lemma next_in_at: "p \<notin> set us \<Longrightarrow> next_in p (us @ p # vs) = (case vs of [] \<Rightarrow> None | q # _ \<Rightarrow> Some q)"
proof (induction us)
  case (Cons a us)
  then show ?case by (cases us) auto
qed (cases vs; simp)

lemma prev_in_at: "p \<notin> set vs \<Longrightarrow> prev_in p (us @ p # vs) = (if us = [] then None else Some (last us))"
  using next_in_at [of p "rev vs" "rev us"] by (cases us rule: rev_cases) (simp_all add: prev_in_def)

lemma put_before_at: "p \<notin> set us \<Longrightarrow> put_before p n (us @ p # vs) = us @ n # p # vs"
  by (induction us) auto

lemma put_after_at: "p \<notin> set us \<Longrightarrow> put_after p n (us @ p # vs) = us @ p # n # vs"
  by (induction us) auto

section \<open>Ranges\<close>

type_synonym range = "nat \<times> nat \<times> nat"

definition rng :: "smf \<Rightarrow> range" where
  "rng s = (sf_ptr s, sf_size s, sf_offset s)"

text \<open>One range lies before another in memory, and the two do not overlap in the file.\<close>

fun apart :: "range \<Rightarrow> range \<Rightarrow> bool" where
  "apart (p, n, f) (p', n', f') \<longleftrightarrow> p + n \<le> p' \<and> (f + n \<le> f' \<or> f' + n' \<le> f)"

fun adj :: "range \<Rightarrow> range \<Rightarrow> bool" where
  "adj (p, n, f) (p', n', f') \<longleftrightarrow> p' = p + n \<and> f' = f + n"

definition size_ok :: "nat \<Rightarrow> range \<Rightarrow> bool" where
  "size_ok pg r \<longleftrightarrow> 0 < fst (snd r) \<and> fst (snd r) mod pg = 0"

definition ranges_ok :: "nat \<Rightarrow> range list \<Rightarrow> bool" where
  "ranges_ok pg rs \<longleftrightarrow> (\<forall>r \<in> set rs. size_ok pg r) \<and> sorted_wrt apart rs"

text \<open>The bytes of a range, each as its address and its place in the file.\<close>

definition bytes_of :: "range \<Rightarrow> (nat \<times> nat) set" where
  "bytes_of r = (case r of (p, n, f) \<Rightarrow> (\<lambda>i. (p + i, f + i)) ` {..<n})"

definition cover :: "range list \<Rightarrow> (nat \<times> nat) set" where
  "cover rs = \<Union> (bytes_of ` set rs)"

lemma apart_cut:
  "0 < fst (snd r) \<Longrightarrow> apart r (p, x + y, f) \<longleftrightarrow> apart r (p, x, f) \<and> apart r (p + x, y, f + x)"
  "0 < fst (snd r) \<Longrightarrow> 0 < x \<Longrightarrow> apart (p, x + y, f) r \<longleftrightarrow> apart (p, x, f) r \<and> apart (p + x, y, f + x) r"
  by (cases r; auto)+

lemma ranges_ok_cut:
  assumes "0 < x" "x mod pg = 0" "0 < y" "y mod pg = 0"
  shows "ranges_ok pg (us @ (p, x + y, f) # vs) \<longleftrightarrow> ranges_ok pg (us @ (p, x, f) # (p + x, y, f + x) # vs)"
proof -
  have m: "size_ok pg (p, x + y, f)" "size_ok pg (p, x, f)" "size_ok pg (p + x, y, f + x)"
    using assms by (simp_all add: size_ok_def mod_add_eq [symmetric])
  show ?thesis
  proof (cases "\<forall>r \<in> set us \<union> set vs. size_ok pg r")
    case True
    then have "\<And>r. r \<in> set us \<Longrightarrow> 0 < fst (snd r)" "\<And>r. r \<in> set vs \<Longrightarrow> 0 < fst (snd r)" by (simp_all add: size_ok_def)
    note c = apart_cut(1) [OF this(1)] apart_cut(2) [OF this(2) assms(1)]
    have "(\<forall>r\<in>set us. \<forall>s \<in> set ((p, x + y, f) # vs). apart r s) \<longleftrightarrow> (\<forall>r\<in>set us. \<forall>s \<in> set ((p, x, f) # (p + x, y, f + x) # vs). apart r s)"
      by (rule ball_cong [OF refl]) (simp add: c(1) del: apart.simps)
    moreover have "(\<forall>s\<in>set vs. apart (p, x + y, f) s) \<longleftrightarrow> (\<forall>s\<in>set vs. apart (p, x, f) s \<and> apart (p + x, y, f + x) s)"
      by (rule ball_cong [OF refl]) (rule c(2))
    moreover have "apart (p, x, f) (p + x, y, f + x)" by simp
    ultimately have "sorted_wrt apart (us @ (p, x + y, f) # vs) \<longleftrightarrow> sorted_wrt apart (us @ (p, x, f) # (p + x, y, f + x) # vs)"
      by (simp only: sorted_wrt_append sorted_wrt.simps set_simps ball_simps ball_conj_distrib simp_thms conj_assoc cong: conj_cong)
    then show ?thesis by (simp only: ranges_ok_def) (simp add: m ball_Un)
  next
    case False
    then show ?thesis unfolding ranges_ok_def by auto
  qed
qed

lemma in_bytes: "(a, b) \<in> bytes_of (p, n, f) \<longleftrightarrow> p \<le> a \<and> a < p + n \<and> b + p = a + f"
proof -
  have "(a, b) = (p + (a - p), f + (a - p))" "a - p \<in> {..<n}" if "p \<le> a \<and> a < p + n \<and> b + p = a + f" using that by auto
  then have "p \<le> a \<and> a < p + n \<and> b + p = a + f \<Longrightarrow> (a, b) \<in> (\<lambda>i. (p + i, f + i)) ` {..<n}" by (metis (mono_tags, lifting) image_eqI)
  then show ?thesis by (auto simp: bytes_of_def)
qed

lemma bytes_cut: "bytes_of (p, x + y, f) = bytes_of (p, x, f) \<union> bytes_of (p + x, y, f + x)"
  by (auto simp: in_bytes)

lemma cover_cut: "cover (us @ (p, x + y, f) # vs) = cover (us @ (p, x, f) # (p + x, y, f + x) # vs)"
  unfolding cover_def by (auto simp: bytes_cut)

text \<open>No two neighbours that are free and adjacent.\<close>

definition coalesced :: "(range \<times> bool) list \<Rightarrow> bool" where
  "coalesced = successively (\<lambda>x y. snd x \<or> snd y \<or> \<not> adj (fst x) (fst y))"

lemmas coalesced_simps = coalesced_def successively_append_iff successively_Cons

section \<open>Lists\<close>

abbreviation cell :: "smf_sc \<Rightarrow> smfp \<Rightarrow> smf" where
  "cell sc p \<equiv> the (sc_mem sc p)"

definition blocks :: "smf_sc \<Rightarrow> (range \<times> bool) list" where
  "blocks sc = map (\<lambda>p. (rng (cell sc p), sf_alloc (cell sc p))) (sc_order sc)"

definition free_ok :: "smf_sc \<Rightarrow> smfp set \<Rightarrow> nat \<Rightarrow> bool" where
  "free_ok sc X b \<longleftrightarrow> sorted_wrt (\<lambda>p q. sf_offset (cell sc p) < sf_offset (cell sc q)) (sc_free sc ! b) \<and>
     set (sc_free sc ! b) = {p. \<exists>s. sc_mem sc p = Some s \<and> \<not> sf_alloc s \<and> bucket sc s = b} - X"

text \<open>\<open>X\<close> are the ranges that an operation has taken off the lists and not put back yet.\<close>

definition lists_ok :: "smf_sc \<Rightarrow> smfp set \<Rightarrow> bool" where
  "lists_ok sc X \<longleftrightarrow> length (sc_free sc) = NBUCKET \<and> distinct (sc_used sc) \<and>
     set (sc_used sc) = {p. \<exists>s. sc_mem sc p = Some s \<and> sf_alloc s} - X \<and> (\<forall>b<NBUCKET. free_ok sc X b) \<and>
     (\<forall>p s. sc_mem sc p = Some s \<longrightarrow> sf_flist s = (if sf_alloc s \<or> p \<in> X then None else Some (bucket sc s)))"

definition order_ok :: "smf_sc \<Rightarrow> bool" where
  "order_ok sc \<longleftrightarrow> distinct (sc_order sc) \<and> set (sc_order sc) = dom (sc_mem sc) \<and> ranges_ok (page sc) (map fst (blocks sc))"

lemma bucket_less [simp]: "bucket sc s < NBUCKET"
  by (simp add: bucket_def NBUCKET_def Let_def)

lemma bucket_size: "bucket sc s * page sc \<le> sf_size s"
  unfolding bucket_def Let_def
  by (rule order_trans [OF mult_le_mono1 div_times_less_eq_dividend [of "sf_size s" "page sc"]]) (auto simp: NBUCKET_def)

lemma bucket_cong: "sf_size s = sf_size s' \<Longrightarrow> sc_pagesize sc = sc_pagesize sc' \<Longrightarrow> bucket sc s = bucket sc' s'"
  by (simp add: bucket_def)

lemma set_smf_simps [simp]:
  "sc_mem (set_smf p s sc) = (sc_mem sc)(p \<mapsto> s)" "sc_order (set_smf p s sc) = sc_order sc" "sc_free (set_smf p s sc) = sc_free sc"
  "sc_used (set_smf p s sc) = sc_used sc" "sc_pagesize (set_smf p s sc) = sc_pagesize sc" "sc_fd (set_smf p s sc) = sc_fd sc"
  "sc_filesize (set_smf p s sc) = sc_filesize sc" "sm_balloc (set_smf p s sc) = sm_balloc sc" "sm_bfree (set_smf p s sc) = sm_bfree sc"
  "sm_nobj (set_smf p s sc) = sm_nobj sc"
  by (simp_all add: set_smf_def)


lemma set_smf_used: "set_smf p s (sc\<lparr>sc_used := l\<rparr>) = (set_smf p s sc)\<lparr>sc_used := l\<rparr>"
  by (cases sc) (simp add: set_smf_def)

lemma lists_ok_more [simp]:
  "lists_ok (sc\<lparr>sc_order := l\<rparr>) X = lists_ok sc X" "lists_ok (sc\<lparr>sm_nobj := a\<rparr>) X = lists_ok sc X"
  "lists_ok (sc\<lparr>sc_order := l, sc_used := u\<rparr>) X = lists_ok (sc\<lparr>sc_used := u\<rparr>) X"
  "lists_ok (sc\<lparr>sc_order := l, sc_mem := m\<rparr>) X = lists_ok (sc\<lparr>sc_mem := m\<rparr>) X"
  "lists_ok (sc\<lparr>sm_balloc := a\<rparr>) X = lists_ok sc X" "lists_ok (sc\<lparr>sm_bfree := a\<rparr>) X = lists_ok sc X"
  by (simp_all add: lists_ok_def free_ok_def bucket_def)

lemma lists_okD:
  assumes "lists_ok sc X"
  shows "length (sc_free sc) = NBUCKET" "distinct (sc_used sc)"
    "p \<in> set (sc_used sc) \<longleftrightarrow> p \<notin> X \<and> (\<exists>s. sc_mem sc p = Some s \<and> sf_alloc s)"
    "b < NBUCKET \<Longrightarrow> p \<in> set (sc_free sc ! b) \<longleftrightarrow> p \<notin> X \<and> (\<exists>s. sc_mem sc p = Some s \<and> \<not> sf_alloc s \<and> bucket sc s = b)"
    "b < NBUCKET \<Longrightarrow> sorted_wrt (\<lambda>p q. sf_offset (cell sc p) < sf_offset (cell sc q)) (sc_free sc ! b)"
    "sc_mem sc p = Some s \<Longrightarrow> sf_flist s = (if sf_alloc s \<or> p \<in> X then None else Some (bucket sc s))"
  using assms unfolding lists_ok_def free_ok_def by (blast, blast, blast, blast, blast, simp)

lemma lists_okI:
  assumes "length (sc_free sc) = NBUCKET" "distinct (sc_used sc)"
    "\<And>p. p \<in> set (sc_used sc) \<longleftrightarrow> p \<notin> X \<and> (\<exists>s. sc_mem sc p = Some s \<and> sf_alloc s)"
    "\<And>b p. b < NBUCKET \<Longrightarrow> p \<in> set (sc_free sc ! b) \<longleftrightarrow> p \<notin> X \<and> (\<exists>s. sc_mem sc p = Some s \<and> \<not> sf_alloc s \<and> bucket sc s = b)"
    "\<And>b. b < NBUCKET \<Longrightarrow> sorted_wrt (\<lambda>p q. sf_offset (cell sc p) < sf_offset (cell sc q)) (sc_free sc ! b)"
    "\<And>p s. sc_mem sc p = Some s \<Longrightarrow> sf_flist s = (if sf_alloc s \<or> p \<in> X then None else Some (bucket sc s))"
  shows "lists_ok sc X"
proof -
  have "set (sc_used sc) = {p. \<exists>s. sc_mem sc p = Some s \<and> sf_alloc s} - X" using assms(3) by blast
  moreover have "free_ok sc X b" if "b < NBUCKET" for b using assms(4,5) [OF that] unfolding free_ok_def by blast
  ultimately show ?thesis unfolding lists_ok_def using assms(1,2,6) by blast
qed

lemma free_sorted_cong:
  assumes "lists_ok sc X" "b < NBUCKET" "sc_free sc' = sc_free sc" "\<And>q. q \<in> set (sc_free sc ! b) \<Longrightarrow> sf_offset (cell sc' q) = sf_offset (cell sc q)"
  shows "sorted_wrt (\<lambda>p q. sf_offset (cell sc' p) < sf_offset (cell sc' q)) (sc_free sc' ! b)"
  unfolding assms(3) by (rule sorted_wrt_mono_rel [OF _ lists_okD(5) [OF assms(1,2)]]) (simp add: assms(4))

lemma distinct_free:
  assumes "lists_ok sc X" "b < NBUCKET"
  shows "distinct (sc_free sc ! b)"
proof -
  have "sorted_wrt (\<lambda>p q. f p < (f q :: nat)) xs \<Longrightarrow> distinct xs" for f and xs :: "smfp list" by (induction xs) auto
  from this [OF lists_okD(5) [OF assms]] show ?thesis .
qed

lemma bucket_page [simp]:
  "bucket (set_smf p s sc) = bucket sc" "bucket (sc\<lparr>sc_mem := m\<rparr>) = bucket sc" "bucket (sc\<lparr>sc_free := l\<rparr>) = bucket sc"
  "bucket (sc\<lparr>sc_used := l'\<rparr>) = bucket sc" "bucket (sc\<lparr>sc_order := l'\<rparr>) = bucket sc" "bucket sc (s\<lparr>sf_flist := f\<rparr>) = bucket sc s"
  "bucket sc (s\<lparr>sf_alloc := a\<rparr>) = bucket sc s" "bucket sc (s\<lparr>sf_s := x\<rparr>) = bucket sc s"
  by (simp_all add: bucket_def fun_eq_iff)

lemma lists_float:
  assumes "lists_ok sc X" "p \<in> X \<or> sc_mem sc p = None" "sf_flist s = None"
  shows "lists_ok (set_smf p s sc) (insert p X)"
proof (rule lists_okI)
  fix b assume "b < NBUCKET"
  have "p \<notin> set (sc_free sc ! b)" using lists_okD(4) [OF assms(1) \<open>b < NBUCKET\<close>] assms(2) by auto
  then show "sorted_wrt (\<lambda>p' q. sf_offset (cell (set_smf p s sc) p') < sf_offset (cell (set_smf p s sc) q)) (sc_free (set_smf p s sc) ! b)"
    by (intro free_sorted_cong [OF assms(1) \<open>b < NBUCKET\<close>]) auto
qed (use assms in \<open>auto simp: lists_okD [OF assms(1)] split: if_splits\<close>)

lemma lists_gone:
  assumes "lists_ok sc X" "p \<in> X"
  shows "lists_ok (sc\<lparr>sc_mem := (sc_mem sc)(p := None)\<rparr>) (X - {p})"
proof (rule lists_okI)
  fix b assume "b < NBUCKET"
  have "p \<notin> set (sc_free sc ! b)" using lists_okD(4) [OF assms(1) \<open>b < NBUCKET\<close>] assms(2) by auto
  then show "sorted_wrt (\<lambda>p' q. sf_offset (cell (sc\<lparr>sc_mem := (sc_mem sc)(p := None)\<rparr>) p') < sf_offset (cell (sc\<lparr>sc_mem := (sc_mem sc)(p := None)\<rparr>) q))
      (sc_free (sc\<lparr>sc_mem := (sc_mem sc)(p := None)\<rparr>) ! b)"
    by (intro free_sorted_cong [OF assms(1) \<open>b < NBUCKET\<close>]) auto
qed (use assms in \<open>auto simp: lists_okD [OF assms(1)] split: if_splits\<close>)

lemma lists_use:
  assumes "lists_ok sc X" "p \<in> X" "sc_mem sc p = Some s" "sf_alloc s" "distinct l" "set l = insert p (set (sc_used sc))"
  shows "lists_ok (sc\<lparr>sc_used := l\<rparr>) (X - {p})"
  by (rule lists_okI) (use assms in \<open>auto simp: lists_okD [OF assms(1)] split: if_splits\<close>)

lemma lists_unuse:
  assumes "lists_ok sc X" "p \<in> set (sc_used sc)"
  shows "lists_ok (sc\<lparr>sc_used := remove1 p (sc_used sc)\<rparr>) (insert p X)"
  by (rule lists_okI) (use assms in \<open>auto simp: lists_okD [OF assms(1)] split: if_splits\<close>)


text \<open>What an operation changes besides the free lists and the mark on one range.\<close>

definition marked :: "smf_sc \<Rightarrow> smfp \<Rightarrow> nat option \<Rightarrow> smf_sc \<Rightarrow> bool" where
  "marked sc p f sc' \<longleftrightarrow> (\<exists>l. sc' = set_smf p ((cell sc p)\<lparr>sf_flist := f\<rparr>) (sc\<lparr>sc_free := l\<rparr>))"

lemma remfree_ok:
  assumes "lists_ok sc X" "sc_mem sc p = Some s" "\<not> sf_alloc s" "p \<notin> X"
  shows "\<exists>sc'. remfree sc p = Some sc' \<and> lists_ok sc' (insert p X) \<and> marked sc p None sc'"
proof -
  let ?b = "bucket sc s"
  let ?sc = "set_smf p (s\<lparr>sf_flist := None\<rparr>) (sc\<lparr>sc_free := (sc_free sc)[?b := remove1 p (sc_free sc ! ?b)]\<rparr>)"
  note D = lists_okD [OF assms(1)]
  have "p \<in> set (sc_free sc ! ?b)" using D(4) [of ?b p] assms by auto
  then have r: "remfree sc p = Some ?sc" using assms D(6) [OF assms(2)] by (simp add: remfree_def Let_def)
  have "lists_ok ?sc (insert p X)"
  proof (rule lists_okI)
    fix b assume b: "b < NBUCKET"
    show "q \<in> set (sc_free ?sc ! b) \<longleftrightarrow> q \<notin> insert p X \<and> (\<exists>s. sc_mem ?sc q = Some s \<and> \<not> sf_alloc s \<and> bucket ?sc s = b)" for q
      using D(1) D(4) [OF b, of q] distinct_free [OF assms(1) bucket_less] assms(2) b by (cases "b = ?b") auto
    have "sorted_wrt (\<lambda>p q. sf_offset (cell sc p) < sf_offset (cell sc q)) (sc_free ?sc ! b)"
      using D(1) D(5) [OF b] b by (cases "b = ?b") (simp_all add: remove1_filter_distinct [OF distinct_free [OF assms(1)]] sorted_wrt_filter)
    moreover have "sf_offset (cell ?sc q) = sf_offset (cell sc q)" for q using assms(2) by simp
    ultimately show "sorted_wrt (\<lambda>p q. sf_offset (cell ?sc p) < sf_offset (cell ?sc q)) (sc_free ?sc ! b)" by simp
  qed (use assms(2-4) in \<open>auto simp: D split: if_splits\<close>)
  moreover have "marked sc p None ?sc" using assms(2) by (auto simp: marked_def)
  ultimately show ?thesis using r by blast
qed

lemma insfree_at_ok:
  assumes "\<forall>q \<in> set qs. \<exists>s2. m q = Some s2 \<and> ns \<le> sf_size s2 \<and> \<not> sf_alloc s2 \<and> sf_flist s2 = Some b \<and> sf_offset s2 \<noteq> off"
    "sorted_wrt (\<lambda>p q. sf_offset (the (m p)) < sf_offset (the (m q))) qs"
  shows "\<exists>us vs. qs = us @ vs \<and> insfree_at m b ns p off qs = Some (us @ p # vs) \<and>
    (\<forall>q \<in> set us. sf_offset (the (m q)) < off) \<and> (\<forall>q \<in> set vs. off < sf_offset (the (m q)))"
  using assms
proof (induction qs)
  case (Cons q qs)
  then obtain s2 where s2: "m q = Some s2" "ns \<le> sf_size s2" "\<not> sf_alloc s2" "sf_flist s2 = Some b" "sf_offset s2 \<noteq> off" by auto
  show ?case
  proof (cases "off < sf_offset s2")
    case True
    then show ?thesis using s2 Cons(3) by (intro exI [of _ "[]"] exI [of _ "q # qs"]) auto
  next
    case False
    obtain us vs where "qs = us @ vs" "insfree_at m b ns p off qs = Some (us @ p # vs)"
      "\<forall>q \<in> set us. sf_offset (the (m q)) < off" "\<forall>q \<in> set vs. off < sf_offset (the (m q))" using Cons by auto
    then show ?thesis using s2 False by (intro exI [of _ "q # us"] exI [of _ vs]) auto
  qed
qed simp

lemma insfree_ok:
  assumes "lists_ok sc X" "sc_mem sc p = Some s" "\<not> sf_alloc s" "p \<in> X" "sf_flist s = None"
    "\<And>q t. sc_mem sc q = Some t \<Longrightarrow> \<not> sf_alloc t \<Longrightarrow> q \<noteq> p \<Longrightarrow> sf_offset t \<noteq> sf_offset s"
  shows "\<exists>sc'. insfree sc p = Some sc' \<and> lists_ok sc' (X - {p}) \<and> marked sc p (Some (bucket sc s)) sc'"
proof -
  let ?b = "bucket sc s"
  note D = lists_okD [OF assms(1)]
  have bb: "?b < NBUCKET" by simp
  have F: "\<exists>s2. sc_mem sc q = Some s2 \<and> ?b * page sc \<le> sf_size s2 \<and> \<not> sf_alloc s2 \<and> sf_flist s2 = Some ?b \<and> sf_offset s2 \<noteq> sf_offset s"
    if q: "q \<in> set (sc_free sc ! ?b)" for q
  proof -
    obtain s2 where "q \<notin> X" "sc_mem sc q = Some s2" "\<not> sf_alloc s2" "bucket sc s2 = ?b" using D(4) [OF bb, of q] q by blast
    then show ?thesis using bucket_size [of sc s2] D(6) [of q s2] assms(4,6) by (intro exI [of _ s2]) auto
  qed
  obtain us vs where l: "sc_free sc ! ?b = us @ vs" "insfree_at (sc_mem sc) ?b (?b * page sc) p (sf_offset s) (sc_free sc ! ?b) = Some (us @ p # vs)"
    "\<forall>q \<in> set us. sf_offset (cell sc q) < sf_offset s" "\<forall>q \<in> set vs. sf_offset s < sf_offset (cell sc q)"
    using insfree_at_ok [OF ballI [OF F] D(5) [OF bb], of p] by auto
  let ?sc = "set_smf p (s\<lparr>sf_flist := Some ?b\<rparr>) (sc\<lparr>sc_free := (sc_free sc)[?b := us @ p # vs]\<rparr>)"
  have r: "insfree sc p = Some ?sc" using assms(2,3,5) l(2) by (simp add: insfree_def Let_def)
  have o: "sf_offset (cell ?sc q) = sf_offset (cell sc q)" for q using assms(2) by simp
  have "lists_ok ?sc (X - {p})"
  proof (rule lists_okI)
    fix b assume b: "b < NBUCKET"
    show "q \<in> set (sc_free ?sc ! b) \<longleftrightarrow> q \<notin> X - {p} \<and> (\<exists>s. sc_mem ?sc q = Some s \<and> \<not> sf_alloc s \<and> bucket ?sc s = b)" for q
      using D(1) D(4) [OF b, of q] assms(2-4) b l(1) by (cases "b = ?b"; cases "q = p") auto
    have "sorted_wrt (\<lambda>p q. sf_offset (cell sc p) < sf_offset (cell sc q)) (sc_free ?sc ! b)"
      using D(1) D(5) [OF b] b l assms(2) by (cases "b = ?b") (auto simp: sorted_wrt_append)
    then show "sorted_wrt (\<lambda>p q. sf_offset (cell ?sc p) < sf_offset (cell ?sc q)) (sc_free ?sc ! b)" unfolding o .
  qed (use assms(2-5) in \<open>auto simp: D split: if_splits\<close>)
  moreover have "marked sc p (Some ?b) ?sc" using assms(2) by (auto simp: marked_def)
  ultimately show ?thesis using r by blast
qed

end
