(* ===== verification/Storage_Ops.thy ===== *)
theory Storage_Ops
  imports Storage_Inv
begin

text \<open>
  The operations of the file storage keep its invariant and fail no assertion; what they do to the ranges in use and to
  the space they share.
\<close>

section \<open>Abstract view\<close>

text \<open>The ranges in use, each with the \<open>struct storage\<close> its user has; and all bytes the ranges cover.\<close>

definition held :: "smf_sc \<Rightarrow> smfp \<Rightarrow> (range \<times> storage) option" where
  "held sc p = (case sc_mem sc p of None \<Rightarrow> None | Some s \<Rightarrow> if sf_alloc s then Some (rng s, sf_s s) else None)"

definition space :: "smf_sc \<Rightarrow> (nat \<times> nat) set" where
  "space sc = cover (map fst (blocks sc))"

definition steady :: "smf_sc \<Rightarrow> smf_sc \<Rightarrow> bool" where
  "steady sc sc' \<longleftrightarrow> sc_pagesize sc' = sc_pagesize sc \<and> sc_fd sc' = sc_fd sc \<and> sc_filesize sc' = sc_filesize sc \<and>
     sm_nobj sc' = sm_nobj sc \<and> sm_balloc sc' = sm_balloc sc \<and> sm_bfree sc' = sm_bfree sc"

definition keeps_space :: "smf_sc \<Rightarrow> smf_sc \<Rightarrow> bool" where
  "keeps_space sc sc' \<longleftrightarrow> steady sc sc' \<and> space sc' = space sc"

lemma steady_refl [simp]: "steady sc sc"
  by (simp add: steady_def)

lemma steady_trans: "steady a b \<Longrightarrow> steady b c \<Longrightarrow> steady a c"
  by (simp add: steady_def)

lemma keeps_space_refl [simp]: "keeps_space sc sc"
  by (simp add: keeps_space_def)

lemma keeps_space_trans: "keeps_space a b \<Longrightarrow> keeps_space b c \<Longrightarrow> keeps_space a c"
  by (auto simp: keeps_space_def intro: steady_trans)

lemma rng_simps [simp]:
  "rng (s\<lparr>sf_alloc := a\<rparr>) = rng s" "rng (s\<lparr>sf_flist := f\<rparr>) = rng s" "rng (s\<lparr>sf_s := x\<rparr>) = rng s"
  by (simp_all add: rng_def)

definition bl :: "smf_sc \<Rightarrow> smfp list \<Rightarrow> (range \<times> bool) list" where
  "bl sc xs = map (\<lambda>p. (rng (cell sc p), sf_alloc (cell sc p))) xs"

lemma bl_simps [simp]:
  "bl sc [] = []" "bl sc (p # xs) = (rng (cell sc p), sf_alloc (cell sc p)) # bl sc xs" "bl sc (xs @ ys) = bl sc xs @ bl sc ys"
  "bl sc xs = [] \<longleftrightarrow> xs = []"
  by (simp_all add: bl_def)

lemma blocks_bl: "blocks sc = bl sc (sc_order sc)"
  by (simp add: blocks_def bl_def)

lemma bl_cong: "(\<And>q. q \<in> set xs \<Longrightarrow> sc_mem sc' q = sc_mem sc q) \<Longrightarrow> bl sc' xs = bl sc xs"
  by (simp add: bl_def)

lemma markedD:
  assumes "marked sc p f sc'" "sc_mem sc p = Some s"
  shows "sc_mem sc' = (sc_mem sc)(p \<mapsto> s\<lparr>sf_flist := f\<rparr>)" "sc_order sc' = sc_order sc" "sc_used sc' = sc_used sc" "bl sc' = bl sc"
    "held sc' = held sc" "order_ok sc' = order_ok sc" "keeps_space sc sc'" "sc_pagesize sc' = sc_pagesize sc"
proof -
  obtain l where l: "sc' = set_smf p ((cell sc p)\<lparr>sf_flist := f\<rparr>) (sc\<lparr>sc_free := l\<rparr>)" using assms(1) by (auto simp: marked_def)
  show m: "sc_mem sc' = (sc_mem sc)(p \<mapsto> s\<lparr>sf_flist := f\<rparr>)" "sc_order sc' = sc_order sc" "sc_used sc' = sc_used sc" "sc_pagesize sc' = sc_pagesize sc"
    using assms(2) by (simp_all add: l)
  show b: "bl sc' = bl sc" using assms(2) by (auto simp: fun_eq_iff bl_def m)
  show "held sc' = held sc" using assms(2) by (auto simp: fun_eq_iff held_def m)
  show "order_ok sc' = order_ok sc" using assms(2) by (auto simp: order_ok_def m b blocks_bl)
  show "keeps_space sc sc'" using m b by (simp add: keeps_space_def steady_def space_def blocks_bl) (simp add: l)
qed

lemma order_okD:
  assumes "order_ok sc"
  shows "distinct (sc_order sc)" "set (sc_order sc) = dom (sc_mem sc)" "ranges_ok (page sc) (map fst (blocks sc))"
  using assms by (simp_all add: order_ok_def)

lemma order_split:
  assumes "order_ok sc" "sc_mem sc p = Some s"
  obtains us vs where "sc_order sc = us @ p # vs" "p \<notin> set us" "p \<notin> set vs"
proof -
  have "p \<in> set (sc_order sc)" using order_okD(2) [OF assms(1)] assms(2) by auto
  then obtain us vs where "sc_order sc = us @ p # vs" by (meson split_list)
  then show thesis using order_okD(1) [OF assms(1)] that by auto
qed

lemma ranges_apart:
  assumes "order_ok sc" "sc_mem sc p = Some s" "sc_mem sc q = Some t" "p \<noteq> q"
  shows "apart (rng s) (rng t) \<or> apart (rng t) (rng s)"
proof -
  obtain us vs where o: "sc_order sc = us @ p # vs" using order_split [OF assms(1,2)] by blast
  have "q \<in> set us \<or> q \<in> set vs" using order_okD(2) [OF assms(1)] assms(3,4) o by (auto simp: dom_def set_eq_iff)
  then show ?thesis using order_okD(3) [OF assms(1)] assms(2,3) by (force simp: ranges_ok_def blocks_def o sorted_wrt_append)
qed

lemma range_size:
  assumes "order_ok sc" "sc_mem sc p = Some s"
  shows "0 < sf_size s" "sf_size s mod page sc = 0"
proof -
  obtain us vs where o: "sc_order sc = us @ p # vs" using order_split [OF assms] by blast
  then have "rng s \<in> set (map fst (blocks sc))" using assms(2) by (simp add: blocks_def)
  then have "size_ok (page sc) (rng s)" using order_okD(3) [OF assms(1)] unfolding ranges_ok_def by blast
  then show "0 < sf_size s" "sf_size s mod page sc = 0" by (simp_all add: rng_def size_ok_def)
qed

lemma offsets_distinct:
  assumes "order_ok sc" "sc_mem sc p = Some s" "sc_mem sc q = Some t" "q \<noteq> p"
  shows "sf_offset t \<noteq> sf_offset s"
  using ranges_apart [OF assms(1-3)] assms(4) range_size(1) [OF assms(1,2)] range_size(1) [OF assms(1,3)] by (auto simp: rng_def)

section \<open>Joining ranges\<close>

lemma merge_next_ok:
  assumes "lists_ok sc {p}" "order_ok sc" "sc_mem sc p = Some s" "\<not> sf_alloc s" "sf_flist s = None"
    "sc_order sc = us @ p # vs" "coalesced (bl sc vs)"
  shows "\<exists>sc' s' vs'. merge_next sc p = Some sc' \<and> lists_ok sc' {p} \<and> order_ok sc' \<and> sc_mem sc' p = Some s' \<and> \<not> sf_alloc s' \<and>
    sf_flist s' = None \<and> sc_order sc' = us @ p # vs' \<and> bl sc' us = bl sc us \<and> coalesced (bl sc' (p # vs')) \<and> held sc' = held sc \<and> keeps_space sc sc'"
proof -
  have d: "distinct (us @ p # vs)" "set (us @ p # vs) = dom (sc_mem sc)" using order_okD(1,2) [OF assms(2)] assms(6) by simp_all
  show ?thesis
  proof (cases vs)
    case Nil
    have "next_in p (us @ [p]) = None" using next_in_at [of p us vs] d Nil by simp
    then show ?thesis using assms Nil by (intro exI [of _ sc] exI [of _ s] exI [of _ "[]"]) (simp add: merge_next_def coalesced_def)
  next
    case (Cons q ws)
    have "next_in p (sc_order sc) = Some q" using next_in_at [of p us vs] d Cons assms(6) by simp
    moreover obtain s2 where s2: "sc_mem sc q = Some s2" using d(2) Cons by (auto simp: dom_def set_eq_iff)
    ultimately have mn: "merge_next sc p = (if \<not> sf_alloc s2 \<and> joins s s2 then
        remfree ((set_smf p (s\<lparr>sf_size := sf_size s + sf_size s2\<rparr>) sc)\<lparr>sc_order := us @ p # ws\<rparr>) q \<bind> (\<lambda>sc. Some (sc\<lparr>sc_mem := (sc_mem sc)(q := None)\<rparr>))
      else Some sc)"
      using assms(3,6) d(1) Cons by (simp add: merge_next_def remove1_append)
    show ?thesis
    proof (cases "\<not> sf_alloc s2 \<and> joins s s2")
      case False
      then have "\<not> (\<not> sf_alloc s2 \<and> adj (rng s) (rng s2))" by (simp add: joins_def rng_def)
      then show ?thesis using assms False Cons s2 mn
        by (intro exI [of _ sc] exI [of _ s] exI [of _ vs]) (auto simp: coalesced_simps)
    next
      case True
      let ?s = "s\<lparr>sf_size := sf_size s + sf_size s2\<rparr>"
      let ?A = "(set_smf p ?s sc)\<lparr>sc_order := us @ p # ws\<rparr>"
      have pq: "p \<noteq> q" using d(1) Cons by auto
      have "lists_ok ?A {p}" using lists_float [OF assms(1), of p ?s] assms(5) by simp
      moreover have qA: "sc_mem ?A q = Some s2" using pq s2 by simp
      ultimately obtain B where B: "remfree ?A q = Some B" "lists_ok B {q, p}" "marked ?A q None B"
        using remfree_ok [of ?A "{p}" q s2] True pq by auto
      note m = markedD [OF B(3) qA]
      let ?C = "B\<lparr>sc_mem := (sc_mem B)(q := None)\<rparr>"
      have C: "lists_ok ?C {p}" using lists_gone [OF B(2), of q] pq by simp
      have mem: "sc_mem ?C = (sc_mem sc)(p \<mapsto> ?s, q := None)" "sc_order ?C = us @ p # ws" by (auto simp: m)
      have bls: "bl ?C us = bl sc us" "bl ?C ws = bl sc ws" using d(1) Cons by (auto intro!: bl_cong simp: mem(1) simp del: fun_upd_apply) (auto)
      have rs: "rng s = (sf_ptr s, sf_size s, sf_offset s)" "rng s2 = (sf_ptr s + sf_size s, sf_size s2, sf_offset s + sf_size s)"
        "rng ?s = (sf_ptr s, sf_size s + sf_size s2, sf_offset s)" using True by (simp_all add: rng_def joins_def)
      have blk: "blocks sc = bl sc us @ (rng s, False) # (rng s2, False) # bl sc ws" "blocks ?C = bl sc us @ (rng ?s, False) # bl sc ws"
        using assms(3,4,6) s2 True Cons bls pq by (simp_all add: blocks_bl mem)
      have pg: "sc_pagesize ?C = sc_pagesize sc" by (simp add: m)
      have "ranges_ok (page sc) (map fst (blocks ?C)) \<longleftrightarrow> ranges_ok (page sc) (map fst (blocks sc))"
        unfolding blk using ranges_ok_cut [OF range_size [OF assms(2,3)] range_size [OF assms(2) s2]] by (simp add: rs)
      then have "order_ok ?C" using d assms(2,6) Cons pq unfolding order_ok_def mem pg by auto
      moreover have "space ?C = space sc" unfolding space_def blk using cover_cut [of "map fst (bl sc us)"] by (simp add: rs)
      moreover have "held ?C = held sc" using assms(3,4) s2 True pq by (auto simp: held_def mem fun_eq_iff)
      moreover have "coalesced (bl ?C (p # ws))"
        using assms(7) True s2 assms(4) bls(2) pq unfolding Cons
        by (cases ws) (auto simp: coalesced_simps mem joins_def rng_def)
      ultimately show ?thesis using True C B(1) mn mem bls(1) assms(4,5) m(7) pq
        by (intro exI [of _ ?C] exI [of _ ?s] exI [of _ ws]) (simp add: keeps_space_def steady_def)
    qed
  qed
qed


lemma merge_prev_ok:
  assumes "lists_ok sc {p}" "order_ok sc" "sc_mem sc p = Some s" "\<not> sf_alloc s" "sf_flist s = None"
    "sc_order sc = us @ p # vs" "coalesced (bl sc us)" "coalesced (bl sc (p # vs))"
  shows "\<exists>sc' p' s'. merge_prev sc p = Some (p', sc') \<and> lists_ok sc' {p'} \<and> order_ok sc' \<and> sc_mem sc' p' = Some s' \<and> \<not> sf_alloc s' \<and>
    sf_flist s' = None \<and> coalesced (blocks sc') \<and> held sc' = held sc \<and> keeps_space sc sc'"
proof -
  have d: "distinct (us @ p # vs)" "set (us @ p # vs) = dom (sc_mem sc)" using order_okD(1,2) [OF assms(2)] assms(6) by simp_all
  show ?thesis
  proof (cases us rule: rev_cases)
    case Nil
    then have "prev_in p (p # vs) = None" using prev_in_at [of p vs us] d by simp
    then show ?thesis using assms Nil by (intro exI [of _ sc] exI [of _ p] exI [of _ s]) (simp add: merge_prev_def blocks_bl)
  next
    case (snoc ws q)
    have "prev_in p (sc_order sc) = Some q" using prev_in_at [of p vs us] d snoc assms(6) by simp
    moreover obtain s2 where s2: "sc_mem sc q = Some s2" using d(2) snoc by (auto simp: dom_def set_eq_iff)
    ultimately have mp: "merge_prev sc p = (if \<not> sf_alloc s2 \<and> joins s2 s then
        remfree sc q \<bind> (\<lambda>sc. sc_mem sc q \<bind> (\<lambda>s2. let sc = set_smf q (s2\<lparr>sf_size := sf_size s2 + sf_size s\<rparr>) sc in
          Some (q, sc\<lparr>sc_order := remove1 p (sc_order sc), sc_mem := (sc_mem sc)(p := None)\<rparr>)))
      else Some (p, sc))"
      using assms(3) by (simp add: merge_prev_def)
    have qp: "q \<noteq> p" using d(1) snoc by auto
    show ?thesis
    proof (cases "\<not> sf_alloc s2 \<and> joins s2 s")
      case False
      then have "\<not> (\<not> sf_alloc s2 \<and> adj (rng s2) (rng s))" by (simp add: joins_def rng_def)
      then show ?thesis using assms False snoc s2 mp
        by (intro exI [of _ sc] exI [of _ p] exI [of _ s]) (auto simp: coalesced_simps blocks_bl)
    next
      case True
      obtain B where B: "remfree sc q = Some B" "lists_ok B {q, p}" "marked sc q None B"
        using remfree_ok [OF assms(1) s2] True qp by auto
      note m = markedD [OF B(3) s2]
      let ?s = "s2\<lparr>sf_flist := None, sf_size := sf_size s2 + sf_size s\<rparr>"
      let ?C = "(set_smf q ?s B)\<lparr>sc_order := ws @ q # vs, sc_mem := (sc_mem (set_smf q ?s B))(p := None)\<rparr>"
      have r: "merge_prev sc p = Some (q, ?C)" using mp True B(1) d(1) snoc assms(6) by (simp add: m Let_def remove1_append)
      have "lists_ok (set_smf q ?s B) {q, p}" using lists_float [OF B(2), of q ?s] by (simp add: insert_absorb)
      from lists_gone [OF this, of p] have C: "lists_ok ?C {q}" using qp by (simp add: insert_Diff_if)
      have mem: "sc_mem ?C = (sc_mem sc)(q \<mapsto> ?s, p := None)" "sc_order ?C = ws @ q # vs" using qp by (auto simp: m fun_eq_iff)
      have bls: "bl ?C ws = bl sc ws" "bl ?C vs = bl sc vs" using d(1) snoc by (auto intro!: bl_cong simp: m)
      have rs: "rng s2 = (sf_ptr s2, sf_size s2, sf_offset s2)" "rng s = (sf_ptr s2 + sf_size s2, sf_size s, sf_offset s2 + sf_size s2)"
        "rng ?s = (sf_ptr s2, sf_size s2 + sf_size s, sf_offset s2)" using True by (simp_all add: rng_def joins_def)
      have blk: "blocks sc = bl sc ws @ (rng s2, False) # (rng s, False) # bl sc vs" "blocks ?C = bl sc ws @ (rng ?s, False) # bl sc vs"
        using assms(3,4,6) s2 True snoc bls qp by (simp_all add: blocks_bl mem)
      have pg: "sc_pagesize ?C = sc_pagesize sc" by (simp add: m)
      have "ranges_ok (page sc) (map fst (blocks ?C)) \<longleftrightarrow> ranges_ok (page sc) (map fst (blocks sc))"
        unfolding blk using ranges_ok_cut [OF range_size [OF assms(2) s2] range_size [OF assms(2,3)]] by (simp add: rs)
      then have "order_ok ?C" using d assms(2,6) snoc qp unfolding order_ok_def mem pg by auto
      moreover have "space ?C = space sc" unfolding space_def blk using cover_cut [of "map fst (bl sc ws)"] by (simp add: rs)
      moreover have "held ?C = held sc" using assms(3,4) s2 True qp by (auto simp: held_def m fun_eq_iff)
      moreover have "coalesced (blocks ?C)"
        using assms(7,8) True s2 assms(3,4) unfolding blk(2) snoc
        by (cases ws rule: rev_cases; cases vs) (auto simp: coalesced_simps joins_def rng_def)
      ultimately show ?thesis using C r mem m(7) True qp
        by (intro exI [of _ ?C] exI [of _ q] exI [of _ ?s]) (simp add: keeps_space_def steady_def)
    qed
  qed
qed

section \<open>Freeing a range\<close>

lemma free_smf_ok:
  assumes "lists_ok sc {}" "order_ok sc" "coalesced (blocks sc)" "sc_mem sc p = Some s" "sf_alloc s"
  shows "\<exists>sc'. free_smf sc p = Some sc' \<and> lists_ok sc' {} \<and> order_ok sc' \<and> coalesced (blocks sc') \<and> held sc' = (held sc)(p := None) \<and> keeps_space sc sc'"
proof -
  obtain us vs where o: "sc_order sc = us @ p # vs" "p \<notin> set us" "p \<notin> set vs" using order_split [OF assms(2,4)] by blast
  have u: "p \<in> set (sc_used sc)" using lists_okD(3) [OF assms(1)] assms(4,5) by simp
  let ?s = "s\<lparr>sf_alloc := False\<rparr>"
  let ?A = "set_smf p ?s (sc\<lparr>sc_used := remove1 p (sc_used sc)\<rparr>)"
  have "sf_flist ?s = None" using lists_okD(6) [OF assms(1,4)] assms(5) by simp
  then have lA: "lists_ok ?A {p}" using lists_float [OF lists_unuse [OF assms(1) u], of p ?s] by simp
  have bls: "bl ?A us = bl sc us" "bl ?A vs = bl sc vs" using o by (auto intro!: bl_cong)
  have blk: "blocks sc = bl sc us @ (rng s, True) # bl sc vs" "blocks ?A = bl sc us @ (rng s, False) # bl sc vs"
    using assms(4,5) o(1) bls by (simp_all add: blocks_bl)
  have oA: "order_ok ?A" using assms(2,4) by (auto simp: order_ok_def blk)
  have hA: "held ?A = (held sc)(p := None)" using assms(4) by (auto simp: held_def fun_eq_iff)
  have kA: "keeps_space sc ?A" by (simp add: keeps_space_def steady_def space_def blk)
  have cu: "coalesced (bl sc us)" "coalesced (bl ?A vs)" using assms(3) unfolding blk bls by (auto simp: coalesced_simps)
  obtain B s1 vs' where B: "merge_next ?A p = Some B" "lists_ok B {p}" "order_ok B" "sc_mem B p = Some s1" "\<not> sf_alloc s1" "sf_flist s1 = None"
    "sc_order B = us @ p # vs'" "bl B us = bl ?A us" "coalesced (bl B (p # vs'))" "held B = held ?A" "keeps_space ?A B"
    using merge_next_ok [OF lA oA _ _ \<open>sf_flist ?s = None\<close> _ cu(2), of us] o(1) by auto
  obtain C p' s2 where C: "merge_prev B p = Some (p', C)" "lists_ok C {p'}" "order_ok C" "sc_mem C p' = Some s2" "\<not> sf_alloc s2" "sf_flist s2 = None"
    "coalesced (blocks C)" "held C = held B" "keeps_space B C"
    using merge_prev_ok [OF B(2-7) _ B(9)] cu(1) B(8) bls(1) by auto
  obtain D where D: "insfree C p' = Some D" "lists_ok D {}" "marked C p' (Some (bucket C s2)) D"
    using insfree_ok [OF C(2,4,5) singletonI C(6)] offsets_distinct [OF C(3) C(4)] by fastforce
  note m = markedD [OF D(3) C(4)]
  have "free_smf sc p = Some D" using assms(4,5) range_size [OF assms(2,4)] u B(1) C(1) D(1) by (simp add: free_smf_def Let_def)
  moreover have "coalesced (blocks D)" using C(7) by (simp add: blocks_bl m)
  moreover have "keeps_space sc D" by (rule keeps_space_trans [OF keeps_space_trans [OF keeps_space_trans [OF kA B(11)] C(9)] m(7)])
  ultimately show ?thesis using D(2) m(5,6) C(3,8) B(10) hA by auto
qed


section \<open>Allocating a range\<close>

lemma first_smf_Some: "first_smf ls = Some p \<Longrightarrow> \<exists>l \<in> set ls. p \<in> set l"
  by (induction ls) (auto split: list.splits)

lemma first_smf_None: "first_smf ls = None \<longleftrightarrow> (\<forall>l \<in> set ls. l = [])"
  by (induction ls) (auto split: list.splits)

lemma large_smf_ok:
  assumes "\<forall>p \<in> set ps. m p \<noteq> None"
  shows "(large_smf m bytes ps = Some None \<and> (\<forall>p \<in> set ps. sf_size (the (m p)) < bytes)) \<or>
    (\<exists>p \<in> set ps. large_smf m bytes ps = Some (Some p) \<and> bytes \<le> sf_size (the (m p)))"
  using assms
proof (induction ps)
  case (Cons p ps)
  then show ?case by (cases "bytes \<le> sf_size (the (m p))") auto
qed simp

lemma find_smf_ok:
  assumes "lists_ok sc {}" "bytes mod page sc = 0"
  shows "(find_smf sc bytes = Some None \<and> (\<forall>q s. sc_mem sc q = Some s \<longrightarrow> \<not> sf_alloc s \<longrightarrow> sf_size s < bytes)) \<or>
    (\<exists>p s. find_smf sc bytes = Some (Some p) \<and> sc_mem sc p = Some s \<and> \<not> sf_alloc s \<and> bytes \<le> sf_size s)"
proof -
  note D = lists_okD [OF assms(1)]
  let ?b = "if bytes div page sc \<ge> NBUCKET then NBUCKET - 1 else bytes div page sc"
  let ?ls = "drop ?b (take (NBUCKET - 1) (sc_free sc))"
  have bytes: "bytes = bytes div page sc * page sc" using div_mult_mod_eq [of bytes "page sc"] assms(2) by simp
  have N: "NBUCKET - 1 < NBUCKET" by (simp add: NBUCKET_def)
  have nth: "?ls ! i = sc_free sc ! (?b + i)" if "i < length ?ls" for i using that D(1) by (simp only: nth_drop nth_take length_drop length_take)
  show ?thesis
  proof (cases "first_smf ?ls")
    case (Some p)
    obtain i where i: "i < length ?ls" "p \<in> set (?ls ! i)" using first_smf_Some [OF Some] by (metis in_set_conv_nth)
    let ?c = "?b + i"
    have c: "?c < NBUCKET - 1" using i(1) D(1) by simp
    then have "p \<in> set (sc_free sc ! ?c)" using i nth by simp
    then obtain s where s: "sc_mem sc p = Some s" "\<not> sf_alloc s" "bucket sc s = ?c" using D(4) [of ?c p] c by auto
    have "bytes div page sc = ?b" using c by (auto simp: NBUCKET_def split: if_splits)
    then have "bytes \<le> bucket sc s * page sc" using bytes s(3) by (metis le_add1 mult_le_mono1)
    then have "bytes \<le> sf_size s" using bucket_size [of sc s] by simp
    then show ?thesis using s Some by (auto simp: find_smf_def Let_def)
  next
    case None
    then have f: "find_smf sc bytes = large_smf (sc_mem sc) bytes (sc_free sc ! (NBUCKET - 1))" by (simp add: find_smf_def Let_def)
    have m: "\<forall>p \<in> set (sc_free sc ! (NBUCKET - 1)). sc_mem sc p \<noteq> None" using D(4) [OF N] by auto
    have small: "sf_size s < bytes" if s: "sc_mem sc q = Some s" "\<not> sf_alloc s" "\<forall>p \<in> set (sc_free sc ! (NBUCKET - 1)). sf_size (cell sc p) < bytes" for q s
    proof (rule ccontr)
      assume "\<not> sf_size s < bytes"
      then have le: "bytes div page sc \<le> sf_size s div page sc" by (simp add: div_le_mono)
      have q: "q \<in> set (sc_free sc ! bucket sc s)" using D(4) [of "bucket sc s" q] s by auto
      show False
      proof (cases "bucket sc s = NBUCKET - 1")
        case True
        then show ?thesis using q s \<open>\<not> sf_size s < bytes\<close> by auto
      next
        case False
        then have "bucket sc s < NBUCKET - 1" using bucket_less [of sc s] by linarith
        moreover have "?b \<le> bucket sc s" using le False by (auto simp: bucket_def Let_def)
        ultimately have "bucket sc s - ?b < length ?ls" "?ls ! (bucket sc s - ?b) = sc_free sc ! bucket sc s" using D(1) nth [of "bucket sc s - ?b"] by simp_all
        then have "sc_free sc ! bucket sc s \<in> set ?ls" by (metis nth_mem)
        then show ?thesis using None q unfolding first_smf_None by auto
      qed
    qed
    from large_smf_ok [OF m, of bytes] show ?thesis
    proof
      assume "\<exists>p \<in> set (sc_free sc ! (NBUCKET - 1)). large_smf (sc_mem sc) bytes (sc_free sc ! (NBUCKET - 1)) = Some (Some p) \<and> bytes \<le> sf_size (cell sc p)"
      then show ?thesis using D(4) [OF N] f by auto
    qed (use f small in \<open>intro disjI1, auto\<close>)
  qed
qed

lemma alloc_smf_ok:
  assumes "lists_ok sc {}" "order_ok sc" "coalesced (blocks sc)" "0 < bytes" "bytes mod page sc = 0" "sc_mem sc new = None"
  shows "(alloc_smf sc bytes new = Some (None, sc) \<and> (\<forall>q s. sc_mem sc q = Some s \<longrightarrow> \<not> sf_alloc s \<longrightarrow> sf_size s < bytes)) \<or>
    (\<exists>p sc' s. alloc_smf sc bytes new = Some (Some p, sc') \<and> lists_ok sc' {} \<and> order_ok sc' \<and> coalesced (blocks sc') \<and> held sc p = None \<and>
      sc_mem sc' p = Some s \<and> sf_alloc s \<and> sf_size s = bytes \<and> held sc' = (held sc)(p \<mapsto> (rng s, sf_s s)) \<and> keeps_space sc sc')"
proof -
  consider "find_smf sc bytes = Some None" "\<forall>q s. sc_mem sc q = Some s \<longrightarrow> \<not> sf_alloc s \<longrightarrow> sf_size s < bytes"
    | p s where "find_smf sc bytes = Some (Some p)" "sc_mem sc p = Some s" "\<not> sf_alloc s" "bytes \<le> sf_size s"
    using find_smf_ok [OF assms(1,5)] by blast
  then show ?thesis
  proof cases
    case 1
    then show ?thesis using assms(5) by (simp add: alloc_smf_def)
  next
    case (2 p s)
    obtain us vs where o: "sc_order sc = us @ p # vs" "p \<notin> set us" "p \<notin> set vs" using order_split [OF assms(2) 2(2)] by blast
    have "new \<notin> set (sc_order sc)" using order_okD(2) [OF assms(2)] assms(6) by (simp add: domIff)
    then have new: "new \<noteq> p" "new \<notin> set us" "new \<notin> set vs" by (auto simp: o(1))
    obtain B where B: "remfree sc p = Some B" "lists_ok B {p}" "marked sc p None B" using remfree_ok [OF assms(1) 2(2,3)] by auto
    note m = markedD [OF B(3) 2(2)]
    have hp: "held sc p = None" using 2 by (simp add: held_def)
    let ?s0 = "s\<lparr>sf_flist := None\<rparr>"
    have Bp: "sc_mem B p = Some ?s0" by (simp add: m)
    show ?thesis
    proof (cases "sf_size s = bytes")
      case True
      let ?s = "?s0\<lparr>sf_alloc := True\<rparr>"
      let ?C = "set_smf p ?s (B\<lparr>sc_used := sc_used B @ [p]\<rparr>)"
      have r: "alloc_smf sc bytes new = Some (Some p, ?C)" using assms(5) 2 B(1) Bp True by (simp add: alloc_smf_def)
      have "lists_ok (set_smf p ?s B) {p}" using lists_float [OF B(2), of p ?s] by simp
      then have "lists_ok ((set_smf p ?s B)\<lparr>sc_used := sc_used B @ [p]\<rparr>) ({p} - {p})"
        by (rule lists_use [where s = ?s]) (use lists_okD(2,3) [OF B(2)] in simp_all)
      then have "lists_ok ?C {}" by (simp add: set_smf_used)
      moreover have bls: "bl ?C us = bl sc us" "bl ?C vs = bl sc vs" using o by (auto intro!: bl_cong simp: m)
      moreover have blk: "blocks sc = bl sc us @ (rng s, False) # bl sc vs" "blocks ?C = bl sc us @ (rng s, True) # bl sc vs"
        using 2 o(1) bls by (simp_all add: blocks_bl m)
      moreover have "order_ok ?C" using assms(2) 2(2) unfolding order_ok_def blk by (auto simp: m)
      moreover have "coalesced (blocks ?C)" using assms(3) unfolding blk by (auto simp: coalesced_simps)
      moreover have "held ?C = (held sc)(p \<mapsto> (rng ?s, sf_s ?s))" by (auto simp: held_def fun_eq_iff m)
      moreover have "keeps_space sc ?C" using m(7) by (simp add: keeps_space_def steady_def space_def blk)
      ultimately show ?thesis using r hp True by (intro disjI2 exI [of _ p] exI [of _ ?C] exI [of _ ?s]) simp
    next
      case False
      let ?p = "?s0\<lparr>sf_offset := sf_offset s + bytes, sf_ptr := sf_ptr s + bytes, sf_size := sf_size s - bytes\<rparr>"
      let ?n = "?s0\<lparr>sf_size := bytes, sf_alloc := True\<rparr>"
      let ?C = "(set_smf new ?n (set_smf p ?p B))\<lparr>sc_order := us @ new # p # vs, sc_used := sc_used sc @ [new]\<rparr>"
      have "lists_ok (set_smf p ?p B) {p}" using lists_float [OF B(2), of p ?p] by simp
      then have "lists_ok (set_smf new ?n (set_smf p ?p B)) {new, p}" using lists_float [of "set_smf p ?p B" "{p}" new ?n] assms(6) new by (simp add: m)
      then have "lists_ok ((set_smf new ?n (set_smf p ?p B))\<lparr>sc_used := sc_used sc @ [new]\<rparr>) ({new, p} - {new})"
        by (rule lists_use [where s = ?n]) (use lists_okD(2,3) [OF assms(1)] assms(6) in \<open>simp_all add: m\<close>)
      then have "lists_ok (((set_smf new ?n (set_smf p ?p B))\<lparr>sc_used := sc_used sc @ [new]\<rparr>)\<lparr>sc_order := us @ new # p # vs\<rparr>) {p}"
        using new(1) by (simp add: insert_Diff_if)
      then have C: "lists_ok ?C {p}" by simp
      have Cm: "sc_mem ?C = (sc_mem sc)(p \<mapsto> ?p, new \<mapsto> ?n)" "sc_order ?C = us @ new # p # vs" using new by (auto simp: m fun_eq_iff)
      have bls: "bl ?C us = bl sc us" "bl ?C vs = bl sc vs" using o new by (auto intro!: bl_cong simp: m)
      have sz: "0 < sf_size s - bytes" "(sf_size s - bytes) mod page sc = 0" "sf_size s = bytes + (sf_size s - bytes)"
        using 2(4) False range_size(2) [OF assms(2) 2(2)] assms(5) by (simp_all add: mod_eq_0_iff_dvd)
      have rs: "rng s = (sf_ptr s, bytes + (sf_size s - bytes), sf_offset s)" "rng ?n = (sf_ptr s, bytes, sf_offset s)"
        "rng ?p = (sf_ptr s + bytes, sf_size s - bytes, sf_offset s + bytes)" using sz(3) by (simp_all add: rng_def)
      have blk: "blocks sc = bl sc us @ (rng s, False) # bl sc vs" "blocks ?C = bl sc us @ (rng ?n, True) # (rng ?p, False) # bl sc vs"
        using 2 o(1) bls new by (simp_all add: blocks_bl Cm m)
      have pg: "sc_pagesize ?C = sc_pagesize sc" by (simp add: m)
      have "ranges_ok (page sc) (map fst (blocks ?C))"
        using order_okD(3) [OF assms(2)] unfolding blk using ranges_ok_cut [OF assms(4,5) sz(1,2), of "map fst (bl sc us)" "sf_ptr s" "sf_offset s" "map fst (bl sc vs)"]
        by (simp only: map_append list.map fst_conv rs)
      then have oC: "order_ok ?C" using order_okD(1,2) [OF assms(2)] o new unfolding order_ok_def pg Cm by auto
      have kC: "keeps_space sc ?C" using m(7) cover_cut [of "map fst (bl sc us)" "sf_ptr s" bytes "sf_size s - bytes" "sf_offset s" "map fst (bl sc vs)"]
        unfolding keeps_space_def steady_def space_def blk by (simp only: map_append list.map fst_conv rs) simp
      have cC: "coalesced (blocks ?C)" using assms(3) sz(3) unfolding blk by (cases vs) (auto simp: coalesced_simps rng_def)
      have hC: "held ?C = (held sc)(new \<mapsto> (rng ?n, sf_s ?n))" using 2(2,3) assms(6) by (auto simp: held_def fun_eq_iff m)
      have Cp: "sc_mem ?C p = Some ?p" using new(1) by (simp add: Cm)
      obtain E where E: "insfree ?C p = Some E" "lists_ok E {}" "marked ?C p (Some (bucket ?C ?p)) E"
        using insfree_ok [OF C Cp _ singletonI] offsets_distinct [OF oC Cp] 2(3) by fastforce
      note mE = markedD [OF E(3) Cp]
      have "alloc_smf sc bytes new = Some (Some new, E)"
        using assms(5) 2 B(1) Bp False E(1) o(1) put_before_at [OF o(2)] by (simp add: alloc_smf_def m Let_def)
      moreover have "coalesced (blocks E)" using cC unfolding blocks_bl mE .
      moreover have "keeps_space sc E" by (rule keeps_space_trans [OF kC mE(7)])
      moreover have "held sc new = None" using assms(6) by (simp add: held_def)
      moreover have "sc_mem E new = Some ?n" using new(1) by (simp add: mE Cm)
      ultimately show ?thesis using E(2) oC mE(6) hC mE(5) by (intro disjI2 exI [of _ new] exI [of _ E] exI [of _ ?n]) simp
    qed
  qed
qed


section \<open>Trimming and adding ranges\<close>

lemma new_not_in_order: "order_ok sc \<Longrightarrow> sc_mem sc new = None \<Longrightarrow> new \<notin> set (sc_order sc)"
  by (simp add: order_okD(2) domIff)

lemma trim_smf_ok:
  assumes "lists_ok sc {}" "order_ok sc" "coalesced (blocks sc)" "sc_mem sc p = Some s" "sf_alloc s" "0 < bytes" "bytes < sf_size s" "bytes mod page sc = 0"
    "sc_mem sc new = None"
  shows "\<exists>sc'. trim_smf sc p bytes new = Some sc' \<and> lists_ok sc' {} \<and> order_ok sc' \<and> coalesced (blocks sc') \<and>
    held sc' = (held sc)(p \<mapsto> ((sf_ptr s, bytes, sf_offset s), sf_s s)) \<and> keeps_space sc sc'"
proof -
  obtain us vs where o: "sc_order sc = us @ p # vs" "p \<notin> set us" "p \<notin> set vs" using order_split [OF assms(2,4)] by blast
  have new: "new \<noteq> p" "new \<notin> set us" "new \<notin> set vs" using new_not_in_order [OF assms(2,9)] by (auto simp: o(1))
  let ?p = "s\<lparr>sf_size := bytes\<rparr>"
  let ?n = "s\<lparr>sf_size := sf_size s - bytes, sf_ptr := sf_ptr s + bytes, sf_offset := sf_offset s + bytes\<rparr>"
  let ?C = "(set_smf new ?n (set_smf p ?p sc))\<lparr>sc_order := us @ p # new # vs, sc_used := sc_used sc @ [new]\<rparr>"
  have fl: "sf_flist s = None" using lists_okD(6) [OF assms(1,4)] assms(5) by simp
  have pu: "p \<in> set (sc_used sc)" "new \<notin> set (sc_used sc)" using lists_okD(3) [OF assms(1)] assms(4,5,9) by simp_all
  have "lists_ok (set_smf p ?p (sc\<lparr>sc_used := remove1 p (sc_used sc)\<rparr>)) {p}"
    using lists_float [OF lists_unuse [OF assms(1) pu(1)], of p ?p] fl by simp
  then have "lists_ok (set_smf new ?n (set_smf p ?p (sc\<lparr>sc_used := remove1 p (sc_used sc)\<rparr>))) {new, p}"
    using lists_float [of _ "{p}" new ?n] fl assms(9) new(1) by simp
  then have "lists_ok ((set_smf new ?n (set_smf p ?p (sc\<lparr>sc_used := remove1 p (sc_used sc)\<rparr>)))\<lparr>sc_used := new # remove1 p (sc_used sc)\<rparr>) ({new, p} - {new})"
    by (rule lists_use [where s = ?n]) (use assms(5) pu lists_okD(2) [OF assms(1)] in auto)
  then have "lists_ok ((set_smf new ?n (set_smf p ?p (sc\<lparr>sc_used := new # remove1 p (sc_used sc)\<rparr>)))) {p}"
    using new(1) by (simp add: set_smf_used insert_Diff_if)
  then have "lists_ok ((set_smf new ?n (set_smf p ?p (sc\<lparr>sc_used := new # remove1 p (sc_used sc)\<rparr>)))\<lparr>sc_used := sc_used sc @ [new]\<rparr>) ({p} - {p})"
    by (rule lists_use [where s = ?p]) (use assms(5) pu lists_okD(2) [OF assms(1)] new(1) in auto)
  then have C: "lists_ok ?C {}" by (simp add: set_smf_used)
  have bls: "bl ?C us = bl sc us" "bl ?C vs = bl sc vs" using o new by (auto intro!: bl_cong)
  have sz: "0 < sf_size s - bytes" "(sf_size s - bytes) mod page sc = 0" "sf_size s = bytes + (sf_size s - bytes)"
    using assms(7,8) range_size(2) [OF assms(2,4)] by (simp_all add: mod_eq_0_iff_dvd)
  have rs: "rng s = (sf_ptr s, bytes + (sf_size s - bytes), sf_offset s)" "rng ?p = (sf_ptr s, bytes, sf_offset s)"
    "rng ?n = (sf_ptr s + bytes, sf_size s - bytes, sf_offset s + bytes)" using sz(3) by (simp_all add: rng_def)
  have blk: "blocks sc = bl sc us @ (rng s, True) # bl sc vs" "blocks ?C = bl sc us @ (rng ?p, True) # (rng ?n, True) # bl sc vs"
    using assms(4,5) o(1) bls new by (simp_all add: blocks_bl)
  have "ranges_ok (page sc) (map fst (blocks ?C))"
    using order_okD(3) [OF assms(2)] unfolding blk using ranges_ok_cut [OF assms(6,8) sz(1,2), of "map fst (bl sc us)" "sf_ptr s" "sf_offset s" "map fst (bl sc vs)"]
    by (simp only: map_append list.map fst_conv rs)
  then have oC: "order_ok ?C" using order_okD(1,2) [OF assms(2)] o new unfolding order_ok_def by auto
  have kC: "keeps_space sc ?C" using cover_cut [of "map fst (bl sc us)" "sf_ptr s" bytes "sf_size s - bytes" "sf_offset s" "map fst (bl sc vs)"]
    unfolding keeps_space_def steady_def space_def blk by (simp only: map_append list.map fst_conv rs) simp
  have cC: "coalesced (blocks ?C)" using assms(3) unfolding blk by (auto simp: coalesced_simps)
  have hC: "held ?C = (held sc)(p \<mapsto> (rng ?p, sf_s ?p), new \<mapsto> (rng ?n, sf_s ?n))" using assms(4,5,9) by (auto simp: held_def fun_eq_iff)
  obtain E where E: "free_smf ?C new = Some E" "lists_ok E {}" "order_ok E" "coalesced (blocks E)" "held E = (held ?C)(new := None)" "keeps_space ?C E"
    using free_smf_ok [OF C oC cC, of new ?n] assms(5) by auto
  have "trim_smf sc p bytes new = Some E"
    using assms(4-8) range_size(2) [OF assms(2,4)] E(1) o(1) put_after_at [OF o(2)] by (simp add: trim_smf_def Let_def)
  moreover have "held E = (held sc)(p \<mapsto> ((sf_ptr s, bytes, sf_offset s), sf_s s))"
    unfolding E(5) hC rs using new(1) assms(9) by (auto simp: held_def fun_eq_iff)
  ultimately show ?thesis using E(2-4) keeps_space_trans [OF kC E(6)] by blast
qed


lemma put_by_ptr_ok:
  assumes "\<forall>q \<in> set xs. m q \<noteq> None"
  shows "\<exists>us vs. xs = us @ vs \<and> put_by_ptr m ptr new xs = Some (us @ new # vs) \<and> (\<forall>q \<in> set us. sf_ptr (the (m q)) \<le> ptr) \<and>
    (vs \<noteq> [] \<longrightarrow> ptr < sf_ptr (the (m (hd vs))))"
  using assms
proof (induction xs)
  case (Cons q qs)
  then obtain s where s: "m q = Some s" by auto
  show ?case
  proof (cases "ptr < sf_ptr s")
    case True
    then show ?thesis using s by (intro exI [of _ "[]"] exI [of _ "q # qs"]) simp
  next
    case False
    obtain us vs where "qs = us @ vs" "put_by_ptr m ptr new qs = Some (us @ new # vs)" "\<forall>q \<in> set us. sf_ptr (the (m q)) \<le> ptr"
      "vs \<noteq> [] \<longrightarrow> ptr < sf_ptr (the (m (hd vs)))" using Cons by auto
    then show ?thesis using s False by (intro exI [of _ "q # us"] exI [of _ vs]) auto
  qed
qed simp

lemma new_smf_ok:
  assumes "lists_ok sc {}" "order_ok sc" "coalesced (blocks sc)" "sc_mem sc new = None" "0 < len" "len mod page sc = 0"
    "\<And>q s. sc_mem sc q = Some s \<Longrightarrow> apart (rng s) (ptr, len, off) \<or> apart (ptr, len, off) (rng s)"
  shows "\<exists>sc'. new_smf sc ptr off len new = Some sc' \<and> lists_ok sc' {} \<and> order_ok sc' \<and> coalesced (blocks sc') \<and> held sc' = held sc \<and>
    steady sc sc' \<and> space sc' = space sc \<union> bytes_of (ptr, len, off)"
proof -
  have new: "new \<notin> set (sc_order sc)" by (rule new_not_in_order [OF assms(2,4)])
  have "\<forall>q \<in> set (sc_order sc). sc_mem sc q \<noteq> None" by (simp add: order_okD(2) [OF assms(2)] domIff)
  then obtain us vs where o: "sc_order sc = us @ vs" "put_by_ptr (sc_mem sc) ptr new (sc_order sc) = Some (us @ new # vs)"
    "\<forall>q \<in> set us. sf_ptr (cell sc q) \<le> ptr" "vs \<noteq> [] \<longrightarrow> ptr < sf_ptr (cell sc (hd vs))"
    using put_by_ptr_ok [of "sc_order sc" "sc_mem sc" ptr new] by blast
  let ?n = "\<lparr>sf_s = storage0, sf_alloc = True, sf_size = len, sf_offset = off, sf_ptr = ptr, sf_flist = None\<rparr>"
  let ?C = "set_smf new ?n (sc\<lparr>sc_order := us @ new # vs, sc_used := new # sc_used sc\<rparr>)"
  have "new \<notin> set (sc_used sc)" using lists_okD(3) [OF assms(1)] assms(4) by simp
  moreover have "lists_ok (set_smf new ?n sc) {new}" using lists_float [OF assms(1), of new ?n] assms(4) by simp
  ultimately have "lists_ok ((set_smf new ?n sc)\<lparr>sc_used := new # sc_used sc\<rparr>) ({new} - {new})"
    using lists_okD(2) [OF assms(1)] by (intro lists_use [where s = ?n]) simp_all
  moreover have e: "?C = (set_smf new ?n sc)\<lparr>sc_order := us @ new # vs, sc_used := new # sc_used sc\<rparr>" by (cases sc) (simp add: set_smf_def)
  ultimately have C: "lists_ok ?C {}" by (simp only: e lists_ok_more Diff_cancel)
  have bls: "bl ?C us = bl sc us" "bl ?C vs = bl sc vs" using o(1) new by (auto intro!: bl_cong)
  have r: "rng ?n = (ptr, len, off)" by (simp add: rng_def)
  have blk: "blocks sc = bl sc us @ bl sc vs" "blocks ?C = bl sc us @ ((ptr, len, off), True) # bl sc vs"
    using o(1) bls by (simp_all add: blocks_bl r)
  have ok: "ranges_ok (page sc) (map fst (bl sc us) @ map fst (bl sc vs))" using order_okD(3) [OF assms(2)] by (simp add: blk)
  have some: "\<exists>s. sc_mem sc q = Some s" if "q \<in> set us \<union> set vs" for q using that order_okD(2) [OF assms(2)] o(1) by auto
  have up: "apart (rng (cell sc q)) (ptr, len, off)" if q: "q \<in> set us" for q
  proof -
    obtain s where "sc_mem sc q = Some s" using some q by auto
    then show ?thesis using assms(5) assms(7) [of q s] o(3) q by (auto simp: rng_def)
  qed
  have vp: "apart (ptr, len, off) (rng (cell sc q))" if q: "q \<in> set vs" for q
  proof -
    obtain s where s: "sc_mem sc q = Some s" using some q by auto
    have "sf_ptr (cell sc (hd vs)) \<le> sf_ptr (cell sc q)"
      using ok q by (cases vs) (auto simp: ranges_ok_def sorted_wrt_append bl_def rng_def)
    then have "ptr < sf_ptr s" using o(4) q s by (cases vs) auto
    then show ?thesis using assms(7) [OF s] s by (auto simp: rng_def)
  qed
  have "ranges_ok (page sc) (map fst (blocks ?C))"
    using ok up vp assms(5,6) unfolding blk ranges_ok_def by (auto simp: sorted_wrt_append bl_def size_ok_def simp del: apart.simps)
  then have oC: "order_ok ?C" using order_okD(1,2) [OF assms(2)] o(1) new unfolding order_ok_def by auto
  have cC: "coalesced (blocks ?C)" using assms(3) unfolding blk by (auto simp: coalesced_simps)
  obtain E where E: "free_smf ?C new = Some E" "lists_ok E {}" "order_ok E" "coalesced (blocks E)" "held E = (held ?C)(new := None)" "keeps_space ?C E"
    using free_smf_ok [OF C oC cC, of new ?n] by auto
  have "new_smf sc ptr off len new = Some E" using assms(6) o(2) E(1) by (simp add: new_smf_def Let_def)
  moreover have "held E = held sc" unfolding E(5) using assms(4) by (auto simp: held_def fun_eq_iff)
  moreover have "space E = space sc \<union> bytes_of (ptr, len, off)" using E(6) by (auto simp: keeps_space_def space_def blk cover_def)
  moreover have "steady sc E" using E(6) by (simp add: keeps_space_def steady_def)
  ultimately show ?thesis using E(2-4) by blast
qed

end
