(* ===== verification/Storage_Run.thy ===== *)
theory Storage_Run
  imports Storage_Ops
begin

unbundle bit_operations_syntax

text \<open>
  Opening the file and the interface of the file storage: storage that is handed out lies in the file, is large
  enough and overlaps no other; runs of requests keep that; space that is given back can be handed out again.
\<close>

section \<open>Rounding to pages\<close>

lemma unat_ucast_u64: "unat (ucast (w :: u32) :: u64) = unat w"
proof -
  have "unat w < 2 ^ 64" using unsigned_less [of w, where ?'a = nat] by simp
  then show ?thesis by (simp add: unsigned_ucast_eq take_bit_nat_eq_self)
qed

lemma round_page_32:
  fixes sz :: u64
  assumes "pg = 2 ^ k" "k < 32" "unat sz + 2 ^ k - 1 < 2 ^ 32"
  shows "unat (round_page pg sz) = (unat sz + 2 ^ k - 1) div 2 ^ k * 2 ^ k"
proof -
  define n where "n = unat sz + 2 ^ k - 1"
  have pm: "pg - 1 = mask k" using assms(1) by (simp add: mask_eq_exp_minus_1)
  have x: "sz + ucast (mask k :: u32) = word_of_nat n"
  proof -
    have "mask k < (2 ^ 32 :: nat)" using power_strict_increasing [of k 32 "2 :: nat"] assms(2) by (simp add: mask_eq_exp_minus_1)
    then have "unat (mask k :: u32) = 2 ^ k - 1" using unat_u32_of_nat [of "mask k"] by (simp add: of_nat_mask_eq) (simp add: mask_eq_exp_minus_1)
    then have "ucast (mask k :: u32) = (word_of_nat (2 ^ k - 1) :: u64)" by (metis of_nat_unat)
    moreover have "sz = word_of_nat (unat sz)" by simp
    moreover have "n = unat sz + (2 ^ k - 1)" by (simp add: n_def)
    ultimately show ?thesis by (metis of_nat_add)
  qed
  have "round_page pg sz = ucast (word_of_nat n AND NOT (mask k) :: u32)"
    unfolding round_page_def pm x
    by (rule bit_word_eqI) (use assms(3) in \<open>auto simp: bit_simps n_def [symmetric] dest: bit_imp_le_length\<close>)
  also have "word_of_nat n AND NOT (mask k) = (word_of_nat (push_bit k (drop_bit k n)) :: u32)"
    by (rule bit_word_eqI) (auto simp: bit_simps)
  finally have "unat (round_page pg sz) = unat (word_of_nat (push_bit k (drop_bit k n)) :: u32)" by (simp only: unat_ucast_u64)
  also have "push_bit k (drop_bit k n) = n div 2 ^ k * 2 ^ k" by (simp add: push_bit_eq_mult drop_bit_eq_div)
  also have "unat (word_of_nat (n div 2 ^ k * 2 ^ k) :: u32) = n div 2 ^ k * 2 ^ k"
    using assms(3) unfolding n_def by (intro unat_u32_of_nat) (rule le_less_trans [OF div_times_less_eq_dividend])
  finally show ?thesis by (simp add: n_def)
qed


lemma round_page_bounds:
  fixes sz :: u64
  assumes "pg = 2 ^ k" "k < 32" "0 < sz" "unat sz \<le> 2 ^ 32 - unat pg"
  shows "0 < unat (round_page pg sz)" "unat (round_page pg sz) mod unat pg = 0" "unat sz \<le> unat (round_page pg sz)" "unat (round_page pg sz) < 2 ^ 32"
    "unat (round_page pg sz) < unat sz + unat pg"
proof -
  have k: "2 ^ k < (2 ^ 32 :: nat)" using power_strict_increasing [of k 32 "2 :: nat"] assms(2) by simp
  then have pg: "unat pg = 2 ^ k" using assms(1) unat_u32_of_nat [of "2 ^ k"] by simp
  have sz: "0 < unat sz" using assms(3) by (simp add: unat_gt_0)
  have "unat sz + 2 ^ k \<le> 2 ^ 32" using assms(4) k unfolding pg by linarith
  then have r: "unat (round_page pg sz) = (unat sz + 2 ^ k - 1) div 2 ^ k * 2 ^ k" using sz by (intro round_page_32 assms(1,2)) linarith
  define n where "n = unat sz + 2 ^ k - 1"
  have n: "n = n div 2 ^ k * 2 ^ k + n mod 2 ^ k" "n mod 2 ^ k < 2 ^ k" by (simp_all only: div_mult_mod_eq) simp
  have "unat sz \<le> n div 2 ^ k * 2 ^ k" "n div 2 ^ k * 2 ^ k < unat sz + 2 ^ k" using n sz unfolding n_def by linarith+
  then show "0 < unat (round_page pg sz)" "unat sz \<le> unat (round_page pg sz)" "unat (round_page pg sz) < 2 ^ 32"
    "unat (round_page pg sz) < unat sz + unat pg"
    using r sz \<open>unat sz + 2 ^ k \<le> 2 ^ 32\<close> unfolding n_def pg by linarith+
  show "unat (round_page pg sz) mod unat pg = 0" unfolding r pg by simp
qed

section \<open>Invariant\<close>

fun storage_ok :: "int \<Rightarrow> range \<times> storage \<Rightarrow> bool" where
  "storage_ok fd ((p, n, f), st) \<longleftrightarrow> n < 2 ^ 32 \<and> unat (st_space st) = n \<and> st_ptr st = p \<and> st_where st = f \<and> st_fd st = fd"

definition storages_ok :: "int \<Rightarrow> (smfp \<Rightarrow> (range \<times> storage) option) \<Rightarrow> bool" where
  "storages_ok fd h \<longleftrightarrow> (\<forall>p x. h p = Some x \<longrightarrow> storage_ok fd x)"

lemma storages_ok_upd: "storages_ok fd h \<Longrightarrow> storage_ok fd x \<Longrightarrow> storages_ok fd (h(p \<mapsto> x))" "storages_ok fd h \<Longrightarrow> storages_ok fd (h(p := None))"
  by (auto simp: storages_ok_def simp del: storage_ok.simps)

definition bytes_sum :: "(smfp \<Rightarrow> (range \<times> storage) option) \<Rightarrow> nat" where
  "bytes_sum h = (\<Sum>p \<in> dom h. fst (snd (fst (the (h p)))))"

definition in_use :: "smf_sc \<Rightarrow> nat" where
  "in_use sc = bytes_sum (held sc)"

definition smf_inv :: "smf_sc \<Rightarrow> bool" where
  "smf_inv sc \<longleftrightarrow> lists_ok sc {} \<and> order_ok sc \<and> coalesced (blocks sc) \<and> (\<exists>k < 32. sc_pagesize sc = 2 ^ k) \<and>
     storages_ok (sc_fd sc) (held sc) \<and>
     sm_nobj sc = word_of_nat (card (dom (held sc))) \<and> sm_balloc sc = word_of_nat (in_use sc) \<and>
     sm_bfree sc = word_of_nat (sc_filesize sc) - word_of_nat (in_use sc)"

lemma finite_held: "order_ok sc \<Longrightarrow> finite (dom (held sc))"
proof -
  assume "order_ok sc"
  have "dom (held sc) \<subseteq> dom (sc_mem sc)" by (auto simp: held_def split: option.splits)
  then show ?thesis using order_okD(2) [OF \<open>order_ok sc\<close>] by (metis List.finite_set finite_subset)
qed

lemma bytes_sum_add: "finite (dom h) \<Longrightarrow> h p = None \<Longrightarrow> bytes_sum (h(p \<mapsto> ((a, n, f), st))) = bytes_sum h + n"
  unfolding bytes_sum_def by (subst dom_fun_upd) (simp add: sum.insert domIff, rule sum.cong, auto)

lemma bytes_sum_del:
  assumes "finite (dom h)" "h p = Some ((a, n, f), st)"
  shows "bytes_sum h = bytes_sum (h(p := None)) + n"
  using bytes_sum_add [of "h(p := None)" p a n f st] assms by (simp add: fun_upd_idem)


section \<open>The interface\<close>

lemma smf_invD:
  assumes "smf_inv sc"
  shows "lists_ok sc {}" "order_ok sc" "coalesced (blocks sc)" "finite (dom (held sc))" "storages_ok (sc_fd sc) (held sc)"
  using assms by (auto simp: smf_inv_def intro: finite_held)

text \<open>The storage that a user of a range has is set after the range itself; nothing else depends on it.\<close>

lemma set_storage:
  fixes st :: storage and p :: smfp and s :: smf and sc :: smf_sc
  assumes "sc_mem sc p = Some s" "sf_alloc s"
  defines "sc' \<equiv> set_smf p (s\<lparr>sf_s := st\<rparr>) sc"
  shows "lists_ok sc' X = lists_ok sc X" "order_ok sc' = order_ok sc" "blocks sc' = blocks sc" "space sc' = space sc" 
    "held sc' = (held sc)(p \<mapsto> (rng s, st))"
proof -
  have b: "blocks sc' = blocks sc" using assms(1) by (auto simp: blocks_def sc'_def)
  have f: "free_ok sc' X b \<longleftrightarrow> free_ok sc X b" for b
  proof -
    have "sf_offset (cell sc' q) = sf_offset (cell sc q)" for q using assms(1) by (simp add: sc'_def)
    moreover have "{q. \<exists>t. sc_mem sc' q = Some t \<and> \<not> sf_alloc t \<and> bucket sc' t = b} = {q. \<exists>t. sc_mem sc q = Some t \<and> \<not> sf_alloc t \<and> bucket sc t = b}"
      using assms(1,2) by (auto simp: sc'_def)
    moreover have "sc_free sc' = sc_free sc" by (simp add: sc'_def)
    ultimately show ?thesis by (simp add: free_ok_def)
  qed
  have u: "{q. \<exists>t. sc_mem sc' q = Some t \<and> sf_alloc t} = {q. \<exists>t. sc_mem sc q = Some t \<and> sf_alloc t}"
    using assms(1,2) by (auto simp: sc'_def)
  have "(\<forall>t. sc_mem sc' q = Some t \<longrightarrow> sf_flist t = (if sf_alloc t \<or> q \<in> X then None else Some (bucket sc' t))) \<longleftrightarrow>
      (\<forall>t. sc_mem sc q = Some t \<longrightarrow> sf_flist t = (if sf_alloc t \<or> q \<in> X then None else Some (bucket sc t)))" for q
    by (cases "q = p") (simp_all add: sc'_def assms(1))
  moreover have "sc_free sc' = sc_free sc" "sc_used sc' = sc_used sc" by (simp_all add: sc'_def)
  ultimately show "lists_ok sc' X = lists_ok sc X" by (simp only: lists_ok_def f u)
  have "dom (sc_mem sc') = dom (sc_mem sc)" using assms(1) by (auto simp: sc'_def split: if_splits)
  moreover have "sc_order sc' = sc_order sc" "sc_pagesize sc' = sc_pagesize sc" by (simp_all add: sc'_def)
  ultimately show "order_ok sc' = order_ok sc" by (simp only: order_ok_def b)
  show "blocks sc' = blocks sc" "space sc' = space sc" by (simp_all add: space_def b)
  show "held sc' = (held sc)(p \<mapsto> (rng s, st))" using assms(1,2) by (auto simp: held_def fun_eq_iff sc'_def)
qed

lemma stats_more [simp]:
  "order_ok (sc\<lparr>sm_nobj := a\<rparr>) = order_ok sc" "order_ok (sc\<lparr>sm_balloc := a\<rparr>) = order_ok sc" "order_ok (sc\<lparr>sm_bfree := a\<rparr>) = order_ok sc"
  "blocks (sc\<lparr>sm_nobj := a\<rparr>) = blocks sc" "blocks (sc\<lparr>sm_balloc := a\<rparr>) = blocks sc" "blocks (sc\<lparr>sm_bfree := a\<rparr>) = blocks sc"
  "held (sc\<lparr>sm_nobj := a\<rparr>) = held sc" "held (sc\<lparr>sm_balloc := a\<rparr>) = held sc" "held (sc\<lparr>sm_bfree := a\<rparr>) = held sc"
  "space (sc\<lparr>sm_nobj := a\<rparr>) = space sc" "space (sc\<lparr>sm_balloc := a\<rparr>) = space sc" "space (sc\<lparr>sm_bfree := a\<rparr>) = space sc"
  by (simp_all add: order_ok_def blocks_def held_def space_def fun_eq_iff)

lemma smf_alloc_step:
  assumes "smf_inv sc" "0 < sz" "unat sz \<le> 2 ^ 32 - page sc" "sc_mem sc new = None"
  shows "(smf_alloc sc sz new = Some (None, sc) \<and>
      (\<forall>q s. sc_mem sc q = Some s \<longrightarrow> \<not> sf_alloc s \<longrightarrow> sf_size s < unat (round_page (sc_pagesize sc) sz))) \<or>
    (\<exists>p sc' ptr off st. smf_alloc sc sz new = Some (Some p, sc') \<and> smf_inv sc' \<and> held sc p = None \<and>
      held sc' = (held sc)(p \<mapsto> ((ptr, unat (round_page (sc_pagesize sc) sz), off), st)) \<and> space sc' = space sc \<and> sc_pagesize sc' = sc_pagesize sc)"
proof -
  note I = smf_invD [OF assms(1)]
  obtain k where k: "sc_pagesize sc = 2 ^ k" "k < 32" using assms(1) by (auto simp: smf_inv_def)
  let ?n = "unat (round_page (sc_pagesize sc) sz)"
  note r = round_page_bounds [OF k assms(2,3)]
  from alloc_smf_ok [OF I(1-3) r(1,2) assms(4)]
  consider "alloc_smf sc ?n new = Some (None, sc)" "\<forall>q s. sc_mem sc q = Some s \<longrightarrow> \<not> sf_alloc s \<longrightarrow> sf_size s < ?n"
    | p B s where "alloc_smf sc ?n new = Some (Some p, B)" "lists_ok B {}" "order_ok B" "coalesced (blocks B)" "held sc p = None"
      "sc_mem B p = Some s" "sf_alloc s" "sf_size s = ?n" "held B = (held sc)(p \<mapsto> (rng s, sf_s s))" "keeps_space sc B"
    by blast
  then show ?thesis
  proof cases
    case 1
    then show ?thesis using assms(2) by (simp add: smf_alloc_def Let_def)
  next
    case (2 p B s)
    let ?st = "\<lparr>st_ptr = sf_ptr s, st_len = 0, st_space = ucast (round_page (sc_pagesize sc) sz), st_fd = sc_fd sc, st_where = sf_offset s\<rparr>"
    let ?B = "B\<lparr>sm_nobj := sm_nobj B + 1, sm_balloc := sm_balloc B + word_of_nat (sf_size s), sm_bfree := sm_bfree B - word_of_nat (sf_size s)\<rparr>"
    let ?C = "set_smf p (s\<lparr>sf_s := ?st\<rparr>) ?B"
    have Bp: "sc_mem ?B p = Some s" using 2(6) by simp
    note S = set_storage [OF Bp 2(7), of ?st]
    have rs: "rng s = (sf_ptr s, ?n, sf_offset s)" using 2(8) by (simp add: rng_def)
    have h: "held ?C = (held sc)(p \<mapsto> ((sf_ptr s, ?n, sf_offset s), ?st))" using S(5) 2(9) by (simp add: rs)
    have fd: "sc_fd B = sc_fd sc" "sc_pagesize B = sc_pagesize sc" "sc_filesize B = sc_filesize sc" "sm_nobj B = sm_nobj sc" "sm_balloc B = sm_balloc sc"
      "sm_bfree B = sm_bfree sc" "space B = space sc" using 2(10) by (simp_all add: keeps_space_def steady_def)
    have a: "smf_alloc sc sz new = Some (Some p, ?C)" using 2(1,6,8) assms(2) by (simp add: smf_alloc_def Let_def fd)
    have sp: "unat (ucast (round_page (sc_pagesize sc) sz) :: u32) = ?n" using r(4) by (simp add: unsigned_ucast_eq take_bit_nat_eq_self)
    have "in_use ?C = in_use sc + ?n" unfolding in_use_def h by (rule bytes_sum_add [OF I(4) 2(5)])
    moreover have "card (dom (held ?C)) = card (dom (held sc)) + 1" unfolding h using I(4) 2(5) by (simp add: domIff)
    moreover have "storages_ok (sc_fd sc) (held ?C)" unfolding h using I(5) r(4) sp by (intro storages_ok_upd) simp_all
    ultimately have "smf_inv ?C" using assms(1) S(1-3) 2(2-4,8) by (simp add: smf_inv_def fd algebra_simps)
    then show ?thesis using a h 2(5) S(4) fd
      by (intro disjI2 exI [of _ p] exI [of _ ?C] exI [of _ "sf_ptr s"] exI [of _ "sf_offset s"] exI [of _ ?st]) simp
  qed
qed


lemma held_mem: "held sc p = Some (r, st) \<longleftrightarrow> (\<exists>s. sc_mem sc p = Some s \<and> sf_alloc s \<and> rng s = r \<and> sf_s s = st)"
  by (auto simp: held_def split: option.splits)

lemma smf_free_step:
  assumes "smf_inv sc" "held sc p \<noteq> None"
  shows "\<exists>sc'. smf_free sc p = Some sc' \<and> smf_inv sc' \<and> held sc' = (held sc)(p := None) \<and> space sc' = space sc \<and> sc_pagesize sc' = sc_pagesize sc"
proof -
  note I = smf_invD [OF assms(1)]
  obtain s where s: "sc_mem sc p = Some s" "sf_alloc s" "held sc p = Some (rng s, sf_s s)" using assms(2) by (auto simp: held_def split: option.splits)
  let ?A = "sc\<lparr>sm_nobj := sm_nobj sc - 1, sm_balloc := sm_balloc sc - word_of_nat (sf_size s), sm_bfree := sm_bfree sc + word_of_nat (sf_size s)\<rparr>"
  obtain B where B: "free_smf ?A p = Some B" "lists_ok B {}" "order_ok B" "coalesced (blocks B)" "held B = (held ?A)(p := None)" "keeps_space ?A B"
    using free_smf_ok [of ?A p s] I(1-3) s by auto
  have h: "held B = (held sc)(p := None)" using B(5) by simp
  have fd: "sc_fd B = sc_fd sc" "sc_pagesize B = sc_pagesize sc" "sc_filesize B = sc_filesize sc" "sm_nobj B = sm_nobj sc - 1"
    "sm_balloc B = sm_balloc sc - word_of_nat (sf_size s)" "sm_bfree B = sm_bfree sc + word_of_nat (sf_size s)" "space B = space sc"
    using B(6) by (simp_all add: keeps_space_def steady_def)
  have "in_use sc = in_use B + sf_size s" unfolding in_use_def h by (rule bytes_sum_del [OF I(4)]) (use s(3) in \<open>simp add: rng_def\<close>)
  moreover have "card (dom (held sc)) = card (dom (held B)) + 1" unfolding h using card.remove [OF I(4), of p] s(3)
    by (simp add: domIff)
  moreover have "storages_ok (sc_fd sc) (held B)" unfolding h by (rule storages_ok_upd [OF I(5)])
  ultimately have "smf_inv B" using assms(1) B(2-4) by (simp add: smf_inv_def fd algebra_simps)
  then show ?thesis using s B(1) h fd by (simp add: smf_free_def)
qed

lemma round_within:
  assumes "smf_inv sc" "held sc p = Some ((ptr, n, off), st)" "0 < sz" "unat sz \<le> n" "unat sz \<le> 2 ^ 32 - page sc"
  shows "unat (round_page (sc_pagesize sc) sz) \<le> n"
proof -
  let ?n = "unat (round_page (sc_pagesize sc) sz)"
  obtain k where k: "sc_pagesize sc = 2 ^ k" "k < 32" using assms(1) by (auto simp: smf_inv_def)
  note r = round_page_bounds [OF k assms(3,5)]
  have p: "page sc = 2 ^ k" using k unat_u32_of_nat [of "2 ^ k"] power_strict_increasing [of k 32 "2 :: nat"] by simp
  obtain s where s: "sc_mem sc p = Some s" "rng s = (ptr, n, off)" using assms(2) held_mem by metis
  then have "n mod 2 ^ k = 0" using range_size(2) [OF smf_invD(2) [OF assms(1)] s(1)] p by (simp add: rng_def)
  moreover have "?n mod 2 ^ k = 0" "?n < n + 2 ^ k" using r(2,5) assms(4) p by simp_all
  ultimately obtain a b where "n = a * 2 ^ k" "?n = b * 2 ^ k" "b * 2 ^ k < (a + 1) * 2 ^ k" by (metis add_mult_distrib div_mult_mod_eq add_0_right mult_1)
  moreover have "b < a + 1" using calculation(3) by (rule mult_less_cancel2 [THEN iffD1, THEN conjunct2])
  ultimately show ?thesis by simp
qed

lemma smf_trim_step:
  assumes "smf_inv sc" "held sc p = Some ((ptr, n, off), st)" "0 < sz" "unat sz \<le> n" "unat sz \<le> 2 ^ 32 - page sc" "sc_mem sc new = None"
  shows "\<exists>sc'. smf_trim sc p sz new = Some sc' \<and> smf_inv sc' \<and> space sc' = space sc \<and> sc_pagesize sc' = sc_pagesize sc \<and>
    held sc' = (held sc)(p \<mapsto> ((ptr, unat (round_page (sc_pagesize sc) sz), off), st\<lparr>st_space := ucast (round_page (sc_pagesize sc) sz)\<rparr>))"
proof -
  note I = smf_invD [OF assms(1)]
  obtain k where k: "sc_pagesize sc = 2 ^ k" "k < 32" using assms(1) by (auto simp: smf_inv_def)
  let ?n = "unat (round_page (sc_pagesize sc) sz)"
  let ?w = "ucast (round_page (sc_pagesize sc) sz) :: u32"
  note r = round_page_bounds [OF k assms(3,5)]
  obtain s where s: "sc_mem sc p = Some s" "sf_alloc s" "rng s = (ptr, n, off)" "sf_s s = st" using assms(2) held_mem by metis
  have sz: "sf_size s = n" "sf_ptr s = ptr" "sf_offset s = off" using s(3) by (simp_all add: rng_def)
  have sto: "storage_ok (sc_fd sc) ((ptr, n, off), st)" using I(5) assms(2) by (auto simp: storages_ok_def simp del: storage_ok.simps)
  then have le: "sz \<le> ucast (st_space st)" using assms(4) by (simp add: word_le_nat_alt unat_ucast_u64)
  have "?n \<le> n" by (rule round_within [OF assms(1-5)])
  have sp: "unat ?w = ?n" using r(4) by (simp add: unsigned_ucast_eq take_bit_nat_eq_self)
  show ?thesis
  proof (cases "?n < n")
    case False
    then have "?n = n" using \<open>?n \<le> n\<close> by simp
    moreover have "unat ?w = unat (st_space st)" using sto \<open>?n = n\<close> sp by simp
    then have "?w = st_space st" by (rule unsigned_word_eqI)
    then have "st\<lparr>st_space := ?w\<rparr> = st" by simp
    ultimately show ?thesis using assms(1,2,3,4) s sz le by (simp add: smf_trim_def fun_upd_idem)
  next
    case True
    let ?A = "sc\<lparr>sm_balloc := sm_balloc sc - word_of_nat (n - ?n), sm_bfree := sm_bfree sc + word_of_nat (n - ?n)\<rparr>"
    obtain B where B: "trim_smf ?A p ?n new = Some B" "lists_ok B {}" "order_ok B" "coalesced (blocks B)"
      "held B = (held ?A)(p \<mapsto> ((ptr, ?n, off), st))" "keeps_space ?A B"
      using trim_smf_ok [of ?A p s ?n new] I(1-3) s sz True r(1,2) assms(6) by auto
    have "held B p = Some ((ptr, ?n, off), st)" by (simp add: B(5))
    then obtain t where t: "sc_mem B p = Some t" "sf_alloc t" "rng t = (ptr, ?n, off)" "sf_s t = st" using held_mem by metis
    have tsz: "sf_size t = ?n" using t(3) by (simp add: rng_def)
    let ?C = "set_smf p (t\<lparr>sf_s := st\<lparr>st_space := ?w\<rparr>\<rparr>) B"
    note S = set_storage [OF t(1,2), of "st\<lparr>st_space := ?w\<rparr>"]
    have h: "held ?C = (held sc)(p \<mapsto> ((ptr, ?n, off), st\<lparr>st_space := ?w\<rparr>))" using S(5) B(5) t(3) by simp
    have fd: "sc_fd B = sc_fd sc" "sc_pagesize B = sc_pagesize sc" "sc_filesize B = sc_filesize sc" "sm_nobj B = sm_nobj sc"
      "sm_balloc B = sm_balloc sc - word_of_nat (n - ?n)" "sm_bfree B = sm_bfree sc + word_of_nat (n - ?n)" "space B = space sc"
      using B(6) by (simp_all add: keeps_space_def steady_def)
    have a: "smf_trim sc p sz new = Some ?C" using assms(3,4) s sz le True B(1) t tsz by (simp add: smf_trim_def Let_def fd)
    have f: "finite (dom ((held sc)(p := None)))" using I(4) by simp
    have "in_use sc = bytes_sum ((held sc)(p := None)) + n" unfolding in_use_def by (rule bytes_sum_del [OF I(4) assms(2)])
    moreover have "in_use ?C = bytes_sum ((held sc)(p := None)) + ?n" unfolding in_use_def h
      using bytes_sum_add [OF f, of p ptr ?n off "st\<lparr>st_space := ?w\<rparr>"] by simp
    moreover have "dom (held ?C) = dom (held sc)" unfolding h using assms(2) by auto
    moreover have "storages_ok (sc_fd sc) (held ?C)" unfolding h using I(5) sto r(4) sp by (intro storages_ok_upd) simp_all
    ultimately have "smf_inv ?C" using assms(1) S(1-3) B(2-4) True by (simp add: smf_inv_def fd of_nat_diff)
    then show ?thesis using a h S(4) fd by (intro exI [of _ ?C]) simp
  qed
qed

end
