(* ===== verification/Storage_Props.thy ===== *)
theory Storage_Props
  imports Storage_Run
begin

text \<open>Opening the file, and what the file storage promises to those who use it.\<close>

section \<open>Opening the file\<close>

text \<open>\<open>mmap\<close> never maps over what it has mapped before; the file is mapped from front to back.\<close>

definition mmap_fresh :: "(nat \<Rightarrow> nat \<Rightarrow> nat option) \<Rightarrow> bool" where
  "mmap_fresh mmap \<longleftrightarrow> (\<forall>n f p n' f' p'. mmap n f = Some p \<longrightarrow> mmap n' f' = Some p' \<longrightarrow> f' + n' \<le> f \<longrightarrow> p' + n' \<le> p \<or> p + n \<le> p')"

definition mapped :: "(nat \<Rightarrow> nat \<Rightarrow> nat option) \<Rightarrow> nat \<Rightarrow> nat \<times> nat \<Rightarrow> bool" where
  "mapped mmap e x \<longleftrightarrow> (\<exists>p n f. mmap n f = Some p \<and> x \<in> bytes_of (p, n, f) \<and> f + n \<le> e)"

lemma mapped_mono: "mapped mmap e x \<Longrightarrow> e \<le> e' \<Longrightarrow> mapped mmap e' x"
  unfolding mapped_def by (meson order_trans)

lemma bytes_space: "order_ok sc \<Longrightarrow> sc_mem sc p = Some s \<Longrightarrow> bytes_of (rng s) \<subseteq> space sc"
proof -
  assume "order_ok sc" "sc_mem sc p = Some s"
  then obtain us vs where "sc_order sc = us @ p # vs" by (rule order_split)
  then show ?thesis using \<open>sc_mem sc p = Some s\<close> by (auto simp: space_def cover_def blocks_def)
qed

lemma fresh_apart:
  assumes "order_ok sc" "\<forall>x \<in> space sc. mapped mmap off x" "mmap sz off = Some ptr" "mmap_fresh mmap" "0 < sz" "sc_mem sc q = Some s"
  shows "apart (rng s) (ptr, sz, off) \<or> apart (ptr, sz, off) (rng s)"
proof -
  obtain p n f where r: "rng s = (p, n, f)" by (cases "rng s")
  have n: "0 < n" using range_size(1) [OF assms(1,6)] r by (simp add: rng_def)
  have m: "mapped mmap off (p + i, f + i)" if "i < n" for i
    using bytes_space [OF assms(1,6)] assms(2) that r by (auto simp: in_bytes subset_iff)
  have "f + n \<le> off" using m [of "n - 1"] n by (auto simp: mapped_def in_bytes)
  moreover have "p + n \<le> ptr \<or> ptr + sz \<le> p"
  proof (rule ccontr)
    assume "\<not> (p + n \<le> ptr \<or> ptr + sz \<le> p)"
    then have a: "max p ptr - p < n" "max p ptr < ptr + sz" using assms(5) n by auto
    obtain p' n' f' where o: "mmap n' f' = Some p'" "p' \<le> max p ptr" "max p ptr < p' + n'" "f' + n' \<le> off"
      using m [OF a(1)] by (auto simp: mapped_def in_bytes)
    then have "p' + n' \<le> ptr \<or> ptr + sz \<le> p'" using assms(3,4) unfolding mmap_fresh_def by blast
    then show False using o a by auto
  qed
  ultimately show ?thesis unfolding r by auto
qed

lemma half_pages:
  assumes "sz mod pg = 0" "sz < 2 ^ 63" "0 < (pg :: nat)"
  shows "half pg sz = (sz div pg div 2) * pg"
proof -
  have "min (sz div 2) SSIZE_MAX = sz div 2" using assms(2) by (simp add: SSIZE_MAX_def)
  then have "half pg sz = sz div 2 div pg * pg" using minus_mod_eq_div_mult [of "sz div 2" pg] by (simp add: half_def)
  then show ?thesis by (simp add: div_mult2_eq [symmetric] mult.commute)
qed

lemma half_small:
  assumes "sz mod pg = 0" "sz < 2 ^ 63" "0 < (pg :: nat)" "pg * 64 \<le> sz"
  shows "0 < half pg sz" "half pg sz < sz" "half pg sz mod pg = 0" "(sz - half pg sz) mod pg = 0"
    "pg * 128 \<le> sz \<Longrightarrow> pg * 64 \<le> half pg sz" "pg * 128 \<le> sz \<Longrightarrow> pg * 64 \<le> sz - half pg sz"
proof -
  note h = half_pages [OF assms(1-3)]
  define k where "k = sz div pg"
  have sz: "sz = k * pg" using div_mult_mod_eq [of sz pg] assms(1) by (simp add: k_def)
  have k: "64 \<le> k" using assms(3,4) by (simp add: sz mult.commute)
  show "half pg sz mod pg = 0" unfolding h by simp
  then show "(sz - half pg sz) mod pg = 0" using assms(1) by (simp add: mod_eq_0_iff_dvd)
  show "0 < half pg sz" unfolding h k_def [symmetric] using k assms(3) by simp
  show "half pg sz < sz" unfolding h k_def [symmetric] unfolding sz using k assms(3) by simp
  assume "pg * 128 \<le> sz"
  then have "128 \<le> k" using assms(3) by (simp add: sz mult.commute)
  then have "64 \<le> k div 2" "64 \<le> k - k div 2" by linarith+
  then have "64 * pg \<le> (k div 2) * pg" "64 * pg \<le> (k - k div 2) * pg" by (simp_all only: mult_le_mono1)
  then show "pg * 64 \<le> half pg sz" "pg * 64 \<le> sz - half pg sz"
    unfolding h k_def [symmetric] unfolding sz diff_mult_distrib by (simp_all only: mult.commute [of pg])
qed

definition ranges_inv :: "smf_sc \<Rightarrow> bool" where
  "ranges_inv sc \<longleftrightarrow> lists_ok sc {} \<and> order_ok sc \<and> coalesced (blocks sc)"

definition open_post :: "(nat \<Rightarrow> nat \<Rightarrow> nat option) \<Rightarrow> smf_sc \<Rightarrow> nat \<Rightarrow> nat \<Rightarrow> nat \<Rightarrow> nat \<Rightarrow> smf_sc \<Rightarrow> nat \<Rightarrow> nat \<Rightarrow> bool" where
  "open_post mmap sc sz off fail tot sc' fail' tot' \<longleftrightarrow> ranges_inv sc' \<and> held sc' = held sc \<and> steady sc sc' \<and>
    fail' \<le> fail \<and> space sc \<subseteq> space sc' \<and> (\<forall>x \<in> space sc'. mapped mmap (off + sz) x) \<and>
    ((\<forall>n f. mmap n f \<noteq> None) \<longrightarrow> page sc * 128 \<le> fail \<longrightarrow> tot' = tot + sz \<and> fail' = fail \<and> (\<forall>b. off \<le> b \<longrightarrow> b < off + sz \<longrightarrow> (\<exists>a. (a, b) \<in> space sc')))"

lemma smf_open_chunk_ok:
  assumes "ranges_inv sc" "0 < sz" "sz mod page sc = 0" "sz < 2 ^ 63" "fail < page sc * 128 \<or> page sc * 64 \<le> sz"
    "\<forall>x \<in> space sc. mapped mmap off x" "mmap_fresh mmap" "\<And>sc. set (sc_order sc) = dom (sc_mem sc) \<Longrightarrow> sc_mem sc (mal sc) = None" "fail \<le> 2 ^ 30"
  shows "\<exists>sc' fail' tot'. smf_open_chunk mmap mal sc sz off fail tot = Some (sc', fail', tot') \<and> open_post mmap sc sz off fail tot sc' fail' tot'"
  using assms
proof (induction mmap mal sc sz off fail tot rule: smf_open_chunk.induct)
  case (1 mmap mal sc sz off fail tot)
  have pg: "0 < page sc" using 1(4,5) by (cases "page sc = 0") auto
  have inv: "lists_ok sc {}" "order_ok sc" "coalesced (blocks sc)" using 1(3) by (simp_all add: ranges_inv_def)
  show ?case
  proof (cases "fail < page sc * MINPAGES")
    case True
    then show ?thesis using 1(3-) mapped_mono by (subst smf_open_chunk.simps) (auto simp: MINPAGES_def open_post_def)
  next
    case F: False
    show ?thesis
    proof (cases "if sz < fail \<and> sz < SSIZE_MAX then mmap sz off else None")
      case (Some p)
      then have p: "mmap sz off = Some p" by (simp split: if_splits)
      have fa: "\<And>q s. sc_mem sc q = Some s \<Longrightarrow> apart (rng s) (p, sz, off) \<or> apart (p, sz, off) (rng s)"
        by (rule fresh_apart [OF inv(2) 1(8) p 1(9) 1(4)])
      obtain sc' where n: "new_smf sc p off sz (mal sc) = Some sc'" "lists_ok sc' {}" "order_ok sc'" "coalesced (blocks sc')" "held sc' = held sc"
        "steady sc sc'" "space sc' = space sc \<union> bytes_of (p, sz, off)"
        using new_smf_ok [OF inv 1(10) [OF order_okD(2) [OF inv(2)]] 1(4,5), of p off] fa by blast
      have "mapped mmap (off + sz) x" if "x \<in> bytes_of (p, sz, off)" for x using p that unfolding mapped_def by blast
      then have "\<forall>x \<in> space sc'. mapped mmap (off + sz) x" using 1(8) mapped_mono [OF _ le_add1] unfolding n(7) by blast
      moreover have "\<exists>a. (a, b) \<in> space sc'" if "off \<le> b" "b < off + sz" for b
        unfolding n(7) using that by (intro exI [of _ "p + (b - off)"] UnI2) (auto simp: in_bytes)
      ultimately show ?thesis using 1(4,5) F Some n by (subst smf_open_chunk.simps) (simp add: ranges_inv_def open_post_def)
    next
      case None
      have big: "page sc * 64 \<le> sz" using 1(7) F by (auto simp: MINPAGES_def)
      let ?h = "half (page sc) sz"
      note h = half_small [OF 1(5,6) pg big]
      have f1: "min sz fail < page sc * 128 \<or> page sc * 64 \<le> ?h" using h(5) by (cases "page sc * 128 \<le> sz") auto
      have m1: "min sz fail \<le> 2 ^ 30" using 1(11) by simp
      have nz: "\<not> (sz = 0 \<or> sz mod page sc \<noteq> 0)" "?h < 2 ^ 63" "sz - ?h < 2 ^ 63" "0 < sz - ?h" "?h \<noteq> 0" using 1(4-6) h(1,2) by simp_all
      obtain B fail1 tot1 where B: "smf_open_chunk mmap mal sc ?h off (min sz fail) tot = Some (B, fail1, tot1)" "open_post mmap sc ?h off (min sz fail) tot B fail1 tot1"
        using 1(1) [OF nz(1) F None refl nz(5) 1(3) h(1,3) nz(2) f1 1(8-10) m1] by blast
      have pB: "sc_pagesize B = sc_pagesize sc" "fail1 \<le> min sz fail" "ranges_inv B" "\<forall>x \<in> space B. mapped mmap (off + ?h) x" using B(2) by (simp_all add: open_post_def steady_def)
      have f2: "fail1 < page B * 128 \<or> page B * 64 \<le> sz - ?h" using pB(2) h(6) unfolding pB(1) by (cases "page sc * 128 \<le> sz") auto
      have m2: "fail1 \<le> 2 ^ 30" "(sz - ?h) mod page B = 0" using order_trans [OF pB(2) m1] pB(1) h(4) by simp_all
      obtain C fail2 tot2 where C: "smf_open_chunk mmap mal B (sz - ?h) (off + ?h) fail1 tot1 = Some (C, fail2, tot2)" "open_post mmap B (sz - ?h) (off + ?h) fail1 tot1 C fail2 tot2"
        using 1(2) [OF nz(1) F None refl nz(5) B(1) refl refl pB(3) nz(4) m2(2) nz(3) f2 pB(4) 1(9,10) m2(1)] by blast
      have e: "off + ?h + (sz - ?h) = off + sz" using h(2) by simp
      have r: "smf_open_chunk mmap mal sc sz off fail tot = Some (C, fail2, tot2)"
        using 1(4,5) F None h(1) B(1) C(1) by (subst smf_open_chunk.simps) (simp add: Let_def)
      have "tot2 = tot + sz \<and> fail2 = fail \<and> (\<forall>b. off \<le> b \<longrightarrow> b < off + sz \<longrightarrow> (\<exists>a. (a, b) \<in> space C))"
        if t: "\<forall>n f. mmap n f \<noteq> None" "page sc * 128 \<le> fail"
      proof -
        have "mmap sz off \<noteq> None" using t(1) by blast
        then have "fail \<le> sz" using None 1(11) by (simp add: SSIZE_MAX_def split: if_splits)
        then have m: "min sz fail = fail" by simp
        have b: "tot1 = tot + ?h" "fail1 = fail" "\<forall>b. off \<le> b \<longrightarrow> b < off + ?h \<longrightarrow> (\<exists>a. (a, b) \<in> space B)"
          using B(2) t m by (simp_all add: open_post_def)
        have c: "tot2 = tot1 + (sz - ?h)" "fail2 = fail1" "\<forall>b. off + ?h \<le> b \<longrightarrow> b < off + sz \<longrightarrow> (\<exists>a. (a, b) \<in> space C)" "space B \<subseteq> space C"
          using C(2) t b(2) pB(1) e by (simp_all add: open_post_def)
        have "\<exists>a. (a, b) \<in> space C" if "off \<le> b" "b < off + sz" for b
        proof (cases "b < off + ?h")
          case True
          then show ?thesis using b(3) c(4) that by blast
        qed (use c(3) that in simp)
        then show ?thesis using b c h(2) by simp
      qed
      moreover have "fail2 \<le> fail" "space sc \<subseteq> space C" "ranges_inv C" "held C = held sc" "\<forall>x \<in> space C. mapped mmap (off + sz) x"
        using B(2) C(2) unfolding open_post_def e by auto
      moreover have "steady sc C" using B(2) C(2) steady_trans unfolding open_post_def by blast
      ultimately have "open_post mmap sc sz off fail tot C fail2 tot2" unfolding open_post_def by (intro conjI impI) simp_all
      then show ?thesis using r by blast
    qed
  qed
qed

lemma smf_init_inv: "pg = 2 ^ k \<Longrightarrow> k < 32 \<Longrightarrow> ranges_inv (smf_init fd pg sz)" "held (smf_init fd pg sz) = Map.empty" "space (smf_init fd pg sz) = {}"
  by (simp_all add: ranges_inv_def lists_ok_def free_ok_def order_ok_def blocks_def ranges_ok_def coalesced_def smf_init_def held_def fun_eq_iff
      space_def cover_def nth_replicate)

lemma smf_open_ok:
  assumes "pg = 2 ^ k" "k < 32" "fsz mod unat pg = 0" "unat pg * 64 \<le> fsz" "fsz < 2 ^ 63" "mmap_fresh mmap" "\<And>sc. set (sc_order sc) = dom (sc_mem sc) \<Longrightarrow> sc_mem sc (mal sc) = None"
  shows "\<exists>sc fail tot. smf_open_chunk mmap mal (smf_init fd pg fsz) fsz 0 (2 ^ 30) 0 = Some (sc, fail, tot) \<and>
    smf_inv (sc\<lparr>sm_bfree := sm_bfree sc + word_of_nat (sc_filesize sc)\<rparr>) \<and> held sc = Map.empty \<and> (\<forall>x \<in> space sc. mapped mmap fsz x) \<and> sc_pagesize sc = pg \<and>
    ((\<forall>n f. mmap n f \<noteq> None) \<longrightarrow> unat pg * 128 \<le> 2 ^ 30 \<longrightarrow> tot = fsz \<and> (\<forall>b < fsz. \<exists>a. (a, b) \<in> space sc))"
proof -
  let ?i = "smf_init fd pg fsz"
  have pi: "page ?i = unat pg" by (simp add: smf_init_def)
  have k: "unat pg = 2 ^ k" using unat_u32_of_nat [of "2 ^ k"] power_strict_increasing [of k 32 "2 :: nat"] assms(1,2) by simp
  have "0 < fsz" using assms(4) k by (cases fsz) auto
  then obtain sc fail tot where c: "smf_open_chunk mmap mal ?i fsz 0 (2 ^ 30) 0 = Some (sc, fail, tot)" "open_post mmap ?i fsz 0 (2 ^ 30) 0 sc fail tot"
    using smf_open_chunk_ok [of ?i fsz "2 ^ 30" mmap 0 mal 0] smf_init_inv(1) [OF assms(1,2)] assms(3-7) unfolding pi smf_init_inv(3) by blast
  have e: "held sc = Map.empty" "steady ?i sc" "ranges_inv sc" using c(2) smf_init_inv(2) by (simp_all add: open_post_def)
  then have "sc_pagesize sc = pg" "sm_nobj sc = 0" "sm_balloc sc = 0" "sm_bfree sc = 0" by (simp_all add: steady_def smf_init_def)
  then have "smf_inv (sc\<lparr>sm_bfree := sm_bfree sc + word_of_nat (sc_filesize sc)\<rparr>)"
    using e(3) assms(1,2) by (auto simp: smf_inv_def ranges_inv_def e(1) in_use_def bytes_sum_def storages_ok_def)
  then show ?thesis using c smf_init_inv(2) by (simp add: open_post_def pi) (simp add: steady_def smf_init_def)
qed

section \<open>Requests\<close>

lemma held_ok: "storages_ok fd h \<Longrightarrow> h p = Some x \<Longrightarrow> storage_ok fd x"
  unfolding storages_ok_def by blast

datatype smf_op = Smf_alloc u64 smfp | Smf_trim smfp u64 smfp | Smf_free smfp

fun smf_exec :: "smf_op \<Rightarrow> smf_sc \<Rightarrow> smf_sc option" where
  "smf_exec (Smf_alloc sz new) sc = map_option snd (smf_alloc sc sz new)"
| "smf_exec (Smf_trim p sz new) sc = smf_trim sc p sz new"
| "smf_exec (Smf_free p) sc = smf_free sc p"

text \<open>
  What the callers must keep to: sizes that still fit 32 bits when rounded up to a page, storage that they have, trimmed to at
  most its space; and \<open>malloc\<close> gives memory that is not in use.
\<close>

fun smf_allowed :: "smf_sc \<Rightarrow> smf_op \<Rightarrow> bool" where
  "smf_allowed sc (Smf_alloc sz new) \<longleftrightarrow> 0 < sz \<and> unat sz \<le> 2 ^ 32 - page sc \<and> sc_mem sc new = None"
| "smf_allowed sc (Smf_trim p sz new) \<longleftrightarrow> 0 < sz \<and> unat sz \<le> 2 ^ 32 - page sc \<and> sc_mem sc new = None \<and>
     (case held sc p of None \<Rightarrow> False | Some (r, st) \<Rightarrow> unat sz \<le> unat (st_space st))"
| "smf_allowed sc (Smf_free p) \<longleftrightarrow> held sc p \<noteq> None"

inductive smf_reach :: "smf_sc \<Rightarrow> smf_sc \<Rightarrow> bool" for sc0 where
  start: "smf_reach sc0 sc0"
| step: "smf_reach sc0 sc \<Longrightarrow> smf_allowed sc op \<Longrightarrow> smf_exec op sc = Some sc' \<Longrightarrow> smf_reach sc0 sc'"

lemma smf_exec_ok:
  assumes "smf_inv sc" "smf_allowed sc op"
  shows "\<exists>sc'. smf_exec op sc = Some sc' \<and> smf_inv sc' \<and> space sc' = space sc \<and> sc_pagesize sc' = sc_pagesize sc"
proof (cases op)
  case (Smf_alloc sz new)
  then show ?thesis using smf_alloc_step [OF assms(1), of sz new] assms by auto
next
  case (Smf_trim p sz new)
  obtain ptr n f st where h: "held sc p = Some ((ptr, n, f), st)" "unat sz \<le> unat (st_space st)" using assms(2) Smf_trim by (auto split: option.splits)
  then have "storage_ok (sc_fd sc) ((ptr, n, f), st)" using held_ok [OF smf_invD(5) [OF assms(1)]] by blast
  then have "unat sz \<le> n" using h by simp
  from smf_trim_step [OF assms(1) h(1) _ this, of new] show ?thesis using assms(2) Smf_trim by auto
next
  case (Smf_free p)
  then show ?thesis using smf_free_step [OF assms(1), of p] assms(2) by auto
qed

lemma smf_reach_inv: "smf_reach sc0 sc \<Longrightarrow> smf_inv sc0 \<Longrightarrow> smf_inv sc \<and> space sc = space sc0 \<and> sc_pagesize sc = sc_pagesize sc0"
proof (induction rule: smf_reach.induct)
  case (step sc op sc')
  then show ?case using smf_exec_ok [of sc op] by auto
qed simp


section \<open>Free space\<close>

definition used_bytes :: "smf_sc \<Rightarrow> (nat \<times> nat) set" where
  "used_bytes sc = (\<Union>(r, st) \<in> ran (held sc). bytes_of r)"

definition free_bytes :: "smf_sc \<Rightarrow> (nat \<times> nat) set" where
  "free_bytes sc = space sc - used_bytes sc"

lemma space_mem: "order_ok sc \<Longrightarrow> x \<in> space sc \<Longrightarrow> \<exists>q s. sc_mem sc q = Some s \<and> x \<in> bytes_of (rng s)"
  using order_okD(2) [of sc] by (fastforce simp: space_def cover_def blocks_def)

lemma ranges_disjoint:
  assumes "order_ok sc" "sc_mem sc p = Some s" "sc_mem sc q = Some t" "p \<noteq> q" "(a, b) \<in> bytes_of (rng s)"
  shows "(a, b') \<notin> bytes_of (rng t)" "(a', b) \<notin> bytes_of (rng t)"
  using ranges_apart [OF assms(1-4)] assms(5) by (auto simp: rng_def in_bytes)

lemma free_mem:
  assumes "order_ok sc" "x \<in> free_bytes sc"
  shows "\<exists>q s. sc_mem sc q = Some s \<and> \<not> sf_alloc s \<and> x \<in> bytes_of (rng s)"
proof -
  obtain q s where q: "sc_mem sc q = Some s" "x \<in> bytes_of (rng s)" using space_mem [OF assms(1), of x] assms(2) unfolding free_bytes_def by blast
  have "\<not> sf_alloc s"
  proof
    assume "sf_alloc s"
    then have "held sc q = Some (rng s, sf_s s)" using q(1) by (simp add: held_def)
    then have "x \<in> used_bytes sc" using q(2) unfolding used_bytes_def by (intro UN_I [OF ranI]) auto
    then show False using assms(2) by (simp add: free_bytes_def)
  qed
  then show ?thesis using q by blast
qed

text \<open>Free ranges are maximal: two that meet would have been joined.\<close>

lemma free_ranges_apart:
  assumes "order_ok sc" "coalesced (blocks sc)" "sc_mem sc p = Some s" "\<not> sf_alloc s" "sc_mem sc q = Some t" "\<not> sf_alloc t"
  shows "\<not> adj (rng s) (rng t)"
proof
  assume adj: "adj (rng s) (rng t)"
  obtain us vs where o: "sc_order sc = us @ p # vs" using order_split [OF assms(1,3)] by blast
  have sz: "0 < sf_size s" "0 < sf_size t" using range_size(1) [OF assms(1)] assms(3,5) by auto
  have "p \<noteq> q" using adj sz assms(3,5) by (auto simp: rng_def)
  moreover have "q \<in> set (sc_order sc)" using order_okD(2) [OF assms(1)] assms(5) by auto
  moreover have S: "sorted_wrt apart (map fst (blocks sc))" using order_okD(3) [OF assms(1)] by (simp add: ranges_ok_def)
  then have "q \<notin> set us" using adj sz assms(3,5) unfolding blocks_def o by (force simp: sorted_wrt_append rng_def)
  ultimately have "q \<in> set vs" by (auto simp: o)
  then obtain w ws where vs: "vs = w # ws" by (cases vs) auto
  obtain x where w: "sc_mem sc w = Some x" using order_okD(2) [OF assms(1)] o vs by auto
  show False
  proof (cases "w = q")
    case True
    then show ?thesis using assms(2-6) adj vs unfolding blocks_def o by (auto simp: coalesced_simps)
  next
    case False
    then have "q \<in> set ws" using \<open>q \<in> set vs\<close> vs by simp
    then have "apart (rng s) (rng x)" "apart (rng x) (rng t)" using S w assms(3,5) unfolding blocks_def o vs by (auto simp: sorted_wrt_append)
    then show ?thesis using adj range_size(1) [OF assms(1) w] by (auto simp: rng_def)
  qed
qed

lemma free_region:
  assumes "order_ok sc" "coalesced (blocks sc)" "0 < n" "bytes_of (a, n, b) \<subseteq> free_bytes sc"
  shows "\<exists>q s. sc_mem sc q = Some s \<and> \<not> sf_alloc s \<and> bytes_of (a, n, b) \<subseteq> bytes_of (rng s)"
  using assms(3,4)
proof (induction n)
  case (Suc n)
  have cut: "bytes_of (a, Suc n, b) = bytes_of (a, n, b) \<union> {(a + n, b + n)}" by (auto simp: in_bytes)
  obtain q2 t where t: "sc_mem sc q2 = Some t" "\<not> sf_alloc t" "(a + n, b + n) \<in> bytes_of (rng t)"
    using free_mem [OF assms(1), of "(a + n, b + n)"] Suc(3) cut by auto
  show ?case
  proof (cases "n = 0")
    case True
    then show ?thesis using t cut by (intro exI [of _ q2] exI [of _ t]) (auto simp: in_bytes)
  next
    case False
    then obtain q s where s: "sc_mem sc q = Some s" "\<not> sf_alloc s" "bytes_of (a, n, b) \<subseteq> bytes_of (rng s)" using Suc cut by auto
    have "(a + (n - 1), b + (n - 1)) \<in> bytes_of (a, n, b)" "(a, b) \<in> bytes_of (a, n, b)" using False by (auto simp: in_bytes)
    then have last: "(a + (n - 1), b + (n - 1)) \<in> bytes_of (rng s)" "(a, b) \<in> bytes_of (rng s)" using s(3) by blast+
    show ?thesis
    proof (cases "q = q2")
      case True
      then show ?thesis using s t cut by (intro exI [of _ q] exI [of _ s]) auto
    next
      case ne: False
      have "(a + n, b + n) \<notin> bytes_of (rng s)" using ranges_disjoint(1) [OF assms(1) t(1) s(1) _ t(3)] ne by auto
      then have "adj (rng s) (rng t)" using last t(3) False ranges_apart [OF assms(1) s(1) t(1) ne] by (auto simp: rng_def in_bytes)
      then show ?thesis using free_ranges_apart [OF assms(1,2) s(1,2) t(1,2)] by simp
    qed
  qed
qed simp


section \<open>What the storage promises\<close>

lemma used_bytes_add: "held sc p = None \<Longrightarrow> held sc' = (held sc)(p \<mapsto> (r, st)) \<Longrightarrow> used_bytes sc' = used_bytes sc \<union> bytes_of r"
  unfolding used_bytes_def by (simp only: ran_map_upd) auto

lemma held_bytes_unused:
  assumes "order_ok sc" "held sc p = Some (r, st)" "x \<in> bytes_of r" "q \<noteq> p" "held sc q = Some (r', st')"
  shows "x \<notin> bytes_of r'"
proof -
  obtain s t where "sc_mem sc p = Some s" "rng s = r" "sc_mem sc q = Some t" "rng t = r'" using assms(2,5) by (auto simp: held_mem)
  then show ?thesis using ranges_disjoint(1) [OF assms(1), of p s q t "fst x" "snd x"] assms(3,4) by (cases x) auto
qed




text \<open>
  C17 (functional).  Storage that is freed, or the tail of storage that is trimmed, becomes free space: exactly these bytes, and no other
  storage is touched.
\<close>
theorem smf_return_correct:
  assumes "smf_inv sc" "held sc p = Some ((ptr, n, off), st)" "0 < sz" "unat sz \<le> n" "unat sz \<le> 2 ^ 32 - page sc" "sc_mem sc new = None"
  defines "n' \<equiv> unat (round_page (sc_pagesize sc) sz)"
  shows "(\<exists>sc'. smf_free sc p = Some sc' \<and> smf_inv sc' \<and> held sc' = (held sc)(p := None) \<and> free_bytes sc' = free_bytes sc \<union> bytes_of (ptr, n, off)) \<and>
    (\<exists>sc' w. smf_trim sc p sz new = Some sc' \<and> smf_inv sc' \<and> unat w = n' \<and> held sc' = (held sc)(p \<mapsto> ((ptr, n', off), st\<lparr>st_space := w\<rparr>)) \<and>
       free_bytes sc' = free_bytes sc \<union> bytes_of (ptr + n', n - n', off + n'))"
proof
  note I = smf_invD [OF assms(1)]
  let ?h = "(held sc)(p := None)"
  have sp: "bytes_of (ptr, n, off) \<subseteq> space sc" using bytes_space [OF I(2)] assms(2) by (metis held_mem)
  have un: "x \<notin> bytes_of r" if a: "x \<in> bytes_of (ptr, n, off)" "(r, st') \<in> ran ?h" for x r st'
  proof -
    obtain q where "q \<noteq> p" "held sc q = Some (r, st')" using a(2) by (auto simp: ran_def split: if_splits)
    then show ?thesis by (rule held_bytes_unused [OF I(2) assms(2) a(1)])
  qed
  have used: "used_bytes sc = (\<Union>(r, st) \<in> ran ?h. bytes_of r) \<union> bytes_of (ptr, n, off)"
  proof -
    have "held sc = ?h(p \<mapsto> ((ptr, n, off), st))" using assms(2) by (simp add: fun_upd_idem)
    moreover have "?h p = None" by simp
    ultimately have "ran (held sc) = insert ((ptr, n, off), st) (ran ?h)" by (metis ran_map_upd)
    then show ?thesis unfolding used_bytes_def by auto
  qed
  obtain sc' where f: "smf_free sc p = Some sc'" "smf_inv sc'" "held sc' = ?h" "space sc' = space sc" using smf_free_step [OF assms(1), of p] assms(2) by auto
  have "used_bytes sc' = (\<Union>(r, st) \<in> ran ?h. bytes_of r)" by (simp add: used_bytes_def f(3))
  then have "free_bytes sc' = free_bytes sc \<union> bytes_of (ptr, n, off)" using used sp un by (auto simp: free_bytes_def f(4))
  then show "\<exists>sc'. smf_free sc p = Some sc' \<and> smf_inv sc' \<and> held sc' = ?h \<and> free_bytes sc' = free_bytes sc \<union> bytes_of (ptr, n, off)"
    using f by blast
  let ?w = "ucast (round_page (sc_pagesize sc) sz) :: u32"
  obtain sc2 where t: "smf_trim sc p sz new = Some sc2" "smf_inv sc2" "space sc2 = space sc" "held sc2 = (held sc)(p \<mapsto> ((ptr, n', off), st\<lparr>st_space := ?w\<rparr>))"
    using smf_trim_step [OF assms(1-6)] unfolding n'_def by blast
  note I2 = smf_invD [OF t(2)]
  have h2: "held sc2 p = Some ((ptr, n', off), st\<lparr>st_space := ?w\<rparr>)" using t(4) by simp
  have w: "unat ?w = n'" using held_ok [OF I2(5) h2] by simp
  have "n' \<le> n" unfolding n'_def by (rule round_within [OF assms(1-5)])
  then have cut: "bytes_of (ptr, n, off) = bytes_of (ptr, n', off) \<union> bytes_of (ptr + n', n - n', off + n')" using bytes_cut [of ptr n' "n - n'" off] by simp
  have "held sc2 = ?h(p \<mapsto> ((ptr, n', off), st\<lparr>st_space := ?w\<rparr>))" using t(4) by simp
  moreover have "?h p = None" by simp
  ultimately have "ran (held sc2) = insert ((ptr, n', off), st\<lparr>st_space := ?w\<rparr>) (ran ?h)" by (metis ran_map_upd)
  then have "used_bytes sc2 = (\<Union>(r, st) \<in> ran ?h. bytes_of r) \<union> bytes_of (ptr, n', off)" unfolding used_bytes_def by auto
  then have "free_bytes sc2 = free_bytes sc \<union> bytes_of (ptr + n', n - n', off + n')"
  proof -
    have "bytes_of (ptr, n', off) \<inter> bytes_of (ptr + n', n - n', off + n') = {}" by (auto simp: in_bytes)
    moreover have "(\<Union>(r, st) \<in> ran ?h. bytes_of r) \<inter> bytes_of (ptr, n, off) = {}" using un by auto
    moreover have "S - (U \<union> b1) = S - (U \<union> b) \<union> b2" if "b1 \<inter> b2 = {}" "U \<inter> b = {}" "b = b1 \<union> b2" "b \<subseteq> S" for S U b b1 b2 :: "(nat \<times> nat) set"
      using that by blast
    ultimately show ?thesis using cut sp unfolding free_bytes_def t(3) used \<open>used_bytes sc2 = _\<close> by metis
  qed
  then show "\<exists>sc' w. smf_trim sc p sz new = Some sc' \<and> smf_inv sc' \<and> unat w = n' \<and> held sc' = (held sc)(p \<mapsto> ((ptr, n', off), st\<lparr>st_space := w\<rparr>)) \<and>
       free_bytes sc' = free_bytes sc \<union> bytes_of (ptr + n', n - n', off + n')" using t w by blast
qed


lemma ranges_unique:
  assumes "ranges_ok pg xs" "ranges_ok pg ys" "set xs = set ys"
  shows "xs = ys"
proof -
  have s: "sorted_wrt (<) (map fst zs)" if "ranges_ok pg zs" for zs
  proof -
    have "sorted_wrt apart zs" "\<forall>r \<in> set zs. 0 < fst (snd r)" using that by (auto simp: ranges_ok_def size_ok_def)
    moreover have "fst x < fst y" if "apart x y" "0 < fst (snd x)" for x y using that by (cases x; cases y) simp
    ultimately have "sorted_wrt (\<lambda>x y. fst x < fst y) zs" by (metis (no_types, lifting) sorted_wrt_mono_rel)
    then show ?thesis by (simp add: sorted_wrt_map)
  qed
  have "map fst xs = map fst ys" using strict_sorted_equal [OF s [OF assms(1)] s [OF assms(2)]] assms(3) by simp
  moreover have "inj_on fst (set xs \<union> set ys)"
    using s [OF assms(1)] assms(3) distinct_map [of fst xs] by (simp add: strict_sorted_iff)
  ultimately show ?thesis by (rule map_inj_on)
qed

lemma bytes_eq: "0 < n \<Longrightarrow> 0 < n' \<Longrightarrow> bytes_of (p, n, f) = bytes_of (p', n', f') \<Longrightarrow> (p, n, f) = (p', n', f')"
proof -
  assume n: "0 < n" "0 < n'" and e: "bytes_of (p, n, f) = bytes_of (p', n', f')"
  have "(p, f) \<in> bytes_of (p, n, f)" "(p + (n - 1), f + (n - 1)) \<in> bytes_of (p, n, f)"
    "(p', f') \<in> bytes_of (p', n', f')" "(p' + (n' - 1), f' + (n' - 1)) \<in> bytes_of (p', n', f')" using n by (auto simp: in_bytes)
  note this(1,2) [unfolded e] this(3,4) [folded e]
  then show ?thesis using n by (auto simp: in_bytes)
qed

lemma all_free_ranges:
  assumes "smf_inv sc" "smf_inv sc'" "held sc = Map.empty" "held sc' = Map.empty" "space sc = space sc'" "r \<in> set (map fst (blocks sc))"
  shows "r \<in> set (map fst (blocks sc'))"
proof -
  have fb: "free_bytes x = space x" if "held x = Map.empty" for x using that by (simp add: free_bytes_def used_bytes_def)
  have mem: "\<exists>q s. sc_mem x q = Some s \<and> \<not> sf_alloc s \<and> bytes_of r' \<subseteq> bytes_of (rng s)"
    if "smf_inv x" "held x = Map.empty" "bytes_of r' \<subseteq> space x" "0 < fst (snd r')" for x r'
    using free_region [OF smf_invD(2,3) [OF that(1)], of "fst (snd r')" "fst r'" "snd (snd r')"] that(3,4) by (simp add: fb [OF that(2)])
  have inb: "rng s \<in> set (map fst (blocks x))" "bytes_of (rng s) \<subseteq> space x" "0 < fst (snd (rng s))" if "smf_inv x" "sc_mem x q = Some s" for x q s
    using that order_okD(2) [OF smf_invD(2) [OF that(1)]] range_size(1) [OF smf_invD(2) [OF that(1)] that(2)] bytes_space [OF smf_invD(2) [OF that(1)] that(2)]
    by (auto simp: blocks_def rng_def) (force simp: image_iff dom_def)
  obtain q s where s: "sc_mem sc q = Some s" "r = rng s" using assms(6) order_okD(2) [OF smf_invD(2) [OF assms(1)]] by (auto simp: blocks_def dom_def set_eq_iff)
  obtain q' t where t: "sc_mem sc' q' = Some t" "bytes_of r \<subseteq> bytes_of (rng t)"
    using mem [OF assms(2,4), of r] inb(2,3) [OF assms(1) s(1)] s(2) assms(5) by auto
  obtain q2 u where u: "sc_mem sc q2 = Some u" "bytes_of (rng t) \<subseteq> bytes_of (rng u)"
    using mem [OF assms(1,3), of "rng t"] inb(2,3) [OF assms(2) t(1)] assms(5) by auto
  have pos: "0 < fst (snd r)" using inb(3) [OF assms(1) s(1)] s(2) by simp
  then have "(fst r, snd (snd r)) \<in> bytes_of r" by (cases r) (simp add: in_bytes)
  then have "q = q2" using ranges_disjoint(1) [OF smf_invD(2) [OF assms(1)] s(1) u(1)] t(2) u(2) s(2) by blast
  then have "bytes_of r = bytes_of (rng t)" using t(2) u s by auto
  then have "r = rng t" using bytes_eq pos inb(3) [OF assms(2) t(1)] by (cases r; cases "rng t") auto
  then show ?thesis using inb(1) [OF assms(2) t(1)] by simp
qed

text \<open>
  C18 (roundtrip).  Once everything that was handed out has been given back, the free ranges are those the storage had after opening the
  file: nothing is lost and nothing stays cut into pieces.
\<close>
theorem smf_all_free:
  assumes "smf_inv sc0" "held sc0 = Map.empty" "smf_reach sc0 sc" "held sc = Map.empty"
  shows "map fst (blocks sc) = map fst (blocks sc0) \<and> sm_balloc sc = 0 \<and> sm_nobj sc = 0"
proof -
  have i: "smf_inv sc" "space sc = space sc0" "sc_pagesize sc = sc_pagesize sc0" using smf_reach_inv [OF assms(3,1)] by simp_all
  have "set (map fst (blocks sc)) = set (map fst (blocks sc0))"
    using all_free_ranges [OF i(1) assms(1,4,2) i(2)] all_free_ranges [OF assms(1) i(1) assms(2,4) i(2) [symmetric]] by blast
  moreover have "ranges_ok (page sc0) (map fst (blocks sc))" "ranges_ok (page sc0) (map fst (blocks sc0))"
    using order_okD(3) [OF smf_invD(2) [OF i(1)]] order_okD(3) [OF smf_invD(2) [OF assms(1)]] i(3) by simp_all
  ultimately have "map fst (blocks sc) = map fst (blocks sc0)" by (intro ranges_unique)
  then show ?thesis using i(1) assms(4) by (simp add: smf_inv_def in_use_def bytes_sum_def)
qed


text \<open>
  C28 (functional).  When \<open>mmap\<close> never fails, the whole file is mapped and free after opening it, in however many pieces.
\<close>
theorem smf_open_whole_file:
  assumes "pg = 2 ^ k" "k < 32" "fsz mod unat pg = 0" "unat pg * 64 \<le> fsz" "fsz < 2 ^ 63" "mmap_fresh mmap"
    "\<And>sc. set (sc_order sc) = dom (sc_mem sc) \<Longrightarrow> sc_mem sc (mal sc) = None"
    "\<forall>n f. mmap n f \<noteq> None" "unat pg * 128 \<le> 2 ^ 30" "128 * getpagesize \<le> fsz"
  shows "\<exists>sc. smf_open mmap mal getpagesize (smf_init fd pg fsz) = Some sc \<and> smf_inv sc \<and> held sc = Map.empty \<and>
    (\<forall>b. (\<exists>a. (a, b) \<in> free_bytes sc) \<longleftrightarrow> b < fsz)"
proof -
  obtain sc fail tot where o: "smf_open_chunk mmap mal (smf_init fd pg fsz) fsz 0 (2 ^ 30) 0 = Some (sc, fail, tot)"
    "smf_inv (sc\<lparr>sm_bfree := sm_bfree sc + word_of_nat (sc_filesize sc)\<rparr>)" "held sc = Map.empty" "\<forall>x \<in> space sc. mapped mmap fsz x"
    "tot = fsz" "\<forall>b < fsz. \<exists>a. (a, b) \<in> space sc"
    using smf_open_ok [OF assms(1-7), of fd] assms(8,9) by blast
  have "sc_filesize (smf_init fd pg fsz) = fsz" by (simp add: smf_init_def)
  then have "smf_open mmap mal getpagesize (smf_init fd pg fsz) = Some (sc\<lparr>sm_bfree := sm_bfree sc + word_of_nat (sc_filesize sc)\<rparr>)"
    using o(1,5) assms(10) by (simp add: smf_open_def MINPAGES_def)
  moreover have "b < fsz" if "(a, b) \<in> space sc" for a b using bspec [OF o(4) that] by (auto simp: mapped_def in_bytes)
  ultimately show ?thesis using o by (intro exI [of _ "sc\<lparr>sm_bfree := sm_bfree sc + word_of_nat (sc_filesize sc)\<rparr>"])
    (auto simp: free_bytes_def used_bytes_def)
qed

lemma bit_high:
  assumes "y < (2 ^ k :: nat)" "k \<le> m"
  shows "bit (2 ^ m + y) i \<longleftrightarrow> i = m \<or> bit y i"
proof -
  have yb: "\<not> bit y i" if "k \<le> i" for i using assms(1) that by (metis bit_take_bit_iff not_le take_bit_nat_eq_self)
  have "(2 ^ m :: nat) AND y = 0" using yb assms(2) by (intro bit_eqI) (auto simp: bit_simps)
  then show ?thesis by (simp add: disjunctive_add_eq_or bit_simps)
qed

lemma round_page_window:
  fixes sz :: u64
  assumes "pg = 2 ^ k" "k < 32" "2 ^ 32 - 2 ^ k < unat sz" "unat sz < 2 ^ 32"
  shows "round_page pg sz = 0"
proof -
  have pm: "pg - 1 = mask k" using assms(1) by (simp add: mask_eq_exp_minus_1)
  have k: "2 ^ k < (2 ^ 32 :: nat)" using power_strict_increasing [of k 32 "2 :: nat"] assms(2) by simp
  have mk: "mask k < (2 ^ 32 :: nat)" using k by (simp add: mask_eq_exp_minus_1)
  then have "unat (mask k :: u32) = 2 ^ k - 1" using unat_u32_of_nat [of "mask k"] by (simp add: of_nat_mask_eq) (simp add: mask_eq_exp_minus_1)
  then have u: "unat (ucast (mask k :: u32) :: u64) = 2 ^ k - 1" by (simp only: unat_ucast_u64)
  define y where "y = unat sz + (2 ^ k - 1) - 2 ^ 32"
  have y: "unat sz + (2 ^ k - 1) = 2 ^ 32 + y" "y < 2 ^ k" using assms(3,4) k by (simp_all add: y_def)
  have "sz + ucast (mask k :: u32) = word_of_nat (unat sz + unat (ucast (mask k :: u32) :: u64))" by simp
  then have x: "sz + ucast (mask k :: u32) = word_of_nat (2 ^ 32 + y)" by (simp only: u y)
  have yb: "\<not> bit y i" if "k \<le> i" for i
    using y(2) that by (metis bit_take_bit_iff not_le take_bit_nat_eq_self)
  have "bit (2 ^ 32 + y) i \<longleftrightarrow> i = 32 \<or> bit y i" for i
    using bit_high [OF y(2), of 32 i] assms(2) by simp
  then have z: "bit (word_of_nat (2 ^ 32 + y) :: u64) i \<longleftrightarrow> i < 64 \<and> (i = 32 \<or> bit y i)" for i
    by (simp only: bit_of_nat_iff possible_bit_word) simp
  define z where "z = (word_of_nat (2 ^ 32 + y) :: u64)"
  show ?thesis unfolding round_page_def pm x z_def [symmetric]
    by (intro bit_word_eqI) (auto simp: bit_simps z [folded z_def], meson not_le yb)
qed


text \<open>
  C32 (error).  The mask in \<open>smf_alloc\<close> has only 32 bits: a request for less than 4 GB whose size does not fit 32 bits after rounding up is
  answered with storage of no bytes at all, and freeing that storage fails an assertion.
\<close>
theorem smf_alloc_window:
  assumes "smf_inv sc" "2 ^ 32 - page sc < unat sz" "unat sz < 2 ^ 32" "sc_mem sc new = None" "free_bytes sc \<noteq> {}"
  shows "\<exists>p sc' s. smf_alloc sc sz new = Some (Some p, sc') \<and> sc_mem sc' p = Some s \<and> sf_size s = 0 \<and> st_space (sf_s s) = 0 \<and> smf_free sc' p = None"
proof -
  note I = smf_invD [OF assms(1)]
  obtain k where k: "sc_pagesize sc = 2 ^ k" "k < 32" using assms(1) by (auto simp: smf_inv_def)
  have pg: "page sc = 2 ^ k" using k unat_u32_of_nat [of "2 ^ k"] power_strict_increasing [of k 32 "2 :: nat"] by simp
  have r: "round_page (sc_pagesize sc) sz = 0" by (rule round_page_window [OF k]) (use assms(2,3) pg in simp_all)
  obtain q t where qt: "sc_mem sc q = Some t" "\<not> sf_alloc t" using free_mem [OF I(2)] assms(5) by blast
  obtain p s where p: "find_smf sc 0 = Some (Some p)" "sc_mem sc p = Some s" "\<not> sf_alloc s"
    using find_smf_ok [OF I(1), of 0] qt by auto
  have np: "new \<noteq> p" using p(2) assms(4) by auto
  obtain B where B: "remfree sc p = Some B" "lists_ok B {p}" "marked sc p None B" using remfree_ok [OF I(1) p(2,3)] by auto
  note m = markedD [OF B(3) p(2)]
  let ?s = "s\<lparr>sf_flist := None\<rparr>" let ?n = "?s\<lparr>sf_size := 0, sf_alloc := True\<rparr>"
  let ?C = "(set_smf new ?n (set_smf p ?s B))\<lparr>sc_order := put_before p new (sc_order sc), sc_used := sc_used sc @ [new]\<rparr>"
  have "lists_ok (set_smf p ?s B) {p}" using lists_float [OF B(2), of p ?s] by simp
  then have "lists_ok (set_smf new ?n (set_smf p ?s B)) {new, p}" using lists_float [of "set_smf p ?s B" "{p}" new ?n] assms(4) np by (simp add: m)
  then have "lists_ok ((set_smf new ?n (set_smf p ?s B))\<lparr>sc_used := sc_used sc @ [new]\<rparr>) ({new, p} - {new})"
    by (rule lists_use [where s = ?n]) (use lists_okD(2,3) [OF I(1)] assms(4) in \<open>simp_all add: m\<close>)
  then have C: "lists_ok ?C {p}" using np by (simp add: insert_Diff_if)
  have Cp: "sc_mem ?C p = Some ?s" using np by simp
  have "sf_offset t \<noteq> sf_offset ?s" if "sc_mem ?C q = Some t" "\<not> sf_alloc t" "q \<noteq> p" for q t
    using that offsets_distinct [OF I(2) p(2), of q t] by (auto simp: m split: if_splits)
  then obtain E where E: "insfree ?C p = Some E" "marked ?C p (Some (bucket ?C ?s)) E"
    using insfree_ok [OF C Cp _ singletonI] p(3) by fastforce
  note mE = markedD [OF E(2) Cp]
  have En: "sc_mem E new = Some ?n" using np by (simp add: mE)
  have ns: "s\<lparr>sf_flist := None, sf_offset := sf_offset s, sf_ptr := sf_ptr s, sf_size := sf_size s\<rparr> = ?s" by simp
  have a: "alloc_smf sc 0 new = Some (Some new, E)"
    using p B(1) E(1) range_size(1) [OF I(2) p(2)] by (simp add: alloc_smf_def m Let_def ns)
  have "0 < sz" using assms(2,3) by (auto simp: word_gt_0 simp flip: unat_gt_0)
  then show ?thesis using a En r by (auto simp: smf_alloc_def Let_def smf_free_def free_smf_def)
qed


section \<open>An example\<close>

text \<open>A file of 128 pages, storage of 5000 bytes from it, and that given back.\<close>

definition ex_mmap :: "nat \<Rightarrow> nat \<Rightarrow> nat option" where "ex_mmap n f = Some (2 ^ 20 + f)"
definition ex_mal :: "smf_sc \<Rightarrow> smfp" where "ex_mal sc = Suc (Max (insert 0 (set (sc_order sc))))"
definition ex_sc0 :: smf_sc where "ex_sc0 = the (smf_open ex_mmap ex_mal 4096 (smf_init 3 4096 524288))"
definition ex_p :: smfp where "ex_p = the (fst (the (smf_alloc ex_sc0 5000 (ex_mal ex_sc0))))"
definition ex_sc1 :: smf_sc where "ex_sc1 = snd (the (smf_alloc ex_sc0 5000 (ex_mal ex_sc0)))"
definition ex_sc2 :: smf_sc where "ex_sc2 = the (smf_free ex_sc1 ex_p)"

lemma ex_new_fresh: "mmap_fresh ex_mmap" "set (sc_order sc) = dom (sc_mem sc) \<Longrightarrow> sc_mem sc (ex_mal sc) = None"
proof -
  show "mmap_fresh ex_mmap" by (simp add: mmap_fresh_def ex_mmap_def)
  assume d: "set (sc_order sc) = dom (sc_mem sc)"
  have "x \<le> Max (insert 0 (set (sc_order sc)))" if "x \<in> set (sc_order sc)" for x using that by (intro Max_ge) auto
  then have "ex_mal sc \<notin> set (sc_order sc)" unfolding ex_mal_def by (meson Suc_n_not_le_n)
  then show "sc_mem sc (ex_mal sc) = None" using d by (simp add: domIff)
qed

lemma ex_page: "(4096 :: u32) = 2 ^ 12" "unat (4096 :: u32) = 4096"
  by simp_all

lemma ex_open: "smf_open ex_mmap ex_mal 4096 (smf_init 3 4096 524288) = Some ex_sc0" "smf_inv ex_sc0" "held ex_sc0 = Map.empty"
  "sc_pagesize ex_sc0 = 4096" "free_bytes ex_sc0 = {(2 ^ 20 + b, b) |b. b < 524288}" "sc_mem ex_sc0 (ex_mal ex_sc0) = None"
proof -
  obtain sc fail tot where o: "smf_open_chunk ex_mmap ex_mal (smf_init 3 4096 524288) 524288 0 (2 ^ 30) 0 = Some (sc, fail, tot)"
    "smf_inv (sc\<lparr>sm_bfree := sm_bfree sc + word_of_nat (sc_filesize sc)\<rparr>)" "held sc = Map.empty" "sc_pagesize sc = 4096" "tot = 524288"
    "\<forall>b < 524288. \<exists>a. (a, b) \<in> space sc" "\<forall>x \<in> space sc. mapped ex_mmap 524288 x"
    using smf_open_ok [OF ex_page(1) _ _ _ _ ex_new_fresh, of 524288 3] unfolding ex_page(2) by (auto simp: ex_mmap_def)
  have "smf_open ex_mmap ex_mal 4096 (smf_init 3 4096 524288) = Some (sc\<lparr>sm_bfree := sm_bfree sc + word_of_nat (sc_filesize sc)\<rparr>)"
    using o(1,5) by (simp add: smf_open_def MINPAGES_def smf_init_def)
  then have e: "ex_sc0 = sc\<lparr>sm_bfree := sm_bfree sc + word_of_nat (sc_filesize sc)\<rparr>"
    and "smf_open ex_mmap ex_mal 4096 (smf_init 3 4096 524288) = Some ex_sc0" by (simp_all add: ex_sc0_def)
  then show "smf_open ex_mmap ex_mal 4096 (smf_init 3 4096 524288) = Some ex_sc0" and i: "smf_inv ex_sc0" and h: "held ex_sc0 = Map.empty" and "sc_pagesize ex_sc0 = 4096"
    using o(2-4) by (simp_all add: e)
  have s: "space ex_sc0 = space sc" by (simp add: e)
  show "sc_mem ex_sc0 (ex_mal ex_sc0) = None" by (rule ex_new_fresh(2) [OF order_okD(2) [OF smf_invD(2) [OF i]]])
  have m: "a = 2 ^ 20 + b \<and> b < 524288" if "(a, b) \<in> space sc" for a b using bspec [OF o(7) that] by (auto simp: mapped_def ex_mmap_def in_bytes)
  have "space sc = {(2 ^ 20 + b, b) |b. b < 524288}" using m o(6) by fastforce
  then show "free_bytes ex_sc0 = {(2 ^ 20 + b, b) |b. b < 524288}" by (simp add: free_bytes_def used_bytes_def h s)
qed

lemma ex_round: "unat (round_page (4096 :: u32) 5000) = 8192" "0 < (5000 :: u64)" "unat (5000 :: u64) \<le> 2 ^ 32 - page ex_sc0"
  by (simp_all add: round_page_def ex_open(4))

lemma ex_alloc: "smf_alloc ex_sc0 5000 (ex_mal ex_sc0) = Some (Some ex_p, ex_sc1)" "smf_inv ex_sc1" "\<exists>ptr off st. held ex_sc1 = [ex_p \<mapsto> ((ptr, 8192, off), st)]"
  "sc_pagesize ex_sc1 = 4096" "sc_mem ex_sc1 (ex_mal ex_sc1) = None"
proof -
  note I = smf_invD [OF ex_open(2)]
  have "bytes_of (2 ^ 20, 8192, 0) \<subseteq> free_bytes ex_sc0" unfolding ex_open(5) by (auto simp: in_bytes)
  then obtain q s where q: "sc_mem ex_sc0 q = Some s" "\<not> sf_alloc s" "bytes_of (2 ^ 20, 8192, 0) \<subseteq> bytes_of (rng s)" using free_region [OF I(2,3), of 8192 "2 ^ 20" 0] by auto
  have "(2 ^ 20, 0) \<in> bytes_of (2 ^ 20, 8192, 0)" "(2 ^ 20 + 8191, 8191) \<in> bytes_of (2 ^ 20, 8192, 0)" by (simp_all add: in_bytes)
  then have "(2 ^ 20, 0) \<in> bytes_of (rng s)" "(2 ^ 20 + 8191, 8191) \<in> bytes_of (rng s)" using q(3) by blast+
  then have "8192 \<le> sf_size s" by (simp add: in_bytes rng_def)
  then have "\<not> (\<forall>q s. sc_mem ex_sc0 q = Some s \<longrightarrow> \<not> sf_alloc s \<longrightarrow> sf_size s < 8192)" using q(1,2) by (meson not_less)
  then obtain p sc' ptr off st where a: "smf_alloc ex_sc0 5000 (ex_mal ex_sc0) = Some (Some p, sc')" "smf_inv sc'"
    "held sc' = (held ex_sc0)(p \<mapsto> ((ptr, 8192, off), st))" "sc_pagesize sc' = sc_pagesize ex_sc0"
    using smf_alloc_step [OF ex_open(2) ex_round(2,3) ex_open(6)] unfolding ex_open(4) ex_round(1) by blast
  then show "smf_alloc ex_sc0 5000 (ex_mal ex_sc0) = Some (Some ex_p, ex_sc1)" and i: "smf_inv ex_sc1" and "\<exists>ptr off st. held ex_sc1 = [ex_p \<mapsto> ((ptr, 8192, off), st)]"
    and "sc_pagesize ex_sc1 = 4096" by (auto simp: ex_p_def ex_sc1_def ex_open(3,4))
  show "sc_mem ex_sc1 (ex_mal ex_sc1) = None" by (rule ex_new_fresh(2) [OF order_okD(2) [OF smf_invD(2) [OF i]]])
qed

lemma ex_reach: "smf_reach ex_sc0 ex_sc1" "smf_reach ex_sc0 ex_sc2" "held ex_sc2 = Map.empty"
proof -
  show r: "smf_reach ex_sc0 ex_sc1"
    by (rule smf_reach.step [OF smf_reach.start, of _ "Smf_alloc 5000 (ex_mal ex_sc0)"]) (simp_all add: ex_open(4,6) ex_alloc(1))
  have h: "held ex_sc1 ex_p \<noteq> None" using ex_alloc(3) by auto
  obtain sc' where s: "smf_free ex_sc1 ex_p = Some sc'" "held sc' = (held ex_sc1)(ex_p := None)" using smf_free_step [OF ex_alloc(2) h] by blast
  then show "held ex_sc2 = Map.empty" using ex_alloc(3) by (auto simp: ex_sc2_def)
  show "smf_reach ex_sc0 ex_sc2"
    by (rule smf_reach.step [OF r, of "Smf_free ex_p"]) (use h s(1) in \<open>simp_all add: ex_sc2_def\<close>)
qed


theorem smf_return_correct_witness:
  "\<exists>ptr off. (\<exists>sc'. smf_free ex_sc1 ex_p = Some sc' \<and> free_bytes sc' = free_bytes ex_sc1 \<union> bytes_of (ptr, 8192, off)) \<and>
     (\<exists>sc'. smf_trim ex_sc1 ex_p 100 (ex_mal ex_sc1) = Some sc' \<and> free_bytes sc' = free_bytes ex_sc1 \<union> bytes_of (ptr + 4096, 4096, off + 4096))"
proof -
  obtain ptr off st where h: "held ex_sc1 = [ex_p \<mapsto> ((ptr, 8192, off), st)]" using ex_alloc(3) by blast
  then have h': "held ex_sc1 ex_p = Some ((ptr, 8192, off), st)" by simp
  have r: "unat (round_page (4096 :: u32) 100) = 4096" "0 < (100 :: u64)" "unat (100 :: u64) \<le> 8192" "unat (100 :: u64) \<le> 2 ^ 32 - page ex_sc1"
    by (simp_all add: round_page_def ex_alloc(4))
  have "(8192 :: nat) - 4096 = 4096" by simp
  then show ?thesis using smf_return_correct [OF ex_alloc(2) h' r(2-4) ex_alloc(5)] unfolding ex_alloc(4) r(1) by metis
qed


theorem smf_all_free_witness: "map fst (blocks ex_sc2) = map fst (blocks ex_sc0) \<and> sm_balloc ex_sc2 = 0"
  using smf_all_free [OF ex_open(2,3) ex_reach(2,3)] by simp

theorem smf_open_whole_file_witness:
  "\<exists>sc. smf_open ex_mmap ex_mal 4096 (smf_init 3 4096 524288) = Some sc \<and> (\<forall>b. (\<exists>a. (a, b) \<in> free_bytes sc) \<longleftrightarrow> b < 524288)"
proof -
  have n: "(12 :: nat) < 32" "524288 mod unat (4096 :: u32) = 0" "unat (4096 :: u32) * 64 \<le> 524288" "524288 < (2 ^ 63 :: nat)"
    "\<forall>n f. ex_mmap n f \<noteq> None" "unat (4096 :: u32) * 128 \<le> 2 ^ 30" "128 * 4096 \<le> (524288 :: nat)" by (simp_all add: ex_mmap_def)
  show ?thesis using smf_open_whole_file [OF ex_page(1) n(1-4) ex_new_fresh n(5-7)] by blast
qed

theorem smf_alloc_window_witness:
  "\<exists>p sc' s. smf_alloc ex_sc0 4294967295 (ex_mal ex_sc0) = Some (Some p, sc') \<and> sc_mem sc' p = Some s \<and> sf_size s = 0 \<and> smf_free sc' p = None"
proof -
  have "(2 ^ 20, 0) \<in> free_bytes ex_sc0" unfolding ex_open(5) by (intro CollectI exI [of _ 0]) simp
  then have "free_bytes ex_sc0 \<noteq> {}" by blast
  moreover have n: "2 ^ 32 - page ex_sc0 < unat (4294967295 :: u64)" "unat (4294967295 :: u64) < 2 ^ 32" by (simp_all add: ex_open(4))
  ultimately show ?thesis using smf_alloc_window [OF ex_open(2) n ex_open(6)] by blast
qed

end
