(* ===== verification/Spec2Isabelle.thy ===== *)
theory Spec2Isabelle
  imports Workspace Critbit Hash_Lists Binheap_Order Vary Rfc2616 Ban_Reload Hash_Run Center_Run Storage_Props
begin

text \<open>Verification library for Varnish.\<close>

end
